(* ===== verification/Prelude.thy ===== *)
theory Prelude
  imports Main "HOL-Library.Word" "HOL-Library.Signed_Division"
begin

text \<open>
  Shared vocabulary of the development: the C integer types, the outcome of running a piece of
  C code, checked array accesses, and the generic list and word facts the component theories use.

  \<^item> \<open>u8\<close>, \<open>u16\<close>, \<open>u32\<close> are C's unsigned types; \<open>i32\<close> is the
    two's complement \<open>int\<close> where its width matters, read with \<open>sint\<close>.
  \<^item> \<open>'a outcome\<close> is what a C function does: return a value, call the kernel's
    \<open>panic\<close>, or run into behaviour the C standard leaves undefined (an index out of
    bounds, a null or uninitialised pointer, a division by zero).
  \<^item> \<open>aget\<close> and \<open>aset\<close> are array read and write with the bounds made explicit.
\<close>

unbundle bit_operations_syntax

named_theorems outcome_simps \<open>evaluation of outcomes\<close>
named_theorems array_simps \<open>checked array accesses that are in range\<close>

type_synonym u8 = "8 word"
type_synonym u16 = "16 word"
type_synonym u32 = "32 word"
type_synonym i32 = "32 word"

section \<open>Outcomes\<close>

datatype 'a outcome = Ret 'a | Panic string | Undef string

definition bindO :: "'a outcome \<Rightarrow> ('a \<Rightarrow> 'b outcome) \<Rightarrow> 'b outcome" where
  "bindO m f = (case m of Ret x \<Rightarrow> f x | Panic s \<Rightarrow> Panic s | Undef s \<Rightarrow> Undef s)"

definition is_ret :: "'a outcome \<Rightarrow> bool" where
  "is_ret m = (case m of Ret _ \<Rightarrow> True | _ \<Rightarrow> False)"

lemma bindO_simps [simp, outcome_simps]:
  "bindO (Ret x) f = f x"
  "bindO (Panic s) f = Panic s"
  "bindO (Undef s) f = Undef s"
  by (simp_all add: bindO_def)

lemma is_ret_simps [simp, outcome_simps]:
  "is_ret (Ret x)" "\<not> is_ret (Panic s)" "\<not> is_ret (Undef s)"
  by (simp_all add: is_ret_def)

lemma bindO_eq_Ret_iff: "bindO m f = Ret y \<longleftrightarrow> (\<exists>x. m = Ret x \<and> f x = Ret y)"
  by (cases m) auto

lemma bindO_RetE [elim!]:
  assumes "bindO m f = Ret y"
  obtains x where "m = Ret x" and "f x = Ret y"
  using assms by (auto simp: bindO_eq_Ret_iff)

lemma bindO_cong [fundef_cong]:
  "m = m' \<Longrightarrow> (\<And>x. m' = Ret x \<Longrightarrow> f x = g x) \<Longrightarrow> bindO m f = bindO m' g"
  by (cases m') auto

lemma bindO_assoc: "bindO (bindO m f) g = bindO m (\<lambda>x. bindO (f x) g)"
  by (cases m) auto

lemma bindO_Ret_right [simp]: "bindO m Ret = m"
  by (cases m) auto

lemma is_ret_iff: "is_ret m \<longleftrightarrow> (\<exists>x. m = Ret x)"
  by (cases m) auto

section \<open>Signed integers\<close>

text \<open>The result of signed arithmetic: defined when it fits a 32-bit \<open>int\<close>.\<close>

definition cint :: "int \<Rightarrow> int outcome" where
  "cint x = (if -2147483648 \<le> x \<and> x < 2147483648 then Ret x else Undef ''signed overflow'')"

lemma cint_RetD: "cint x = Ret y \<Longrightarrow> y = x"
  by (simp add: cint_def split: if_splits)

section \<open>Checked arrays\<close>

text \<open>C arrays as lists; an access outside \<open>0 \<le> i < length xs\<close> is undefined.\<close>

definition aget :: "'a list \<Rightarrow> int \<Rightarrow> 'a outcome" where
  "aget xs i = (if 0 \<le> i \<and> i < int (length xs) then Ret (xs ! nat i) else Undef ''array read'')"

definition aset :: "'a list \<Rightarrow> int \<Rightarrow> 'a \<Rightarrow> 'a list outcome" where
  "aset xs i v = (if 0 \<le> i \<and> i < int (length xs) then Ret (xs[nat i := v]) else Undef ''array write'')"

lemma aget_in [array_simps]: "n < length xs \<Longrightarrow> aget xs (int n) = Ret (xs ! n)"
  by (simp add: aget_def)

lemma aset_in [array_simps]: "n < length xs \<Longrightarrow> aset xs (int n) v = Ret (xs[n := v])"
  by (simp add: aset_def)

lemma aget_uint [array_simps]: "unat i < length xs \<Longrightarrow> aget xs (uint i) = Ret (xs ! unat i)"
  using aget_in[of "unat i" xs] by simp

lemma aset_uint [array_simps]: "unat i < length xs \<Longrightarrow> aset xs (uint i) v = Ret (xs[unat i := v])"
  using aset_in[of "unat i" xs v] by simp

lemma aget_RetD: "aget xs i = Ret v \<Longrightarrow> 0 \<le> i \<and> i < int (length xs) \<and> v = xs ! nat i"
  by (simp add: aget_def split: if_splits)

lemma aset_RetD: "aset xs i v = Ret ys \<Longrightarrow> 0 \<le> i \<and> i < int (length xs) \<and> ys = xs[nat i := v]"
  by (simp add: aset_def split: if_splits)

lemma nth_list_update_if:
  "xs[i := v] ! j = (if i = j \<and> j < length xs then v else xs ! j)"
  by (cases "i < length xs") (auto simp: nth_list_update list_update_beyond)

section \<open>Searching a table\<close>

text \<open>
  The first index of a table whose entry satisfies a predicate: the shape of every
  \<open>for(p = tab; p < &tab[N]; p++) if(...) ...\<close> loop of the kernel.
\<close>

fun find_index_from :: "nat \<Rightarrow> ('a \<Rightarrow> bool) \<Rightarrow> 'a list \<Rightarrow> nat option" where
  "find_index_from n P [] = None"
| "find_index_from n P (x # xs) = (if P x then Some n else find_index_from (Suc n) P xs)"

definition find_index :: "('a \<Rightarrow> bool) \<Rightarrow> 'a list \<Rightarrow> nat option" where
  "find_index P xs = find_index_from 0 P xs"

lemma find_index_from_Some_iff:
  "find_index_from n P xs = Some i \<longleftrightarrow>
     n \<le> i \<and> i < n + length xs \<and> P (xs ! (i - n)) \<and> (\<forall>j. n \<le> j \<and> j < i \<longrightarrow> \<not> P (xs ! (j - n)))"
proof (induction xs arbitrary: n)
  case Nil
  then show ?case by auto
next
  case (Cons x xs)
  have nth_shift: "(x # xs) ! (j - n) = xs ! (j - Suc n)" if "Suc n \<le> j" for j
    using that by (simp add: nth_Cons')
  show ?case
  proof (cases "P x")
    case True
    then show ?thesis by (auto simp: nth_Cons' dest: spec[of _ n])
  next
    case False
    have "(\<forall>j. n \<le> j \<and> j < i \<longrightarrow> \<not> P ((x # xs) ! (j - n))) \<longleftrightarrow>
          (\<forall>j. Suc n \<le> j \<and> j < i \<longrightarrow> \<not> P (xs ! (j - Suc n)))" if "Suc n \<le> i"
      using False nth_shift by (metis Suc_leI diff_self_eq_0 le_neq_implies_less nth_Cons_0 Suc_leD)
    moreover have "i = n \<Longrightarrow> \<not> P ((x # xs) ! (i - n))" using False by simp
    ultimately show ?thesis
      using False Cons.IH[of "Suc n"] nth_shift by (auto simp: Suc_le_eq le_less)
  qed
qed

lemma find_index_Some_iff:
  "find_index P xs = Some i \<longleftrightarrow> i < length xs \<and> P (xs ! i) \<and> (\<forall>j<i. \<not> P (xs ! j))"
  by (auto simp: find_index_def find_index_from_Some_iff)

lemma find_index_from_None_iff: "find_index_from n P xs = None \<longleftrightarrow> (\<forall>x\<in>set xs. \<not> P x)"
  by (induction xs arbitrary: n) auto

lemma find_index_None_iff: "find_index P xs = None \<longleftrightarrow> (\<forall>x\<in>set xs. \<not> P x)"
  by (simp add: find_index_def find_index_from_None_iff)

lemma find_index_SomeD:
  "find_index P xs = Some i \<Longrightarrow> i < length xs"
  "find_index P xs = Some i \<Longrightarrow> P (xs ! i)"
  by (simp_all add: find_index_Some_iff)

section \<open>Truncating division on non-negative operands\<close>

lemma sdiv_int_nat: "int a sdiv int b = int (a div b)"
  by (cases "a = 0"; cases "b = 0") (simp_all add: signed_divide_int_def zdiv_int sgn_if)

lemma smod_int_nat: "int a smod int b = int (a mod b)"
  by (cases "a = 0") (simp_all add: signed_modulo_int_def zmod_int)

section \<open>Words\<close>

lemma unat_lt_u32: "unat (x::u32) < 4294967296"
  using unsigned_less[of x] by simp

lemma unat_of_nat_u32 [simp]: "k < 4294967296 \<Longrightarrow> unat (of_nat k :: u32) = k"
  by (simp add: unat_of_nat)

lemma mod_shift_neq: "(k::nat) < n \<Longrightarrow> n - k < N \<Longrightarrow> (a + k) mod N \<noteq> (a + n) mod N"
  by (metis add_diff_cancel_left add_le_cancel_left less_imp_le mod_eq_dvd_iff_nat nat_dvd_not_less
      zero_less_diff)

lemma u32_plus_1: "unat (x::u32) < 4294967295 \<Longrightarrow> unat (x + 1) = unat x + 1"
  by (simp add: unat_word_ariths)

text \<open>The 32-bit little-endian word at the start of four bytes, as x86 loads it.\<close>

definition le32 :: "u8 \<Rightarrow> u8 \<Rightarrow> u8 \<Rightarrow> u8 \<Rightarrow> u32" where
  "le32 b0 b1 b2 b3 =
     of_nat (unat b0 + 256 * unat b1 + 65536 * unat b2 + 16777216 * unat b3)"

text \<open>Little-endian fields of a block of bytes.\<close>

definition get16 :: "u8 list \<Rightarrow> nat \<Rightarrow> u16" where
  "get16 bs k = of_nat (unat (bs ! k) + 256 * unat (bs ! (k + 1)))"

definition get32 :: "u8 list \<Rightarrow> nat \<Rightarrow> u32" where
  "get32 bs k = le32 (bs ! k) (bs ! (k + 1)) (bs ! (k + 2)) (bs ! (k + 3))"

lemma unat_minus_u32: "(y::u32) \<le> x \<Longrightarrow> unat (x - y) = unat x - unat y"
  by (simp add: unat_sub)

lemma digits_256:
  assumes "(n::nat) < 4294967296"
  shows "n mod 256 + 256 * (n div 256 mod 256) + 65536 * (n div 65536 mod 256)
           + 16777216 * (n div 16777216 mod 256) = n"
proof -
  have q: "n div 65536 = n div 256 div 256" "n div 16777216 = n div 256 div 256 div 256"
    by (simp_all flip: div_mult2_eq)
  have "n div 256 div 256 div 256 < 256" using assms by (simp add: less_mult_imp_div_less)
  moreover have "n div 256 * 256 + n mod 256 = n"
    "n div 256 div 256 * 256 + n div 256 mod 256 = n div 256"
    "n div 256 div 256 div 256 * 256 + n div 256 div 256 mod 256 = n div 256 div 256"
    by (rule div_mult_mod_eq)+
  ultimately show ?thesis unfolding q by (simp only: mod_less)
qed

definition PGSIZE :: u32 where
  "PGSIZE = 4096"

text \<open>Open files of a process.\<close>

definition NOFILE :: nat where
  "NOFILE = 16"

text \<open>Rounding to pages with the mask \<open>~(PGSIZE-1)\<close>.\<close>

lemma page_mask: "unat ((x::u32) AND NOT 4095) = unat x div 4096 * 4096"
proof -
  have m: "(4095::u32) = mask 12" by (simp add: mask_eq_exp_minus_1)
  have "(x AND NOT (mask 12)) = push_bit 12 (drop_bit 12 x)"
    by (rule bit_word_eqI) (auto simp: bit_simps)
  then have "x AND NOT 4095 = (x div 4096) * 4096"
    unfolding m by (simp add: push_bit_eq_mult drop_bit_eq_div)
  moreover have "unat x div 4096 * 4096 < 4294967296"
    using unat_lt_u32[of x] div_times_less_eq_dividend[of "unat x" 4096] by linarith
  ultimately show ?thesis by (simp add: unat_word_ariths unat_div)
qed

lemma page_mask_mod: "unat ((x::u32) AND 4095) = unat x mod 4096"
proof -
  have m: "(4095::u32) = mask 12" by (simp add: mask_eq_exp_minus_1)
  show ?thesis unfolding m by (simp add: take_bit_eq_mod unat_mod flip: take_bit_eq_mask)
qed

lemma roundup_nat:
 "(n::nat) \<le> (n + 4095) div 4096 * 4096" "(n + 4095) div 4096 * 4096 < n + 4096"
  using div_mult_mod_eq[of "n + 4095" 4096] mod_less_divisor[of 4096 "n + 4095"] by linarith+

lemma sint_small: "unat (x::u32) < 2147483648 \<Longrightarrow> sint x = uint x"
proof -
  assume "unat x < 2147483648"
  then have "uint x < 2147483648" by (simp only: unat_eq_nat_uint nat_less_iff)
  moreover have "-2147483648 \<le> uint x" using uint_ge_0[of x] by linarith
  ultimately show ?thesis unfolding sint_uint by (intro signed_take_bit_int_eq_self) simp_all
qed

lemma nonneg_small: "0 \<le> sint (x::i32) \<Longrightarrow> unat x < 2147483648"
proof -
  assume a: "0 \<le> sint x"
  have b: "sint x < 2147483648" using sint_less[of x] by simp
  then have b': "sint x < 4294967296" by (rule less_trans) simp
  have u: "uint x = sint x mod 4294967296" using uint_word_of_int[of "sint x", where 'a = 32] by simp
  have "uint x = sint x" unfolding u by (rule mod_pos_pos_trivial[OF a b'])
  then show ?thesis using b nat_less_iff[OF a] by (simp only: unat_eq_nat_uint)
qed

text \<open>The items from position \<open>off\<close> on replaced, in a store given as a function.\<close>

definition overwrite :: "(nat \<Rightarrow> 'a) \<Rightarrow> nat \<Rightarrow> 'a list \<Rightarrow> nat \<Rightarrow> 'a" where
  "overwrite f off xs n = (if off \<le> n \<and> n < off + length xs then xs ! (n - off) else f n)"

lemma overwrite_append: "overwrite f off (xs @ ys) = overwrite (overwrite f off xs) (off + length xs) ys"
  by (auto simp: overwrite_def fun_eq_iff nth_append)

end
