(* ===== verification/Psort.thy ===== *)
theory Psort
  imports Prelude "HOL-Library.Multiset"
begin

text \<open>
  The parallel sorter of project 6 (\<open>src/P6/psort.c\<close>): reading 100-byte records, splitting them
  into one array per thread, merge-sorting each array in its own thread, gathering the arrays
  and merge-sorting the whole.

  Arrays of record pointers are lists of records: the program moves the pointers and never writes
  through them once the records are read. An array access outside its bounds is undefined
  behaviour. The contents of freshly allocated memory are the parameters \<open>u\<close> (an array
  element) and \<open>buf0\<close> (the read buffer), and the order in which the threads finish is the
  parameter \<open>sched\<close>. Allocation is taken to succeed. The number of records is an \<open>int\<close>, and a file of
  \<open>2 ^ 31\<close> records or more is undefined behaviour; the other counters stay below the number of records.
\<close>

section \<open>Data\<close>

record keyValuePair =
  kv_key :: int
  kv_value :: "u8 list"

definition LINE_LENGTH :: nat where
  "LINE_LENGTH = 100"

section \<open>Merge\<close>

text \<open>\<open>for (i = 0; i < n; i++) T[i] = arr[base + i];\<close>\<close>

fun copy_temp :: "'a list \<Rightarrow> int \<Rightarrow> nat \<Rightarrow> 'a list outcome" where
  "copy_temp arr base 0 = Ret []"
| "copy_temp arr base (Suc n) =
     bindO (aget arr base) (\<lambda>x. bindO (copy_temp arr (base + 1) n) (\<lambda>xs. Ret (x # xs)))"

text \<open>The main loop \<open>while (i < n1 && j < n2)\<close>.\<close>

function merge_while ::
  "keyValuePair list \<Rightarrow> keyValuePair list \<Rightarrow> keyValuePair list \<Rightarrow> nat \<Rightarrow> nat \<Rightarrow> int \<Rightarrow>
   (keyValuePair list \<times> nat \<times> nat \<times> int) outcome" where
  "merge_while arr L R i j k =
     (if i < length L \<and> j < length R then
        if kv_key (L ! i) \<le> kv_key (R ! j)
        then bindO (aset arr k (L ! i)) (\<lambda>arr'. merge_while arr' L R (Suc i) j (k + 1))
        else bindO (aset arr k (R ! j)) (\<lambda>arr'. merge_while arr' L R i (Suc j) (k + 1))
      else Ret (arr, i, j, k))"
  by pat_completeness auto
termination
  by (relation "measure (\<lambda>(arr, L, R, i, j, k). (length L - i) + (length R - j))") auto

text \<open>The two loops \<open>while (i < n1)\<close> and \<open>while (j < n2)\<close> that copy what is left.\<close>

function copy_rest ::
  "keyValuePair list \<Rightarrow> keyValuePair list \<Rightarrow> nat \<Rightarrow> int \<Rightarrow> (keyValuePair list \<times> int) outcome" where
  "copy_rest arr T i k =
     (if i < length T then bindO (aset arr k (T ! i)) (\<lambda>arr'. copy_rest arr' T (Suc i) (k + 1))
      else Ret (arr, k))"
  by pat_completeness auto
termination
  by (relation "measure (\<lambda>(arr, T, i, k). length T - i)") auto

declare merge_while.simps [simp del] copy_rest.simps [simp del]

definition merge :: "keyValuePair list \<Rightarrow> int \<Rightarrow> int \<Rightarrow> int \<Rightarrow> keyValuePair list outcome" where
  "merge arr l m r =
     (let n1 = m - l + 1; n2 = r - m in
      bindO (copy_temp arr l (nat n1)) (\<lambda>L.
      bindO (copy_temp arr (m + 1) (nat n2)) (\<lambda>R.
      bindO (merge_while arr L R 0 0 l) (\<lambda>(arr1, i, j, k).
      bindO (copy_rest arr1 L i k) (\<lambda>(arr2, k2).
      bindO (copy_rest arr2 R j k2) (\<lambda>(arr3, _).
      Ret arr3))))))"

function mergeSort :: "keyValuePair list \<Rightarrow> int \<Rightarrow> int \<Rightarrow> keyValuePair list outcome" where
  "mergeSort arr l r =
     (if l < r then
        let m = l + (r - l) div 2 in
        bindO (mergeSort arr l m) (\<lambda>arr1.
        bindO (mergeSort arr1 (m + 1) r) (\<lambda>arr2.
        merge arr2 l m r))
      else Ret arr)"
  by pat_completeness auto
termination
  by (relation "measure (\<lambda>(arr, l, r). nat (r - l))") auto

declare mergeSort.simps [simp del]

section \<open>The main program\<close>

text \<open>
  Step 1. \<open>fread(buffer, 1, LINE_LENGTH, f)\<close> overwrites as many bytes of the buffer as the file
  still has; the record takes its key from the first four bytes and copies the whole buffer.
\<close>

definition record_of :: "u8 list \<Rightarrow> keyValuePair" where
  "record_of buf = \<lparr> kv_key = sint (le32 (buf ! 0) (buf ! 1) (buf ! 2) (buf ! 3)), kv_value = buf \<rparr>"

function read_records :: "int \<Rightarrow> u8 list \<Rightarrow> u8 list \<Rightarrow> keyValuePair list outcome" where
  "read_records num_lines buffer input =
     (if input = [] then Ret []
      else let got = take LINE_LENGTH input;
               buffer' = got @ drop (length got) buffer
           in bindO (cint (num_lines + 1)) (\<lambda>num_lines'.
              bindO (read_records num_lines' buffer' (drop LINE_LENGTH input)) (\<lambda>rest.
              Ret (record_of buffer' # rest))))"
  by pat_completeness auto
termination
  by (relation "measure (\<lambda>(num_lines, buffer, input). length input)") (auto simp: LINE_LENGTH_def)

declare read_records.simps [simp del]

text \<open>Step 2. Hand the lines out to the per-thread arrays; \<open>j\<close> is the array, \<open>k\<close> the slot.\<close>

fun segregate ::
  "keyValuePair list \<Rightarrow> int \<Rightarrow> int \<Rightarrow> int \<Rightarrow> keyValuePair list list \<Rightarrow> keyValuePair list list outcome" where
  "segregate [] j k lpt pa = Ret pa"
| "segregate (x # xs) j k lpt pa =
     bindO (aget pa j) (\<lambda>row.
     bindO (aset row k x) (\<lambda>row'.
     bindO (aset pa j row') (\<lambda>pa'.
     if k = lpt - 1 then segregate xs (j + 1) 0 lpt pa' else segregate xs j (k + 1) lpt pa')))"

text \<open>Step 3. Thread \<open>i\<close> sorts its own array; \<open>thrFunc\<close> with \<open>l = 0\<close>, \<open>r = lines_each_thread - 1\<close>.\<close>

definition thrFunc :: "int \<Rightarrow> keyValuePair list list \<Rightarrow> nat \<Rightarrow> keyValuePair list list outcome" where
  "thrFunc lpt pa i =
     bindO (aget pa (int i)) (\<lambda>row. bindO (mergeSort row 0 (lpt - 1)) (\<lambda>row'. aset pa (int i) row'))"

fun run_threads :: "int \<Rightarrow> keyValuePair list list \<Rightarrow> nat list \<Rightarrow> keyValuePair list list outcome" where
  "run_threads lpt pa [] = Ret pa"
| "run_threads lpt pa (i # is) = bindO (thrFunc lpt pa i) (\<lambda>pa'. run_threads lpt pa' is)"

text \<open>Step 4. Copy the arrays back, then the lines no thread took.\<close>

fun gather ::
  "keyValuePair list list \<Rightarrow> int \<Rightarrow> int \<Rightarrow> int \<Rightarrow> int \<Rightarrow> nat \<Rightarrow> keyValuePair list \<Rightarrow> keyValuePair list outcome" where
  "gather pa j k lpt i 0 final = Ret final"
| "gather pa j k lpt i (Suc n) final =
     bindO (aget pa j) (\<lambda>row.
     bindO (aget row k) (\<lambda>x.
     bindO (aset final i x) (\<lambda>final'.
     if k = lpt - 1 then gather pa (j + 1) 0 lpt (i + 1) n final'
     else gather pa j (k + 1) lpt (i + 1) n final')))"

fun add_remainder ::
  "keyValuePair list \<Rightarrow> int \<Rightarrow> nat \<Rightarrow> keyValuePair list \<Rightarrow> keyValuePair list outcome" where
  "add_remainder lines i 0 final = Ret final"
| "add_remainder lines i (Suc n) final =
     bindO (aget lines i) (\<lambda>x.
     bindO (aset final i x) (\<lambda>final'. add_remainder lines (i + 1) n final'))"

text \<open>
  Steps 2 to 5 on the lines read. A thread count of zero divides by zero, and a negative one
  would give the variable-length array \<open>parent_array\<close> a negative size.
\<close>

definition sort_lines ::
  "(nat \<Rightarrow> nat list) \<Rightarrow> keyValuePair \<Rightarrow> int \<Rightarrow> keyValuePair list \<Rightarrow> keyValuePair list outcome" where
  "sort_lines sched u num_thread0 lines =
     (if num_thread0 = 0 then Undef ''division by zero''
      else
       let num_lines0 = int (length lines);
           lpt0 = num_lines0 sdiv num_thread0;
           num_thread = (if lpt0 = 0 then 2 else num_thread0);
           lpt = (if lpt0 = 0 then num_lines0 sdiv num_thread else lpt0);
           rem = num_lines0 smod num_thread;
           num_lines = num_lines0 - rem
       in if num_thread < 0 then Undef ''variable-length array of negative size''
          else
           bindO (segregate (take (nat num_lines) lines) 0 0 lpt
                    (replicate (nat num_thread) (replicate (nat lpt) u))) (\<lambda>pa.
           bindO (run_threads lpt pa (sched (nat num_thread))) (\<lambda>pa'.
           bindO (gather pa' 0 0 lpt 0 (nat num_lines) (replicate (nat (num_lines + rem)) u)) (\<lambda>final.
           bindO (if rem \<noteq> 0 then add_remainder lines num_lines (nat rem) final else Ret final) (\<lambda>final'.
           mergeSort final' 0 (num_lines + rem - 1))))))"

text \<open>
  The whole program: the exit code and, where the output file is opened, the bytes written to it.
  \<open>infile\<close> is \<open>None\<close> when the input cannot be opened.
\<close>

definition psort_main ::
  "(nat \<Rightarrow> nat list) \<Rightarrow> keyValuePair \<Rightarrow> u8 list \<Rightarrow> int \<Rightarrow> u8 list option \<Rightarrow> bool \<Rightarrow> int \<Rightarrow>
   (int \<times> u8 list option) outcome" where
  "psort_main sched u buf0 argc infile out_ok num_thread =
     (if argc \<noteq> 4 then Ret (-1, None)
      else case infile of
        None \<Rightarrow> Ret (-1, None)
      | Some input \<Rightarrow>
          bindO (read_records 0 buf0 input) (\<lambda>lines.
          bindO (sort_lines sched u num_thread lines) (\<lambda>final.
          if \<not> out_ok then Ret (1, None)
          else Ret (0, Some (concat (map kv_value final))))))"

section \<open>Merging\<close>

text \<open>The list-level merge the array code implements.\<close>

fun merge_lists :: "keyValuePair list \<Rightarrow> keyValuePair list \<Rightarrow> keyValuePair list" where
  "merge_lists [] ys = ys"
| "merge_lists xs [] = xs"
| "merge_lists (x # xs) (y # ys) =
     (if kv_key x \<le> kv_key y then x # merge_lists xs (y # ys) else y # merge_lists (x # xs) ys)"

lemma merge_lists_Nil2 [simp]: "merge_lists xs [] = xs"
  by (cases xs) auto

lemma length_merge_lists [simp]: "length (merge_lists xs ys) = length xs + length ys"
  by (induction xs ys rule: merge_lists.induct) auto

lemma mset_merge_lists: "mset (merge_lists xs ys) = mset xs + mset ys"
  by (induction xs ys rule: merge_lists.induct) auto

lemma set_merge_lists: "set (merge_lists xs ys) = set xs \<union> set ys"
  by (metis mset_merge_lists set_mset_mset set_mset_union)

lemma sorted_merge_lists:
  "sorted (map kv_key xs) \<Longrightarrow> sorted (map kv_key ys) \<Longrightarrow> sorted (map kv_key (merge_lists xs ys))"
  by (induction xs ys rule: merge_lists.induct) (auto simp: set_merge_lists)

text \<open>The merge is stable: elements with equal keys keep their order, those of the left list first.\<close>

lemma filter_merge_lists:
  "sorted (map kv_key xs) \<Longrightarrow> sorted (map kv_key ys) \<Longrightarrow>
   filter (\<lambda>z. c = kv_key z) (merge_lists xs ys) =
   filter (\<lambda>z. c = kv_key z) xs @ filter (\<lambda>z. c = kv_key z) ys"
proof (induction xs ys rule: merge_lists.induct)
  case (3 x xs y ys)
  have "filter (\<lambda>z. c = kv_key z) (x # xs) = []" if "kv_key y < kv_key x" "c = kv_key y"
    using that "3.prems"(1) by (auto simp: filter_empty_conv)
  with 3 show ?case by (cases "c = kv_key y") auto
qed auto

lemma filter_sort_key: "filter (\<lambda>z. c = f z) (sort_key f xs) = filter (\<lambda>z. c = f z) xs"
  using sort_key_stable[of f c xs] by (simp add: eq_commute)

lemma merge_lists_sort_key:
  "merge_lists (sort_key kv_key xs) (sort_key kv_key ys) = sort_key kv_key (xs @ ys)"
  by (rule properties_for_sort_key [symmetric])
    (simp_all add: mset_merge_lists sorted_merge_lists filter_merge_lists filter_sort_key)

lemma sort_key_append_sort_key:
  "sort_key kv_key (sort_key kv_key xs @ ys) = sort_key kv_key (xs @ ys)"
  by (rule properties_for_sort_key) (simp_all add: filter_sort_key)

section \<open>The array code implements the list merge\<close>

lemma aset_append:
  "n = length pre \<Longrightarrow> aset (pre @ x # post) (int n) v = Ret (pre @ v # post)"
  by (simp add: aset_def)

lemma copy_temp_slice:
  "copy_temp (pre @ xs @ post) (int (length pre)) (length xs) = Ret xs"
proof (induction xs arbitrary: pre)
  case Nil
  then show ?case by simp
next
  case (Cons x xs)
  have "copy_temp (pre @ (x # xs) @ post) (int (length pre) + 1) (length xs) = Ret xs"
    using Cons[of "pre @ [x]"] by (simp add: algebra_simps)
  then show ?case by (simp add: aget_def)
qed

lemma copy_rest_drop:
  "copy_rest (pre @ hole @ post) T i (int (length pre)) =
     Ret (pre @ drop i T @ post, int (length pre + (length T - i)))"
  if "length hole = length T - i"
  using that
proof (induction "length T - i" arbitrary: i pre hole)
  case 0
  then show ?case by (simp add: copy_rest.simps)
next
  case (Suc n)
  then obtain h hole' where h: "hole = h # hole'" by (cases hole) auto
  have i: "i < length T" using Suc.hyps(2) by simp
  have "copy_rest (pre @ T ! i # hole' @ post) T (Suc i) (int (length pre) + 1) =
        Ret (pre @ T ! i # drop (Suc i) T @ post, int (length pre + (length T - i)))"
    using Suc.hyps(1)[of "Suc i" hole' "pre @ [T ! i]"] Suc.hyps(2) Suc.prems h i
    by (simp add: algebra_simps)
  then show ?case
    using i h by (simp add: copy_rest.simps[of _ T i] aset_append Cons_nth_drop_Suc flip: append_Cons)
      (simp add: aset_append)
qed

text \<open>
  The three loops together fill a hole of the right size with the merge of what is left of the
  two temporary arrays.
\<close>

lemma merge_loops:
  assumes "length hole = (length L - i) + (length R - j)"
  shows "bindO (merge_while (pre @ hole @ post) L R i j (int (length pre))) (\<lambda>(a1, i', j', k).
         bindO (copy_rest a1 L i' k) (\<lambda>(a2, k2).
         bindO (copy_rest a2 R j' k2) (\<lambda>(a3, _). Ret a3)))
         = Ret (pre @ merge_lists (drop i L) (drop j R) @ post)"
  using assms
proof (induction "(length L - i) + (length R - j)" arbitrary: i j pre hole rule: less_induct)
  case less
  show ?case
  proof (cases "i < length L \<and> j < length R")
    case False
    then consider (l) "length L \<le> i" | (r) "length R \<le> j" by linarith
    then show ?thesis
    proof cases
      case l
      then show ?thesis
        using less.prems copy_rest_drop[of "[]" L i pre "hole @ post"] copy_rest_drop[of hole R j pre post]
        by (simp add: merge_while.simps[of _ L R i j])
    next
      case r
      then show ?thesis
        using less.prems copy_rest_drop[of hole L i pre post]
          copy_rest_drop[of "[]" R j "pre @ drop i L" post]
        by (simp add: merge_while.simps[of _ L R i j])
    qed
  next
    case True
    then obtain h hole' where h: "hole = h # hole'" using less.prems by (cases hole) auto
    have dL: "drop i L = L ! i # drop (Suc i) L" and dR: "drop j R = R ! j # drop (Suc j) R"
      using True by (simp_all add: Cons_nth_drop_Suc)
    have next_l: "length hole' = (length L - Suc i) + (length R - j)"
      and next_r: "length hole' = (length L - i) + (length R - Suc j)"
      using less.prems True h by auto
    have dec_l: "(length L - Suc i) + (length R - j) < (length L - i) + (length R - j)"
      and dec_r: "(length L - i) + (length R - Suc j) < (length L - i) + (length R - j)"
      using True by linarith+
    show ?thesis
      using less.hyps[OF dec_l next_l, of "pre @ [L ! i]"] less.hyps[OF dec_r next_r, of "pre @ [R ! j]"]
        True
      by (simp add: merge_while.simps[of _ L R i j] h aset_append dL dR add.commute)
  qed
qed

lemma merge_slice:
  assumes "l = int (length pre)" and "m = l + int (length xs) - 1" and "r = m + int (length ys)"
  shows "merge (pre @ xs @ ys @ post) l m r = Ret (pre @ merge_lists xs ys @ post)"
proof -
  have L: "copy_temp (pre @ xs @ ys @ post) l (nat (m - l + 1)) = Ret xs"
    using copy_temp_slice[of pre xs "ys @ post"] assms by simp
  have R: "copy_temp (pre @ xs @ ys @ post) (m + 1) (nat (r - m)) = Ret ys"
    using copy_temp_slice[of "pre @ xs" ys post] assms by simp
  show ?thesis
    using merge_loops[of "xs @ ys" xs 0 ys 0 pre post, folded assms(1)]
    by (simp add: merge_def L R)
qed

lemma mergeSort_slice:
  "l = int (length pre) \<Longrightarrow> r = l + int (length xs) - 1 \<Longrightarrow>
   mergeSort (pre @ xs @ post) l r = Ret (pre @ sort_key kv_key xs @ post)"
proof (induction "length xs" arbitrary: pre xs post l r rule: less_induct)
  case less
  show ?case
  proof (cases "l < r")
    case False
    then have "xs = [] \<or> (\<exists>x. xs = [x])" using less.prems by (cases xs) (auto simp: length_Suc_conv)
    then show ?thesis using False by (auto simp: mergeSort.simps)
  next
    case True
    define m where "m = l + (r - l) div 2"
    define n where "n = nat (m - l + 1)"
    define ys zs where "ys = take n xs" and "zs = drop n xs"
    have xs: "xs = ys @ zs" by (simp add: ys_def zs_def)
    have n: "0 < n" "n < length xs" using True less.prems by (auto simp: n_def m_def)
    have len: "length ys = n" "length zs = length xs - n" using n by (auto simp: ys_def zs_def)
    have m: "m = l + int (length ys) - 1" using True len by (simp add: n_def m_def)
    have r: "r = m + int (length zs)" using less.prems len n m by simp
    have left: "mergeSort (pre @ ys @ zs @ post) l m = Ret (pre @ sort_key kv_key ys @ zs @ post)"
      using less.hyps[of ys l pre m "zs @ post"] n len m less.prems by simp
    have right: "mergeSort (pre @ sort_key kv_key ys @ zs @ post) (m + 1) r =
                 Ret (pre @ sort_key kv_key ys @ sort_key kv_key zs @ post)"
    proof -
      have "length zs < length xs" using n len by simp
      moreover have "m + 1 = int (length (pre @ sort_key kv_key ys))" using m less.prems(1) by simp
      moreover have "r = m + 1 + int (length zs) - 1" using r by simp
      ultimately show ?thesis using less.hyps[of zs "m + 1" "pre @ sort_key kv_key ys" r post] by simp
    qed
    have "merge (pre @ sort_key kv_key ys @ sort_key kv_key zs @ post) l m r =
          Ret (pre @ sort_key kv_key xs @ post)"
      using merge_slice[of l pre m "sort_key kv_key ys" r "sort_key kv_key zs" post,
          OF less.prems(1)] m r
      by (simp add: merge_lists_sort_key xs)
    then show ?thesis
      using True left right xs by (simp add: mergeSort.simps[of _ l r] m_def[symmetric])
  qed
qed

lemma mergeSort_whole: "mergeSort xs 0 (int (length xs) - 1) = Ret (sort_key kv_key xs)"
  using mergeSort_slice[of 0 "[]" _ xs "[]"] by simp

section \<open>Distribution over threads\<close>

text \<open>The rows the threads get: \<open>n\<close> consecutive slices of length \<open>l\<close>.\<close>

fun chunks :: "nat \<Rightarrow> nat \<Rightarrow> 'a list \<Rightarrow> 'a list list" where
  "chunks 0 l xs = []"
| "chunks (Suc n) l xs = take l xs # chunks n l (drop l xs)"

lemma length_chunks [simp]: "length (chunks n l xs) = n"
  by (induction n arbitrary: xs) auto

lemma chunks_row_length: "n * l \<le> length xs \<Longrightarrow> row \<in> set (chunks n l xs) \<Longrightarrow> length row = l"
proof (induction n arbitrary: xs)
  case (Suc n)
  then have "row = take l xs \<or> row \<in> set (chunks n l (drop l xs))" by simp
  then show ?case using Suc.IH[of "drop l xs"] Suc.prems(1) by auto
qed simp

lemma concat_chunks: "concat (chunks n l xs) = take (n * l) xs"
  by (induction n arbitrary: xs) (auto simp: take_add)

lemma aget_append: "n = length pre \<Longrightarrow> aget (pre @ x # post) (int n) = Ret x"
  by (simp add: aget_def)

lemma segregate_row:
  "length front + length xs = lpt \<Longrightarrow> length junk = length xs \<Longrightarrow> xs \<noteq> [] \<Longrightarrow> j = int (length pa1) \<Longrightarrow>
   segregate (xs @ ys) j (int (length front)) (int lpt) (pa1 @ (front @ junk) # pa2) =
   segregate ys (j + 1) 0 (int lpt) (pa1 @ (front @ xs) # pa2)"
proof (induction xs arbitrary: front junk)
  case Nil
  then show ?case by simp
next
  case (Cons x xs)
  then obtain h junk' where junk: "junk = h # junk'" by (cases junk) auto
  show ?case
  proof (cases xs)
    case Nil
    then show ?thesis using Cons.prems junk by (simp add: aget_append aset_append)
  next
    case (Cons x' xs')
    then have "segregate (xs @ ys) j (int (length front) + 1) (int lpt) (pa1 @ (front @ x # junk') # pa2) =
               segregate ys (j + 1) 0 (int lpt) (pa1 @ (front @ x # xs) # pa2)"
      using Cons.IH[of "front @ [x]" junk'] Cons.prems junk by (simp add: add.commute)
    then show ?thesis using Cons.prems junk Cons by (simp add: aget_append aset_append)
  qed
qed

lemma segregate_rows:
  "(\<forall>row\<in>set rows. length row = lpt) \<Longrightarrow> 0 < lpt \<Longrightarrow> j = int (length pa1) \<Longrightarrow>
   segregate (concat rows) j 0 (int lpt) (pa1 @ replicate (length rows) (replicate lpt u)) =
   Ret (pa1 @ rows)"
proof (induction rows arbitrary: j pa1)
  case Nil
  then show ?case by simp
next
  case (Cons row rows)
  have "segregate (row @ concat rows) j (int (length ([] :: keyValuePair list))) (int lpt)
          (pa1 @ ([] @ replicate lpt u) # replicate (length rows) (replicate lpt u)) =
        segregate (concat rows) (j + 1) 0 (int lpt) (pa1 @ ([] @ row) # replicate (length rows) (replicate lpt u))"
    using Cons.prems by (intro segregate_row) auto
  then show ?case using Cons.IH[of "j + 1" "pa1 @ [row]"] Cons.prems by simp
qed

text \<open>A thread sorts its own row and leaves every other row alone.\<close>

lemma thrFunc_row:
  assumes "i < length pa" and "length (pa ! i) = lpt"
  shows "thrFunc (int lpt) pa i = Ret (pa[i := sort_key kv_key (pa ! i)])"
  using assms mergeSort_whole[of "pa ! i"] by (simp add: thrFunc_def array_simps)

lemma run_threads_partial:
  "set is \<subseteq> {..<length pa} \<Longrightarrow> \<forall>row\<in>set pa. length row = lpt \<Longrightarrow>
   run_threads (int lpt) pa is =
   Ret (map (\<lambda>i. if i \<in> set is then sort_key kv_key (pa ! i) else pa ! i) [0..<length pa])"
proof (induction "is" arbitrary: pa)
  case Nil
  then show ?case by (simp add: map_nth)
next
  case (Cons i "is")
  let ?pa' = "pa[i := sort_key kv_key (pa ! i)]"
  have i: "i < length pa" using Cons.prems(1) by simp
  have rows: "\<forall>row\<in>set ?pa'. length row = lpt"
    using Cons.prems(2) i by (auto simp: all_set_conv_all_nth nth_list_update)
  have idem: "sort_key kv_key (sort_key kv_key xs) = sort_key kv_key xs" for xs
    by (simp add: sort_key_id_if_sorted)
  have "run_threads (int lpt) ?pa' is =
        Ret (map (\<lambda>a. if a \<in> set is then sort_key kv_key (?pa' ! a) else ?pa' ! a) [0..<length pa])"
    using Cons.IH[of ?pa'] Cons.prems rows by simp
  moreover have "\<dots> = Ret (map (\<lambda>a. if a \<in> set (i # is) then sort_key kv_key (pa ! a) else pa ! a) [0..<length pa])"
    using i by (auto simp: nth_list_update idem)
  ultimately show ?case
    using Cons.prems i by (simp add: thrFunc_row)
qed

lemma run_threads_all:
  assumes "mset is = mset [0..<length pa]" and "\<forall>row\<in>set pa. length row = lpt"
  shows "run_threads (int lpt) pa is = Ret (map (sort_key kv_key) pa)"
proof -
  have set_is: "set is = {0..<length pa}" using mset_eq_setD[OF assms(1)] by simp
  then have "run_threads (int lpt) pa is = Ret (map (\<lambda>i. if i \<in> set is then sort_key kv_key (pa ! i) else pa ! i) [0..<length pa])"
    using run_threads_partial[of "is" pa lpt] assms(2) by (simp add: subset_iff)
  also have "\<dots> = Ret (map (sort_key kv_key) pa)"
    by (rule arg_cong[of _ _ Ret], rule nth_equalityI) (simp_all add: set_is)
  finally show ?thesis .
qed

lemma gather_row:
  "length front + length xs = lpt \<Longrightarrow> xs \<noteq> [] \<Longrightarrow> length junk = length xs \<Longrightarrow>
   j = int (length pa1) \<Longrightarrow> i = int (length out) \<Longrightarrow>
   gather (pa1 @ (front @ xs) # pa2) j (int (length front)) (int lpt) i (length xs + n) (out @ junk @ junk2) =
   gather (pa1 @ (front @ xs) # pa2) (j + 1) 0 (int lpt) (i + int (length xs)) n (out @ xs @ junk2)"
proof (induction xs arbitrary: front junk i out)
  case Nil
  then show ?case by simp
next
  case (Cons x xs)
  then obtain h junk' where junk: "junk = h # junk'" by (cases junk) auto
  show ?case
  proof (cases xs)
    case Nil
    then show ?thesis using Cons.prems junk by (simp add: aget_append aset_append)
  next
    case (Cons x' xs')
    then have "gather (pa1 @ (front @ x # xs) # pa2) j (int (length front) + 1) (int lpt) (i + 1) (length xs + n)
                 (out @ x # junk' @ junk2) =
               gather (pa1 @ (front @ x # xs) # pa2) (j + 1) 0 (int lpt) (i + 1 + int (length xs)) n
                 (out @ x # xs @ junk2)"
      using Cons.IH[of "front @ [x]" junk' "i + 1" "out @ [x]"] Cons.prems junk by (simp add: add.commute)
    then show ?thesis using Cons.prems junk Cons by (simp add: aget_append aset_append add.assoc)
  qed
qed

lemma gather_rows:
  "(\<forall>row\<in>set rows. length row = lpt) \<Longrightarrow> 0 < lpt \<Longrightarrow> length junk = length (concat rows) \<Longrightarrow>
   gather (pa1 @ rows) (int (length pa1)) 0 (int lpt) (int (length out)) (length (concat rows)) (out @ junk @ junk2) =
   Ret (out @ concat rows @ junk2)"
proof (induction rows arbitrary: pa1 out junk)
  case Nil
  then show ?case by simp
next
  case (Cons row rows)
  define j1 j2 where "j1 = take lpt junk" and "j2 = drop lpt junk"
  have row: "length row = lpt" "row \<noteq> []" using Cons.prems by auto
  have junk: "junk = j1 @ j2" and len: "length j1 = length row" "length j2 = length (concat rows)"
    using Cons.prems row by (auto simp: j1_def j2_def)
  have "gather (pa1 @ ([] @ row) # rows) (int (length pa1)) (int (length ([] :: keyValuePair list))) (int lpt) (int (length out))
          (length row + length (concat rows)) (out @ j1 @ j2 @ junk2) =
        gather (pa1 @ ([] @ row) # rows) (int (length pa1) + 1) 0 (int lpt)
          (int (length out) + int (length row)) (length (concat rows)) (out @ row @ j2 @ junk2)"
    using row len by (intro gather_row) auto
  then show ?case
    using Cons.IH[of j2 "pa1 @ [row]" "out @ row"] Cons.prems row len
    by (simp add: junk add.commute)
qed

lemma add_remainder_tail:
  "i = length out \<Longrightarrow> length junk = n \<Longrightarrow> length lines = i + n \<Longrightarrow>
   add_remainder lines (int i) n (out @ junk) = Ret (out @ drop i lines)"
proof (induction n arbitrary: i out junk)
  case 0
  then show ?case by simp
next
  case (Suc n)
  then obtain h junk' where junk: "junk = h # junk'" by (cases junk) auto
  have "add_remainder lines (int i + 1) n (out @ lines ! i # junk') = Ret (out @ lines ! i # drop (Suc i) lines)"
    using Suc.IH[of "Suc i" "out @ [lines ! i]" junk'] Suc.prems junk by (simp add: add.commute)
  then show ?case
    using Suc.prems junk by (simp add: array_simps aset_append Cons_nth_drop_Suc)
qed

section \<open>The sorter\<close>

lemma sort_key_append_right:
  fixes xs ys ys' :: "keyValuePair list"
  assumes "sort_key kv_key ys = sort_key kv_key ys'"
  shows "sort_key kv_key (xs @ ys) = sort_key kv_key (xs @ ys')"
  using assms merge_lists_sort_key[of xs ys] merge_lists_sort_key[of xs ys'] by simp

lemma sort_key_concat_sorted_rows:
  fixes rows :: "keyValuePair list list" and rest :: "keyValuePair list"
  shows "sort_key kv_key (concat (map (sort_key kv_key) rows) @ rest) = sort_key kv_key (concat rows @ rest)"
proof (induction rows)
  case (Cons row rows)
  have "sort_key kv_key (sort_key kv_key row @ (concat (map (sort_key kv_key) rows) @ rest)) =
        sort_key kv_key (row @ (concat (map (sort_key kv_key) rows) @ rest))"
    by (rule sort_key_append_sort_key)
  also have "\<dots> = sort_key kv_key (row @ (concat rows @ rest))"
    using Cons by (rule sort_key_append_right)
  finally show ?case by simp
qed simp

text \<open>Steps 2 to 4 put the sorted slices, followed by the lines left over, into the final array.\<close>

definition final_array :: "nat \<Rightarrow> nat \<Rightarrow> keyValuePair list \<Rightarrow> keyValuePair list" where
  "final_array n lpt lines =
     concat (map (sort_key kv_key) (chunks n lpt lines)) @ drop (n * lpt) lines"

lemma distribute_and_gather:
  assumes sched: "mset (is :: nat list) = mset [0..<n]"
    and len: "length lines = n * lpt + rem"
  shows "bindO (segregate (take (n * lpt) lines) 0 0 (int lpt) (replicate n (replicate lpt u))) (\<lambda>pa.
         bindO (run_threads (int lpt) pa is) (\<lambda>pa'.
         bindO (gather pa' 0 0 (int lpt) 0 (n * lpt) (replicate (n * lpt + rem) u)) (\<lambda>final.
         add_remainder lines (int (n * lpt)) rem final)))
         = Ret (final_array n lpt lines)"
proof (cases "lpt = 0")
  case True
  have "map (sort_key kv_key) (replicate n []) = replicate n []" by simp
  moreover have "chunks n 0 lines = replicate n []" by (induction n) auto
  ultimately show ?thesis
    using True len run_threads_all[of "is" "replicate n []" 0] sched
      add_remainder_tail[of 0 "[]" "replicate rem u" rem lines]
    by (simp add: final_array_def)
next
  case False
  let ?rows = "chunks n lpt lines"
  let ?srows = "map (sort_key kv_key) ?rows"
  have rows: "\<forall>row\<in>set ?rows. length row = lpt" using chunks_row_length[of n lpt lines] len by simp
  have srows: "\<forall>row\<in>set ?srows. length row = lpt" using rows by simp
  have total: "length (concat ?srows) = n * lpt"
  proof -
    have "length (concat ?srows) = length (concat ?rows)" by (simp add: length_concat comp_def)
    then show ?thesis using len by (simp add: concat_chunks)
  qed
  have seg: "segregate (take (n * lpt) lines) 0 0 (int lpt) (replicate n (replicate lpt u)) = Ret ?rows"
    using segregate_rows[of ?rows lpt 0 "[]" u] rows False by (simp add: concat_chunks)
  have run: "run_threads (int lpt) ?rows is = Ret ?srows"
    using run_threads_all[of "is" ?rows lpt] rows sched by simp
  have gat: "gather ?srows 0 0 (int lpt) 0 (n * lpt) (replicate (n * lpt + rem) u) =
             Ret (concat ?srows @ replicate rem u)"
    using gather_rows[of ?srows lpt "replicate (n * lpt) u" "[]" "[]" "replicate rem u"] srows False total
    by (simp add: replicate_add)
  have rest: "add_remainder lines (int (n * lpt)) rem (concat ?srows @ replicate rem u) =
              Ret (final_array n lpt lines)"
    unfolding final_array_def by (rule add_remainder_tail) (simp_all add: total len)
  show ?thesis by (simp add: seg run gat rest del: of_nat_mult)
qed

lemma sort_key_final_array: "sort_key kv_key (final_array n lpt lines) = sort_key kv_key lines"
  by (simp add: final_array_def sort_key_concat_sorted_rows concat_chunks)

lemma sort_lines_correct:
  assumes pos: "0 < num_thread" and sched: "\<And>n. mset (sched n) = mset [0..<n]"
  shows "sort_lines sched u num_thread lines = Ret (sort_key kv_key lines)"
proof -
  define t where "t = (if length lines div nat num_thread = 0 then 2 else nat num_thread)"
  define lpt where "lpt = length lines div t"
  define rem where "rem = length lines mod t"
  have len: "length lines = t * lpt + rem" by (simp add: lpt_def rem_def)
  have t0: "0 < t" using pos by (simp add: t_def)
  obtain nt where nt0: "num_thread = int nt" "0 < nt" using pos by (metis zero_less_imp_eq_int)
  have nt: "(if int (length lines) sdiv num_thread = 0 then 2 else num_thread) = int t"
    using nt0 by (simp add: sdiv_int_nat t_def)
  have lp: "(if int (length lines) sdiv num_thread = 0 then int (length lines) sdiv int t
             else int (length lines) sdiv num_thread) = int lpt"
    using nt0 sdiv_int_nat[of "length lines" 2] by (auto simp: sdiv_int_nat t_def lpt_def)
  have rm: "int (length lines) smod int t = int rem"
    by (simp add: smod_int_nat rem_def)
  have nl: "int (length lines) - int rem = int (t * lpt)" using len by simp
  have final: "bindO (segregate (take (t * lpt) lines) 0 0 (int lpt) (replicate t (replicate lpt u))) (\<lambda>pa.
         bindO (run_threads (int lpt) pa (sched t)) (\<lambda>pa'.
         bindO (gather pa' 0 0 (int lpt) 0 (t * lpt) (replicate (t * lpt + rem) u)) (\<lambda>final.
         bindO (add_remainder lines (int (t * lpt)) rem final) (\<lambda>final'.
           mergeSort final' 0 (int (t * lpt + rem) - 1)))))
         = Ret (sort_key kv_key lines)"
  proof -
    have "length (final_array t lpt lines) = t * lpt + rem"
      using len by (metis length_sort sort_key_final_array)
    then have "mergeSort (final_array t lpt lines) 0 (int (t * lpt + rem) - 1) = Ret (sort_key kv_key lines)"
      using mergeSort_whole[of "final_array t lpt lines"] by (simp add: sort_key_final_array)
    then show ?thesis
      using distribute_and_gather[OF sched[of t] len, of u]
      by (simp flip: bindO_assoc)
  qed
  have skip: "(if int rem \<noteq> 0 then add_remainder lines i (nat (int rem)) f else Ret f) = add_remainder lines i rem f" for i f
    by (cases "rem = 0") simp_all
  show ?thesis
    using final pos unfolding sort_lines_def Let_def nt lp rm nl skip
    by (simp add: nat_add_distrib flip: of_nat_add of_nat_mult)
qed

text \<open>
  On a file made of whole records the buffer's old contents never show: every record is one
  100-byte slice of the file.
\<close>

lemma read_records_whole:
  "length input = n * LINE_LENGTH \<Longrightarrow> length buf = LINE_LENGTH \<Longrightarrow>
   read_records (int k) buf input =
     (if n = 0 \<or> k + n < 2147483648 then Ret (map record_of (chunks n LINE_LENGTH input)) else Undef ''signed overflow'')"
proof (induction n arbitrary: k buf input)
  case 0
  then show ?case by (simp add: read_records.simps)
next
  case (Suc n)
  have len: "length (take LINE_LENGTH input) = LINE_LENGTH" using Suc.prems(1) by simp
  have ne: "input \<noteq> []" using Suc.prems(1) by (auto simp: LINE_LENGTH_def)
  show ?case
  proof (cases "k + 1 < 2147483648")
    case True
    then have "cint (int k + 1) = Ret (int (Suc k))" by (simp add: cint_def)
    then show ?thesis
      using Suc.IH[of "drop LINE_LENGTH input" "take LINE_LENGTH input" "Suc k"] Suc.prems len ne True
      by (simp add: read_records.simps[of "int k" buf input] Let_def)
  next
    case False
    then have "cint (int k + 1) = Undef ''signed overflow''" by (simp add: cint_def)
    then show ?thesis using ne False by (simp add: read_records.simps[of "int k" buf input] Let_def)
  qed
qed

section \<open>Properties\<close>

text \<open>
  C13. On an input file of \<open>n\<close> whole records and any positive number of threads, \<open>psort\<close> exits
  with 0 and writes exactly the input's records in stable key order: the result of the library
  sort of the records by key; only with \<open>2 ^ 31\<close> records or more does their count overflow. It depends neither on the number of threads, nor on the order in
  which they finish, nor on what freshly allocated memory held.
\<close>

theorem psort_writes_stable_sort:
  assumes "0 < num_thread" and "\<And>t. mset (sched t) = mset [0..<t]"
    and "length input = n * LINE_LENGTH" and "length buf0 = LINE_LENGTH"
  shows "psort_main sched u buf0 4 (Some input) True num_thread =
     (if n < 2147483648
      then Ret (0, Some (concat (map kv_value (sort_key kv_key (map record_of (chunks n LINE_LENGTH input))))))
      else Undef ''signed overflow'')"
  using sort_lines_correct[OF assms(1,2)] read_records_whole[OF assms(3,4), of 0]
  by (simp add: psort_main_def)

definition psort_demo_input :: "u8 list" where
  "psort_demo_input = replicate 100 2 @ replicate 100 1 @ replicate 100 255"

theorem psort_writes_stable_sort_witness:
  "psort_main (\<lambda>t. rev [0..<t]) (record_of []) (replicate 100 0) 4 (Some psort_demo_input) True 2 =
   Ret (0, Some (replicate 100 255 @ replicate 100 1 @ replicate 100 2))"
proof -
  have ch: "chunks 3 LINE_LENGTH psort_demo_input = [replicate 100 2, replicate 100 1, replicate 100 255]"
    by (simp add: psort_demo_input_def LINE_LENGTH_def numeral_3_eq_3)
  have keys: "kv_key (record_of (replicate 100 b)) = sint (le32 b b b b)" for b
    by (simp add: record_of_def)
  have "sort_key kv_key (map record_of (chunks 3 LINE_LENGTH psort_demo_input)) =
        [record_of (replicate 100 255), record_of (replicate 100 1), record_of (replicate 100 2)]"
    by (simp add: ch keys le32_def)
  then show ?thesis
    using psort_writes_stable_sort[of 2 "\<lambda>t. rev [0..<t]" psort_demo_input 3 "replicate 100 0" "record_of []"]
    by (simp add: psort_demo_input_def LINE_LENGTH_def) (simp add: record_of_def)
qed

text \<open>
  \<open>mergeSort(arr, l, r)\<close> on the segment \<open>xs\<close> of an array replaces exactly that segment by
  its stable sort: it stays inside the segment, terminates, and never indexes out of bounds.
\<close>

theorem mergeSort_sorts_segment:
  "mergeSort (pre @ xs @ post) (int (length pre)) (int (length pre) + int (length xs) - 1) =
   Ret (pre @ sort_key kv_key xs @ post)"
  by (rule mergeSort_slice) simp_all

text \<open>
  The program has no defence against a thread count of zero: whatever the lines read, the
  computation of \<open>lines_each_thread\<close> divides by zero.
\<close>

theorem psort_zero_threads_divides_by_zero:
  "read_records 0 buf0 input = Ret lines \<Longrightarrow>
   psort_main sched u buf0 4 (Some input) out_ok 0 = Undef ''division by zero''"
  by (simp add: psort_main_def sort_lines_def)

end
