(* ===== verification/Fifo.thy ===== *)
theory Fifo
  imports Prelude
begin

text \<open>
  The interface of a bounded byte queue: what the pipe and the console input buffer promise to
  the loops that fill and drain them. The laws relate every operation to the list of bytes in
  the queue; the lemmas about draining and filling loops are proved once from them.
\<close>

locale bounded_fifo =
  fixes invar :: "'q \<Rightarrow> bool"
    and contents :: "'q \<Rightarrow> u8 list"
    and capacity :: nat
    and full :: "'q \<Rightarrow> bool"
    and empty :: "'q \<Rightarrow> bool"
    and put :: "'q \<Rightarrow> u8 \<Rightarrow> 'q"
    and get :: "'q \<Rightarrow> u8 \<times> 'q"
  assumes invar_put: "invar q \<Longrightarrow> \<not> full q \<Longrightarrow> invar (put q b)"
    and contents_put: "invar q \<Longrightarrow> \<not> full q \<Longrightarrow> contents (put q b) = contents q @ [b]"
    and invar_get: "invar q \<Longrightarrow> \<not> empty q \<Longrightarrow> invar (snd (get q))"
    and contents_get: "invar q \<Longrightarrow> \<not> empty q \<Longrightarrow> contents q = fst (get q) # contents (snd (get q))"
    and empty_iff: "invar q \<Longrightarrow> empty q \<longleftrightarrow> contents q = []"
    and full_iff: "invar q \<Longrightarrow> full q \<longleftrightarrow> length (contents q) = capacity"
    and within_capacity: "invar q \<Longrightarrow> length (contents q) \<le> capacity"
begin

text \<open>Draining: take up to \<open>n\<close> bytes, stopping when the queue is empty.\<close>

fun drain :: "nat \<Rightarrow> 'q \<Rightarrow> u8 list \<times> 'q" where
  "drain 0 q = ([], q)"
| "drain (Suc n) q =
     (if empty q then ([], q) else let (b, q') = get q; (bs, q'') = drain n q' in (b # bs, q''))"

text \<open>Filling: append bytes until they run out or the queue is full.\<close>

fun fill :: "u8 list \<Rightarrow> 'q \<Rightarrow> u8 list \<times> 'q" where
  "fill [] q = ([], q)"
| "fill (b # bs) q = (if full q then (b # bs, q) else fill bs (put q b))"

lemma drain_takes_prefix:
  "invar q \<Longrightarrow> drain n q = (bs, q') \<Longrightarrow>
   invar q' \<and> bs = take n (contents q) \<and> contents q' = drop n (contents q)"
proof (induction n arbitrary: q bs q')
  case (Suc n)
  show ?case
  proof (cases "empty q")
    case False
    obtain b q1 where g: "get q = (b, q1)" by (cases "get q")
    obtain bs1 q2 where d: "drain n q1 = (bs1, q2)" by (cases "drain n q1")
    have "invar q1" "contents q = b # contents q1"
      using Suc.prems(1) False g invar_get[of q] contents_get[of q] by auto
    then show ?thesis using Suc.IH[of q1 bs1 q2] Suc.prems(2) False g d by auto
  qed (use Suc.prems empty_iff[of q] in auto)
qed auto

lemma fill_appends_prefix:
  "invar q \<Longrightarrow> fill bs q = (rest, q') \<Longrightarrow>
   invar q' \<and> contents q' @ rest = contents q @ bs \<and> (rest \<noteq> [] \<longrightarrow> full q')"
proof (induction bs arbitrary: q)
  case (Cons b bs)
  show ?case
  proof (cases "full q")
    case False
    then show ?thesis
      using Cons.IH[of "put q b"] Cons.prems invar_put[of q b] contents_put[of q b] by simp
  qed (use Cons.prems in auto)
qed auto

lemma fill_count:
  assumes "invar q" and "fill bs q = (rest, q')"
  shows "length bs - length rest = length (contents q') - length (contents q)"
proof -
  have "length (contents q') + length rest = length (contents q) + length bs"
    using fill_appends_prefix[OF assms] by (metis length_append)
  then show ?thesis by linarith
qed

end

text \<open>
  Both queues of the kernel are arrays indexed by a free-running 32-bit counter modulo a size
  that divides \<open>2 ^ 32\<close>, so the index stays right when the counters wrap around. \<open>ring_contents\<close>
  is the list of bytes between the read and the write counter.
\<close>

definition ring_contents :: "nat \<Rightarrow> u8 list \<Rightarrow> u32 \<Rightarrow> u32 \<Rightarrow> u8 list" where
  "ring_contents N data r w = map (\<lambda>k. data ! (unat (r + of_nat k) mod N)) [0..<unat (w - r)]"

lemma length_ring_contents [simp]: "length (ring_contents N data r w) = unat (w - r)"
  by (simp add: ring_contents_def)

lemma unat_diff_Suc: "(w::u32) \<noteq> r \<Longrightarrow> unat (w - r) = Suc (unat (w - (r + 1)))"
  using unat_minus_one[of "w - r"] by (simp add: diff_diff_eq unat_gt_0)

lemma ring_contents_get:
  assumes "w \<noteq> r"
  shows "ring_contents N data r w = data ! (unat r mod N) # ring_contents N data (r + 1) w"
  by (simp add: ring_contents_def unat_diff_Suc[OF assms] upt_conv_Cons
      map_Suc_upt[symmetric] add_ac del: upt_Suc)

lemma mod_dvd_u32:
  assumes "N dvd 4294967296"
  shows "unat (a + b :: u32) mod N = (unat a + unat b) mod N"
  using assms by (simp add: unat_word_ariths mod_mod_cancel)

lemma ring_contents_put:
  assumes dvd: "N dvd 4294967296" and lt: "N < 4294967296"
    and room: "unat (w - r) < N" and len: "length data = N"
  shows "ring_contents N (data[unat w mod N := b]) r (w + 1) = ring_contents N data r w @ [b]"
proof -
  let ?n = "unat (w - r)"
  have w: "w = r + of_nat ?n" by simp
  have step: "unat (w + 1 - r) = Suc ?n"
    using u32_plus_1[of "w - r"] room lt by (simp add: algebra_simps)
  have "data[unat w mod N := b] ! (unat (r + of_nat k) mod N) = data ! (unat (r + of_nat k) mod N)"
    if "k < ?n" for k
  proof -
    have k: "unat (of_nat k :: u32) = k" using that room lt by simp
    have "unat (r + of_nat k) mod N = (unat r + k) mod N"
      by (subst mod_dvd_u32[OF dvd]) (simp add: k)
    moreover have "unat w mod N = (unat r + ?n) mod N"
      by (subst w, subst mod_dvd_u32[OF dvd]) simp
    moreover have "(unat r + k) mod N \<noteq> (unat r + ?n) mod N"
      using that room by (intro mod_shift_neq) auto
    ultimately show ?thesis by simp
  qed
  moreover have "data[unat w mod N := b] ! (unat w mod N) = b"
    using room len by (simp add: nth_list_update)
  ultimately show ?thesis
    by (simp add: ring_contents_def step)
qed

end
