(* ===== verification/Pipe.thy ===== *)
theory Pipe
  imports Fifo
begin

text \<open>
  The kernel pipe (\<open>src/P5/xv6/kernel/pipe.c\<close>): a 512-byte ring buffer between two free-running
  32-bit counters.

  \<open>pipewrite\<close> and \<open>piperead\<close> run under the pipe's lock and may sleep, which releases it. Each
  model runs the code from the point where it holds the lock to the point where it lets go of
  it: it returns, or it sleeps and says where it will resume. \<open>pipe_step\<close> interleaves any number
  of readers and writers over these atomic segments, with \<open>wakeup\<close> moving every sleeper on a
  channel back to the runnable ones. \<open>killed\<close> is the value of \<open>proc->killed\<close> when the segment
  tests it. \<open>pipealloc\<close> needs the file table and is in the theory \<open>Filetable\<close>.
\<close>

section \<open>State\<close>

definition PIPESIZE :: nat where
  "PIPESIZE = 512"

record pipe =
  pipe_data :: "u8 list"
  nread :: u32
  nwrite :: u32
  readopen :: bool
  writeopen :: bool

text \<open>The two sleep channels of a pipe, \<open>&p->nread\<close> and \<open>&p->nwrite\<close>.\<close>

datatype pipe_chan = Chan_nread | Chan_nwrite

text \<open>How a segment ends: the call returns, or the process sleeps on a channel.\<close>

datatype pipe_end = Returns int | Sleeps

section \<open>Operations\<close>

text \<open>\<open>p->nwrite == p->nread + PIPESIZE\<close> and \<open>p->nread == p->nwrite\<close>, in 32-bit arithmetic.\<close>

definition pipe_full :: "pipe \<Rightarrow> bool" where
  "pipe_full p \<longleftrightarrow> nwrite p = nread p + of_nat PIPESIZE"

definition pipe_empty :: "pipe \<Rightarrow> bool" where
  "pipe_empty p \<longleftrightarrow> nread p = nwrite p"

text \<open>\<open>p->data[p->nwrite++ % PIPESIZE] = b\<close>\<close>

definition pipe_put :: "pipe \<Rightarrow> u8 \<Rightarrow> pipe" where
  "pipe_put p b =
     p\<lparr>pipe_data := (pipe_data p)[unat (nwrite p) mod PIPESIZE := b], nwrite := nwrite p + 1\<rparr>"

text \<open>\<open>p->data[p->nread++ % PIPESIZE]\<close>\<close>

definition pipe_get :: "pipe \<Rightarrow> u8 \<times> pipe" where
  "pipe_get p = (pipe_data p ! (unat (nread p) mod PIPESIZE), p\<lparr>nread := nread p + 1\<rparr>)"

text \<open>What \<open>pipealloc\<close> stores in a fresh pipe page; \<open>data\<close> keeps the page's old bytes.\<close>

definition pipe_init :: "u8 list \<Rightarrow> pipe" where
  "pipe_init old = \<lparr>pipe_data = old, nread = 0, nwrite = 0, readopen = True, writeopen = True\<rparr>"

text \<open>
  \<open>pipewrite\<close> from loop index \<open>i\<close> with \<open>rem\<close> bytes to go: the new pipe, the index reached, the way
  the segment ends, and the channels woken.
\<close>

fun pipewrite ::
  "bool \<Rightarrow> (nat \<Rightarrow> u8) \<Rightarrow> int \<Rightarrow> pipe \<Rightarrow> nat \<Rightarrow> nat \<Rightarrow> pipe \<times> nat \<times> pipe_end \<times> pipe_chan list" where
  "pipewrite killed addr n p i 0 = (p, i, Returns n, [Chan_nread])"
| "pipewrite killed addr n p i (Suc rem) =
     (if pipe_full p then
        if \<not> readopen p \<or> killed then (p, i, Returns (-1), [])
        else (p, i, Sleeps, [Chan_nread])
      else pipewrite killed addr n (pipe_put p (addr i)) (Suc i) rem)"

text \<open>The copy loop of \<open>piperead\<close>: up to \<open>n\<close> bytes.\<close>

fun piperead_copy :: "nat \<Rightarrow> pipe \<Rightarrow> u8 list \<times> pipe" where
  "piperead_copy 0 p = ([], p)"
| "piperead_copy (Suc n) p =
     (if pipe_empty p then ([], p)
      else let (b, p') = pipe_get p; (bs, p'') = piperead_copy n p' in (b # bs, p''))"

definition piperead ::
  "bool \<Rightarrow> int \<Rightarrow> pipe \<Rightarrow> pipe \<times> u8 list \<times> pipe_end \<times> pipe_chan list" where
  "piperead killed n p =
     (if pipe_empty p \<and> writeopen p then
        if killed then (p, [], Returns (-1), []) else (p, [], Sleeps, [])
      else let (bs, p') = piperead_copy (nat n) p
           in (p', bs, Returns (int (length bs)), [Chan_nwrite]))"

text \<open>
  \<open>pipeclose\<close>: the new pipe, the channel woken, and whether the page is freed.
\<close>

definition pipeclose :: "bool \<Rightarrow> pipe \<Rightarrow> pipe \<times> pipe_chan \<times> bool" where
  "pipeclose writable p =
     (let (p', c) = (if writable then (p\<lparr>writeopen := False\<rparr>, Chan_nread)
                     else (p\<lparr>readopen := False\<rparr>, Chan_nwrite))
      in (p', c, \<not> readopen p' \<and> \<not> writeopen p'))"

section \<open>The ring buffer is a bounded queue\<close>

definition pipe_inv :: "pipe \<Rightarrow> bool" where
  "pipe_inv p \<longleftrightarrow> length (pipe_data p) = PIPESIZE \<and> unat (nwrite p - nread p) \<le> PIPESIZE"

definition pipe_contents :: "pipe \<Rightarrow> u8 list" where
  "pipe_contents p = ring_contents PIPESIZE (pipe_data p) (nread p) (nwrite p)"

lemma length_pipe_contents [simp]: "length (pipe_contents p) = unat (nwrite p - nread p)"
  by (simp add: pipe_contents_def)

lemma pipe_full_iff: "pipe_full p \<longleftrightarrow> unat (nwrite p - nread p) = PIPESIZE"
proof -
  have "nwrite p = nread p + 512 \<longleftrightarrow> nwrite p - nread p = (512 :: u32)" by (auto simp: algebra_simps)
  also have "\<dots> \<longleftrightarrow> unat (nwrite p - nread p) = 512"
    by (simp add: word_unat_eq_iff)
  finally show ?thesis by (simp add: pipe_full_def PIPESIZE_def)
qed

lemma pipe_empty_iff: "pipe_empty p \<longleftrightarrow> unat (nwrite p - nread p) = 0"
  by (auto simp: pipe_empty_def unat_eq_0)

interpretation pq: bounded_fifo pipe_inv pipe_contents PIPESIZE pipe_full pipe_empty pipe_put pipe_get
proof unfold_locales
  fix q b
  assume inv: "pipe_inv q" and room: "\<not> pipe_full q"
  then have lt: "unat (nwrite q - nread q) < PIPESIZE" by (simp add: pipe_inv_def pipe_full_iff)
  have "unat (nwrite q + 1 - nread q) = unat (nwrite q - nread q) + 1"
    using u32_plus_1[of "nwrite q - nread q"] lt by (simp add: PIPESIZE_def algebra_simps)
  then show "pipe_inv (pipe_put q b)" using inv lt by (simp add: pipe_inv_def pipe_put_def)
  show "pipe_contents (pipe_put q b) = pipe_contents q @ [b]"
    using inv lt ring_contents_put[of PIPESIZE "nwrite q" "nread q" "pipe_data q" b]
    by (simp add: pipe_contents_def pipe_put_def pipe_inv_def PIPESIZE_def)
next
  fix q
  assume inv: "pipe_inv q" and ne: "\<not> pipe_empty q"
  show "pipe_contents q = fst (pipe_get q) # pipe_contents (snd (pipe_get q))"
    using ne ring_contents_get[of "nwrite q" "nread q"]
    by (simp add: pipe_contents_def pipe_get_def pipe_empty_def)
  have "unat (nwrite q - nread q) = Suc (unat (nwrite q - (nread q + 1)))"
    using ne by (intro unat_diff_Suc) (auto simp: pipe_empty_def)
  then show "pipe_inv (snd (pipe_get q))" using inv by (simp add: pipe_inv_def pipe_get_def)
next
  fix q
  assume inv: "pipe_inv q"
  show "pipe_empty q \<longleftrightarrow> pipe_contents q = []" by (simp add: pipe_empty_iff flip: length_0_conv)
  show "pipe_full q \<longleftrightarrow> length (pipe_contents q) = PIPESIZE" by (simp add: pipe_full_iff)
  show "length (pipe_contents q) \<le> PIPESIZE" using inv by (simp add: pipe_inv_def)
qed

lemma piperead_copy_drain: "piperead_copy n p = pq.drain n p"
  by (induction n arbitrary: p) (auto simp: Let_def split: prod.splits)

section \<open>What one segment does\<close>

lemma pipewrite_spec:
  assumes "pipe_inv p" and "pipewrite killed addr n p i rem = (p', i', e, cs)"
  shows "pipe_inv p' \<and> i \<le> i' \<and> i' \<le> i + rem \<and>
         pipe_contents p' = pipe_contents p @ map addr [i..<i']"
  using assms
proof (induction rem arbitrary: p i)
  case (Suc rem)
  show ?case
  proof (cases "pipe_full p")
    case False
    have inv: "pipe_inv (pipe_put p (addr i))" using False Suc.prems(1) by (rule pq.invar_put[rotated])
    have "i < i' \<Longrightarrow> [i..<i'] = i # [Suc i..<i']" by (rule upt_conv_Cons)
    then show ?thesis
      using Suc.IH[OF inv, of "Suc i"] Suc.prems False pq.contents_put[of p "addr i"]
      by (auto simp: pipe_put_def Suc_le_eq)
  qed (use Suc.prems in \<open>auto split: if_splits\<close>)
qed auto

lemma pipewrite_frame:
  "pipewrite killed addr n p i rem = (p', i', e, cs) \<Longrightarrow> readopen p' = readopen p \<and> writeopen p' = writeopen p"
  by (induction killed addr n p i rem rule: pipewrite.induct)
    (auto split: if_splits simp: pipe_put_def)

lemma pipewrite_ends:
  "pipewrite killed addr n p i rem = (p', i', e, cs) \<Longrightarrow>
   e = Returns n \<and> i' = i + rem \<and> cs = [Chan_nread] \<or>
   i' < i + rem \<and> pipe_full p' \<and>
     (e = Returns (-1) \<and> cs = [] \<and> (\<not> readopen p \<or> killed) \<or>
      e = Sleeps \<and> cs = [Chan_nread] \<and> readopen p \<and> \<not> killed)"
  by (induction killed addr n p i rem rule: pipewrite.induct)
    (auto split: if_splits simp: pipe_put_def)

lemma piperead_copy_spec:
  assumes "pipe_inv p" and "piperead_copy n p = (bs, p')"
  shows "pipe_inv p' \<and> bs = take n (pipe_contents p) \<and> pipe_contents p' = drop n (pipe_contents p)"
  using pq.drain_takes_prefix[OF assms(1)] assms(2) by (simp add: piperead_copy_drain)

lemma piperead_copy_frame:
  "piperead_copy n p = (bs, p') \<Longrightarrow> nwrite p' = nwrite p \<and> readopen p' = readopen p \<and> writeopen p' = writeopen p"
  by (induction n arbitrary: p bs) (fastforce split: if_splits prod.splits simp: pipe_get_def Let_def)+

section \<open>Interleaving readers and writers\<close>

text \<open>
  A writer is a call \<open>pipewrite(p, addr, n)\<close> that has copied \<open>i\<close> bytes; a reader is a call
  \<open>piperead(p, _, n)\<close>. \<open>written\<close> and \<open>delivered\<close> record the bytes that entered and left the pipe.
\<close>

type_synonym writer = "(nat \<Rightarrow> u8) \<times> int \<times> nat"

record pipe_sys =
  sys_pipe :: pipe
  w_run :: "writer list"
  w_sleep :: "writer list"
  r_run :: "int list"
  r_sleep :: "int list"
  written :: "u8 list"
  delivered :: "u8 list"

definition pipe_wakeup :: "pipe_chan list \<Rightarrow> pipe_sys \<Rightarrow> pipe_sys" where
  "pipe_wakeup cs s =
     s\<lparr>r_run := (if Chan_nread \<in> set cs then r_run s @ r_sleep s else r_run s),
       r_sleep := (if Chan_nread \<in> set cs then [] else r_sleep s),
       w_run := (if Chan_nwrite \<in> set cs then w_run s @ w_sleep s else w_run s),
       w_sleep := (if Chan_nwrite \<in> set cs then [] else w_sleep s)\<rparr>"

text \<open>\<open>pipe_step K\<close>: one atomic step; processes can be killed only if \<open>K\<close>.\<close>

inductive pipe_step :: "bool \<Rightarrow> pipe_sys \<Rightarrow> pipe_sys \<Rightarrow> bool" for K where
  call_write: "writeopen (sys_pipe s) \<Longrightarrow> pipe_step K s (s\<lparr>w_run := (addr, n, 0) # w_run s\<rparr>)"
| call_read: "readopen (sys_pipe s) \<Longrightarrow> pipe_step K s (s\<lparr>r_run := n # r_run s\<rparr>)"
| run_write:
    "w_run s = us @ (addr, n, i) # vs \<Longrightarrow> (killed \<Longrightarrow> K) \<Longrightarrow>
     pipewrite killed addr n (sys_pipe s) i (nat n - i) = (p', i', e, cs) \<Longrightarrow>
     pipe_step K s (pipe_wakeup cs (s\<lparr>sys_pipe := p', w_run := us @ vs,
       w_sleep := (if e = Sleeps then (addr, n, i') # w_sleep s else w_sleep s),
       written := written s @ map addr [i..<i']\<rparr>))"
| run_read:
    "r_run s = us @ n # vs \<Longrightarrow> (killed \<Longrightarrow> K) \<Longrightarrow>
     piperead killed n (sys_pipe s) = (p', bs, e, cs) \<Longrightarrow>
     pipe_step K s (pipe_wakeup cs (s\<lparr>sys_pipe := p', r_run := us @ vs,
       r_sleep := (if e = Sleeps then n # r_sleep s else r_sleep s),
       delivered := delivered s @ bs\<rparr>))"
| close_write:
    "w_run s = [] \<Longrightarrow> w_sleep s = [] \<Longrightarrow> pipeclose True (sys_pipe s) = (p', c, f) \<Longrightarrow>
     pipe_step K s (pipe_wakeup [c] (s\<lparr>sys_pipe := p'\<rparr>))"
| close_read:
    "r_run s = [] \<Longrightarrow> r_sleep s = [] \<Longrightarrow> pipeclose False (sys_pipe s) = (p', c, f) \<Longrightarrow>
     pipe_step K s (pipe_wakeup [c] (s\<lparr>sys_pipe := p'\<rparr>))"

definition pipe_start :: "u8 list \<Rightarrow> pipe_sys" where
  "pipe_start old =
     \<lparr>sys_pipe = pipe_init old, w_run = [], w_sleep = [], r_run = [], r_sleep = [],
      written = [], delivered = []\<rparr>"

inductive pipe_reach :: "bool \<Rightarrow> pipe_sys \<Rightarrow> bool" for K where
  start: "length old = PIPESIZE \<Longrightarrow> pipe_reach K (pipe_start old)"
| step: "pipe_reach K s \<Longrightarrow> pipe_step K s t \<Longrightarrow> pipe_reach K t"

lemma pipe_wakeup_simps [simp]:
  "sys_pipe (pipe_wakeup cs s) = sys_pipe s"
  "written (pipe_wakeup cs s) = written s"
  "delivered (pipe_wakeup cs s) = delivered s"
  "w_sleep (pipe_wakeup cs s) = (if Chan_nwrite \<in> set cs then [] else w_sleep s)"
  "r_sleep (pipe_wakeup cs s) = (if Chan_nread \<in> set cs then [] else r_sleep s)"
  "w_run (pipe_wakeup cs s) = (if Chan_nwrite \<in> set cs then w_run s @ w_sleep s else w_run s)"
  "r_run (pipe_wakeup cs s) = (if Chan_nread \<in> set cs then r_run s @ r_sleep s else r_run s)"
  by (simp_all add: pipe_wakeup_def)

text \<open>First-in first-out: what left the pipe followed by what is in it is what entered it.\<close>

definition pipe_fifo :: "pipe_sys \<Rightarrow> bool" where
  "pipe_fifo s \<longleftrightarrow> pipe_inv (sys_pipe s) \<and> delivered s @ pipe_contents (sys_pipe s) = written s"

lemma pipe_contents_cong: "pipe_data p = pipe_data q \<Longrightarrow> nread p = nread q \<Longrightarrow> nwrite p = nwrite q \<Longrightarrow>
  pipe_contents p = pipe_contents q \<and> pipe_inv p = pipe_inv q"
  by (simp add: pipe_contents_def pipe_inv_def)

lemma piperead_spec:
  assumes "pipe_inv p" and "piperead killed n p = (p', bs, e, cs)"
  shows "pipe_inv p' \<and> pipe_contents p = bs @ pipe_contents p' \<and> length bs \<le> nat n"
proof (cases "pipe_empty p \<and> writeopen p")
  case False
  obtain bs' q where c: "piperead_copy (nat n) p = (bs', q)" by (cases "piperead_copy (nat n) p")
  then show ?thesis
    using piperead_copy_spec[OF assms(1) c] False assms(2) by (auto simp: piperead_def)
qed (use assms in \<open>auto simp: piperead_def split: if_splits\<close>)

lemma pipe_step_fifo: "pipe_step K s t \<Longrightarrow> pipe_fifo s \<Longrightarrow> pipe_fifo t"
proof (induction rule: pipe_step.induct)
  case (run_write s us addr n i vs killed p' i' e cs)
  then show ?case
    using pipewrite_spec[OF _ run_write.hyps(3)] by (auto simp: pipe_fifo_def)
next
  case (run_read s us n vs killed p' bs e cs)
  then show ?case
    using piperead_spec[OF _ run_read.hyps(3)] by (auto simp: pipe_fifo_def)
qed (auto simp: pipe_fifo_def pipeclose_def pipe_contents_def pipe_inv_def)

lemma pipe_start_fifo: "length old = PIPESIZE \<Longrightarrow> pipe_fifo (pipe_start old)"
  by (simp add: pipe_fifo_def pipe_start_def pipe_init_def pipe_inv_def pipe_contents_def ring_contents_def)

text \<open>Sleeping writers wait for room; sleeping readers wait for bytes.\<close>

definition writers_wait :: "pipe_sys \<Rightarrow> bool" where
  "writers_wait s \<longleftrightarrow> (w_sleep s \<noteq> [] \<longrightarrow> pipe_full (sys_pipe s) \<and> readopen (sys_pipe s))"

definition readers_wait :: "pipe_sys \<Rightarrow> bool" where
  "readers_wait s \<longleftrightarrow>
     (r_sleep s \<noteq> [] \<longrightarrow> pipe_empty (sys_pipe s) \<and> writeopen (sys_pipe s)) \<and>
     (r_run s \<noteq> [] \<or> r_sleep s \<noteq> [] \<longrightarrow> readopen (sys_pipe s))"

lemma pipewrite_full: "pipe_full p \<Longrightarrow> pipewrite killed addr n p i rem = (p', i', e, cs) \<Longrightarrow> p' = p"
  by (cases rem) (auto split: if_splits)

lemma piperead_ends:
  "piperead killed n p = (p', bs, e, cs) \<Longrightarrow>
   p' = p \<and> pipe_empty p \<and> writeopen p \<and> (e = Sleeps \<or> killed) \<or>
   \<not> (pipe_empty p \<and> writeopen p) \<and> cs = [Chan_nwrite] \<and> e \<noteq> Sleeps \<and> readopen p' = readopen p"
  by (auto simp: piperead_def split: if_splits prod.splits dest: piperead_copy_frame)

lemma pipe_step_writers_wait: "pipe_step K s t \<Longrightarrow> writers_wait s \<Longrightarrow> writers_wait t"
proof (induction rule: pipe_step.induct)
  case (run_write s us addr n i vs killed p' i' e cs)
  then show ?case
    using pipewrite_frame[OF run_write.hyps(3)] pipewrite_ends[OF run_write.hyps(3)] pipewrite_full[OF _ run_write.hyps(3)]
    by (auto simp: writers_wait_def split: if_splits)
next
  case (run_read s us n vs killed p' bs e cs)
  then show ?case
    using piperead_ends[OF run_read.hyps(3)] by (auto simp: writers_wait_def)
qed (auto simp: writers_wait_def pipeclose_def)

lemma pipe_step_readers_wait: "pipe_step False s t \<Longrightarrow> readers_wait s \<Longrightarrow> readers_wait t"
proof (induction rule: pipe_step.induct)
  case (run_write s us addr n i vs killed p' i' e cs)
  then show ?case
    using pipewrite_frame[OF run_write.hyps(3)] pipewrite_ends[OF run_write.hyps(3)]
    by (auto simp: readers_wait_def)
next
  case (run_read s us n vs killed p' bs e cs)
  then show ?case
    using piperead_ends[OF run_read.hyps(3)] by (auto simp: readers_wait_def)
qed (auto simp: readers_wait_def pipeclose_def)

lemma pipe_reach_induct_inv:
  assumes "pipe_reach K s" and "\<And>old. length old = PIPESIZE \<Longrightarrow> I (pipe_start old)"
    and "\<And>s t. pipe_step K s t \<Longrightarrow> I s \<Longrightarrow> I t"
  shows "I s"
  using assms(1) by (induction rule: pipe_reach.induct) (auto intro: assms(2,3))

lemma pipe_reach_fifo: "pipe_reach K s \<Longrightarrow> pipe_fifo s"
  by (erule pipe_reach_induct_inv) (auto intro: pipe_start_fifo pipe_step_fifo)

lemma pipe_reach_writers_wait: "pipe_reach K s \<Longrightarrow> writers_wait s"
  by (erule pipe_reach_induct_inv[where I = writers_wait], simp add: writers_wait_def pipe_start_def)
    (rule pipe_step_writers_wait)

lemma pipe_reach_readers_wait: "pipe_reach False s \<Longrightarrow> readers_wait s"
  by (erule pipe_reach_induct_inv[where I = readers_wait], simp add: readers_wait_def pipe_start_def)
    (rule pipe_step_readers_wait)

section \<open>Properties\<close>

text \<open>
  C15. Whatever the interleaving of readers, writers, kills and closes, the bytes delivered by
  \<open>piperead\<close> followed by the bytes still in the buffer are exactly the bytes accepted by
  \<open>pipewrite\<close>, in order; and the buffer never holds more than \<open>PIPESIZE\<close> bytes. The counters
  are 32-bit and wrap around.
\<close>

theorem pipe_is_fifo:
  assumes "pipe_reach K s"
  shows "delivered s @ pipe_contents (sys_pipe s) = written s \<and>
         length (pipe_contents (sys_pipe s)) \<le> PIPESIZE"
  using pipe_reach_fifo[OF assms] by (simp add: pipe_fifo_def pipe_inv_def)

definition pipe_demo_w :: "nat \<Rightarrow> u8" where
  "pipe_demo_w i = of_nat (i + 1)"

lemma pipe_demo_reach:
  "\<exists>s. pipe_reach True s \<and> written s = [1, 2, 3] \<and> delivered s = [1, 2] \<and> w_sleep s = []"
proof -
  let ?s0 = "pipe_start (replicate 512 0)"
  let ?s1 = "?s0\<lparr>w_run := [(pipe_demo_w, 3, 0)]\<rparr>"
  have r0: "pipe_reach True ?s0" by (rule pipe_reach.start) (simp add: PIPESIZE_def)
  have r1: "pipe_reach True ?s1"
    using pipe_reach.step[OF r0 pipe_step.call_write[of ?s0 True pipe_demo_w 3]]
    by (simp add: pipe_start_def pipe_init_def)
  obtain p2 i2 e2 cs2 where w: "pipewrite False pipe_demo_w 3 (sys_pipe ?s1) 0 3 = (p2, i2, e2, cs2)"
    by (metis prod_cases4)
  have inv0: "pipe_inv (sys_pipe ?s1)" and len0: "pipe_contents (sys_pipe ?s1) = []"
    by (simp_all add: pipe_start_def pipe_init_def pipe_inv_def PIPESIZE_def pipe_contents_def ring_contents_def)
  have spec: "pipe_inv p2" "i2 \<le> 3" "pipe_contents p2 = map pipe_demo_w [0..<i2]"
    using pipewrite_spec[OF inv0 w] len0 by simp_all
  have i2: "i2 = 3"
    using pipewrite_ends[OF w] spec pq.full_iff[OF spec(1)] by (auto simp: PIPESIZE_def)
  let ?s2 = "pipe_wakeup cs2 (?s1\<lparr>sys_pipe := p2, w_run := [], w_sleep := [], written := [1, 2, 3]\<rparr>)"
  have e2: "e2 \<noteq> Sleeps" using pipewrite_ends[OF w] i2 by auto
  have m3: "map pipe_demo_w [0..<3] = [1, 2, 3]" by (simp add: pipe_demo_w_def upt_rec)
  have r2: "pipe_reach True ?s2"
    using pipe_reach.step[OF r1 pipe_step.run_write[of ?s1 "[]" pipe_demo_w 3 0 "[]" False True p2 i2 e2 cs2]] w i2 e2 m3
    by (simp add: pipe_start_def)
  let ?s3 = "?s2\<lparr>r_run := 2 # r_run ?s2\<rparr>"
  have "readopen p2" using pipewrite_frame[OF w] by (simp add: pipe_start_def pipe_init_def)
  then have r3: "pipe_reach True ?s3"
    using pipe_reach.step[OF r2 pipe_step.call_read[of ?s2 True 2]] by simp
  obtain p4 bs e4 cs4 where r: "piperead False 2 p2 = (p4, bs, e4, cs4)" by (metis prod_cases4)
  have ne: "\<not> pipe_empty p2" using spec pq.empty_iff[OF spec(1)] i2 by simp
  then have bs: "bs = [1, 2]" and e4: "e4 \<noteq> Sleeps"
    using r piperead_copy_spec[OF spec(1), of "nat 2"] spec(3) i2 m3
    by (auto simp: piperead_def split: prod.splits)
  have "pipe_reach True (pipe_wakeup cs4 (?s3\<lparr>sys_pipe := p4, r_run := [] @ r_run ?s2,
          r_sleep := (if e4 = Sleeps then 2 # r_sleep ?s3 else r_sleep ?s3), delivered := delivered ?s3 @ bs\<rparr>))"
    by (rule pipe_reach.step[OF r3], rule pipe_step.run_read[where killed = False]) (simp_all add: r)
  then show ?thesis
    using bs e4 by (intro exI conjI) (assumption, simp_all add: pipe_start_def)
qed

theorem pipe_is_fifo_witness:
  "\<exists>s. pipe_reach True s \<and> written s = [1, 2, 3] \<and> delivered s = [1, 2] \<and>
       pipe_contents (sys_pipe s) = [3]"
proof -
  obtain s where s: "pipe_reach True s" "written s = [1, 2, 3]" "delivered s = [1, 2]"
    using pipe_demo_reach by blast
  show ?thesis using pipe_is_fifo[OF s(1)] s by (intro exI[of _ s]) simp
qed

text \<open>
  C31. A sleeping process always waits for a reason that still holds. A writer asleep in \<open>pipewrite\<close>
  means the pipe is full and its read end open; as long as no process is killed inside the pipe,
  a reader asleep in \<open>piperead\<close> means the pipe is empty and its write end open. So no wakeup is lost.
\<close>

theorem pipe_no_lost_wakeup:
  assumes "pipe_reach False s"
  shows "(w_sleep s \<noteq> [] \<longrightarrow> pipe_full (sys_pipe s) \<and> readopen (sys_pipe s)) \<and>
         (r_sleep s \<noteq> [] \<longrightarrow> pipe_empty (sys_pipe s) \<and> writeopen (sys_pipe s))"
  using pipe_reach_writers_wait[OF assms] pipe_reach_readers_wait[OF assms]
  by (simp add: writers_wait_def readers_wait_def)

text \<open>Writing 513 bytes into an empty pipe stops at 512.\<close>

lemma pipewrite_overfull:
  assumes "pipe_inv p" and "pipe_contents p = []" and "readopen p"
  obtains p' where "pipewrite killed addr 513 p 0 513 =
      (p', 512, if killed then Returns (-1) else Sleeps, if killed then [] else [Chan_nread])"
    and "pipe_full p'" and "pipe_inv p'"
proof -
  obtain p' i' e cs where w: "pipewrite killed addr 513 p 0 513 = (p', i', e, cs)" by (metis prod_cases4)
  have sp: "pipe_inv p'" "i' \<le> 513" "pipe_contents p' = map addr [0..<i']"
    using pipewrite_spec[OF assms(1) w] assms(2) by simp_all
  have "i' \<le> 512" using pq.within_capacity[OF sp(1)] sp(3) by (simp add: PIPESIZE_def)
  moreover from this have f: "pipe_full p'" using pipewrite_ends[OF w] by auto
  ultimately have "i' = 512" using pq.full_iff[OF sp(1)] sp(3) by (simp add: PIPESIZE_def)
  with w pipewrite_ends[OF w] assms(3) have "pipewrite killed addr 513 p 0 513 =
      (p', 512, if killed then Returns (-1) else Sleeps, if killed then [] else [Chan_nread])"
    by auto
  then show ?thesis using that f sp(1) by blast
qed

abbreviation pipe_s0 :: pipe_sys where
  "pipe_s0 \<equiv> pipe_start (replicate 512 0)"

lemma pipe_s0_reach: "pipe_reach K pipe_s0"
  by (rule pipe_reach.start) (simp add: PIPESIZE_def)

lemma pipe_s0_facts:
  "pipe_inv (sys_pipe pipe_s0)" "pipe_contents (sys_pipe pipe_s0) = []"
  "readopen (sys_pipe pipe_s0)" "writeopen (sys_pipe pipe_s0)" "pipe_empty (sys_pipe pipe_s0)"
  by (simp_all add: pipe_start_def pipe_init_def pipe_inv_def PIPESIZE_def
      pipe_contents_def ring_contents_def pipe_empty_def)

theorem pipe_no_lost_wakeup_witness:
  "\<exists>s. pipe_reach False s \<and> w_sleep s \<noteq> [] \<and> pipe_full (sys_pipe s) \<and> readopen (sys_pipe s)"
proof -
  let ?s1 = "pipe_s0\<lparr>w_run := [(pipe_demo_w, 513, 0)]\<rparr>"
  have r1: "pipe_reach False ?s1"
    using pipe_reach.step[OF pipe_s0_reach pipe_step.call_write[OF pipe_s0_facts(4), of False pipe_demo_w 513]]
    by (simp add: pipe_start_def)
  obtain p' where w: "pipewrite False pipe_demo_w 513 (sys_pipe ?s1) 0 (nat 513 - 0) = (p', 512, Sleeps, [Chan_nread])"
    using pipewrite_overfull[of "sys_pipe ?s1" False pipe_demo_w] pipe_s0_facts by auto
  let ?s2 = "pipe_wakeup [Chan_nread] (?s1\<lparr>sys_pipe := p', w_run := [] @ [],
       w_sleep := (if Sleeps = Sleeps then (pipe_demo_w, 513, 512) # w_sleep ?s1 else w_sleep ?s1),
       written := written ?s1 @ map pipe_demo_w [0..<512]\<rparr>)"
  have "pipe_reach False ?s2"
    by (rule pipe_reach.step[OF r1], rule pipe_step.run_write[OF _ _ w]) simp_all
  then show ?thesis using pipe_no_lost_wakeup[of ?s2] by (intro exI[of _ ?s2]) simp
qed

text \<open>
  The guarantee fails when a writer is killed: \<open>pipewrite\<close> then returns -1 on finding the pipe
  full without the \<open>wakeup(&p->nread)\<close> its other exits perform. There is a reachable state in
  which a reader sleeps although the pipe holds 512 bytes, its write end is open, and no process
  is left that could wake it.
\<close>

theorem killed_writer_loses_wakeup:
  "\<exists>s. pipe_reach True s \<and> r_sleep s \<noteq> [] \<and> pipe_full (sys_pipe s) \<and> writeopen (sys_pipe s) \<and>
       r_run s = [] \<and> w_run s = [] \<and> w_sleep s = []"
proof -
  let ?s1 = "pipe_s0\<lparr>r_run := [1]\<rparr>"
  have r1: "pipe_reach True ?s1"
    using pipe_reach.step[OF pipe_s0_reach pipe_step.call_read[OF pipe_s0_facts(3), of True 1]]
    by (simp add: pipe_start_def)
  have rd: "piperead False 1 (sys_pipe ?s1) = (sys_pipe ?s1, [], Sleeps, [])"
    using pipe_s0_facts(4,5) by (simp add: piperead_def)
  let ?s2 = "pipe_s0\<lparr>r_sleep := [1]\<rparr>"
  have r2: "pipe_reach True ?s2"
    using pipe_reach.step[OF r1 pipe_step.run_read[of ?s1 "[]" 1 "[]" False True, OF _ _ rd]]
    by (simp add: pipe_start_def pipe_wakeup_def)
  let ?s3 = "?s2\<lparr>w_run := [(pipe_demo_w, 513, 0)]\<rparr>"
  have r3: "pipe_reach True ?s3"
    using pipe_reach.step[OF r2 pipe_step.call_write[of ?s2 True pipe_demo_w 513]] pipe_s0_facts(4)
    by (simp add: pipe_start_def)
  obtain p' where w: "pipewrite True pipe_demo_w 513 (sys_pipe ?s3) 0 (nat 513 - 0) = (p', 512, Returns (-1), [])"
    and f: "pipe_full p'"
    using pipewrite_overfull[of "sys_pipe ?s3" True pipe_demo_w] pipe_s0_facts by auto
  let ?s4 = "pipe_wakeup [] (?s3\<lparr>sys_pipe := p', w_run := [] @ [],
       w_sleep := (if Returns (-1) = Sleeps then (pipe_demo_w, 513, 512) # w_sleep ?s3 else w_sleep ?s3),
       written := written ?s3 @ map pipe_demo_w [0..<512]\<rparr>)"
  have "pipe_reach True ?s4"
    by (rule pipe_reach.step[OF r3], rule pipe_step.run_write[OF _ _ w]) simp_all
  moreover have "writeopen p'" using pipewrite_frame[OF w] pipe_s0_facts(4) by simp
  ultimately show ?thesis
    using f by (intro exI[of _ ?s4]) (simp add: pipe_start_def)
qed

end
