(* ===== verification/Rpc.thy ===== *)
theory Rpc
  imports Prelude
begin

text \<open>
  The remote procedure calls of project 8: the server loop and its worker threads
  (\<open>src/P8/server.c\<close>), the key-value store (\<open>src/P8/server_functions.c\<close>), and the retrying client
  (\<open>src/P8/client.c\<close>).

  A datagram carries one \<open>struct st_payload\<close>; the server reads its first eight words. Sockets are
  the parameter of a packet that says where a reply goes; \<open>sendto\<close> appends to the outbox, and
  what \<open>recvfrom\<close> delivers is arbitrary, so loss, duplication and reordering are all covered.
  A worker thread takes two steps, the store operation and then the publication of its result,
  with the server loop and other threads interleaved in any way. Memory that the program leaves
  uninitialised is a parameter.
\<close>

section \<open>Data\<close>

record st_payload =
  funcType :: int
  clientId :: int
  seqNumber :: int
  rtime :: int
  rkey :: int
  rvalue :: int
  rack :: int
  returnValue :: int
  hasRequested :: int

record packet =
  pk_sock :: nat
  pk_buf :: st_payload

definition NUMKEYS :: nat where
  "NUMKEYS = 1024"

datatype thread = Started packet | Executed packet int

record server =
  payloadTable :: "st_payload list"
  datastore :: "int list"
  threads :: "thread list"
  outbox :: "packet list"

section \<open>The store\<close>

definition get :: "int list \<Rightarrow> int \<Rightarrow> int outcome" where
  "get ds key = (if key > int NUMKEYS \<or> key < 0 then Ret (-1) else aget ds key)"

definition put :: "int list \<Rightarrow> int \<Rightarrow> int \<Rightarrow> (int \<times> int list) outcome" where
  "put ds key v =
     (if key > int NUMKEYS \<or> key < 0 then Ret (-1, ds)
      else bindO (aset ds key v) (\<lambda>ds'. Ret (0, ds')))"

section \<open>The server\<close>

text \<open>
  The table the server starts from: \<open>clientId = -1\<close> in every entry, the other fields of the stack
  array uninitialised.
\<close>

definition server_init :: "st_payload list \<Rightarrow> server" where
  "server_init junk =
     \<lparr>payloadTable = map (\<lambda>e. e\<lparr>clientId := -1\<rparr>) junk, datastore = replicate NUMKEYS 0,
      threads = [], outbox = []\<rparr>"

text \<open>The entry written for a client that is not in the table yet.\<close>

definition new_entry :: "st_payload \<Rightarrow> st_payload \<Rightarrow> st_payload" where
  "new_entry b e =
     e\<lparr>funcType := funcType b, clientId := clientId b, seqNumber := 0, rtime := rtime b,
       rkey := rkey b, rvalue := rvalue b, rack := rack b, returnValue := returnValue b\<rparr>"

text \<open>One iteration of the server loop on a received packet.\<close>

definition server_recv :: "server \<Rightarrow> packet \<Rightarrow> server outcome" where
  "server_recv s pk =
     (let b = pk_buf pk; c = clientId b;
          numClient = find_index (\<lambda>e. clientId e = c) (payloadTable s)
      in
      bindO (if numClient = None
             then bindO (aget (payloadTable s) c) (\<lambda>e. aset (payloadTable s) c (new_entry b e))
             else Ret (payloadTable s)) (\<lambda>tab.
      bindO (aget tab c) (\<lambda>e.
      if seqNumber e < seqNumber b then
        bindO (aset tab c (e\<lparr>seqNumber := seqNumber b\<rparr>)) (\<lambda>tab'.
        Ret (s\<lparr>payloadTable := tab', threads := threads s @ [Started pk]\<rparr>))
      else if seqNumber e = seqNumber b then
        Ret (s\<lparr>payloadTable := tab,
               outbox := outbox s @ [pk\<lparr>pk_buf := b\<lparr>rack := 1, returnValue := returnValue e\<rparr>\<rparr>]\<rparr>)
      else Ret (s\<lparr>payloadTable := tab\<rparr>))))"

text \<open>
  The two steps of \<open>threadTasks\<close>: the operation selected by \<open>attr[0]\<close> with its return value, and
  the update of the table followed by the reply.
\<close>

definition thread_op :: "int list \<Rightarrow> st_payload \<Rightarrow> (int \<times> int list) outcome" where
  "thread_op ds b =
     (if funcType b = 1 then Ret (0, ds)
      else if funcType b = 2 then bindO (get ds (rkey b)) (\<lambda>v. Ret (v, ds))
      else if funcType b = 3 then bindO (put ds (rkey b) (rvalue b)) (\<lambda>(_, ds'). Ret (0, ds'))
      else Ret (0, ds))"

definition thread_reply :: "server \<Rightarrow> packet \<Rightarrow> int \<Rightarrow> server outcome" where
  "thread_reply s pk retVal =
     (let b = pk_buf pk in
      bindO (if funcType b = 2
             then bindO (aget (payloadTable s) (clientId b)) (\<lambda>e.
                  aset (payloadTable s) (clientId b) (e\<lparr>returnValue := retVal\<rparr>))
             else Ret (payloadTable s)) (\<lambda>tab.
      Ret (s\<lparr>payloadTable := tab,
             outbox := outbox s @ [pk\<lparr>pk_buf := b\<lparr>rack := 0, returnValue := retVal\<rparr>\<rparr>]\<rparr>)))"

text \<open>A step of the \<open>i\<close>-th live thread; a finished thread disappears.\<close>

definition thread_step :: "server \<Rightarrow> nat \<Rightarrow> server outcome" where
  "thread_step s i =
     bindO (aget (threads s) (int i)) (\<lambda>t. case t of
        Started pk \<Rightarrow>
          bindO (thread_op (datastore s) (pk_buf pk)) (\<lambda>(v, ds).
          Ret (s\<lparr>datastore := ds, threads := (threads s)[i := Executed pk v]\<rparr>))
      | Executed pk v \<Rightarrow>
          thread_reply (s\<lparr>threads := take i (threads s) @ drop (Suc i) (threads s)\<rparr>) pk v)"

section \<open>The client\<close>

record rpc_connection =
  seq_number :: int
  client_id :: int

text \<open>The three requests; \<open>junk\<close> holds the fields a request leaves uninitialised.\<close>

definition idle_payload :: "st_payload \<Rightarrow> rpc_connection \<Rightarrow> int \<Rightarrow> st_payload" where
  "idle_payload junk rpc t =
     junk\<lparr>funcType := 1, rtime := t, clientId := client_id rpc, seqNumber := seq_number rpc,
          rack := 0, rkey := -1, rvalue := -1, returnValue := -1\<rparr>"

definition get_payload :: "st_payload \<Rightarrow> rpc_connection \<Rightarrow> int \<Rightarrow> st_payload" where
  "get_payload junk rpc k =
     junk\<lparr>funcType := 2, rkey := k, clientId := client_id rpc, seqNumber := seq_number rpc,
          rack := 0, rtime := -1, returnValue := -1\<rparr>"

definition put_payload :: "st_payload \<Rightarrow> rpc_connection \<Rightarrow> int \<Rightarrow> int \<Rightarrow> st_payload" where
  "put_payload junk rpc k v =
     junk\<lparr>funcType := 3, clientId := client_id rpc, seqNumber := seq_number rpc, rkey := k,
          rvalue := v, rack := 0, rtime := -1, returnValue := -1\<rparr>"

text \<open>
  What \<open>receive_packet_timeout\<close> returns: the length reported by \<open>recvfrom\<close>, which is -1 after a
  timeout, and the buffer, which \<open>recvfrom\<close> then leaves as it was.
\<close>

record packet_info =
  recv_len :: int
  recv_buf :: st_payload

text \<open>
  Outcome of a call after the given sequence of receives: its value, \<open>exit(1)\<close> after the last
  retry, or still waiting. The number counts the packets sent.
\<close>

datatype rpc_result = Value int | ExitFailure | Waiting

text \<open>The retry loops. \<open>i = 0; continue\<close> continues with \<open>i = 1\<close>, because of the loop's \<open>i++\<close>.\<close>

fun get_loop :: "nat \<Rightarrow> packet_info list \<Rightarrow> rpc_result \<times> nat" where
  "get_loop i rs =
     (if i \<ge> 5 then (ExitFailure, 0)
      else case rs of
        [] \<Rightarrow> (Waiting, 1)
      | r # rs' \<Rightarrow>
          let ret = returnValue (recv_buf r) in
          if rack (recv_buf r) = 1 then
            if ret \<noteq> -1 then (Value ret, 1)
            else apsnd Suc (get_loop 1 rs')
          else if recv_len r = -1 then apsnd Suc (get_loop (Suc i) rs')
          else if rack (recv_buf r) = 0 then (Value ret, 1)
          else apsnd Suc (get_loop (Suc i) rs'))"

fun put_loop :: "nat \<Rightarrow> packet_info list \<Rightarrow> rpc_result \<times> nat" where
  "put_loop i rs =
     (if i \<ge> 5 then (ExitFailure, 0)
      else case rs of
        [] \<Rightarrow> (Waiting, 1)
      | r # rs' \<Rightarrow>
          if rack (recv_buf r) = 1 then (Value (returnValue (recv_buf r)), 1)
          else if recv_len r = -1 then apsnd Suc (put_loop (Suc i) rs')
          else if rack (recv_buf r) = 0 then (Value (returnValue (recv_buf r)), 1)
          else apsnd Suc (put_loop (Suc i) rs'))"

text \<open>\<open>RPC_idle\<close> returns nothing: leaving the loop, by \<open>break\<close> or after the last retry, is \<open>Value 0\<close>.\<close>

fun idle_loop :: "nat \<Rightarrow> packet_info list \<Rightarrow> rpc_result \<times> nat" where
  "idle_loop i rs =
     (if i \<ge> 5 then (Value 0, 0)
      else case rs of
        [] \<Rightarrow> (Waiting, 1)
      | r # rs' \<Rightarrow>
          if rack (recv_buf r) = 1 then apsnd Suc (idle_loop 1 rs')
          else if recv_len r = -1 then apsnd Suc (idle_loop (Suc i) rs')
          else if rack (recv_buf r) = 0 then (Value 0, 1)
          else apsnd Suc (idle_loop (Suc i) rs'))"

declare get_loop.simps [simp del] put_loop.simps [simp del] idle_loop.simps [simp del]

text \<open>
  A call: the request, the connection with its sequence number advanced, and the outcome. The sequence
  number is an \<open>int\<close>: a call with the largest one overflows.
\<close>

definition RPC_get ::
  "st_payload \<Rightarrow> rpc_connection \<Rightarrow> int \<Rightarrow> packet_info list \<Rightarrow>
   (st_payload \<times> rpc_connection \<times> rpc_result \<times> nat) outcome" where
  "RPC_get junk rpc k rs =
     bindO (cint (seq_number rpc + 1)) (\<lambda>n.
     Ret (get_payload junk rpc k, rpc\<lparr>seq_number := n\<rparr>, get_loop 0 rs))"

definition RPC_put ::
  "st_payload \<Rightarrow> rpc_connection \<Rightarrow> int \<Rightarrow> int \<Rightarrow> packet_info list \<Rightarrow>
   (st_payload \<times> rpc_connection \<times> rpc_result \<times> nat) outcome" where
  "RPC_put junk rpc k v rs =
     bindO (cint (seq_number rpc + 1)) (\<lambda>n.
     Ret (put_payload junk rpc k v, rpc\<lparr>seq_number := n\<rparr>, put_loop 0 rs))"

definition RPC_idle ::
  "st_payload \<Rightarrow> rpc_connection \<Rightarrow> int \<Rightarrow> packet_info list \<Rightarrow>
   (st_payload \<times> rpc_connection \<times> rpc_result \<times> nat) outcome" where
  "RPC_idle junk rpc t rs =
     bindO (cint (seq_number rpc + 1)) (\<lambda>n.
     Ret (idle_payload junk rpc t, rpc\<lparr>seq_number := n\<rparr>, idle_loop 0 rs))"

text \<open>\<open>RPC_init\<close>: sequence numbers start at 1, the client id is \<open>rand() % 100\<close> of a random number.\<close>

definition RPC_init :: "nat \<Rightarrow> rpc_connection" where
  "RPC_init rnd = \<lparr>seq_number = 1, client_id = int (rnd mod 100)\<rparr>"

section \<open>The table of clients\<close>

definition table_ok :: "st_payload list \<Rightarrow> bool" where
  "table_ok tab \<longleftrightarrow> length tab = 100 \<and>
     (\<forall>i<100. clientId (tab ! i) = -1 \<or> clientId (tab ! i) = int i \<and> 0 \<le> seqNumber (tab ! i))"

text \<open>The table after the lookup that registers an unknown client.\<close>

definition enter :: "st_payload list \<Rightarrow> st_payload \<Rightarrow> st_payload list" where
  "enter tab b =
     (if clientId (tab ! nat (clientId b)) = clientId b then tab
      else tab[nat (clientId b) := new_entry b (tab ! nat (clientId b))])"

text \<open>A request id that the server has accepted: its client is known and no newer than the entry.\<close>

definition accepted :: "st_payload list \<Rightarrow> int \<times> int \<Rightarrow> bool" where
  "accepted tab x \<longleftrightarrow>
     0 \<le> fst x \<and> fst x < 100 \<and> clientId (tab ! nat (fst x)) = fst x \<and>
     0 < snd x \<and> snd x \<le> seqNumber (tab ! nat (fst x))"

lemma table_ok_length: "table_ok tab \<Longrightarrow> length tab = 100"
  by (simp add: table_ok_def)

lemma lookup_None_iff:
  assumes "table_ok tab" and "0 \<le> c" and "c < 100"
  shows "find_index (\<lambda>e. clientId e = c) tab = None \<longleftrightarrow> clientId (tab ! nat c) \<noteq> c"
proof -
  have "nat c < 100" "int (nat c) = c" using assms(2,3) by auto
  then show ?thesis
    using assms(1) by (auto simp: find_index_None_iff all_set_conv_all_nth table_ok_def)
qed

lemma enter_table_ok: "table_ok tab \<Longrightarrow> 0 \<le> clientId b \<Longrightarrow> table_ok (enter tab b)"
  by (auto simp: table_ok_def enter_def nth_list_update_if new_entry_def)

lemma enter_clientId:
  "table_ok tab \<Longrightarrow> 0 \<le> clientId b \<Longrightarrow> clientId b < 100 \<Longrightarrow>
   clientId (enter tab b ! nat (clientId b)) = clientId b"
  by (auto simp: table_ok_def enter_def new_entry_def)

lemma enter_accepted: "accepted tab x \<Longrightarrow> 0 \<le> clientId b \<Longrightarrow> accepted (enter tab b) x"
  by (auto simp: accepted_def enter_def nth_list_update_if new_entry_def)

lemma enter_seqNumber_nonneg:
  "table_ok tab \<Longrightarrow> 0 \<le> clientId b \<Longrightarrow> clientId b < 100 \<Longrightarrow>
   0 \<le> seqNumber (enter tab b ! nat (clientId b))"
  using enter_table_ok[of tab b] enter_clientId[of tab b]
  by (auto simp: table_ok_def dest!: spec[of _ "nat (clientId b)"])

lemma server_recv_eq:
  assumes ok: "table_ok (payloadTable s)" and c: "0 \<le> clientId (pk_buf pk)" "clientId (pk_buf pk) < 100"
  shows "server_recv s pk =
     (let b = pk_buf pk; tab = enter (payloadTable s) b; e = tab ! nat (clientId b) in
      if seqNumber e < seqNumber b then
        Ret (s\<lparr>payloadTable := tab[nat (clientId b) := e\<lparr>seqNumber := seqNumber b\<rparr>],
               threads := threads s @ [Started pk]\<rparr>)
      else if seqNumber e = seqNumber b then
        Ret (s\<lparr>payloadTable := tab,
               outbox := outbox s @ [pk\<lparr>pk_buf := b\<lparr>rack := 1, returnValue := returnValue e\<rparr>\<rparr>]\<rparr>)
      else Ret (s\<lparr>payloadTable := tab\<rparr>))"
proof -
  let ?b = "pk_buf pk" and ?tab = "payloadTable s"
  have len: "length ?tab = 100" "length (enter ?tab ?b) = 100"
    using ok by (simp_all add: table_ok_def enter_def)
  have reg: "(if find_index (\<lambda>e. clientId e = clientId ?b) ?tab = None
         then bindO (aget ?tab (clientId ?b)) (\<lambda>e. aset ?tab (clientId ?b) (new_entry ?b e))
         else Ret ?tab) = Ret (enter ?tab ?b)"
    using lookup_None_iff[OF ok c] c len by (simp add: enter_def aget_def aset_def)
  show ?thesis
    unfolding server_recv_def Let_def reg using c len by (simp add: aget_def aset_def)
qed

lemma server_recv_range:
  assumes ok: "table_ok (payloadTable s)" and r: "server_recv s pk = Ret s'"
  shows "0 \<le> clientId (pk_buf pk) \<and> clientId (pk_buf pk) < 100"
  using r ok by (auto simp: server_recv_def Let_def table_ok_def split: if_splits dest!: aget_RetD aset_RetD)

section \<open>Every accepted request is executed at most once\<close>

definition request_id :: "packet \<Rightarrow> int \<times> int" where
  "request_id pk = (clientId (pk_buf pk), seqNumber (pk_buf pk))"

fun thread_packet :: "thread \<Rightarrow> packet" where
  "thread_packet (Started pk) = pk"
| "thread_packet (Executed pk v) = pk"

fun pending :: "thread list \<Rightarrow> (int \<times> int) list" where
  "pending [] = []"
| "pending (Started pk # ts) = request_id pk # pending ts"
| "pending (Executed pk v # ts) = pending ts"

lemma pending_append [simp]: "pending (ts @ us) = pending ts @ pending us"
  by (induction ts rule: pending.induct) auto

text \<open>
  All runs of the server, from any uninitialised table, on any sequence of packets and any
  interleaving of its threads; \<open>log\<close> lists the requests whose operation has been executed.
\<close>

inductive srv_reach :: "server \<Rightarrow> (int \<times> int) list \<Rightarrow> bool" where
  init: "length junk = 100 \<Longrightarrow> srv_reach (server_init junk) []"
| recv: "srv_reach s log \<Longrightarrow> server_recv s pk = Ret s' \<Longrightarrow> srv_reach s' log"
| exec: "srv_reach s log \<Longrightarrow> i < length (threads s) \<Longrightarrow> threads s ! i = Started pk \<Longrightarrow>
    thread_step s i = Ret s' \<Longrightarrow> srv_reach s' (log @ [request_id pk])"
| finish: "srv_reach s log \<Longrightarrow> i < length (threads s) \<Longrightarrow> threads s ! i = Executed pk v \<Longrightarrow>
    thread_step s i = Ret s' \<Longrightarrow> srv_reach s' log"

definition rpc_inv :: "server \<Rightarrow> (int \<times> int) list \<Rightarrow> bool" where
  "rpc_inv s log \<longleftrightarrow>
     table_ok (payloadTable s) \<and> length (datastore s) = NUMKEYS \<and>
     distinct (log @ pending (threads s)) \<and>
     (\<forall>x\<in>set (log @ pending (threads s)). accepted (payloadTable s) x)"

lemma rpc_inv_init: "length junk = 100 \<Longrightarrow> rpc_inv (server_init junk) []"
  by (simp add: rpc_inv_def server_init_def table_ok_def)

lemma rpc_inv_recv:
  assumes inv: "rpc_inv s log" and r: "server_recv s pk = Ret s'"
  shows "rpc_inv s' log"
proof -
  let ?b = "pk_buf pk" and ?tab = "enter (payloadTable s) (pk_buf pk)"
  let ?c = "nat (clientId ?b)"
  let ?e = "?tab ! ?c"
  have ok: "table_ok (payloadTable s)" using inv by (simp add: rpc_inv_def)
  have c: "0 \<le> clientId ?b" "clientId ?b < 100" using server_recv_range[OF ok r] by auto
  have ok': "table_ok ?tab" using ok c(1) by (rule enter_table_ok)
  have acc: "\<forall>x\<in>set (log @ pending (threads s)). accepted ?tab x"
    using inv c(1) by (auto simp: rpc_inv_def intro: enter_accepted)
  show ?thesis
  proof (cases "seqNumber ?e < seqNumber ?b")
    case True
    define tab' where "tab' = ?tab[?c := ?e\<lparr>seqNumber := seqNumber ?b\<rparr>]"
    have s': "s' = s\<lparr>payloadTable := tab', threads := threads s @ [Started pk]\<rparr>"
      using r True by (simp add: server_recv_eq[OF ok c] Let_def tab'_def)
    have len: "length ?tab = 100" using ok' by (rule table_ok_length)
    have seq: "0 \<le> seqNumber ?e" using ok c by (rule enter_seqNumber_nonneg)
    have cid: "clientId ?e = clientId ?b" using ok c by (rule enter_clientId)
    have "table_ok tab'"
      using ok' len seq True cid c by (auto simp: table_ok_def tab'_def nth_list_update)
    moreover have "accepted tab' x" if "accepted ?tab x" for x
      using that True len c by (auto simp: accepted_def tab'_def nth_list_update)
    moreover have "accepted tab' (request_id pk)"
      using c len seq True cid by (auto simp: accepted_def tab'_def request_id_def)
    moreover have "request_id pk \<notin> set (log @ pending (threads s))"
    proof
      assume "request_id pk \<in> set (log @ pending (threads s))"
      with acc have "accepted ?tab (request_id pk)" by blast
      with True show False by (simp add: accepted_def request_id_def)
    qed
    ultimately show ?thesis
      using inv acc by (auto simp: rpc_inv_def s')
  next
    case False
    then have "payloadTable s' = ?tab" "threads s' = threads s" "datastore s' = datastore s"
      using r by (auto simp: server_recv_eq[OF ok c] Let_def split: if_splits)
    then show ?thesis using inv acc ok' by (simp add: rpc_inv_def)
  qed
qed

lemma put_length: "put ds k v = Ret (r, ds') \<Longrightarrow> length ds' = length ds"
  by (auto simp: put_def split: if_splits dest!: aset_RetD)

lemma thread_op_length: "thread_op ds b = Ret (r, ds') \<Longrightarrow> length ds' = length ds"
  by (auto simp: thread_op_def split: if_splits prod.splits dest!: put_length)

lemma pending_update:
  assumes "i < length ts" and "ts ! i = Started pk"
  shows "pending ts = pending (take i ts) @ request_id pk # pending (drop (Suc i) ts)"
    and "pending (ts[i := Executed pk v]) = pending (take i ts) @ pending (drop (Suc i) ts)"
proof -
  have "ts = take i ts @ Started pk # drop (Suc i) ts" using assms by (metis id_take_nth_drop)
  then show "pending ts = pending (take i ts) @ request_id pk # pending (drop (Suc i) ts)"
    by (metis pending.simps(2) pending_append)
  show "pending (ts[i := Executed pk v]) = pending (take i ts) @ pending (drop (Suc i) ts)"
    using assms(1) by (simp add: upd_conv_take_nth_drop)
qed

lemma rpc_inv_exec:
  assumes inv: "rpc_inv s log" and i: "i < length (threads s)" "threads s ! i = Started pk"
    and r: "thread_step s i = Ret s'"
  shows "rpc_inv s' (log @ [request_id pk])"
proof -
  obtain v ds where op: "thread_op (datastore s) (pk_buf pk) = Ret (v, ds)"
    and s': "s' = s\<lparr>datastore := ds, threads := (threads s)[i := Executed pk v]\<rparr>"
    using r i by (auto simp: thread_step_def array_simps)
  show ?thesis
    using inv thread_op_length[OF op] pending_update[OF i] by (auto simp: rpc_inv_def s')
qed

lemma rpc_inv_finish:
  assumes inv: "rpc_inv s log" and i: "i < length (threads s)" "threads s ! i = Executed pk v"
    and r: "thread_step s i = Ret s'"
  shows "rpc_inv s' log"
proof -
  let ?ts = "take i (threads s) @ drop (Suc i) (threads s)"
  have "threads s = take i (threads s) @ Executed pk v # drop (Suc i) (threads s)"
    using i by (metis id_take_nth_drop)
  then have p: "pending ?ts = pending (threads s)" by (metis pending.simps(3) pending_append)
  have r': "thread_reply (s\<lparr>threads := ?ts\<rparr>) pk v = Ret s'"
    using r i by (simp add: thread_step_def array_simps)
  have t: "threads s' = ?ts" "datastore s' = datastore s"
    using r' by (auto simp: thread_reply_def Let_def)
  have tab: "payloadTable s' = payloadTable s \<or>
     (\<exists>j<length (payloadTable s). payloadTable s' = (payloadTable s)[j := (payloadTable s ! j)\<lparr>returnValue := v\<rparr>])"
    using r' by (auto simp: thread_reply_def Let_def split: if_splits dest!: aget_RetD aset_RetD)
      (metis nat_less_iff)
  have same: "length (payloadTable s') = length (payloadTable s)"
      "clientId (payloadTable s' ! j) = clientId (payloadTable s ! j)"
      "seqNumber (payloadTable s' ! j) = seqNumber (payloadTable s ! j)" for j
    using tab by (auto simp: nth_list_update_if)
  have ok: "table_ok (payloadTable s')" and acc: "\<And>x. accepted (payloadTable s) x \<Longrightarrow> accepted (payloadTable s') x"
    using inv by (auto simp: rpc_inv_def table_ok_def accepted_def same)
  show ?thesis using inv ok acc by (simp add: rpc_inv_def t p del: pending_append)
qed

lemma srv_reach_inv: "srv_reach s log \<Longrightarrow> rpc_inv s log"
  by (induction rule: srv_reach.induct)
    (blast intro: rpc_inv_init rpc_inv_recv rpc_inv_exec rpc_inv_finish)+

section \<open>Serving one request\<close>

text \<open>
  The server loop receives a packet and the thread it starts, if any, runs to its end: the run
  of a request with no other thread in between.
\<close>

definition serve :: "server \<Rightarrow> packet \<Rightarrow> server outcome" where
  "serve s pk =
     bindO (server_recv s pk) (\<lambda>s1.
     if length (threads s) < length (threads s1) then
       bindO (thread_step s1 (length (threads s))) (\<lambda>s2. thread_step s2 (length (threads s)))
     else Ret s1)"

text \<open>The table entry of a client, as the sequence check sees it.\<close>

definition last_seq :: "st_payload list \<Rightarrow> int \<Rightarrow> int" where
  "last_seq tab c = (if clientId (tab ! nat c) = c then seqNumber (tab ! nat c) else 0)"

lemma enter_last_seq:
  "table_ok tab \<Longrightarrow> 0 \<le> clientId b \<Longrightarrow> clientId b < 100 \<Longrightarrow>
   seqNumber (enter tab b ! nat (clientId b)) = last_seq tab (clientId b)"
  by (auto simp: enter_def last_seq_def new_entry_def table_ok_def)

lemma serve_fresh:
  assumes ok: "table_ok (payloadTable s)" and c: "0 \<le> clientId (pk_buf pk)" "clientId (pk_buf pk) < 100"
    and fresh: "last_seq (payloadTable s) (clientId (pk_buf pk)) < seqNumber (pk_buf pk)"
    and op: "thread_op (datastore s) (pk_buf pk) = Ret (v, ds)"
  obtains s' where "serve s pk = Ret s'" and "datastore s' = ds" and "table_ok (payloadTable s')"
    and "last_seq (payloadTable s') (clientId (pk_buf pk)) = seqNumber (pk_buf pk)"
    and "last (outbox s') = pk\<lparr>pk_buf := (pk_buf pk)\<lparr>rack := 0, returnValue := v\<rparr>\<rparr>"
    and "threads s' = threads s"
    and "returnValue (payloadTable s' ! nat (clientId (pk_buf pk))) =
         (if funcType (pk_buf pk) = 2 then v
          else returnValue (enter (payloadTable s) (pk_buf pk) ! nat (clientId (pk_buf pk))))"
proof -
  let ?b = "pk_buf pk" and ?tab = "enter (payloadTable s) (pk_buf pk)"
  let ?c = "nat (clientId ?b)"
  define tab1 where "tab1 = ?tab[?c := (?tab ! ?c)\<lparr>seqNumber := seqNumber ?b\<rparr>]"
  define s1 where "s1 = s\<lparr>payloadTable := tab1, threads := threads s @ [Started pk]\<rparr>"
  define s2 where "s2 = s1\<lparr>datastore := ds, threads := threads s @ [Executed pk v]\<rparr>"
  define tab3 where "tab3 = (if funcType ?b = 2 then tab1[?c := (tab1 ! ?c)\<lparr>returnValue := v\<rparr>] else tab1)"
  define s3 where "s3 = s2\<lparr>threads := threads s, payloadTable := tab3,
      outbox := outbox s @ [pk\<lparr>pk_buf := ?b\<lparr>rack := 0, returnValue := v\<rparr>\<rparr>]\<rparr>"
  have ok': "table_ok ?tab" using ok c(1) by (rule enter_table_ok)
  have len: "length tab1 = 100" using table_ok_length[OF ok'] by (simp add: tab1_def)
  have cid: "clientId (?tab ! ?c) = clientId ?b" using ok c by (rule enter_clientId)
  have r1: "server_recv s pk = Ret s1"
    using fresh by (simp add: server_recv_eq[OF ok c] Let_def s1_def tab1_def enter_last_seq[OF ok c])
  have r2: "thread_step s1 (length (threads s)) = Ret s2"
    using op by (simp add: thread_step_def s1_def s2_def array_simps)
  have r3: "thread_step s2 (length (threads s)) = Ret s3"
    using c len by (simp add: thread_step_def s2_def s1_def s3_def array_simps thread_reply_def Let_def tab3_def
        aget_def aset_def)
  have srv: "serve s pk = Ret s3" using r1 r2 r3 by (simp add: serve_def s1_def)
  have "0 < seqNumber ?b" using fresh enter_seqNumber_nonneg[OF ok c] by (simp add: enter_last_seq[OF ok c])
  then have ok3: "table_ok (payloadTable s3)" "last_seq (payloadTable s3) (clientId ?b) = seqNumber ?b"
    using ok' c cid table_ok_length[OF ok']
    by (auto simp: s3_def tab3_def tab1_def table_ok_def last_seq_def nth_list_update_if)
  have rv: "returnValue (payloadTable s3 ! ?c) = (if funcType ?b = 2 then v else returnValue (?tab ! ?c))"
    using c table_ok_length[OF ok'] by (simp add: s3_def tab3_def tab1_def)
  show ?thesis by (rule that[OF srv]) (simp_all add: ok3 rv, simp_all add: s3_def s2_def)
qed

lemma serve_reach:
  assumes "srv_reach s log" and "serve s pk = Ret s'"
  shows "\<exists>log'. srv_reach s' log'"
proof -
  obtain s1 where s1: "server_recv s pk = Ret s1" using assms(2) by (auto simp: serve_def)
  have r1: "srv_reach s1 log" using assms(1) s1 by (rule srv_reach.recv)
  have step: "\<exists>log'. srv_reach u log'" if "srv_reach t l" "thread_step t i = Ret u" for t l i u
  proof -
    have i: "i < length (threads t)" using that(2) by (auto simp: thread_step_def dest!: aget_RetD)
    show ?thesis
      using srv_reach.exec[OF that(1) i _ that(2)] srv_reach.finish[OF that(1) i _ that(2)]
      by (cases "threads t ! i") blast+
  qed
  show ?thesis
    using assms(2) s1 r1 step by (auto simp: serve_def split: if_splits) blast
qed

section \<open>Properties\<close>

text \<open>
  C17. At-most-once execution. In every run of the server, on any packets (lost, repeated, reordered
  or forged) and any interleaving of its worker threads, no request, identified by client and
  sequence number, has its operation executed twice, nor is it executed and pending again.
\<close>

theorem rpc_at_most_once:
  assumes "srv_reach s log"
  shows "distinct (log @ pending (threads s))"
  using srv_reach_inv[OF assms] by (simp add: rpc_inv_def)

definition demo_junk :: st_payload where
  "demo_junk = \<lparr>funcType = 0, clientId = 0, seqNumber = 0, rtime = 0, rkey = 0, rvalue = 0, rack = 0,
      returnValue = 0, hasRequested = 0\<rparr>"

definition demo_conn :: rpc_connection where
  "demo_conn = RPC_init 703"

lemma demo_start:
  "srv_reach (server_init (replicate 100 demo_junk)) []" "table_ok (payloadTable (server_init (replicate 100 demo_junk)))"
  "last_seq (payloadTable (server_init (replicate 100 demo_junk))) 3 = 0"
  using srv_reach.init[of "replicate 100 demo_junk"] rpc_inv_init[of "replicate 100 demo_junk"]
  by (auto simp: rpc_inv_def last_seq_def server_init_def)

theorem rpc_at_most_once_witness:
  "\<exists>s. srv_reach s [(3, 1)] \<and> distinct ([(3, 1)] @ pending (threads s))"
proof -
  let ?s0 = "server_init (replicate 100 demo_junk)"
  let ?pk = "\<lparr>pk_sock = 0, pk_buf = put_payload demo_junk demo_conn 7 42\<rparr>"
  have c: "clientId (pk_buf ?pk) = 3" "seqNumber (pk_buf ?pk) = 1"
    by (simp_all add: put_payload_def demo_conn_def RPC_init_def)
  obtain s1 where s1: "server_recv ?s0 ?pk = Ret s1" "threads s1 = [Started ?pk]" "datastore s1 = replicate NUMKEYS 0"
    using server_recv_eq[OF demo_start(2), of ?pk] enter_last_seq[OF demo_start(2), of "pk_buf ?pk"] demo_start(3) c
    by (auto simp: Let_def server_init_def)
  have r1: "srv_reach s1 []" using demo_start(1) s1(1) by (rule srv_reach.recv)
  obtain s2 where s2: "thread_step s1 0 = Ret s2"
    using s1 by (simp add: thread_step_def thread_op_def put_payload_def put_def aget_def aset_def NUMKEYS_def)
  have "srv_reach s2 ([] @ [request_id ?pk])"
    using r1 s1(2) s2 by (intro srv_reach.exec[of s1 "[]" 0]) auto
  then show ?thesis
    using rpc_at_most_once[of s2 "[request_id ?pk]"] c by (intro exI[of _ s2]) (simp add: request_id_def)
qed

text \<open>
  C32. Put then get. For a key inside the store and a client whose sequence number is newer than
  what the server has seen of it, and not one of the two largest of an \<open>int\<close>, an \<open>RPC_put\<close> followed by an \<open>RPC_get\<close> of the
  same key, each served and answered by one reply, returns 0 and then the value put, each after a single packet.
\<close>

theorem rpc_put_get:
  assumes "srv_reach s log" and "0 \<le> client_id rpc" and "client_id rpc < 100"
    and "last_seq (payloadTable s) (client_id rpc) < seq_number rpc"
    and "0 \<le> k" and "k < int NUMKEYS"
    and "-2147483648 \<le> seq_number rpc" and "seq_number rpc + 2 < 2147483648"
  shows "\<exists>s1 s2 req1 req2 rpc1 rpc2.
    RPC_put junk rpc k v [\<lparr>recv_len = 32, recv_buf = pk_buf (last (outbox s1))\<rparr>] = Ret (req1, rpc1, Value 0, 1) \<and>
    serve s \<lparr>pk_sock = a, pk_buf = req1\<rparr> = Ret s1 \<and>
    RPC_get junk rpc1 k [\<lparr>recv_len = 32, recv_buf = pk_buf (last (outbox s2))\<rparr>] = Ret (req2, rpc2, Value v, 1) \<and>
    serve s1 \<lparr>pk_sock = a, pk_buf = req2\<rparr> = Ret s2"
proof -
  let ?pk1 = "\<lparr>pk_sock = a, pk_buf = put_payload junk rpc k v\<rparr>"
  let ?rpc1 = "rpc\<lparr>seq_number := seq_number rpc + 1\<rparr>"
  let ?pk2 = "\<lparr>pk_sock = a, pk_buf = get_payload junk ?rpc1 k\<rparr>"
  have inv: "table_ok (payloadTable s)" "length (datastore s) = NUMKEYS"
    using srv_reach_inv[OF assms(1)] by (simp_all add: rpc_inv_def)
  have c: "clientId (pk_buf ?pk1) = client_id rpc" "seqNumber (pk_buf ?pk1) = seq_number rpc"
    "clientId (pk_buf ?pk2) = client_id rpc" "seqNumber (pk_buf ?pk2) = seq_number rpc + 1"
    by (simp_all add: put_payload_def get_payload_def)
  have op1: "thread_op (datastore s) (pk_buf ?pk1) = Ret (0, (datastore s)[nat k := v])"
    using assms(5,6) inv(2) by (simp add: thread_op_def put_payload_def put_def aset_def)
  obtain s1 where s1: "serve s ?pk1 = Ret s1" "datastore s1 = (datastore s)[nat k := v]"
    "table_ok (payloadTable s1)" "last_seq (payloadTable s1) (client_id rpc) = seq_number rpc"
    "last (outbox s1) = ?pk1\<lparr>pk_buf := (pk_buf ?pk1)\<lparr>rack := 0, returnValue := 0\<rparr>\<rparr>"
    using serve_fresh[OF inv(1), of ?pk1, OF _ _ _ op1] assms(2-4) c by metis
  have op2: "thread_op (datastore s1) (pk_buf ?pk2) = Ret (v, datastore s1)"
    using assms(5,6) inv(2) s1(2) by (simp add: thread_op_def get_payload_def get_def aget_def nat_less_iff)
  obtain s2 where s2: "serve s1 ?pk2 = Ret s2"
    "last (outbox s2) = ?pk2\<lparr>pk_buf := (pk_buf ?pk2)\<lparr>rack := 0, returnValue := v\<rparr>\<rparr>"
    using serve_fresh[OF s1(3), of ?pk2, OF _ _ _ op2] assms(2,3) s1(4) c by auto
  have "cint (seq_number rpc + 1) = Ret (seq_number rpc + 1)" "cint (seq_number ?rpc1 + 1) = Ret (seq_number rpc + 2)"
    using assms(7,8) by (simp_all add: cint_def)
  then show ?thesis
    using s1(1,5) s2
    by (intro exI[of _ s1] exI[of _ s2] exI[of _ "put_payload junk rpc k v"] exI[of _ "get_payload junk ?rpc1 k"]
        exI[of _ ?rpc1] exI[of _ "rpc\<lparr>seq_number := seq_number rpc + 2\<rparr>"])
      (simp add: RPC_put_def RPC_get_def put_loop.simps get_loop.simps Let_def)
qed

theorem rpc_put_get_witness:
  "\<exists>s1 s2 req1 req2 rpc1 rpc2.
    RPC_put demo_junk demo_conn 7 42 [\<lparr>recv_len = 32, recv_buf = pk_buf (last (outbox s1))\<rparr>] = Ret (req1, rpc1, Value 0, 1) \<and>
    serve (server_init (replicate 100 demo_junk)) \<lparr>pk_sock = 5, pk_buf = req1\<rparr> = Ret s1 \<and>
    RPC_get demo_junk rpc1 7 [\<lparr>recv_len = 32, recv_buf = pk_buf (last (outbox s2))\<rparr>] = Ret (req2, rpc2, Value 42, 1) \<and>
    serve s1 \<lparr>pk_sock = 5, pk_buf = req2\<rparr> = Ret s2"
  using demo_start
  by (intro rpc_put_get[of _ "[]"]) (simp_all add: demo_conn_def RPC_init_def NUMKEYS_def)

text \<open>
  The bounds check of \<open>get\<close> and \<open>put\<close> lets the key \<open>NUMKEYS\<close> through, one past the last element:
  both then access the array out of bounds. Every other key is either rejected or in bounds.
\<close>

theorem store_bounds_off_by_one:
  "length ds = NUMKEYS \<Longrightarrow>
   (\<not> is_ret (get ds k) \<longleftrightarrow> k = int NUMKEYS) \<and> (\<not> is_ret (put ds k v) \<longleftrightarrow> k = int NUMKEYS)"
  by (auto simp: get_def put_def aget_def aset_def)

theorem store_bounds_off_by_one_witness:
  "\<not> is_ret (get (replicate NUMKEYS 0) (int NUMKEYS)) \<and> is_ret (get (replicate NUMKEYS 0) 0)"
  using store_bounds_off_by_one[of "replicate NUMKEYS 0" "int NUMKEYS" 0]
    store_bounds_off_by_one[of "replicate NUMKEYS 0" 0 0]
  by (simp add: NUMKEYS_def)

text \<open>
  A repeated request is never executed again: while a client's latest request is being worked
  on, or after it is done, the server answers a copy of it at once from its table, with \<open>ack = 1\<close>
  and the stored return value, and changes neither the store nor the set of threads; older copies
  are dropped without an answer.
\<close>

theorem duplicate_answered_from_table:
  assumes "srv_reach s log" and "accepted (payloadTable s) (request_id pk)"
  shows "\<exists>s'. server_recv s pk = Ret s' \<and> datastore s' = datastore s \<and> threads s' = threads s \<and>
           payloadTable s' = payloadTable s \<and>
           outbox s' = (let e = payloadTable s ! nat (clientId (pk_buf pk)) in
             if seqNumber (pk_buf pk) = seqNumber e
             then outbox s @ [pk\<lparr>pk_buf := (pk_buf pk)\<lparr>rack := 1, returnValue := returnValue e\<rparr>\<rparr>]
             else outbox s)"
proof -
  have ok: "table_ok (payloadTable s)" using srv_reach_inv[OF assms(1)] by (simp add: rpc_inv_def)
  have c: "0 \<le> clientId (pk_buf pk)" "clientId (pk_buf pk) < 100"
    and "enter (payloadTable s) (pk_buf pk) = payloadTable s"
    and "seqNumber (pk_buf pk) \<le> seqNumber (payloadTable s ! nat (clientId (pk_buf pk)))"
    using assms(2) by (auto simp: accepted_def request_id_def enter_def)
  then show ?thesis by (auto simp: server_recv_eq[OF ok c] Let_def)
qed

theorem duplicate_answered_from_table_witness:
  "\<exists>s s'. let pk = \<lparr>pk_sock = 0, pk_buf = put_payload demo_junk demo_conn 7 42\<rparr> in
     server_recv s pk = Ret s' \<and> threads s = [Started pk] \<and> threads s' = threads s \<and>
     map (\<lambda>p. rack (pk_buf p)) (outbox s') = [1]"
proof -
  let ?s0 = "server_init (replicate 100 demo_junk)"
  let ?pk = "\<lparr>pk_sock = 0, pk_buf = put_payload demo_junk demo_conn 7 42\<rparr>"
  have c: "clientId (pk_buf ?pk) = 3" "seqNumber (pk_buf ?pk) = 1"
    by (simp_all add: put_payload_def demo_conn_def RPC_init_def)
  have el: "seqNumber (enter (payloadTable ?s0) (pk_buf ?pk) ! nat 3) = 0"
    using enter_last_seq[OF demo_start(2), of "pk_buf ?pk"] demo_start(3) c by simp
  define tab where "tab = enter (payloadTable ?s0) (pk_buf ?pk)"
  define s where "s = ?s0\<lparr>payloadTable := tab[3 := (tab ! 3)\<lparr>seqNumber := 1\<rparr>], threads := [Started ?pk]\<rparr>"
  have s: "server_recv ?s0 ?pk = Ret s"
    using server_recv_eq[OF demo_start(2), of ?pk] c el
    by (simp add: Let_def s_def tab_def) (simp add: server_init_def)
  have r: "srv_reach s []" using demo_start(1) s by (rule srv_reach.recv)
  have len: "length tab = 100" using demo_start(2) by (simp add: tab_def enter_def table_ok_def)
  have acc: "accepted (payloadTable s) (request_id ?pk)"
    using srv_reach_inv[OF r] by (simp add: rpc_inv_def s_def)
  obtain s' where s': "server_recv s ?pk = Ret s'" "threads s' = threads s"
    "outbox s' = (let e = payloadTable s ! nat (clientId (pk_buf ?pk)) in
             if seqNumber (pk_buf ?pk) = seqNumber e
             then outbox s @ [?pk\<lparr>pk_buf := (pk_buf ?pk)\<lparr>rack := 1, returnValue := returnValue e\<rparr>\<rparr>]
             else outbox s)"
    using duplicate_answered_from_table[OF r acc] by blast
  have "map (\<lambda>p. rack (pk_buf p)) (outbox s') = [1]"
    unfolding s'(3) using c len by (simp add: s_def Let_def) (simp add: server_init_def)
  then show ?thesis using s' by (intro exI[of _ s] exI[of _ s']) (simp add: s_def)
qed

text \<open>
  A retried \<open>RPC_get\<close> can return the value of an earlier one. There is a run in which key 7
  holds 42, a get of key 7 is waiting for its thread, and a repetition of that request is answered
  with 5, the value of the client's previous get of key 1; \<open>RPC_get\<close> returns that 5 to its caller.
\<close>

theorem retried_get_returns_stale_value:
  "\<exists>s log s'.
     let rpc = \<lparr>seq_number = 4, client_id = 3\<rparr>;
         pk = \<lparr>pk_sock = 0, pk_buf = get_payload demo_junk rpc 7\<rparr>
     in srv_reach s log \<and> threads s = [Started pk] \<and> datastore s ! 7 = 42 \<and>
        server_recv s pk = Ret s' \<and>
        (\<exists>rpc'. RPC_get demo_junk rpc 7 [\<lparr>recv_len = 32, recv_buf = pk_buf (last (outbox s'))\<rparr>] =
           Ret (pk_buf pk, rpc', Value 5, 1))"
proof -
  let ?s0 = "server_init (replicate 100 demo_junk)"
  let ?rpc = "\<lambda>n. \<lparr>seq_number = n, client_id = 3\<rparr>"
  let ?pk1 = "\<lparr>pk_sock = 0, pk_buf = put_payload demo_junk (?rpc 1) 1 5\<rparr>"
  let ?pk2 = "\<lparr>pk_sock = 0, pk_buf = get_payload demo_junk (?rpc 2) 1\<rparr>"
  let ?pk3 = "\<lparr>pk_sock = 0, pk_buf = put_payload demo_junk (?rpc 3) 7 42\<rparr>"
  let ?pk4 = "\<lparr>pk_sock = 0, pk_buf = get_payload demo_junk (?rpc 4) 7\<rparr>"
  note pl = put_payload_def get_payload_def
  have ds0: "datastore ?s0 = replicate NUMKEYS 0" "threads ?s0 = []" by (simp_all add: server_init_def)
  obtain s1 where s1: "serve ?s0 ?pk1 = Ret s1" "datastore s1 = (replicate NUMKEYS 0)[1 := 5]"
    "table_ok (payloadTable s1)" "last_seq (payloadTable s1) 3 = 1" "threads s1 = []"
    by (rule serve_fresh[OF demo_start(2), of ?pk1 0 "(replicate NUMKEYS 0)[1 := 5]"])
      (simp_all add: pl demo_start(3) ds0 thread_op_def put_def aset_def NUMKEYS_def)
  obtain s2 where s2: "serve s1 ?pk2 = Ret s2" "datastore s2 = datastore s1" "table_ok (payloadTable s2)"
    "last_seq (payloadTable s2) 3 = 2" "threads s2 = []" "returnValue (payloadTable s2 ! 3) = 5"
    by (rule serve_fresh[OF s1(3), of ?pk2 5 "datastore s1"])
      (simp_all add: pl s1 thread_op_def get_def aget_def NUMKEYS_def)
  have reg2: "clientId (payloadTable s2 ! 3) = 3" using s2(4) by (simp add: last_seq_def split: if_splits)
  obtain s3 where s3: "serve s2 ?pk3 = Ret s3" "datastore s3 = (datastore s2)[7 := 42]"
    "table_ok (payloadTable s3)" "last_seq (payloadTable s3) 3 = 3" "threads s3 = []"
    "returnValue (payloadTable s3 ! 3) = 5"
    by (rule serve_fresh[OF s2(3), of ?pk3 0 "(datastore s2)[7 := 42]"])
      (simp_all add: pl s2 s1 thread_op_def put_def aset_def NUMKEYS_def enter_def reg2)
  obtain log where r3: "srv_reach s3 log"
    using serve_reach[OF demo_start(1) s1(1)] serve_reach[OF _ s2(1)] serve_reach[OF _ s3(1)] by blast
  have reg3: "clientId (payloadTable s3 ! 3) = 3" "seqNumber (payloadTable s3 ! 3) = 3"
    using s3(4) by (simp_all add: last_seq_def split: if_splits)
  let ?e = "(payloadTable s3 ! 3)\<lparr>seqNumber := 4\<rparr>"
  let ?s4 = "s3\<lparr>payloadTable := (payloadTable s3)[3 := ?e], threads := [Started ?pk4]\<rparr>"
  have s4: "server_recv s3 ?pk4 = Ret ?s4"
    using server_recv_eq[OF s3(3), of ?pk4] by (simp add: pl Let_def enter_def reg3 s3(5))
  have r4: "srv_reach ?s4 log" using r3 s4 by (rule srv_reach.recv)
  have ok4: "table_ok (payloadTable ?s4)" using srv_reach_inv[OF r4] by (simp add: rpc_inv_def)
  have len: "length (payloadTable s3) = 100" using s3(3) by (rule table_ok_length)
  have "\<exists>s'. server_recv ?s4 ?pk4 = Ret s' \<and> rack (pk_buf (last (outbox s'))) = 1 \<and>
             returnValue (pk_buf (last (outbox s'))) = 5"
    using server_recv_eq[OF ok4, of ?pk4] len by (simp add: pl Let_def enter_def reg3 s3(6))
  then obtain s' where s': "server_recv ?s4 ?pk4 = Ret s'" "rack (pk_buf (last (outbox s'))) = 1"
    "returnValue (pk_buf (last (outbox s'))) = 5" by blast
  have "datastore ?s4 ! 7 = 42" by (simp add: s3(2) s2(2) s1(2) NUMKEYS_def)
  then show ?thesis
    using r4 s' by (intro exI[of _ ?s4] exI[of _ log] exI[of _ s'])
      (simp add: RPC_get_def get_loop.simps Let_def cint_def)
qed

lemma all_timeouts:
  assumes "\<forall>r\<in>set rs. recv_len r = -1 \<and> rack (recv_buf r) \<noteq> 1" and "length rs + i = 5"
  shows "get_loop i rs = (ExitFailure, length rs) \<and> put_loop i rs = (ExitFailure, length rs) \<and>
         idle_loop i rs = (Value 0, length rs)"
  using assms
proof (induction rs arbitrary: i)
  case Nil
  then show ?case by (simp add: get_loop.simps put_loop.simps idle_loop.simps)
next
  case (Cons r rs)
  then show ?case
    using Cons.IH[of "Suc i"] by (simp add: get_loop.simps[of i] put_loop.simps[of i] idle_loop.simps[of i] Let_def)
qed

text \<open>
  The client gives up after five packets: when every receive times out and the buffer does not
  happen to hold \<open>ack = 1\<close>, \<open>RPC_get\<close> and \<open>RPC_put\<close> send exactly five packets and exit, and
  \<open>RPC_idle\<close> sends five and returns.
\<close>

theorem client_gives_up_after_five:
  assumes "\<forall>r\<in>set rs. recv_len r = -1 \<and> rack (recv_buf r) \<noteq> 1" and "length rs = 5"
    and "cint (seq_number rpc + 1) = Ret n"
  shows "RPC_get junk rpc k rs = Ret (get_payload junk rpc k, rpc\<lparr>seq_number := n\<rparr>, ExitFailure, 5) \<and>
         RPC_put junk rpc k v rs = Ret (put_payload junk rpc k v, rpc\<lparr>seq_number := n\<rparr>, ExitFailure, 5) \<and>
         RPC_idle junk rpc t rs = Ret (idle_payload junk rpc t, rpc\<lparr>seq_number := n\<rparr>, Value 0, 5)"
  using all_timeouts[OF assms(1), of 0] assms(2,3) by (simp add: RPC_get_def RPC_put_def RPC_idle_def)

theorem client_gives_up_after_five_witness:
  "RPC_get demo_junk demo_conn 7 (replicate 5 \<lparr>recv_len = -1, recv_buf = demo_junk\<rparr>) =
     Ret (get_payload demo_junk demo_conn 7, demo_conn\<lparr>seq_number := 2\<rparr>, ExitFailure, 5)"
  using client_gives_up_after_five[of "replicate 5 \<lparr>recv_len = -1, recv_buf = demo_junk\<rparr>" demo_conn 2 demo_junk 7 0 0]
  by (simp add: demo_junk_def demo_conn_def RPC_init_def cint_def)

text \<open>
  The client inspects the buffer before it looks at the received length: after a timeout the
  buffer is uninitialised, and if it happens to hold \<open>ack = 1\<close>, \<open>RPC_put\<close> returns whatever stands
  in the return-value field, as does \<open>RPC_get\<close> unless that is -1.
\<close>

theorem timeout_buffer_is_trusted:
  assumes "recv_len r = -1" and "rack (recv_buf r) = 1" and "returnValue (recv_buf r) \<noteq> -1"
    and "cint (seq_number rpc + 1) = Ret n"
  shows "RPC_get junk rpc k (r # rs) =
           Ret (get_payload junk rpc k, rpc\<lparr>seq_number := n\<rparr>, Value (returnValue (recv_buf r)), 1) \<and>
         RPC_put junk rpc k v (r # rs) =
           Ret (put_payload junk rpc k v, rpc\<lparr>seq_number := n\<rparr>, Value (returnValue (recv_buf r)), 1)"
  using assms by (simp add: RPC_get_def RPC_put_def get_loop.simps put_loop.simps Let_def)

theorem timeout_buffer_is_trusted_witness:
  "RPC_get demo_junk demo_conn 7 [\<lparr>recv_len = -1, recv_buf = demo_junk\<lparr>rack := 1, returnValue := 99\<rparr>\<rparr>] =
     Ret (get_payload demo_junk demo_conn 7, demo_conn\<lparr>seq_number := 2\<rparr>, Value 99, 1)"
  using timeout_buffer_is_trusted[of "\<lparr>recv_len = -1, recv_buf = demo_junk\<lparr>rack := 1, returnValue := 99\<rparr>\<rparr>"
      demo_conn 2 demo_junk 7 "[]" 0]
  by (simp add: demo_conn_def RPC_init_def cint_def)

end
