(* ===== verification/Proc.thy ===== *)
theory Proc
  imports Prelude
begin

text \<open>
  Processes and the stride scheduler (\<open>src/P4/xv6/kernel/proc.c\<close>, \<open>src/P4/xv6/kernel/proc.h\<close>).

  A \<open>struct proc *\<close> into the process table is a slot number. Calls into other parts of the kernel
  appear in two ways: what they return (a page from \<open>kalloc\<close>, a page directory from \<open>copyuvm\<close>) is an
  argument, and those that give resources back or share them are recorded, in order, in the field
  \<open>kcalls\<close>. A sleep channel is an address; addresses of process slots are told apart from all
  others. Code that runs with \<open>ptable.lock\<close> held is one step.
\<close>

section \<open>Data\<close>

definition NPROC :: nat where "NPROC = 64"
definition MAXSTRIDE :: int where "MAXSTRIDE = 10000"

datatype procstate = UNUSED | EMBRYO | SLEEPING | RUNNABLE | RUNNING | ZOMBIE

datatype chan = NoChan | ProcChan nat | AddrChan u32

text \<open>The trap frame: the fields the kernel sets by name, and the other registers.\<close>

record trapframe =
  tf_eax :: u32
  tf_cs :: u16
  tf_ds :: u16
  tf_es :: u16
  tf_ss :: u16
  tf_eflags :: u32
  tf_esp :: u32
  tf_eip :: u32
  tf_other :: "u32 list"

text \<open>Where a process continues when it is switched to: nowhere, at \<open>forkret\<close>, or inside \<open>sched\<close>.\<close>

datatype kcontext = NoContext | AtForkret | InSched

record proc =
  sz :: u32
  pgdir :: u32
  kstack :: u32
  pstate :: procstate
  pid :: int
  parent :: "nat option"
  tf :: trapframe
  pcontext :: kcontext
  pchan :: chan
  killed :: int
  ofile :: "nat option list"
  cwd :: "nat option"
  pname :: string
  init_stride :: int
  tickets :: int
  passvalue :: int
  ticks :: int

datatype kcall = Kfree u32 | Freevm u32 | Filedup nat | Fileclose nat | Idup "nat option" | Iput "nat option"

record ptable =
  procs :: "proc list"
  nextpid :: int
  initproc :: "nat option"
  kcalls :: "kcall list"

definition upd :: "ptable \<Rightarrow> nat \<Rightarrow> (proc \<Rightarrow> proc) \<Rightarrow> ptable" where
  "upd s i f = s\<lparr>procs := (procs s)[i := f (procs s ! i)]\<rparr>"

definition emit :: "ptable \<Rightarrow> kcall list \<Rightarrow> ptable" where
  "emit s cs = s\<lparr>kcalls := kcalls s @ cs\<rparr>"

definition slot_chan :: "nat option \<Rightarrow> chan" where
  "slot_chan p = (case p of None \<Rightarrow> NoChan | Some i \<Rightarrow> ProcChan i)"

section \<open>Creating processes\<close>

text \<open>The part of \<open>allocproc\<close> that runs under the lock: claim the first unused slot.\<close>

definition alloc_claim :: "ptable \<Rightarrow> (nat option \<times> ptable) outcome" where
  "alloc_claim s =
     (case find_index (\<lambda>p. pstate p = UNUSED) (procs s) of
        None \<Rightarrow> Ret (None, s)
      | Some i \<Rightarrow>
          bindO (cint (nextpid s + 1)) (\<lambda>np.
          Ret (Some i,
               (upd s i (\<lambda>p. p\<lparr>pstate := EMBRYO, pid := nextpid s, tickets := 1, ticks := 0,
                                init_stride := MAXSTRIDE sdiv 1, passvalue := MAXSTRIDE sdiv 1\<rparr>))
               \<lparr>nextpid := np\<rparr>)))"

text \<open>The rest: the kernel stack (0 when \<open>kalloc\<close> fails) and the initial context.\<close>

definition alloc_stack :: "ptable \<Rightarrow> nat \<Rightarrow> u32 \<Rightarrow> nat option \<times> ptable" where
  "alloc_stack s i stk =
     (if stk = 0 then (None, upd s i (\<lambda>p. p\<lparr>kstack := stk, pstate := UNUSED\<rparr>))
      else (Some i, upd s i (\<lambda>p. p\<lparr>kstack := stk, pcontext := AtForkret\<rparr>)))"

definition allocproc :: "ptable \<Rightarrow> u32 \<Rightarrow> (nat option \<times> ptable) outcome" where
  "allocproc s stk =
     bindO (alloc_claim s) (\<lambda>(r, s1). case r of
        None \<Rightarrow> Ret (None, s1)
      | Some i \<Rightarrow> Ret (alloc_stack s1 i stk))"

definition FL_IF :: u32 where "FL_IF = 0x200"

definition user_seg :: "u16 \<Rightarrow> u16" where
  "user_seg n = push_bit 3 n OR 3"

definition userinit :: "ptable \<Rightarrow> u32 \<Rightarrow> u32 \<Rightarrow> nat \<Rightarrow> ptable outcome" where
  "userinit s stk pgd root =
     bindO (allocproc s stk) (\<lambda>(r, s1). case r of
        None \<Rightarrow> Undef ''null process''
      | Some i \<Rightarrow>
          if pgd = 0 then Panic ''userinit: out of memory?''
          else Ret ((upd s1 i (\<lambda>p. p\<lparr>pgdir := pgd, sz := PGSIZE,
                 tf := \<lparr>tf_eax = 0, tf_cs = user_seg 4, tf_ds = user_seg 5, tf_es = user_seg 5, tf_ss = user_seg 5,
                        tf_eflags = FL_IF, tf_esp = PGSIZE, tf_eip = 0, tf_other = replicate 11 0\<rparr>,
                 pname := ''initcode'', cwd := Some root, pstate := RUNNABLE\<rparr>))
               \<lparr>initproc := Some i\<rparr>))"

text \<open>
  The part of \<open>fork\<close> after \<open>allocproc\<close>: \<open>pgd\<close> is what \<open>copyuvm\<close> returned. The loop over the open
  files leaves an entry alone where the parent has none.
\<close>

definition dup_ofile :: "nat option list \<Rightarrow> nat option list \<Rightarrow> nat option list" where
  "dup_ofile parent_files old = map (\<lambda>(f, g). if f = None then g else f) (zip parent_files old)"

definition fork_copy :: "ptable \<Rightarrow> nat \<Rightarrow> nat \<Rightarrow> u32 \<Rightarrow> int \<times> ptable" where
  "fork_copy s me np pgd =
     (let cur = procs s ! me in
      if pgd = 0 then
        (-1, emit (upd s np (\<lambda>p. p\<lparr>pgdir := pgd, kstack := 0, pstate := UNUSED\<rparr>))
               [Kfree (kstack (procs s ! np))])
      else
        (pid (procs s ! np),
         emit (upd s np (\<lambda>p. p\<lparr>pgdir := pgd, sz := sz cur, parent := Some me,
                  init_stride := init_stride cur, tickets := tickets cur,
                  passvalue := init_stride cur, ticks := 0, tf := (tf cur)\<lparr>tf_eax := 0\<rparr>,
                  ofile := dup_ofile (ofile cur) (ofile p), cwd := cwd cur,
                  pname := take 15 (pname cur), pstate := RUNNABLE\<rparr>))
           (map (\<lambda>f. Filedup (the f)) (filter (\<lambda>f. f \<noteq> None) (ofile cur)) @ [Idup (cwd cur)])))"

definition fork :: "ptable \<Rightarrow> nat \<Rightarrow> u32 \<Rightarrow> u32 \<Rightarrow> (int \<times> ptable) outcome" where
  "fork s me stk pgd =
     bindO (allocproc s stk) (\<lambda>(r, s1). case r of
        None \<Rightarrow> Ret (-1, s1)
      | Some np \<Rightarrow> Ret (fork_copy s1 me np pgd))"

text \<open>\<open>growproc\<close>: \<open>sz'\<close> is what \<open>allocuvm\<close> or \<open>deallocuvm\<close> returned.\<close>

definition growproc :: "ptable \<Rightarrow> nat \<Rightarrow> int \<Rightarrow> u32 \<Rightarrow> int \<times> ptable" where
  "growproc s me n sz' =
     (if n = 0 then (0, upd s me (\<lambda>p. p\<lparr>sz := sz p\<rparr>))
      else if sz' = 0 then (-1, s)
      else (0, upd s me (\<lambda>p. p\<lparr>sz := sz'\<rparr>)))"

section \<open>Sleeping and waking\<close>

definition wakeup1 :: "chan \<Rightarrow> ptable \<Rightarrow> ptable" where
  "wakeup1 ch s =
     s\<lparr>procs := map (\<lambda>p. if pstate p = SLEEPING \<and> pchan p = ch then p\<lparr>pstate := RUNNABLE\<rparr> else p) (procs s)\<rparr>"

definition wakeup :: "chan \<Rightarrow> ptable \<Rightarrow> ptable" where
  "wakeup ch s = wakeup1 ch s"

text \<open>
  \<open>sched\<close> checks that \<open>ptable.lock\<close> is held, that it is the only lock held (\<open>ncli\<close>), that the process
  has given up its running state and that interrupts are off, and switches to the scheduler; the
  context saved by \<open>swtch\<close> lies inside \<open>sched\<close>. Its callers arrive with one lock at most, which
  \<open>sleep\<close> exchanges for \<open>ptable.lock\<close>.
\<close>

definition sched :: "bool \<Rightarrow> int \<Rightarrow> bool \<Rightarrow> nat \<Rightarrow> ptable \<Rightarrow> ptable outcome" where
  "sched holding ncli interruptible me s =
     (if \<not> holding then Panic ''sched ptable.lock''
      else if ncli \<noteq> 1 then Panic ''sched locks''
      else if pstate (procs s ! me) = RUNNING then Panic ''sched running''
      else if interruptible then Panic ''sched interruptible''
      else Ret (upd s me (\<lambda>p. p\<lparr>pcontext := InSched\<rparr>)))"

definition yield :: "nat \<Rightarrow> ptable \<Rightarrow> ptable outcome" where
  "yield me s = sched True 1 False me (upd s me (\<lambda>p. p\<lparr>pstate := RUNNABLE\<rparr>))"

text \<open>\<open>sleep\<close> up to the switch, and what it does after the switch back.\<close>

definition sleep :: "nat \<Rightarrow> chan \<Rightarrow> ptable \<Rightarrow> ptable outcome" where
  "sleep me ch s = sched True 1 False me (upd s me (\<lambda>p. p\<lparr>pchan := ch, pstate := SLEEPING\<rparr>))"

definition sleep_resume :: "nat \<Rightarrow> ptable \<Rightarrow> ptable" where
  "sleep_resume me s = upd s me (\<lambda>p. p\<lparr>pchan := NoChan\<rparr>)"

definition kill :: "ptable \<Rightarrow> int \<Rightarrow> int \<times> ptable" where
  "kill s k =
     (case find_index (\<lambda>p. pid p = k) (procs s) of
        None \<Rightarrow> (-1, s)
      | Some i \<Rightarrow>
          (0, upd s i (\<lambda>p. p\<lparr>killed := 1,
                 pstate := (if pstate p = SLEEPING then RUNNABLE else pstate p)\<rparr>)))"

section \<open>Exit and wait\<close>

text \<open>One round of the loop that hands the children of an exiting process to \<open>initproc\<close>.\<close>

definition reparent1 :: "nat \<Rightarrow> nat \<Rightarrow> ptable \<Rightarrow> ptable" where
  "reparent1 me i s =
     (if parent (procs s ! i) = Some me then
        let s1 = upd s i (\<lambda>p. p\<lparr>parent := initproc s\<rparr>) in
        if pstate (procs s1 ! i) = ZOMBIE then wakeup1 (slot_chan (initproc s)) s1 else s1
      else s)"

definition exit :: "nat \<Rightarrow> ptable \<Rightarrow> ptable outcome" where
  "exit me s =
     (if Some me = initproc s then Panic ''init exiting''
      else
        let cur = procs s ! me;
            s1 = emit (upd s me (\<lambda>p. p\<lparr>ofile := map (\<lambda>_. None) (ofile p), cwd := None\<rparr>))
                   (map (\<lambda>f. Fileclose (the f)) (filter (\<lambda>f. f \<noteq> None) (ofile cur)) @ [Iput (cwd cur)]);
            s2 = wakeup1 (slot_chan (parent cur)) s1;
            s3 = fold (reparent1 me) [0..<length (procs s2)] s2
        in sched True 1 False me (upd s3 me (\<lambda>p. p\<lparr>pstate := ZOMBIE\<rparr>)))"

datatype wait_result = WaitPid int | WaitFail | WaitSleep

text \<open>One pass of \<open>wait\<close> over the table, up to its return or its call of \<open>sleep\<close>.\<close>

definition wait_scan :: "nat \<Rightarrow> ptable \<Rightarrow> (wait_result \<times> ptable) outcome" where
  "wait_scan me s =
     (case find_index (\<lambda>p. parent p = Some me \<and> pstate p = ZOMBIE) (procs s) of
        Some i \<Rightarrow>
          let p = procs s ! i in
          Ret (WaitPid (pid p),
               emit (upd s i (\<lambda>p. p\<lparr>kstack := 0, pstate := UNUSED, pid := 0, parent := None,
                                pname := [], killed := 0\<rparr>))
                 [Kfree (kstack p), Freevm (pgdir p)])
      | None \<Rightarrow>
          if (\<forall>p\<in>set (procs s). parent p \<noteq> Some me) \<or> killed (procs s ! me) \<noteq> 0
          then Ret (WaitFail, s)
          else bindO (sleep me (ProcChan me) s) (\<lambda>s'. Ret (WaitSleep, s')))"

section \<open>The stride scheduler\<close>

text \<open>The scan for the lowest pass value; \<open>-1\<close> marks that none has been seen.\<close>

fun pick :: "proc list \<Rightarrow> nat \<Rightarrow> int \<Rightarrow> nat option \<Rightarrow> nat option" where
  "pick [] i lowestPV chosen = chosen"
| "pick (p # ps) i lowestPV chosen =
     (if pstate p \<noteq> RUNNABLE then pick ps (Suc i) lowestPV chosen
      else if lowestPV = -1 \<or> passvalue p < lowestPV then pick ps (Suc i) (passvalue p) (Some i)
      else pick ps (Suc i) lowestPV chosen)"

text \<open>
  One round of \<open>scheduler\<close>, up to the switch to the chosen process. \<open>chosen\<close> is the local variable
  \<open>chosenProc\<close>: not initialised before the first round, and kept from round to round.
\<close>

definition scheduler :: "nat option \<Rightarrow> ptable \<Rightarrow> (nat \<times> ptable) outcome" where
  "scheduler chosen s =
     (case pick (procs s) 0 (-1) chosen of
        None \<Rightarrow> Undef ''uninitialised chosenProc''
      | Some i \<Rightarrow>
          let p = procs s ! i in
          bindO (cint (passvalue p + init_stride p)) (\<lambda>pv.
          bindO (cint (ticks p + 1)) (\<lambda>t.
          Ret (i, upd s i (\<lambda>p. p\<lparr>passvalue := pv, ticks := t, pstate := RUNNING\<rparr>)))))"

section \<open>System calls of the scheduler\<close>

definition settickets :: "ptable \<Rightarrow> nat \<Rightarrow> int \<Rightarrow> int \<times> ptable" where
  "settickets s me n =
     (if n \<le> 0 then (-1, s)
      else (0, upd s me (\<lambda>p. p\<lparr>tickets := n, init_stride := MAXSTRIDE sdiv n, passvalue := MAXSTRIDE sdiv n\<rparr>)))"

record pstat =
  ps_inuse :: "int list"
  ps_tickets :: "int list"
  ps_strides :: "int list"
  ps_pass :: "int list"
  ps_pid :: "int list"
  ps_ticks :: "int list"

text \<open>\<open>arg\<close> is the checked pointer argument, missing when \<open>argptr\<close> fails.\<close>

definition sys_getpinfo :: "u32 option \<Rightarrow> ptable \<Rightarrow> pstat option" where
  "sys_getpinfo arg s =
     (if arg = None \<or> arg = Some 0 then None
      else Some
        \<lparr>ps_inuse = map (\<lambda>p. if pstate p \<noteq> UNUSED then 1 else 0) (procs s),
         ps_tickets = map tickets (procs s), ps_strides = map init_stride (procs s),
         ps_pass = map passvalue (procs s), ps_pid = map pid (procs s), ps_ticks = map ticks (procs s)\<rparr>)"

section \<open>Accessing the table\<close>

lemma procs_upd [simp]: "procs (upd s i f) = (procs s)[i := f (procs s ! i)]"
  by (simp add: upd_def)

lemma upd_simps [simp]:
  "nextpid (upd s i f) = nextpid s" "initproc (upd s i f) = initproc s" "kcalls (upd s i f) = kcalls s"
  by (simp_all add: upd_def)

lemma emit_simps [simp]:
  "procs (emit s cs) = procs s" "nextpid (emit s cs) = nextpid s" "initproc (emit s cs) = initproc s"
  "kcalls (emit s cs) = kcalls s @ cs"
  by (simp_all add: emit_def)

lemma wakeup1_simps [simp]:
  "length (procs (wakeup1 ch s)) = length (procs s)" "nextpid (wakeup1 ch s) = nextpid s"
  "initproc (wakeup1 ch s) = initproc s" "kcalls (wakeup1 ch s) = kcalls s"
  by (simp_all add: wakeup1_def)

lemma wakeup1_nth:
  "i < length (procs s) \<Longrightarrow> procs (wakeup1 ch s) ! i =
     (procs s ! i)\<lparr>pstate := (if pstate (procs s ! i) = SLEEPING \<and> pchan (procs s ! i) = ch
                            then RUNNABLE else pstate (procs s ! i))\<rparr>"
  by (simp add: wakeup1_def)

section \<open>What the scheduler picks\<close>

text \<open>The slots of runnable processes.\<close>

definition ready :: "ptable \<Rightarrow> nat set" where
  "ready s = {i. i < length (procs s) \<and> pstate (procs s ! i) = RUNNABLE}"

definition best :: "proc list \<Rightarrow> nat \<Rightarrow> bool" where
  "best ps j \<longleftrightarrow> j < length ps \<and> pstate (ps ! j) = RUNNABLE \<and>
     (\<forall>k<length ps. pstate (ps ! k) = RUNNABLE \<longrightarrow>
        passvalue (ps ! j) \<le> passvalue (ps ! k) \<and> (k < j \<longrightarrow> passvalue (ps ! j) < passvalue (ps ! k)))"

lemma pick_cases:
  assumes "low = -1 \<or> 0 \<le> low" and "\<forall>p\<in>set ps. pstate p = RUNNABLE \<longrightarrow> 0 \<le> passvalue p"
  shows "pick ps i low ch = ch \<and> (\<forall>p\<in>set ps. pstate p = RUNNABLE \<longrightarrow> low \<noteq> -1 \<and> low \<le> passvalue p) \<or>
    (\<exists>j. pick ps i low ch = Some (i + j) \<and> best ps j \<and> (low = -1 \<or> passvalue (ps ! j) < low))"
  using assms
proof (induction ps arbitrary: i low ch)
  case (Cons p ps)
  note IH = Cons.IH[of _ "Suc i"]
  have shift: "\<exists>j'. Suc i + j = i + j' \<and> best (p # ps) j' \<and> (low = -1 \<or> passvalue ((p # ps) ! j') < low)"
    if "best ps j" "low = -1 \<or> passvalue (ps ! j) < low"
      "pstate p = RUNNABLE \<longrightarrow> passvalue (ps ! j) < passvalue p" for j
    using that by (intro exI[of _ "Suc j"]) (auto simp: best_def less_Suc_eq_0_disj nth_Cons')
  have head: "best (p # ps) 0" if "pstate p = RUNNABLE"
      "\<forall>q\<in>set ps. pstate q = RUNNABLE \<longrightarrow> passvalue p \<le> passvalue q"
    using that by (auto simp: best_def nth_Cons')
  show ?case
  proof (cases "pstate p = RUNNABLE \<and> (low = -1 \<or> passvalue p < low)")
    case True
    then have "0 \<le> passvalue p" using Cons.prems(2) by simp
    then have "pick ps (Suc i) (passvalue p) (Some i) = Some i \<and>
          (\<forall>q\<in>set ps. pstate q = RUNNABLE \<longrightarrow> passvalue p \<le> passvalue q) \<or>
        (\<exists>j. pick ps (Suc i) (passvalue p) (Some i) = Some (Suc i + j) \<and> best ps j \<and>
           passvalue (ps ! j) < passvalue p)"
      using IH[of "passvalue p" "Some i"] Cons.prems(2) by auto
    then show ?thesis
    proof
      assume "pick ps (Suc i) (passvalue p) (Some i) = Some i \<and>
          (\<forall>q\<in>set ps. pstate q = RUNNABLE \<longrightarrow> passvalue p \<le> passvalue q)"
      then show ?thesis using True head by (intro disjI2 exI[of _ 0]) auto
    next
      assume "\<exists>j. pick ps (Suc i) (passvalue p) (Some i) = Some (Suc i + j) \<and> best ps j \<and>
           passvalue (ps ! j) < passvalue p"
      then obtain j where j: "pick ps (Suc i) (passvalue p) (Some i) = Some (Suc i + j)" "best ps j"
          "passvalue (ps ! j) < passvalue p" by blast
      then show ?thesis using True shift[of j] by auto
    qed
  next
    case False
    then have same: "pick (p # ps) i low ch = pick ps (Suc i) low ch" by auto
    have hd: "pstate p = RUNNABLE \<longrightarrow> low \<noteq> -1 \<and> low \<le> passvalue p" using False by auto
    consider "pick ps (Suc i) low ch = ch" "\<forall>p\<in>set ps. pstate p = RUNNABLE \<longrightarrow> low \<noteq> -1 \<and> low \<le> passvalue p"
      | j where "pick ps (Suc i) low ch = Some (Suc i + j)" "best ps j" "low = -1 \<or> passvalue (ps ! j) < low"
      using IH[of low ch] Cons.prems by auto
    then show ?thesis
    proof cases
      case 1
      then show ?thesis using same hd by auto
    next
      case (2 j)
      then show ?thesis using same hd shift[of j] by fastforce
    qed
  qed
qed simp

lemma pick_none: "\<forall>p\<in>set ps. pstate p \<noteq> RUNNABLE \<Longrightarrow> pick ps i low ch = ch"
  by (induction ps arbitrary: i) auto

lemma pick_runnable_cases:
  "pick ps i low ch = ch \<and> (low = -1 \<longrightarrow> (\<forall>p\<in>set ps. pstate p \<noteq> RUNNABLE)) \<or>
   (\<exists>j<length ps. pick ps i low ch = Some (i + j) \<and> pstate (ps ! j) = RUNNABLE)"
proof (induction ps arbitrary: i low ch)
  case (Cons p ps)
  have shift: "\<exists>j<length ps. x = Some (Suc i + j) \<and> pstate (ps ! j) = RUNNABLE \<Longrightarrow>
      \<exists>j<length (p # ps). x = Some (i + j) \<and> pstate ((p # ps) ! j) = RUNNABLE" for x
    by (metis Suc_less_eq add_Suc_shift length_Cons nth_Cons_Suc)
  show ?case
  proof (cases "pstate p = RUNNABLE \<and> (low = -1 \<or> passvalue p < low)")
    case True
    then show ?thesis using Cons.IH[of "Suc i" "passvalue p" "Some i"] shift by fastforce
  next
    case False
    then show ?thesis using Cons.IH[of "Suc i" low ch] shift by auto
  qed
qed simp

lemma pick_runnable:
  assumes "\<exists>p\<in>set ps. pstate p = RUNNABLE"
  shows "\<exists>j<length ps. pick ps 0 (-1) ch = Some j \<and> pstate (ps ! j) = RUNNABLE"
  using pick_runnable_cases[of ps 0 "-1" ch] assms by auto

lemma pick_best:
  assumes "\<forall>p\<in>set ps. pstate p = RUNNABLE \<longrightarrow> 0 \<le> passvalue p" and "\<exists>p\<in>set ps. pstate p = RUNNABLE"
  shows "\<exists>j. pick ps 0 (-1) ch = Some j \<and> best ps j"
  using pick_cases[of "-1" ps 0 ch] assms by auto

section \<open>Rounds of the scheduler on one processor\<close>

text \<open>A round with processes that never block: the chosen one runs until the timer makes it yield.\<close>

fun rounds :: "nat \<Rightarrow> nat option \<Rightarrow> ptable \<Rightarrow> (nat option \<times> ptable) outcome" where
  "rounds 0 chosen s = Ret (chosen, s)"
| "rounds (Suc n) chosen s =
     bindO (scheduler chosen s) (\<lambda>(i, s1). bindO (yield i s1) (\<lambda>s2. rounds n (Some i) s2))"

definition pass_of :: "ptable \<Rightarrow> nat \<Rightarrow> int" where
  "pass_of s i = passvalue (procs s ! i)"

definition stride_of :: "ptable \<Rightarrow> nat \<Rightarrow> int" where
  "stride_of s i = init_stride (procs s ! i)"

definition ticks_of :: "ptable \<Rightarrow> nat \<Rightarrow> int" where
  "ticks_of s i = ticks (procs s ! i)"

lemmas sched_fields = pass_of_def stride_of_def ticks_of_def

text \<open>The arithmetic of the next \<open>n\<close> rounds stays in range.\<close>

definition in_range :: "nat \<Rightarrow> ptable \<Rightarrow> bool" where
  "in_range n s \<longleftrightarrow> (\<forall>i\<in>ready s. 0 \<le> pass_of s i \<and> 0 \<le> stride_of s i \<and> 0 \<le> ticks_of s i \<and>
     pass_of s i + int n * stride_of s i < 2147483648 \<and> ticks_of s i + int n < 2147483648)"

definition run_once :: "ptable \<Rightarrow> nat \<Rightarrow> ptable" where
  "run_once s i = upd s i (\<lambda>p. p\<lparr>passvalue := passvalue p + init_stride p, ticks := ticks p + 1,
                            pstate := RUNNABLE, pcontext := InSched\<rparr>)"

lemma finite_ready [simp]: "finite (ready s)"
  by (simp add: ready_def)

lemma ready_upd: "pstate (f (procs s ! i)) = pstate (procs s ! i) \<Longrightarrow> ready (upd s i f) = ready s"
  by (auto simp: ready_def nth_list_update_if split: if_splits)

lemma ready_ran [simp]: "i \<in> ready s \<Longrightarrow> ready (run_once s i) = ready s"
  by (auto simp: ready_def run_once_def nth_list_update_if)

lemma ran_fields:
  assumes "i \<in> ready s"
  shows "pass_of (run_once s i) k = (if k = i then pass_of s i + stride_of s i else pass_of s k)"
    and "stride_of (run_once s i) k = stride_of s k"
    and "ticks_of (run_once s i) k = (if k = i then ticks_of s i + 1 else ticks_of s k)"
  using assms by (auto simp: sched_fields run_once_def ready_def nth_list_update_if)

lemma one_round:
  assumes "ready s \<noteq> {}" and "in_range (Suc n) s"
  shows "\<exists>i. i \<in> ready s \<and> (\<forall>k\<in>ready s. pass_of s i \<le> pass_of s k) \<and>
           (\<forall>chosen. rounds (Suc n) chosen s = rounds n (Some i) (run_once s i))"
proof -
  have nonneg: "\<forall>p\<in>set (procs s). pstate p = RUNNABLE \<longrightarrow> 0 \<le> passvalue p"
    using assms(2) by (auto simp: in_range_def ready_def sched_fields in_set_conv_nth)
  have some: "\<exists>p\<in>set (procs s). pstate p = RUNNABLE"
    using assms(1) by (auto simp: ready_def)
  obtain i where i: "best (procs s) i"
    using pick_best[OF nonneg some] by blast
  have pick: "pick (procs s) 0 (-1) ch = Some i" for ch
  proof -
    obtain j where j: "pick (procs s) 0 (-1) ch = Some j" "best (procs s) j"
      using pick_best[OF nonneg some] by blast
    moreover have "j = i" using i j(2) by (metis best_def linorder_neqE_nat not_less)
    ultimately show ?thesis by simp
  qed
  have ir: "i \<in> ready s" using i by (simp add: best_def ready_def)
  have r: "0 \<le> pass_of s i" "0 \<le> stride_of s i" "0 \<le> ticks_of s i"
      "pass_of s i + stride_of s i + int n * stride_of s i < 2147483648" "ticks_of s i + 1 < 2147483648"
    using assms(2) ir by (auto simp: in_range_def algebra_simps)
  moreover have "0 \<le> int n * stride_of s i" using r(2) by simp
  ultimately have "pass_of s i + stride_of s i < 2147483648" by linarith
  then have "scheduler ch s = Ret (i, upd s i (\<lambda>p. p\<lparr>passvalue := passvalue p + init_stride p,
      ticks := ticks p + 1, pstate := RUNNING\<rparr>))" for ch
    using pick[of ch] r by (simp add: scheduler_def cint_def sched_fields upd_def Let_def)
  then have "rounds (Suc n) ch s = rounds n (Some i) (run_once s i)" for ch
    using ir by (simp add: yield_def sched_def run_once_def upd_def ready_def)
  then show ?thesis using ir i by (auto simp: best_def ready_def pass_of_def)
qed

lemma in_range_ran:
  assumes "in_range (Suc n) s" and "i \<in> ready s"
  shows "in_range n (run_once s i)"
  unfolding in_range_def
proof
  fix k assume "k \<in> ready (run_once s i)"
  then have k: "k \<in> ready s" using assms(2) by simp
  have "0 \<le> int n * stride_of s k" using assms(1) k by (simp add: in_range_def)
  then show "0 \<le> pass_of (run_once s i) k \<and> 0 \<le> stride_of (run_once s i) k \<and> 0 \<le> ticks_of (run_once s i) k \<and>
     pass_of (run_once s i) k + int n * stride_of (run_once s i) k < 2147483648 \<and> ticks_of (run_once s i) k + int n < 2147483648"
    using assms k unfolding ran_fields[OF assms(2)] in_range_def
    by (fastforce simp: algebra_simps)
qed

text \<open>
  Pass values are balanced when no runnable process is more than its own stride ahead of another.
\<close>

definition balanced :: "ptable \<Rightarrow> bool" where
  "balanced s \<longleftrightarrow> (\<forall>i\<in>ready s. \<forall>j\<in>ready s. pass_of s i \<le> pass_of s j + stride_of s i)"

lemma balanced_ran:
  assumes "balanced s" and "i \<in> ready s" and "\<forall>k\<in>ready s. pass_of s i \<le> pass_of s k"
    and "0 \<le> stride_of s i"
  shows "balanced (run_once s i)"
  using assms by (fastforce simp: balanced_def ran_fields)

lemma rounds_share:
  assumes "ready s \<noteq> {}" and "in_range n s" and "balanced s"
  shows "\<exists>c s'. rounds n chosen s = Ret (c, s') \<and> ready s' = ready s \<and> balanced s' \<and>
    (\<forall>i\<in>ready s. stride_of s' i = stride_of s i \<and> ticks_of s i \<le> ticks_of s' i \<and>
       pass_of s' i = pass_of s i + (ticks_of s' i - ticks_of s i) * stride_of s i) \<and>
    (\<Sum>i\<in>ready s. ticks_of s' i - ticks_of s i) = int n"
  using assms
proof (induction n arbitrary: s chosen)
  case (Suc n)
  obtain i where i: "i \<in> ready s" "\<forall>k\<in>ready s. pass_of s i \<le> pass_of s k"
      "rounds (Suc n) chosen s = rounds n (Some i) (run_once s i)"
    using one_round[OF Suc.prems(1,2)] by blast
  let ?s = "run_once s i"
  have pos: "0 \<le> stride_of s i" using Suc.prems(2) i(1) by (simp add: in_range_def)
  obtain c s' where s': "rounds n (Some i) ?s = Ret (c, s')" "ready s' = ready s" "balanced s'"
      "\<forall>k\<in>ready s. stride_of s' k = stride_of s k \<and> ticks_of ?s k \<le> ticks_of s' k \<and>
         pass_of s' k = pass_of ?s k + (ticks_of s' k - ticks_of ?s k) * stride_of s k"
      "(\<Sum>k\<in>ready s. ticks_of s' k - ticks_of ?s k) = int n"
    using Suc.IH[of ?s "Some i"] Suc.prems i in_range_ran balanced_ran[OF _ i(1,2) pos]
    by (auto simp: ran_fields(2)[OF i(1)])
  have "(\<Sum>k\<in>ready s. ticks_of s' k - ticks_of s k) =
      (\<Sum>k\<in>ready s. (ticks_of s' k - ticks_of ?s k) + (if k = i then 1 else 0))"
    by (rule sum.cong) (auto simp: ran_fields[OF i(1)])
  also have "\<dots> = int n + 1" using s'(5) i(1) by (simp add: sum.distrib)
  finally have total: "(\<Sum>k\<in>ready s. ticks_of s' k - ticks_of s k) = int (Suc n)" by simp
  have "stride_of s' k = stride_of s k \<and> ticks_of s k \<le> ticks_of s' k \<and>
       pass_of s' k = pass_of s k + (ticks_of s' k - ticks_of s k) * stride_of s k" if "k \<in> ready s" for k
    using bspec[OF s'(4) that] unfolding ran_fields[OF i(1)]
    by (cases "k = i") (simp_all add: algebra_simps)
  then show ?case using s' i(3) total by auto
qed auto

lemma rounds_monopoly:
  assumes "i \<in> ready s" and "stride_of s i = 0" and "pass_of s i = 0"
    and "\<forall>k\<in>ready s. k \<noteq> i \<longrightarrow> 0 < pass_of s k" and "in_range n s"
  shows "\<exists>c s'. rounds n chosen s = Ret (c, s') \<and>
    (\<forall>k\<in>ready s. ticks_of s' k = ticks_of s k + (if k = i then int n else 0))"
  using assms
proof (induction n arbitrary: s chosen)
  case (Suc n)
  obtain j where j: "j \<in> ready s" "\<forall>k\<in>ready s. pass_of s j \<le> pass_of s k"
      "rounds (Suc n) chosen s = rounds n (Some j) (run_once s j)"
    using one_round[OF _ Suc.prems(5)] Suc.prems(1) by blast
  have "j = i" using j(1,2) Suc.prems(1,3,4) by force
  moreover have "\<exists>c s'. rounds n (Some i) (run_once s i) = Ret (c, s') \<and>
      (\<forall>k\<in>ready s. ticks_of s' k = ticks_of (run_once s i) k + (if k = i then int n else 0))"
    using Suc.IH[of "run_once s i" "Some i"] Suc.prems in_range_ran[OF Suc.prems(5,1)]
    by (simp add: ran_fields)
  ultimately show ?case
    using j(3) Suc.prems(1) by (auto simp: ran_fields)
qed auto

section \<open>Properties\<close>

text \<open>
  C9. Proportional share. As long as the same processes stay runnable and their pass values and tick counts stay
  below \<open>2 ^ 31\<close> (214747 slices at the largest stride of 10000), \<open>n\<close> rounds of the scheduler hand out exactly \<open>n\<close> time slices among them, and the
  weighted shares never drift apart: for any two of them, the pass value plus slices times stride of
  the one exceeds that of the other by at most one stride. Since a stride is \<open>MAXSTRIDE\<close> divided by
  the tickets, processes that start with their pass value equal to their stride run in proportion
  to their tickets. The scheduler never reads an uninitialised \<open>chosenProc\<close> here.
\<close>

theorem stride_scheduler_fair:
  assumes "ready s \<noteq> {}" and "in_range n s" and "balanced s"
  shows "\<exists>c s'. rounds n chosen s = Ret (c, s') \<and> ready s' = ready s \<and>
    (\<Sum>i\<in>ready s. ticks_of s' i - ticks_of s i) = int n \<and>
    (\<forall>i\<in>ready s. \<forall>j\<in>ready s.
       pass_of s i + (ticks_of s' i - ticks_of s i) * stride_of s i \<le>
       pass_of s j + (ticks_of s' j - ticks_of s j) * stride_of s j + stride_of s i)"
proof -
  obtain c s' where s': "rounds n chosen s = Ret (c, s')" "ready s' = ready s" "balanced s'"
      "\<forall>i\<in>ready s. stride_of s' i = stride_of s i \<and>
         pass_of s' i = pass_of s i + (ticks_of s' i - ticks_of s i) * stride_of s i"
      "(\<Sum>i\<in>ready s. ticks_of s' i - ticks_of s i) = int n"
    using rounds_share[OF assms] by blast
  have "pass_of s' i \<le> pass_of s' j + stride_of s' i" if "i \<in> ready s" "j \<in> ready s" for i j
    using s'(2,3) that by (simp add: balanced_def)
  then show ?thesis using s' by (intro exI[of _ c] exI[of _ s']) auto
qed

definition demo_proc :: "int \<Rightarrow> proc" where
  "demo_proc n = \<lparr>sz = 4096, pgdir = 4096, kstack = 8192, pstate = RUNNABLE, pid = n, parent = None,
     tf = \<lparr>tf_eax = 0, tf_cs = 0, tf_ds = 0, tf_es = 0, tf_ss = 0, tf_eflags = 0, tf_esp = 0, tf_eip = 0, tf_other = []\<rparr>,
     pcontext = InSched, pchan = NoChan, killed = 0, ofile = [], cwd = None, pname = [],
     init_stride = MAXSTRIDE sdiv n, tickets = n, passvalue = MAXSTRIDE sdiv n, ticks = 0\<rparr>"

definition demo_ready :: ptable where
  "demo_ready = \<lparr>procs = [demo_proc 1, demo_proc 4], nextpid = 5, initproc = None, kcalls = []\<rparr>"

lemma ready_demo: "ready demo_ready = {0, 1}"
  by (auto simp: ready_def demo_ready_def demo_proc_def nth_Cons' less_Suc_eq_0_disj)

lemma demo_fields:
  "pass_of demo_ready 0 = 10000" "stride_of demo_ready 0 = 10000" "ticks_of demo_ready 0 = 0"
  "pass_of demo_ready (Suc 0) = 2500" "stride_of demo_ready (Suc 0) = 2500" "ticks_of demo_ready (Suc 0) = 0"
  by (simp_all add: sched_fields demo_ready_def demo_proc_def MAXSTRIDE_def signed_divide_int_def)

theorem stride_scheduler_fair_witness:
  "\<exists>c s'. rounds 50 None demo_ready = Ret (c, s') \<and> ticks_of s' 0 + ticks_of s' 1 = 50 \<and>
     10000 * ticks_of s' 0 \<le> 2500 * ticks_of s' 1 + 2500 \<and> 2500 * ticks_of s' 1 \<le> 10000 * ticks_of s' 0 + 10000"
proof -
  have "in_range 50 demo_ready" "balanced demo_ready"
    by (simp_all add: in_range_def balanced_def ready_demo demo_fields)
  then show ?thesis
    using stride_scheduler_fair[of demo_ready 50 None]
    by (auto simp: ready_demo demo_fields)
qed

text \<open>
  A process with more than \<open>MAXSTRIDE\<close> tickets takes the processor for itself: \<open>settickets\<close>
  accepts the number, the stride becomes 0, the pass value stays 0, and every one of the following
  \<open>n\<close> rounds goes to that process while the others make no progress.
\<close>

theorem zero_stride_monopolises:
  assumes "i \<in> ready s" and "MAXSTRIDE < m" and "settickets s i m = (r, s1)"
    and "\<forall>k\<in>ready s. k \<noteq> i \<longrightarrow> 0 < pass_of s k" and "in_range n s1"
  shows "r = 0 \<and> (\<exists>c s'. rounds n chosen s1 = Ret (c, s') \<and>
    (\<forall>k\<in>ready s. ticks_of s' k = ticks_of s k + (if k = i then int n else 0)))"
proof -
  have z: "MAXSTRIDE sdiv m = 0" using assms(2) by (simp add: MAXSTRIDE_def signed_divide_int_def)
  have s1: "r = 0" "s1 = upd s i (\<lambda>p. p\<lparr>tickets := m, init_stride := 0, passvalue := 0\<rparr>)"
    using assms(2,3) z by (auto simp: settickets_def MAXSTRIDE_def)
  have rd: "ready s1 = ready s" unfolding s1 by (rule ready_upd) simp
  have f: "pass_of s1 k = (if k = i then 0 else pass_of s k)" "stride_of s1 i = 0" "ticks_of s1 k = ticks_of s k" for k
    using assms(1) by (auto simp: s1 sched_fields ready_def nth_list_update_if)
  show ?thesis
    using rounds_monopoly[of i s1 n chosen] assms(1,4,5) f s1(1) unfolding rd by auto
qed

theorem zero_stride_monopolises_witness:
  "\<exists>c s'. rounds 7 None (snd (settickets demo_ready 0 20000)) = Ret (c, s') \<and>
     ticks_of s' 0 = 7 \<and> ticks_of s' 1 = 0"
proof -
  let ?s = "snd (settickets demo_ready 0 20000)"
  have "MAXSTRIDE sdiv 20000 = 0" by (simp add: MAXSTRIDE_def signed_divide_int_def)
  then have s: "?s = upd demo_ready 0 (\<lambda>p. p\<lparr>tickets := 20000, init_stride := 0, passvalue := 0\<rparr>)"
    by (simp add: settickets_def)
  have "ready ?s = {0, 1}" unfolding s by (subst ready_upd) (simp_all add: ready_demo)
  moreover have "pass_of ?s 0 = 0" "stride_of ?s 0 = 0" "ticks_of ?s 0 = 0" "pass_of ?s (Suc 0) = 2500"
      "stride_of ?s (Suc 0) = 2500" "ticks_of ?s (Suc 0) = 0"
    using demo_fields unfolding s by (simp_all add: sched_fields demo_ready_def demo_proc_def)
  ultimately have range: "in_range 7 ?s" by (simp add: in_range_def)
  have zero: "0 \<in> ready demo_ready" and big: "MAXSTRIDE < 20000"
    and set: "settickets demo_ready 0 20000 = (fst (settickets demo_ready 0 20000), ?s)"
    and others: "\<forall>k\<in>ready demo_ready. k \<noteq> 0 \<longrightarrow> 0 < pass_of demo_ready k"
    by (simp_all add: ready_demo demo_fields MAXSTRIDE_def)
  obtain c s' where "rounds 7 None ?s = Ret (c, s')"
      "\<forall>k\<in>{0, 1}. ticks_of s' k = ticks_of demo_ready k + (if k = 0 then int 7 else 0)"
    using zero_stride_monopolises[OF zero big set others range, of None] unfolding ready_demo by blast
  then show ?thesis by (intro exI[of _ c] exI[of _ s']) (simp add: demo_fields)
qed

lemma fork_unfold:
  assumes "find_index (\<lambda>p. pstate p = UNUSED) (procs s) = Some np" and "cint (nextpid s + 1) = Ret k"
  shows "fork s me stk pgd =
    (let s1 = (upd s np (\<lambda>p. p\<lparr>pstate := EMBRYO, pid := nextpid s, tickets := 1, ticks := 0,
                 init_stride := MAXSTRIDE sdiv 1, passvalue := MAXSTRIDE sdiv 1\<rparr>))\<lparr>nextpid := k\<rparr>
     in case alloc_stack s1 np stk of (None, s2) \<Rightarrow> Ret (-1, s2) | (Some i, s2) \<Rightarrow> Ret (fork_copy s2 me i pgd))"
  using assms by (simp add: fork_def allocproc_def alloc_claim_def Let_def split: prod.splits option.splits)

text \<open>
  \<open>kill(0)\<close> marks a process that does not exist yet. The search of \<open>kill\<close> ignores the state of
  a slot, an unused slot has pid 0, and \<open>allocproc\<close> does not clear \<open>killed\<close>: after a call of
  \<open>kill(0)\<close> that hits the first unused slot, the next child that is forked starts out killed.
\<close>

theorem kill_zero_marks_next_child:
  assumes "find_index (\<lambda>p. pstate p = UNUSED) (procs s) = Some np"
    and "find_index (\<lambda>p. pid p = 0) (procs s) = Some np"
    and "me < length (procs s)" and "pstate (procs s ! me) = RUNNING"
    and "stk \<noteq> 0" and "pgd \<noteq> 0" and "0 < nextpid s" and "nextpid s < 2147483647"
  shows "\<exists>s1 s2. kill s 0 = (0, s1) \<and> fork s1 me stk pgd = Ret (nextpid s, s2) \<and>
    pid (procs s2 ! np) = nextpid s \<and> pstate (procs s2 ! np) = RUNNABLE \<and> killed (procs s2 ! np) = 1"
proof -
  let ?s1 = "upd s np (\<lambda>p. p\<lparr>killed := 1, pstate := (if pstate p = SLEEPING then RUNNABLE else pstate p)\<rparr>)"
  have np: "np < length (procs s)" "pstate (procs s ! np) = UNUSED" "np \<noteq> me"
    using assms(1,4) by (auto simp: find_index_Some_iff)
  have first: "find_index (\<lambda>p. pstate p = UNUSED) (procs ?s1) = Some np"
    using assms(1) by (auto simp: find_index_Some_iff nth_list_update_if)
  have k: "cint (nextpid ?s1 + 1) = Ret (nextpid s + 1)" using assms(7,8) by (simp add: cint_def)
  have "kill s 0 = (0, ?s1)" using assms(2) by (simp add: kill_def)
  moreover have "\<exists>s2. fork ?s1 me stk pgd = Ret (nextpid s, s2) \<and> pid (procs s2 ! np) = nextpid s \<and>
      pstate (procs s2 ! np) = RUNNABLE \<and> killed (procs s2 ! np) = 1"
    using np assms(5,6) unfolding fork_unfold[OF first k]
    by (auto simp: alloc_stack_def fork_copy_def Let_def upd_def emit_def nth_list_update_if)
  ultimately show ?thesis by blast
qed

theorem kill_zero_marks_next_child_witness:
  "\<exists>s1 s2. kill (demo_ready\<lparr>procs := [(demo_proc 4)\<lparr>pstate := RUNNING\<rparr>, (demo_proc 1)\<lparr>pstate := UNUSED, pid := 0\<rparr>]\<rparr>) 0
     = (0, s1) \<and> fork s1 0 12288 16384 = Ret (5, s2) \<and> killed (procs s2 ! 1) = 1"
proof -
  let ?s = "demo_ready\<lparr>procs := [(demo_proc 4)\<lparr>pstate := RUNNING\<rparr>, (demo_proc 1)\<lparr>pstate := UNUSED, pid := 0\<rparr>]\<rparr>"
  have "find_index (\<lambda>p. pstate p = UNUSED) (procs ?s) = Some 1" "find_index (\<lambda>p. pid p = 0) (procs ?s) = Some 1"
    by (simp_all add: find_index_def demo_proc_def)
  then show ?thesis
    using kill_zero_marks_next_child[of ?s 1 0 12288 16384] by (auto simp: demo_ready_def)
qed

end
