(* ===== verification/Procsys.thy ===== *)
theory Procsys
  imports Proc
begin

text \<open>
  Several processors working on one process table: the operations of \<open>Proc\<close> as the steps of a
  transition system, its invariants, and what follows from them.

  Each processor is in its scheduler or runs a process. A process that has been switched back to
  inside \<open>sleep\<close> first clears its channel, with the table still locked. \<open>fork\<close> takes two steps, because it releases
  the lock after it has claimed a slot; in between, \<open>forking\<close> records the claim. The new slot is
  private to the forking process then, except that \<open>kill\<close> may mark it.
\<close>

record cpu =
  cpu_proc :: "nat option"
  chosenProc :: "nat option"

record psys =
  pt :: ptable
  cpus :: "cpu list"
  forking :: "nat \<Rightarrow> nat option"

definition st :: "psys \<Rightarrow> nat \<Rightarrow> procstate" where
  "st s i = pstate (procs (pt s) ! i)"

definition running :: "psys \<Rightarrow> nat \<Rightarrow> nat \<Rightarrow> bool" where
  "running s c me \<longleftrightarrow> c < length (cpus s) \<and> cpu_proc (cpus s ! c) = Some me"

text \<open>A process that is free to start an operation: it runs and is inside neither \<open>sleep\<close> nor \<open>fork\<close>.\<close>

definition free_to_act :: "psys \<Rightarrow> nat \<Rightarrow> nat \<Rightarrow> bool" where
  "free_to_act s c me \<longleftrightarrow> running s c me \<and> pchan (procs (pt s) ! me) = NoChan \<and> forking s me = None"

definition leave :: "psys \<Rightarrow> nat \<Rightarrow> ptable \<Rightarrow> psys" where
  "leave s c t = s\<lparr>pt := t, cpus := (cpus s)[c := (cpus s ! c)\<lparr>cpu_proc := None\<rparr>]\<rparr>"

text \<open>The table the kernel image starts with: all bytes zero.\<close>

definition zero_proc :: proc where
  "zero_proc = \<lparr>sz = 0, pgdir = 0, kstack = 0, pstate = UNUSED, pid = 0, parent = None,
     tf = \<lparr>tf_eax = 0, tf_cs = 0, tf_ds = 0, tf_es = 0, tf_ss = 0, tf_eflags = 0, tf_esp = 0, tf_eip = 0, tf_other = []\<rparr>,
     pcontext = NoContext, pchan = NoChan, killed = 0, ofile = replicate NOFILE None, cwd = None,
     pname = [], init_stride = 0, tickets = 0, passvalue = 0, ticks = 0\<rparr>"

definition boot_table :: ptable where
  "boot_table = \<lparr>procs = replicate NPROC zero_proc, nextpid = 1, initproc = None, kcalls = []\<rparr>"

definition boot_sys :: "nat \<Rightarrow> ptable \<Rightarrow> psys" where
  "boot_sys n t = \<lparr>pt = t, cpus = replicate n \<lparr>cpu_proc = None, chosenProc = None\<rparr>, forking = (\<lambda>_. None)\<rparr>"

text \<open>
  The states that can be reached when the scheduler is entered only with tables that satisfy \<open>G\<close>.
  A fresh kernel stack is one that no process has: this is the promise of \<open>kalloc\<close>.
\<close>

inductive preach :: "(ptable \<Rightarrow> bool) \<Rightarrow> psys \<Rightarrow> bool" for G where
  boot: "userinit boot_table stk pgd root = Ret t \<Longrightarrow> preach G (boot_sys n t)"
| schedule: "preach G s \<Longrightarrow> c < length (cpus s) \<Longrightarrow> cpu_proc (cpus s ! c) = None \<Longrightarrow> G (pt s) \<Longrightarrow>
    scheduler (chosenProc (cpus s ! c)) (pt s) = Ret (i, t) \<Longrightarrow>
    preach G (s\<lparr>pt := t, cpus := (cpus s)[c := \<lparr>cpu_proc = Some i, chosenProc = Some i\<rparr>]\<rparr>)"
| resume: "preach G s \<Longrightarrow> running s c me \<Longrightarrow> preach G (s\<lparr>pt := sleep_resume me (pt s)\<rparr>)"
| yields: "preach G s \<Longrightarrow> running s c me \<Longrightarrow> pchan (procs (pt s) ! me) = NoChan \<Longrightarrow>
    yield me (pt s) = Ret t \<Longrightarrow> preach G (leave s c t)"
| sleeps: "preach G s \<Longrightarrow> free_to_act s c me \<Longrightarrow> sleep me (AddrChan a) (pt s) = Ret t \<Longrightarrow>
    preach G (leave s c t)"
| wakes: "preach G s \<Longrightarrow> preach G (s\<lparr>pt := wakeup (AddrChan a) (pt s)\<rparr>)"
| kills: "preach G s \<Longrightarrow> free_to_act s c me \<Longrightarrow> kill (pt s) k = (r, t) \<Longrightarrow> preach G (s\<lparr>pt := t\<rparr>)"
| fork_claims: "preach G s \<Longrightarrow> free_to_act s c me \<Longrightarrow> alloc_claim (pt s) = Ret (Some np, t) \<Longrightarrow>
    preach G (s\<lparr>pt := t, forking := (forking s)(me := Some np)\<rparr>)"
| fork_no_stack: "preach G s \<Longrightarrow> running s c me \<Longrightarrow> forking s me = Some np \<Longrightarrow>
    alloc_stack (pt s) np 0 = (None, t) \<Longrightarrow> preach G (s\<lparr>pt := t, forking := (forking s)(me := None)\<rparr>)"
| fork_copies: "preach G s \<Longrightarrow> running s c me \<Longrightarrow> forking s me = Some np \<Longrightarrow>
    \<forall>p\<in>set (procs (pt s)). kstack p \<noteq> stk \<Longrightarrow> alloc_stack (pt s) np stk = (Some i, t1) \<Longrightarrow>
    fork_copy t1 me np pgd = (r, t) \<Longrightarrow> preach G (s\<lparr>pt := t, forking := (forking s)(me := None)\<rparr>)"
| exits: "preach G s \<Longrightarrow> free_to_act s c me \<Longrightarrow> exit me (pt s) = Ret t \<Longrightarrow> preach G (leave s c t)"
| waits: "preach G s \<Longrightarrow> free_to_act s c me \<Longrightarrow> wait_scan me (pt s) = Ret (r, t) \<Longrightarrow>
    preach G (if r = WaitSleep then leave s c t else s\<lparr>pt := t\<rparr>)"
| sets: "preach G s \<Longrightarrow> free_to_act s c me \<Longrightarrow> settickets (pt s) me n = (r, t) \<Longrightarrow> preach G (s\<lparr>pt := t\<rparr>)"
| grows: "preach G s \<Longrightarrow> free_to_act s c me \<Longrightarrow> growproc (pt s) me n z = (r, t) \<Longrightarrow> preach G (s\<lparr>pt := t\<rparr>)"

section \<open>Invariants\<close>

definition alive :: "psys \<Rightarrow> nat \<Rightarrow> bool" where
  "alive s i \<longleftrightarrow> i < length (procs (pt s)) \<and> st s i \<notin> {UNUSED, EMBRYO, ZOMBIE}"

definition inv_run :: "psys \<Rightarrow> bool" where
  "inv_run s \<longleftrightarrow>
     (\<forall>i<length (procs (pt s)). st s i = RUNNING \<longleftrightarrow> (\<exists>c. running s c i)) \<and>
     (\<forall>c d i. running s c i \<longrightarrow> running s d i \<longrightarrow> c = d) \<and>
     (\<forall>c i. running s c i \<longrightarrow> i < length (procs (pt s)))"

definition inv_fork :: "psys \<Rightarrow> bool" where
  "inv_fork s \<longleftrightarrow>
     (\<forall>i<length (procs (pt s)). st s i = EMBRYO \<longleftrightarrow> (\<exists>me. forking s me = Some i)) \<and>
     (\<forall>me me' i. forking s me = Some i \<longrightarrow> forking s me' = Some i \<longrightarrow> me = me') \<and>
     (\<forall>me i. forking s me = Some i \<longrightarrow> i < length (procs (pt s)) \<and> me < length (procs (pt s)) \<and>
        st s me \<in> {RUNNING, RUNNABLE})"

definition inv_pid :: "psys \<Rightarrow> bool" where
  "inv_pid s \<longleftrightarrow>
     (\<forall>i<length (procs (pt s)). st s i \<noteq> UNUSED \<longrightarrow>
        0 < pid (procs (pt s) ! i) \<and> pid (procs (pt s) ! i) < nextpid (pt s)) \<and>
     (\<forall>i<length (procs (pt s)). \<forall>j<length (procs (pt s)). st s i \<noteq> UNUSED \<longrightarrow> st s j \<noteq> UNUSED \<longrightarrow>
        pid (procs (pt s) ! i) = pid (procs (pt s) ! j) \<longrightarrow> i = j) \<and> 0 < nextpid (pt s)"

definition inv_parent :: "psys \<Rightarrow> bool" where
  "inv_parent s \<longleftrightarrow>
     (\<exists>r. initproc (pt s) = Some r \<and> alive s r) \<and>
     (\<forall>i<length (procs (pt s)).
        (st s i \<in> {UNUSED, EMBRYO} \<longrightarrow> parent (procs (pt s) ! i) = None) \<and>
        (st s i \<notin> {UNUSED, EMBRYO} \<longrightarrow> initproc (pt s) \<noteq> Some i \<longrightarrow> parent (procs (pt s) ! i) \<noteq> None) \<and>
        (initproc (pt s) = Some i \<longrightarrow> parent (procs (pt s) ! i) = None) \<and>
        (\<forall>q. parent (procs (pt s) ! i) = Some q \<longrightarrow> alive s q \<and> q \<noteq> i))"

definition inv_stack :: "psys \<Rightarrow> bool" where
  "inv_stack s \<longleftrightarrow>
     (\<forall>i<length (procs (pt s)). kstack (procs (pt s) ! i) = 0 \<longleftrightarrow> st s i \<in> {UNUSED, EMBRYO}) \<and>
     (\<forall>i<length (procs (pt s)). \<forall>j<length (procs (pt s)). kstack (procs (pt s) ! i) \<noteq> 0 \<longrightarrow>
        kstack (procs (pt s) ! i) = kstack (procs (pt s) ! j) \<longrightarrow> i = j)"

definition inv_wait :: "psys \<Rightarrow> bool" where
  "inv_wait s \<longleftrightarrow>
     (\<forall>i<length (procs (pt s)). st s i = SLEEPING \<longrightarrow>
        pchan (procs (pt s) ! i) \<noteq> NoChan \<and>
        (\<forall>q. pchan (procs (pt s) ! i) = ProcChan q \<longrightarrow> q = i \<and>
           (\<exists>j<length (procs (pt s)). parent (procs (pt s) ! j) = Some i) \<and>
           (\<forall>j<length (procs (pt s)). parent (procs (pt s) ! j) = Some i \<longrightarrow> st s j \<noteq> ZOMBIE)))"

definition pinv :: "psys \<Rightarrow> bool" where
  "pinv s \<longleftrightarrow> inv_run s \<and> inv_fork s \<and> inv_pid s \<and> inv_parent s \<and> inv_stack s \<and> inv_wait s"

lemmas inv_defs = inv_run_def inv_fork_def inv_pid_def inv_parent_def inv_stack_def inv_wait_def

section \<open>Steps that keep every process what it is\<close>

text \<open>
  Most steps only move processes between sleeping, runnable and running. They keep the invariants
  on pids, parents and stacks.
\<close>

definition same_kind :: "proc \<Rightarrow> proc \<Rightarrow> bool" where
  "same_kind p q \<longleftrightarrow> pid q = pid p \<and> parent q = parent p \<and> kstack q = kstack p \<and>
     (pstate q = UNUSED \<longleftrightarrow> pstate p = UNUSED) \<and> (pstate q = EMBRYO \<longleftrightarrow> pstate p = EMBRYO) \<and>
     (pstate q = ZOMBIE \<longleftrightarrow> pstate p = ZOMBIE)"

definition quiet :: "ptable \<Rightarrow> ptable \<Rightarrow> bool" where
  "quiet t u \<longleftrightarrow> length (procs u) = length (procs t) \<and> nextpid u = nextpid t \<and> initproc u = initproc t \<and>
     (\<forall>i<length (procs t). same_kind (procs t ! i) (procs u ! i))"

lemma quietD:
  assumes "quiet t u"
  shows "length (procs u) = length (procs t)" and "nextpid u = nextpid t" and "initproc u = initproc t"
    and "i < length (procs t) \<Longrightarrow> pid (procs u ! i) = pid (procs t ! i)"
    and "i < length (procs t) \<Longrightarrow> parent (procs u ! i) = parent (procs t ! i)"
    and "i < length (procs t) \<Longrightarrow> kstack (procs u ! i) = kstack (procs t ! i)"
    and "i < length (procs t) \<Longrightarrow> pstate (procs u ! i) = UNUSED \<longleftrightarrow> pstate (procs t ! i) = UNUSED"
    and "i < length (procs t) \<Longrightarrow> pstate (procs u ! i) = EMBRYO \<longleftrightarrow> pstate (procs t ! i) = EMBRYO"
    and "i < length (procs t) \<Longrightarrow> pstate (procs u ! i) = ZOMBIE \<longleftrightarrow> pstate (procs t ! i) = ZOMBIE"
  using assms by (auto simp: quiet_def same_kind_def)

lemma quiet_inv:
  assumes q: "quiet (pt s) (pt s')" and inv: "pinv s"
  shows "inv_pid s'" and "inv_parent s'" and "inv_stack s'"
proof -
  note quietD[OF q, simp]
  have alive: "alive s' i \<longleftrightarrow> alive s i" for i by (simp add: alive_def st_def cong: conj_cong)
  show "inv_pid s'" using inv by (simp add: pinv_def inv_pid_def st_def)
  show "inv_parent s'" using inv by (simp add: pinv_def inv_parent_def alive) (simp add: st_def)
  have "inv_stack s' = inv_stack s" by (simp add: inv_stack_def st_def)
  then show "inv_stack s'" using inv by (simp add: pinv_def)
qed

lemma quiet_inv_fork:
  assumes q: "quiet (pt s) (pt s')" and inv: "pinv s" and f: "forking s' = forking s"
    and st: "\<And>me i. forking s me = Some i \<Longrightarrow> st s' me \<in> {RUNNING, RUNNABLE}"
  shows "inv_fork s'"
proof -
  have "inv_fork s" using inv by (simp add: pinv_def)
  moreover have "st s' i = EMBRYO \<longleftrightarrow> st s i = EMBRYO" if "i < length (procs (pt s))" for i
    using quietD(8)[OF q that] by (simp add: st_def)
  ultimately show ?thesis
    using st unfolding inv_fork_def f quietD(1)[OF q] by blast
qed

lemma quiet_inv_wait:
  assumes q: "quiet (pt s) (pt s')" and inv: "pinv s"
    and st: "\<And>i. i < length (procs (pt s)) \<Longrightarrow> st s' i = SLEEPING \<Longrightarrow>
           st s i = SLEEPING \<and> pchan (procs (pt s') ! i) = pchan (procs (pt s) ! i)"
  shows "inv_wait s'"
proof -
  have z: "st s' i = ZOMBIE \<longleftrightarrow> st s i = ZOMBIE" if "i < length (procs (pt s))" for i
    using quietD(9)[OF q that] by (simp add: st_def)
  have w: "inv_wait s" using inv by (simp add: pinv_def)
  show ?thesis unfolding inv_wait_def quietD(1)[OF q]
  proof (intro allI impI)
    fix i assume i: "i < length (procs (pt s))" "st s' i = SLEEPING"
    show "pchan (procs (pt s') ! i) \<noteq> NoChan \<and>
      (\<forall>q. pchan (procs (pt s') ! i) = ProcChan q \<longrightarrow> q = i \<and>
         (\<exists>j<length (procs (pt s)). parent (procs (pt s') ! j) = Some i) \<and>
         (\<forall>j<length (procs (pt s)). parent (procs (pt s') ! j) = Some i \<longrightarrow> st s' j \<noteq> ZOMBIE))"
      using w st[OF i] i(1) unfolding inv_wait_def
      by (simp add: quietD(5)[OF q] z cong: conj_cong)
  qed
qed

lemma quiet_upd:
  "(i < length (procs t) \<Longrightarrow> same_kind (procs t ! i) (f (procs t ! i))) \<Longrightarrow> quiet t (upd t i f)"
  by (auto simp: quiet_def nth_list_update_if) (simp_all add: same_kind_def)

lemma running_slot: "inv_run s \<Longrightarrow> running s c me \<Longrightarrow> me < length (procs (pt s)) \<and> st s me = RUNNING"
  by (auto simp: inv_run_def)

lemma running_idle:
  assumes "running s c me"
  shows "running (leave s c t) d i \<longleftrightarrow> running s d i \<and> d \<noteq> c"
  using assms by (auto simp: running_def leave_def nth_list_update_if)

lemma running_pt [simp]: "running (s\<lparr>pt := t\<rparr>) c i = running s c i"
    "running (s\<lparr>pt := t, forking := f\<rparr>) c i = running s c i"
  by (simp_all add: running_def)

lemma leave_simps [simp]: "pt (leave s c t) = t" "forking (leave s c t) = forking s"
  by (simp_all add: leave_def)

lemma pinv_leave:
  assumes inv: "pinv s" and c: "running s c me" and q: "quiet (pt s) t"
    and me: "pstate (procs t ! me) \<in> {RUNNABLE, SLEEPING}"
    and forks: "forking s me \<noteq> None \<Longrightarrow> pstate (procs t ! me) = RUNNABLE"
    and rest: "\<And>i. i \<noteq> me \<Longrightarrow> procs t ! i = procs (pt s) ! i"
    and wait: "inv_wait (leave s c t)"
  shows "pinv (leave s c t)"
proof -
  have q': "quiet (pt s) (pt (leave s c t))" using q by simp
  have len: "length (procs t) = length (procs (pt s))" using q by (simp add: quiet_def)
  have run: "inv_run s" using inv by (simp add: pinv_def)
  have st: "st (leave s c t) i = (if i = me then pstate (procs t ! me) else st s i)" for i
    using rest[of i] by (simp add: st_def)
  have "st s me = RUNNING" and lt: "me < length (procs (pt s))" using running_slot[OF run c] by auto
  have uniq: "d = c" if "running s d me" for d using run c that unfolding inv_run_def by blast
  have "inv_run (leave s c t)" unfolding inv_run_def
  proof (intro conjI allI impI)
    fix i assume "i < length (procs (pt (leave s c t)))"
    then have "st s i = RUNNING \<longleftrightarrow> (\<exists>d. running s d i)" using run len by (simp add: inv_run_def)
    moreover have "d \<noteq> c" if "running s d i" "i \<noteq> me" for d
      using that c by (auto simp: running_def)
    ultimately show "st (leave s c t) i = RUNNING \<longleftrightarrow> (\<exists>d. running (leave s c t) d i)"
      using me uniq unfolding st running_idle[OF c] by auto
  qed (use run len in \<open>auto simp: inv_run_def running_idle[OF c]\<close>)
  moreover have "inv_fork (leave s c t)"
    using inv me forks by (intro quiet_inv_fork[OF q' inv]) (auto simp: st pinv_def inv_fork_def)
  ultimately show ?thesis using quiet_inv[OF q' inv] wait by (simp add: pinv_def)
qed

lemma pinv_parts:
  assumes "pinv s"
  shows "inv_run s" "inv_fork s" "inv_pid s" "inv_parent s" "inv_stack s" "inv_wait s"
  using assms by (simp_all add: pinv_def)

text \<open>Quiet steps that leave the processors alone and no running process stops running.\<close>

lemma pinv_stay:
  assumes inv: "pinv s" and q: "quiet (pt s) t"
    and run: "\<And>i. i < length (procs (pt s)) \<Longrightarrow> pstate (procs t ! i) = RUNNING \<longleftrightarrow> st s i = RUNNING"
    and sleep: "\<And>i. i < length (procs (pt s)) \<Longrightarrow> pstate (procs t ! i) = SLEEPING \<Longrightarrow>
      st s i = SLEEPING \<and> pchan (procs t ! i) = pchan (procs (pt s) ! i)"
  shows "pinv (s\<lparr>pt := t\<rparr>)"
proof -
  let ?s = "s\<lparr>pt := t\<rparr>"
  have q': "quiet (pt s) (pt ?s)" using q by simp
  have "inv_run ?s"
    using pinv_parts(1)[OF inv] run quietD(1)[OF q] by (simp add: inv_run_def st_def)
  moreover have "inv_fork ?s"
  proof (rule quiet_inv_fork[OF q' inv])
    fix me i assume "forking s me = Some i"
    then have me: "me < length (procs (pt s))" "st s me \<in> {RUNNING, RUNNABLE}"
      using pinv_parts(2)[OF inv] by (auto simp: inv_fork_def)
    then have "pstate (procs t ! me) \<notin> {UNUSED, EMBRYO, ZOMBIE, SLEEPING}"
      using quietD(7-9)[OF q me(1)] sleep[OF me(1)] by (auto simp: st_def)
    then show "st ?s me \<in> {RUNNING, RUNNABLE}" by (cases "pstate (procs t ! me)") (auto simp: st_def)
  qed simp
  moreover have "inv_wait ?s" using sleep by (intro quiet_inv_wait[OF q' inv]) (simp add: st_def)
  ultimately show ?thesis using quiet_inv[OF q' inv] by (simp add: pinv_def)
qed

lemma pinv_resume:
  assumes "pinv s" and "running s c me"
  shows "pinv (s\<lparr>pt := sleep_resume me (pt s)\<rparr>)"
proof (rule pinv_stay[OF assms(1)])
  have me: "me < length (procs (pt s))" "st s me = RUNNING"
    using running_slot[OF pinv_parts(1) assms(2)] assms(1) by auto
  show "quiet (pt s) (sleep_resume me (pt s))"
    unfolding sleep_resume_def by (rule quiet_upd) (simp add: same_kind_def)
qed (use running_slot[OF pinv_parts(1)[OF assms(1)] assms(2)] in
    \<open>auto simp: sleep_resume_def nth_list_update_if st_def split: if_splits\<close>)

lemma pinv_wakes: "pinv s \<Longrightarrow> pinv (s\<lparr>pt := wakeup ch (pt s)\<rparr>)"
  by (rule pinv_stay) (auto simp: quiet_def same_kind_def wakeup_def wakeup1_nth st_def split: if_splits)

lemma pinv_kills:
  assumes "pinv s" and "kill (pt s) k = (r, t)"
  shows "pinv (s\<lparr>pt := t\<rparr>)"
proof (cases "find_index (\<lambda>p. pid p = k) (procs (pt s))")
  case None
  then have "t = pt s" using assms(2) by (simp add: kill_def)
  then show ?thesis using assms(1) by simp
next
  case (Some i)
  then have t: "t = upd (pt s) i (\<lambda>p. p\<lparr>killed := 1, pstate := (if pstate p = SLEEPING then RUNNABLE else pstate p)\<rparr>)"
    using assms(2) by (simp add: kill_def)
  show ?thesis
  proof (rule pinv_stay[OF assms(1)])
    show "quiet (pt s) t" unfolding t by (rule quiet_upd) (auto simp: same_kind_def)
  qed (auto simp: t nth_list_update_if st_def split: if_splits)
qed

lemma pinv_adjust:
  assumes "pinv s" and "\<And>p. same_kind p (f p) \<and> pstate (f p) = pstate p \<and> pchan (f p) = pchan p"
  shows "pinv (s\<lparr>pt := upd (pt s) me f\<rparr>)"
proof (rule pinv_stay[OF assms(1)])
  show "quiet (pt s) (upd (pt s) me f)" using assms(2) by (intro quiet_upd) simp
qed (use assms(2) in \<open>auto simp: nth_list_update_if st_def split: if_splits\<close>)

lemma pinv_sets: "pinv s \<Longrightarrow> settickets (pt s) me n = (r, t) \<Longrightarrow> pinv (s\<lparr>pt := t\<rparr>)"
  by (auto simp: settickets_def same_kind_def split: if_splits intro!: pinv_adjust)

lemma pinv_grows: "pinv s \<Longrightarrow> growproc (pt s) me n z = (r, t) \<Longrightarrow> pinv (s\<lparr>pt := t\<rparr>)"
  by (auto simp: growproc_def same_kind_def split: if_splits intro!: pinv_adjust)

lemma pinv_yields:
  assumes inv: "pinv s" and c: "running s c me" and y: "yield me (pt s) = Ret t"
  shows "pinv (leave s c t)"
proof -
  have me: "me < length (procs (pt s))" "st s me = RUNNING"
    using running_slot[OF pinv_parts(1)[OF inv] c] by auto
  have t: "t = upd (upd (pt s) me (\<lambda>p. p\<lparr>pstate := RUNNABLE\<rparr>)) me (\<lambda>p. p\<lparr>pcontext := InSched\<rparr>)"
    using y by (simp add: yield_def sched_def split: if_splits)
  have q: "quiet (pt s) t" using me unfolding t
    by (auto simp: quiet_def same_kind_def nth_list_update_if st_def)
  have "inv_wait (leave s c t)" using me q
    by (intro quiet_inv_wait[OF _ inv]) (auto simp: t st_def nth_list_update_if split: if_splits)
  then show ?thesis using me by (intro pinv_leave[OF inv c q]) (auto simp: t nth_list_update_if)
qed

lemma pinv_sleeps:
  assumes inv: "pinv s" and c: "free_to_act s c me" and sl: "sleep me ch (pt s) = Ret t"
    and ch: "ch \<noteq> NoChan" "\<And>q. ch = ProcChan q \<Longrightarrow> q = me \<and>
      (\<exists>j<length (procs (pt s)). parent (procs (pt s) ! j) = Some me) \<and>
      (\<forall>j<length (procs (pt s)). parent (procs (pt s) ! j) = Some me \<longrightarrow> st s j \<noteq> ZOMBIE)"
  shows "pinv (leave s c t)"
proof -
  have run: "running s c me" "forking s me = None" using c by (auto simp: free_to_act_def)
  have me: "me < length (procs (pt s))" "st s me = RUNNING"
    using running_slot[OF pinv_parts(1)[OF inv] run(1)] by auto
  have t: "t = upd (upd (pt s) me (\<lambda>p. p\<lparr>pchan := ch, pstate := SLEEPING\<rparr>)) me (\<lambda>p. p\<lparr>pcontext := InSched\<rparr>)"
    using sl by (simp add: sleep_def sched_def split: if_splits)
  have q: "quiet (pt s) t" using me unfolding t
    by (auto simp: quiet_def same_kind_def nth_list_update_if st_def)
  have par: "parent (procs t ! j) = parent (procs (pt s) ! j)" for j
    using me by (simp add: t nth_list_update_if)
  have z: "pstate (procs t ! j) = ZOMBIE \<longleftrightarrow> st s j = ZOMBIE" for j
    using me by (auto simp: t nth_list_update_if st_def)
  have w: "inv_wait s" using inv by (rule pinv_parts)
  have "inv_wait (leave s c t)" unfolding inv_wait_def
  proof (intro allI impI)
    fix i assume i: "i < length (procs (pt (leave s c t)))" "st (leave s c t) i = SLEEPING"
    have "length (procs t) = length (procs (pt s))" using quietD(1)[OF q] .
    then show "pchan (procs (pt (leave s c t)) ! i) \<noteq> NoChan \<and>
      (\<forall>q. pchan (procs (pt (leave s c t)) ! i) = ProcChan q \<longrightarrow> q = i \<and>
         (\<exists>j<length (procs (pt (leave s c t))). parent (procs (pt (leave s c t)) ! j) = Some i) \<and>
         (\<forall>j<length (procs (pt (leave s c t))). parent (procs (pt (leave s c t)) ! j) = Some i \<longrightarrow>
            st (leave s c t) j \<noteq> ZOMBIE))"
    proof (cases "i = me")
      case True
      then have "pchan (procs t ! i) = ch" using me by (simp add: t nth_list_update_if)
      then show ?thesis using True ch \<open>length (procs t) = _\<close> par z by (auto simp: st_def)
    next
      case False
      then have "pchan (procs t ! i) = pchan (procs (pt s) ! i)" "pstate (procs t ! i) = st s i"
        by (simp_all add: t st_def)
      then show ?thesis using w i \<open>length (procs t) = _\<close> by (simp add: inv_wait_def par z st_def)
    qed
  qed
  then show ?thesis using me run by (intro pinv_leave[OF inv run(1) q]) (auto simp: t nth_list_update_if)
qed

lemma scheduler_ready:
  assumes "ready t \<noteq> {}" and "scheduler ch t = Ret (i, u)"
  shows "i \<in> ready t \<and> (\<exists>pv k. u = upd t i (\<lambda>p. p\<lparr>passvalue := pv, ticks := k, pstate := RUNNING\<rparr>))"
proof -
  have "\<exists>p\<in>set (procs t). pstate p = RUNNABLE" using assms(1) by (auto simp: ready_def)
  then obtain j where "pick (procs t) 0 (-1) ch = Some j" "j \<in> ready t"
    using pick_runnable[of "procs t" ch] by (auto simp: ready_def)
  then show ?thesis using assms(2) by (auto simp: scheduler_def Let_def)
qed

lemma pinv_schedule:
  assumes inv: "pinv s" and c: "c < length (cpus s)" "cpu_proc (cpus s ! c) = None"
    and r: "ready (pt s) \<noteq> {}" and sch: "scheduler ch (pt s) = Ret (i, t)"
  shows "pinv (s\<lparr>pt := t, cpus := (cpus s)[c := \<lparr>cpu_proc = Some i, chosenProc = Some i\<rparr>]\<rparr>)" (is "pinv ?s")
proof -
  obtain pv k where i: "i < length (procs (pt s))" "st s i = RUNNABLE"
    and t: "t = upd (pt s) i (\<lambda>p. p\<lparr>passvalue := pv, ticks := k, pstate := RUNNING\<rparr>)"
    using scheduler_ready[OF r sch] by (auto simp: ready_def st_def)
  have q: "quiet (pt s) (pt ?s)" using i by (auto simp: t same_kind_def st_def intro!: quiet_upd)
  have st: "st ?s j = (if j = i then RUNNING else st s j)" for j
    using i(1) by (simp add: st_def t nth_list_update_if)
  have running: "running ?s d j \<longleftrightarrow> (if d = c then j = i else running s d j)" for d j
    using c by (auto simp: running_def nth_list_update_if)
  have idle: "\<not> running s c j" for j using c by (simp add: running_def)
  have not_run: "\<not> running s d i" for d using running_slot[OF pinv_parts(1)[OF inv], of d i] i by auto
  have run: "inv_run s" using inv by (rule pinv_parts)
  have "inv_run ?s" unfolding inv_run_def
  proof (intro conjI allI impI)
    fix j assume "j < length (procs (pt ?s))"
    then have "st s j = RUNNING \<longleftrightarrow> (\<exists>d. running s d j)" using run t by (simp add: inv_run_def)
    then show "st ?s j = RUNNING \<longleftrightarrow> (\<exists>d. running ?s d j)"
      unfolding st running using idle by (auto split: if_splits) metis+
  next
    fix a b j assume "running ?s a j" "running ?s b j"
    then show "a = b" unfolding running using not_run run by (auto simp: inv_run_def split: if_splits)
  next
    fix a j assume "running ?s a j"
    then show "j < length (procs (pt ?s))"
      unfolding running using i(1) run by (auto simp: inv_run_def t split: if_splits)
  qed
  moreover have "inv_fork ?s"
    using pinv_parts(2)[OF inv] by (intro quiet_inv_fork[OF q inv]) (auto simp: st inv_fork_def)
  moreover have "inv_wait ?s"
    by (rule quiet_inv_wait[OF q inv]) (auto simp: st_def t nth_list_update_if split: if_splits)
  ultimately show ?thesis using quiet_inv[OF q inv] by (simp add: pinv_def)
qed

section \<open>Steps that create or remove a process\<close>

text \<open>
  One slot that no processor runs is given new contents, as \<open>fork\<close> and \<open>wait\<close> do; \<open>me\<close> is the
  running process that does it.
\<close>

lemma pinv_slot:
  assumes inv: "pinv s" and me: "me < length (procs (pt s))" "st s me = RUNNING"
    and i: "i < length (procs (pt s))" "st s i \<in> {UNUSED, EMBRYO, ZOMBIE}"
      "parent (procs (pt s) ! i) \<in> {None, Some me}"
    and t: "procs t = (procs (pt s))[i := p]" "initproc t = initproc (pt s)" "nextpid (pt s) \<le> nextpid t"
    and state: "pstate p \<in> {UNUSED, EMBRYO, RUNNABLE}"
    and parent: "parent p = (if pstate p = RUNNABLE then Some me else None)"
    and kstack: "kstack p = 0 \<longleftrightarrow> pstate p \<noteq> RUNNABLE"
      "\<And>j. j < length (procs (pt s)) \<Longrightarrow> j \<noteq> i \<Longrightarrow> kstack p \<noteq> 0 \<Longrightarrow> kstack (procs (pt s) ! j) \<noteq> kstack p"
    and pid: "pstate p \<noteq> UNUSED \<Longrightarrow> 0 < pid p \<and> pid p < nextpid t"
      "\<And>j. j < length (procs (pt s)) \<Longrightarrow> j \<noteq> i \<Longrightarrow> st s j \<noteq> UNUSED \<Longrightarrow> pstate p \<noteq> UNUSED \<Longrightarrow>
        Proc.pid (procs (pt s) ! j) \<noteq> pid p"
    and fork: "inv_fork (s\<lparr>pt := t, forking := f\<rparr>)"
  shows "pinv (s\<lparr>pt := t, forking := f\<rparr>)"
proof -
  let ?s = "s\<lparr>pt := t, forking := f\<rparr>"
  have nth: "procs t ! j = (if j = i then p else procs (pt s) ! j)" for j
    using i(1) t(1) by (simp add: nth_list_update_if)
  have st: "st ?s j = (if j = i then pstate p else st s j)" for j by (simp add: st_def nth)
  have len: "length (procs (pt ?s)) = length (procs (pt s))" using t(1) by simp
  have alive: "alive ?s q" if "alive s q" for q
    using that i(2) unfolding alive_def st len by auto
  have run: "inv_run ?s"
    using pinv_parts(1)[OF inv] i(2) state unfolding inv_run_def st len running_pt
    by (metis insertE procstate.distinct singletonD)
  have "inv_pid ?s"
    using pinv_parts(3)[OF inv] pid t(3) unfolding inv_pid_def st len
    by (auto simp: nth split: if_splits) (metis order_less_le_trans)+
  moreover have "inv_parent ?s"
  proof -
    obtain r where r: "initproc (pt s) = Some r" "alive s r"
      using pinv_parts(4)[OF inv] by (auto simp: inv_parent_def)
    then have "r \<noteq> i" "me \<noteq> i" using i(2) me by (auto simp: alive_def)
    have old: "(st s j \<in> {UNUSED, EMBRYO} \<longrightarrow> Proc.parent (procs (pt s) ! j) = None) \<and>
        (st s j \<notin> {UNUSED, EMBRYO} \<longrightarrow> r \<noteq> j \<longrightarrow> Proc.parent (procs (pt s) ! j) \<noteq> None) \<and>
        (r = j \<longrightarrow> Proc.parent (procs (pt s) ! j) = None) \<and>
        (\<forall>q. Proc.parent (procs (pt s) ! j) = Some q \<longrightarrow> alive s q \<and> q \<noteq> j)" if "j < length (procs (pt s))" for j
      using pinv_parts(4)[OF inv] that r(1) by (simp add: inv_parent_def)
    have "alive ?s me" using me by (intro alive) (simp add: alive_def)
    then have "(st ?s j \<in> {UNUSED, EMBRYO} \<longrightarrow> Proc.parent (procs t ! j) = None) \<and>
        (st ?s j \<notin> {UNUSED, EMBRYO} \<longrightarrow> r \<noteq> j \<longrightarrow> Proc.parent (procs t ! j) \<noteq> None) \<and>
        (r = j \<longrightarrow> Proc.parent (procs t ! j) = None) \<and>
        (\<forall>q. Proc.parent (procs t ! j) = Some q \<longrightarrow> alive ?s q \<and> q \<noteq> j)" if "j < length (procs (pt s))" for j
      using old[OF that] alive state parent \<open>r \<noteq> i\<close> \<open>me \<noteq> i\<close> unfolding st nth by (cases "j = i") auto
    then show ?thesis using alive[OF r(2)] r(1) by (simp add: inv_parent_def t(2) len[simplified])
  qed
  moreover have "inv_stack ?s"
    using pinv_parts(5)[OF inv] kstack state unfolding inv_stack_def st len
    by (auto simp: nth split: if_splits) metis+
  moreover have "inv_wait ?s" unfolding inv_wait_def len
  proof (intro allI impI)
    fix k assume k: "k < length (procs (pt s))" "st ?s k = SLEEPING"
    then have ki: "k \<noteq> i" "k \<noteq> me" "st s k = SLEEPING" using state me by (auto simp: st split: if_splits)
    have par: "parent (procs (pt ?s) ! j) = Some k \<longleftrightarrow> j \<noteq> i \<and> parent (procs (pt s) ! j) = Some k" for j
      using ki parent by (auto simp: nth)
    have "parent (procs (pt s) ! i) \<noteq> Some k" using i(3) ki by auto
    then show "pchan (procs (pt ?s) ! k) \<noteq> NoChan \<and>
      (\<forall>q. pchan (procs (pt ?s) ! k) = ProcChan q \<longrightarrow> q = k \<and>
         (\<exists>j<length (procs (pt s)). parent (procs (pt ?s) ! j) = Some k) \<and>
         (\<forall>j<length (procs (pt s)). parent (procs (pt ?s) ! j) = Some k \<longrightarrow> st ?s j \<noteq> ZOMBIE))"
      using pinv_parts(6)[OF inv] k(1) ki unfolding inv_wait_def par st by (simp add: nth) metis
  qed
  ultimately show ?thesis using run fork by (simp add: pinv_def)
qed

lemma free_slot: "pinv s \<Longrightarrow> free_to_act s c me \<Longrightarrow> me < length (procs (pt s)) \<and> st s me = RUNNING \<and> forking s me = None"
  using running_slot[of s c me] by (auto simp: free_to_act_def pinv_def)

lemma forkingD:
  assumes "pinv s" and "forking s m = Some k"
  shows "k < length (procs (pt s))" "m < length (procs (pt s))" "st s m = RUNNING \<or> st s m = RUNNABLE"
    "st s k = EMBRYO" "m \<noteq> k" "\<And>m'. forking s m' = Some k \<Longrightarrow> m' = m"
proof -
  note f = pinv_parts(2)[OF assms(1), unfolded inv_fork_def]
  show k: "k < length (procs (pt s))" and "m < length (procs (pt s))"
    and m: "st s m = RUNNING \<or> st s m = RUNNABLE" using f assms(2) by blast+
  show e: "st s k = EMBRYO" using f assms(2) k by blast
  show "m \<noteq> k" using m e by auto
  show "\<And>m'. forking s m' = Some k \<Longrightarrow> m' = m" using f assms(2) by blast
qed

lemma inv_fork_same:
  assumes inv: "pinv s" and s': "forking s' = forking s" "length (procs (pt s')) = length (procs (pt s))"
    and st: "\<And>j. st s' j = EMBRYO \<longleftrightarrow> st s j = EMBRYO"
      "\<And>j. st s j = RUNNING \<or> st s j = RUNNABLE \<Longrightarrow> forking s j \<noteq> None \<Longrightarrow> st s' j = st s j"
  shows "inv_fork s'"
  unfolding inv_fork_def s' st(1)
proof (intro conjI allI impI)
  fix m k assume "forking s m = Some k"
  then show "k < length (procs (pt s))" "m < length (procs (pt s))" "st s' m \<in> {RUNNING, RUNNABLE}"
    using forkingD[OF inv] st(2)[of m] by auto
qed (use pinv_parts(2)[OF inv] in \<open>auto simp: inv_fork_def\<close>)

lemma inv_fork_claim:
  assumes inv: "pinv s" and me: "me < length (procs (pt s))" "st s me = RUNNING" "forking s me = None"
    and np: "np < length (procs (pt s))" "st s np = UNUSED"
    and t: "procs t = (procs (pt s))[np := p]" "pstate p = EMBRYO"
  shows "inv_fork (s\<lparr>pt := t, forking := (forking s)(me := Some np)\<rparr>)" (is "inv_fork ?s")
proof -
  have st: "st ?s j = (if j = np then EMBRYO else st s j)" for j
    using np(1) t by (simp add: st_def nth_list_update_if)
  have old: "forking s m = Some k \<Longrightarrow> k \<noteq> np \<and> m \<noteq> np" for m k
    using forkingD(3,4)[OF inv, of m k] np(2) by auto
  have f: "forking ?s m = Some k \<longleftrightarrow> (if m = me then k = np else forking s m = Some k)" for m k
    by auto
  show ?thesis unfolding inv_fork_def
  proof (intro conjI allI impI)
    fix j assume "j < length (procs (pt ?s))"
    then have "st s j = EMBRYO \<longleftrightarrow> (\<exists>m. forking s m = Some j)"
      using pinv_parts(2)[OF inv] t(1) by (simp add: inv_fork_def)
    then show "st ?s j = EMBRYO \<longleftrightarrow> (\<exists>m. forking ?s m = Some j)"
      unfolding st f using old me(3) by (metis option.distinct(1))
  next
    fix m m' k assume "forking ?s m = Some k" "forking ?s m' = Some k"
    then show "m = m'" unfolding f using old forkingD(6)[OF inv] by (metis (full_types))
  next
    fix m k assume "forking ?s m = Some k"
    then show "k < length (procs (pt ?s))" "m < length (procs (pt ?s))" "st ?s m \<in> {RUNNING, RUNNABLE}"
      unfolding f st using me np old forkingD[OF inv] t(1) by (auto split: if_splits)
  qed
qed

lemma inv_fork_done:
  assumes inv: "pinv s" and me: "forking s me = Some np"
    and t: "procs t = (procs (pt s))[np := p]" "pstate p \<noteq> EMBRYO"
  shows "inv_fork (s\<lparr>pt := t, forking := (forking s)(me := None)\<rparr>)" (is "inv_fork ?s")
proof -
  have np: "np < length (procs (pt s))" "st s np = EMBRYO"
    using pinv_parts(2)[OF inv] me by (auto simp: inv_fork_def)
  have st: "st ?s j = (if j = np then pstate p else st s j)" for j
    using np(1) t by (simp add: st_def nth_list_update_if)
  have only: "forking s m = Some np \<Longrightarrow> m = me" for m
    using pinv_parts(2)[OF inv] me by (auto simp: inv_fork_def)
  have f: "forking ?s m = Some k \<longleftrightarrow> m \<noteq> me \<and> forking s m = Some k" for m k by auto
  have other: "m \<noteq> np" if "forking s m = Some k" for m k
    using forkingD(3)[OF inv that] np(2) by auto
  show ?thesis unfolding inv_fork_def
  proof (intro conjI allI impI)
    fix j assume "j < length (procs (pt ?s))"
    then have "st s j = EMBRYO \<longleftrightarrow> (\<exists>m. forking s m = Some j)"
      using pinv_parts(2)[OF inv] t(1) by (simp add: inv_fork_def)
    moreover have "(\<exists>m. forking ?s m = Some j) \<longleftrightarrow> j \<noteq> np \<and> (\<exists>m. forking s m = Some j)"
      unfolding f using only me by (metis option.inject)
    ultimately show "st ?s j = EMBRYO \<longleftrightarrow> (\<exists>m. forking ?s m = Some j)"
      unfolding st using t(2) by simp
  next
    fix m m' k assume "forking ?s m = Some k" "forking ?s m' = Some k"
    then show "m = m'" using pinv_parts(2)[OF inv] by (auto simp: inv_fork_def split: if_splits)
  next
    fix m k assume "forking ?s m = Some k"
    then have "forking s m = Some k" by (simp split: if_splits)
    then show "k < length (procs (pt ?s))" "m < length (procs (pt ?s))" "st ?s m \<in> {RUNNING, RUNNABLE}"
      using pinv_parts(2)[OF inv] other unfolding st by (auto simp: inv_fork_def t(1))
  qed
qed

lemma pinv_fork_claims:
  assumes inv: "pinv s" and c: "free_to_act s c me" and cl: "alloc_claim (pt s) = Ret (Some np, t)"
  shows "pinv (s\<lparr>pt := t, forking := (forking s)(me := Some np)\<rparr>)"
proof -
  have me: "me < length (procs (pt s))" "st s me = RUNNING" "forking s me = None"
    using free_slot[OF inv c] by auto
  let ?p = "(procs (pt s) ! np)\<lparr>pstate := EMBRYO, pid := nextpid (pt s), tickets := 1, ticks := 0,
      init_stride := MAXSTRIDE sdiv 1, passvalue := MAXSTRIDE sdiv 1\<rparr>"
  have np: "np < length (procs (pt s))" "st s np = UNUSED"
    and t: "procs t = (procs (pt s))[np := ?p]" "initproc t = initproc (pt s)" "nextpid t = nextpid (pt s) + 1"
    using cl by (auto simp: alloc_claim_def st_def upd_def find_index_Some_iff split: option.splits dest!: cint_RetD)
  have "parent (procs (pt s) ! np) = None" "kstack (procs (pt s) ! np) = 0" "0 < nextpid (pt s)"
    using pinv_parts(3-5)[OF inv] np by (auto simp: inv_parent_def inv_stack_def inv_pid_def)
  moreover have "pid (procs (pt s) ! j) \<noteq> nextpid (pt s)" if "j < length (procs (pt s))" "st s j \<noteq> UNUSED" for j
    using pinv_parts(3)[OF inv] that by (auto simp: inv_pid_def)
  ultimately show ?thesis
    using np by (intro pinv_slot[OF inv me(1,2) np(1) _ _ t(1,2)] inv_fork_claim[OF inv me np t(1)]) (auto simp: t(3))
qed

lemma pinv_fork_no_stack:
  assumes inv: "pinv s" and c: "running s c me" and f: "forking s me = Some np"
    and al: "alloc_stack (pt s) np 0 = (None, t)"
  shows "pinv (s\<lparr>pt := t, forking := (forking s)(me := None)\<rparr>)"
proof -
  have me: "me < length (procs (pt s))" "st s me = RUNNING"
    using running_slot[OF pinv_parts(1)[OF inv] c] by auto
  have np: "np < length (procs (pt s))" "st s np = EMBRYO"
    using pinv_parts(2)[OF inv] f by (auto simp: inv_fork_def)
  have par: "parent (procs (pt s) ! np) = None"
    using pinv_parts(4)[OF inv] np by (auto simp: inv_parent_def)
  have t: "procs t = (procs (pt s))[np := (procs (pt s) ! np)\<lparr>kstack := 0, pstate := UNUSED\<rparr>]"
      "initproc t = initproc (pt s)" "nextpid t = nextpid (pt s)"
    using al by (auto simp: alloc_stack_def)
  show ?thesis
    using np par by (intro pinv_slot[OF inv me np(1) _ _ t(1,2)] inv_fork_done[OF inv f t(1)]) (auto simp: t(3))
qed

lemma pinv_fork_copies:
  assumes inv: "pinv s" and c: "running s c me" and f: "forking s me = Some np"
    and fresh: "\<forall>p\<in>set (procs (pt s)). kstack p \<noteq> stk"
    and al: "alloc_stack (pt s) np stk = (Some i, t1)" and cp: "fork_copy t1 me np pgd = (r, t)"
  shows "pinv (s\<lparr>pt := t, forking := (forking s)(me := None)\<rparr>)"
proof -
  have me: "me < length (procs (pt s))" "st s me = RUNNING"
    using running_slot[OF pinv_parts(1)[OF inv] c] by auto
  have np: "np < length (procs (pt s))" "st s np = EMBRYO"
    using pinv_parts(2)[OF inv] f by (auto simp: inv_fork_def)
  have old: "parent (procs (pt s) ! np) = None" "0 < pid (procs (pt s) ! np)"
      "pid (procs (pt s) ! np) < nextpid (pt s)"
    using pinv_parts(3,4)[OF inv] np by (auto simp: inv_parent_def inv_pid_def)
  have uniq: "pid (procs (pt s) ! j) \<noteq> pid (procs (pt s) ! np)"
    if "j < length (procs (pt s))" "j \<noteq> np" "st s j \<noteq> UNUSED" for j
    using pinv_parts(3)[OF inv] that np by (auto simp: inv_pid_def)
  obtain p where t: "procs t = (procs (pt s))[np := p]" "initproc t = initproc (pt s)" "nextpid t = nextpid (pt s)"
    and p: "pid p = pid (procs (pt s) ! np)" "pstate p \<in> {UNUSED, RUNNABLE}"
      "parent p = (if pstate p = RUNNABLE then Some me else None)"
      "kstack p = (if pstate p = RUNNABLE then stk else 0)" "stk \<noteq> 0"
    using al cp np(1) old(1)
    by (cases "pgd = 0") (auto simp: alloc_stack_def fork_copy_def Let_def upd_def emit_def split: if_splits)
  have "kstack (procs (pt s) ! j) \<noteq> stk" if "j < length (procs (pt s))" for j
    using fresh that by simp
  then show ?thesis
    using np old p uniq
    by (intro pinv_slot[OF inv me np(1) _ _ t(1,2)] inv_fork_done[OF inv f t(1)]) (auto simp: t(3))
qed

lemma pinv_waits:
  assumes inv: "pinv s" and c: "free_to_act s c me" and w: "wait_scan me (pt s) = Ret (r, t)"
  shows "pinv (if r = WaitSleep then leave s c t else s\<lparr>pt := t\<rparr>)"
proof (cases "find_index (\<lambda>p. parent p = Some me \<and> pstate p = ZOMBIE) (procs (pt s))")
  case (Some i)
  have me: "me < length (procs (pt s))" "st s me = RUNNING" using free_slot[OF inv c] by auto
  have i: "i < length (procs (pt s))" "parent (procs (pt s) ! i) = Some me" "st s i = ZOMBIE"
    using Some by (auto simp: find_index_Some_iff st_def)
  have r: "r \<noteq> WaitSleep" and t: "procs t = (procs (pt s))[i := (procs (pt s) ! i)\<lparr>kstack := 0, pstate := UNUSED,
      pid := 0, parent := None, pname := [], killed := 0\<rparr>]"
      "initproc t = initproc (pt s)" "nextpid t = nextpid (pt s)"
    using w Some by (auto simp: wait_scan_def Let_def)
  have st: "st (s\<lparr>pt := t\<rparr>) j = (if j = i then UNUSED else st s j)" for j
    using i(1) t(1) by (simp add: st_def nth_list_update_if)
  have "inv_fork (s\<lparr>pt := t\<rparr>)"
    using i(3) t(1) by (intro inv_fork_same[OF inv]) (auto simp: st)
  then have "inv_fork (s\<lparr>pt := t, forking := forking s\<rparr>)" by simp
  then have "pinv (s\<lparr>pt := t, forking := forking s\<rparr>)"
    using i by (intro pinv_slot[OF inv me i(1) _ _ t(1,2)]) (auto simp: t(3))
  then show ?thesis using r by simp
next
  case None
  then have kids: "\<forall>j<length (procs (pt s)). parent (procs (pt s) ! j) = Some me \<longrightarrow> st s j \<noteq> ZOMBIE"
    by (auto simp: find_index_None_iff st_def)
  show ?thesis
  proof (cases "(\<forall>p\<in>set (procs (pt s)). parent p \<noteq> Some me) \<or> killed (procs (pt s) ! me) \<noteq> 0")
    case True
    then have "r = WaitFail" "t = pt s" using w None by (auto simp: wait_scan_def)
    then show ?thesis using inv by simp
  next
    case False
    then obtain t' where sl: "sleep me (ProcChan me) (pt s) = Ret t'" "r = WaitSleep" "t = t'"
      using w unfolding wait_scan_def None option.case(1) if_not_P[OF False] by auto
    have "\<exists>j<length (procs (pt s)). parent (procs (pt s) ! j) = Some me"
      using False by (auto simp: in_set_conv_nth)
    then show ?thesis using kids sl pinv_sleeps[OF inv c sl(1)] by simp
  qed
qed

section \<open>Exit\<close>

definition zombie_child :: "nat \<Rightarrow> proc \<Rightarrow> bool" where
  "zombie_child me p \<longleftrightarrow> parent p = Some me \<and> pstate p = ZOMBIE"

text \<open>The fields that one round of the loop changes.\<close>

lemma reparent1_fields:
  assumes "initproc s = Some r" and "k < length (procs s)"
  shows "length (procs (reparent1 me k s)) = length (procs s)"
    and "nextpid (reparent1 me k s) = nextpid s" and "initproc (reparent1 me k s) = initproc s"
    and "j < length (procs s) \<Longrightarrow> parent (procs (reparent1 me k s) ! j) =
      (if j = k \<and> parent (procs s ! k) = Some me then Some r else parent (procs s ! j))"
    and "j < length (procs s) \<Longrightarrow> pstate (procs (reparent1 me k s) ! j) =
      (if zombie_child me (procs s ! k) \<and>
          pstate (procs s ! j) = SLEEPING \<and> pchan (procs s ! j) = ProcChan r
       then RUNNABLE else pstate (procs s ! j))"
    and "j < length (procs s) \<Longrightarrow> pid (procs (reparent1 me k s) ! j) = pid (procs s ! j) \<and>
      kstack (procs (reparent1 me k s) ! j) = kstack (procs s ! j) \<and>
      pchan (procs (reparent1 me k s) ! j) = pchan (procs s ! j)"
  using assms by (auto simp: reparent1_def zombie_child_def Let_def slot_chan_def wakeup1_nth nth_list_update_if)

text \<open>What the whole loop does to a slot, and whether it wakes \<open>initproc\<close>.\<close>

definition adopted :: "nat \<Rightarrow> nat \<Rightarrow> proc \<Rightarrow> proc \<Rightarrow> bool \<Rightarrow> bool" where
  "adopted me r p q W \<longleftrightarrow>
     parent q = (if parent p = Some me then Some r else parent p) \<and>
     pstate q = (if W \<and> pstate p = SLEEPING \<and> pchan p = ProcChan r then RUNNABLE else pstate p) \<and>
     pid q = pid p \<and> kstack q = kstack p \<and> pchan q = pchan p"

definition woken :: "nat \<Rightarrow> proc \<Rightarrow> proc \<Rightarrow> bool \<Rightarrow> bool" where
  "woken r p q W \<longleftrightarrow>
     parent q = parent p \<and>
     pstate q = (if W \<and> pstate p = SLEEPING \<and> pchan p = ProcChan r then RUNNABLE else pstate p) \<and>
     pid q = pid p \<and> kstack q = kstack p \<and> pchan q = pchan p"

lemma reparent_fold:
  assumes init: "initproc s = Some r" "r \<noteq> me" and "k \<le> length (procs s)"
  shows "length (procs (fold (reparent1 me) [0..<k] s)) = length (procs s) \<and>
    nextpid (fold (reparent1 me) [0..<k] s) = nextpid s \<and> initproc (fold (reparent1 me) [0..<k] s) = initproc s \<and>
    (\<forall>j<length (procs s). (if j < k then adopted me r else woken r) (procs s ! j)
       (procs (fold (reparent1 me) [0..<k] s) ! j) (\<exists>i<k. zombie_child me (procs s ! i)))"
  using assms(3)
proof (induction k)
  case (Suc k)
  let ?s = "fold (reparent1 me) [0..<k] s" and ?W = "\<exists>i<k. zombie_child me (procs s ! i)"
  have k: "k < length (procs s)" using Suc.prems by simp
  have IH: "length (procs ?s) = length (procs s)" "nextpid ?s = nextpid s" "initproc ?s = Some r"
    and slot: "\<And>j. j < length (procs s) \<Longrightarrow>
      (if j < k then adopted me r else woken r) (procs s ! j) (procs ?s ! j) ?W"
    using Suc.IH k init by simp_all
  note f = reparent1_fields[where s = ?s and me = me, unfolded IH(1), OF IH(3) k]
  have kk: "parent (procs ?s ! k) = parent (procs s ! k)"
      "zombie_child me (procs ?s ! k) \<longleftrightarrow> zombie_child me (procs s ! k)"
    using slot[OF k] by (auto simp: woken_def zombie_child_def)
  have W: "(\<exists>i<Suc k. zombie_child me (procs s ! i)) \<longleftrightarrow> ?W \<or> zombie_child me (procs s ! k)"
    by (auto simp: less_Suc_eq)
  have step: "fold (reparent1 me) [0..<Suc k] s = reparent1 me k ?s" by simp
  have "(if j < Suc k then adopted me r else woken r) (procs s ! j) (procs (reparent1 me k ?s) ! j)
       (?W \<or> zombie_child me (procs s ! k))" if j: "j < length (procs s)" for j
  proof -
    define W where "W = (\<exists>i<k. zombie_child me (procs s ! i))"
    show ?thesis
      using slot[OF j] f(4-6)[OF j] kk unfolding W_def[symmetric]
      by (cases "j < k"; cases "j = k") (auto simp: adopted_def woken_def)
  qed
  then show ?case unfolding step W using f(1-3) IH init by simp
qed (simp add: woken_def)

text \<open>The whole of \<open>exit\<close>, slot by slot.\<close>

definition exited :: "nat \<Rightarrow> nat \<Rightarrow> nat option \<Rightarrow> bool \<Rightarrow> nat \<Rightarrow> proc \<Rightarrow> proc \<Rightarrow> bool" where
  "exited me r par W j p q \<longleftrightarrow>
     parent q = (if parent p = Some me then Some r else parent p) \<and>
     pstate q = (if j = me then ZOMBIE
       else if pstate p = SLEEPING \<and> (pchan p = slot_chan par \<or> W \<and> pchan p = ProcChan r) then RUNNABLE
       else pstate p) \<and>
     pid q = pid p \<and> kstack q = kstack p \<and> pchan q = pchan p"

lemma exit_slots:
  assumes init: "initproc t = Some r" and me: "me < length (procs t)" "pstate (procs t ! me) = RUNNING"
    and ex: "exit me t = Ret u"
  shows "r \<noteq> me \<and> length (procs u) = length (procs t) \<and> nextpid u = nextpid t \<and> initproc u = initproc t \<and>
    (\<forall>j<length (procs t). exited me r (parent (procs t ! me))
       (\<exists>i<length (procs t). zombie_child me (procs t ! i)) j (procs t ! j) (procs u ! j))"
proof -
  have r: "r \<noteq> me" using ex init by (auto simp: exit_def)
  define t1 where "t1 = emit (upd t me (\<lambda>p. p\<lparr>ofile := map (\<lambda>_. None) (ofile p), cwd := None\<rparr>))
    (map (\<lambda>f. Fileclose (the f)) (filter (\<lambda>f. f \<noteq> None) (ofile (procs t ! me))) @ [Iput (cwd (procs t ! me))])"
  define t2 where "t2 = wakeup1 (slot_chan (parent (procs t ! me))) t1"
  define t3 where "t3 = fold (reparent1 me) [0..<length (procs t2)] t2"
  have u: "u = upd (upd t3 me (\<lambda>p. p\<lparr>pstate := ZOMBIE\<rparr>)) me (\<lambda>p. p\<lparr>pcontext := InSched\<rparr>)"
    using ex r init by (auto simp: exit_def Let_def sched_def t1_def t2_def t3_def split: if_splits)
  have len: "length (procs t2) = length (procs t)" and init2: "initproc t2 = Some r" "nextpid t2 = nextpid t"
    using init by (simp_all add: t2_def t1_def)
  have slot2: "parent (procs t2 ! j) = parent (procs t ! j)" "pid (procs t2 ! j) = pid (procs t ! j)"
      "kstack (procs t2 ! j) = kstack (procs t ! j)" "pchan (procs t2 ! j) = pchan (procs t ! j)"
      "pstate (procs t2 ! j) = (if pstate (procs t ! j) = SLEEPING \<and> pchan (procs t ! j) = slot_chan (parent (procs t ! me))
         then RUNNABLE else pstate (procs t ! j))"
    if "j < length (procs t)" for j
    using that by (simp_all add: t2_def t1_def wakeup1_nth nth_list_update_if)
  have W: "(\<exists>i<length (procs t). zombie_child me (procs t2 ! i)) \<longleftrightarrow> (\<exists>i<length (procs t). zombie_child me (procs t ! i))"
    using slot2(1,5) by (intro ex_cong1) (auto simp: zombie_child_def split: if_splits)
  note f = reparent_fold[OF init2(1) r, of "length (procs t2)", folded t3_def]
  have slot3: "adopted me r (procs t2 ! j) (procs t3 ! j) (\<exists>i<length (procs t). zombie_child me (procs t ! i))"
    if "j < length (procs t)" for j
    using f that unfolding len W by simp
  have "exited me r (parent (procs t ! me)) (\<exists>i<length (procs t). zombie_child me (procs t ! i)) j
      (procs t ! j) (procs u ! j)" if j: "j < length (procs t)" for j
    using slot3[OF j] slot2[OF j] f len me unfolding u
    by (auto simp: exited_def adopted_def nth_list_update_if)
  then show ?thesis using r f len init2 init by (simp add: u)
qed

text \<open>The facts about an exit step from \<open>s\<close> to \<open>s'\<close> that the invariants need.\<close>

definition exit_effect :: "psys \<Rightarrow> psys \<Rightarrow> nat \<Rightarrow> nat \<Rightarrow> bool \<Rightarrow> bool" where
  "exit_effect s s' me r W \<longleftrightarrow>
     pinv s \<and> me < length (procs (pt s)) \<and> st s me = RUNNING \<and> forking s me = None \<and>
     initproc (pt s) = Some r \<and> alive s r \<and> r \<noteq> me \<and>
     W = (\<exists>i<length (procs (pt s)). zombie_child me (procs (pt s) ! i)) \<and>
     length (procs (pt s')) = length (procs (pt s)) \<and> nextpid (pt s') = nextpid (pt s) \<and>
     initproc (pt s') = Some r \<and> forking s' = forking s \<and>
     (\<forall>j<length (procs (pt s)).
        exited me r (parent (procs (pt s) ! me)) W j (procs (pt s) ! j) (procs (pt s') ! j))"

lemma exit_effectI:
  assumes inv: "pinv s" and c: "free_to_act s c me" and ex: "exit me (pt s) = Ret t"
  shows "\<exists>r W. exit_effect s (leave s c t) me r W"
proof -
  have me: "me < length (procs (pt s))" "st s me = RUNNING" "forking s me = None"
    using free_slot[OF inv c] by auto
  obtain r where init: "initproc (pt s) = Some r" "alive s r"
    using pinv_parts(4)[OF inv] by (auto simp: inv_parent_def)
  show ?thesis
    using exit_slots[OF init(1) me(1) me(2)[unfolded st_def] ex] inv me init
    by (auto simp: exit_effect_def)
qed

lemma exit_effectD:
  assumes "exit_effect s s' me r W"
  shows "pinv s" "me < length (procs (pt s))" "st s me = RUNNING" "forking s me = None"
    "initproc (pt s) = Some r" "alive s r" "r \<noteq> me"
    "W = (\<exists>i<length (procs (pt s)). zombie_child me (procs (pt s) ! i))"
    "length (procs (pt s')) = length (procs (pt s))" "nextpid (pt s') = nextpid (pt s)"
    "initproc (pt s') = Some r" "forking s' = forking s"
  using assms by (simp_all add: exit_effect_def)

lemma exit_slotD:
  assumes "exit_effect s s' me r W" and "j < length (procs (pt s))"
  shows "st s' j = (if j = me then ZOMBIE
      else if st s j = SLEEPING \<and> (pchan (procs (pt s) ! j) = slot_chan (parent (procs (pt s) ! me)) \<or>
        W \<and> pchan (procs (pt s) ! j) = ProcChan r) then RUNNABLE else st s j)"
    "parent (procs (pt s') ! j) =
      (if parent (procs (pt s) ! j) = Some me then Some r else parent (procs (pt s) ! j))"
    "pid (procs (pt s') ! j) = pid (procs (pt s) ! j)"
    "kstack (procs (pt s') ! j) = kstack (procs (pt s) ! j)"
    "pchan (procs (pt s') ! j) = pchan (procs (pt s) ! j)"
  using assms unfolding exit_effect_def exited_def st_def by blast+

lemma inv_run_exit:
  assumes e: "exit_effect s (leave s c t) me r W" and c: "running s c me"
  shows "inv_run (leave s c t)"
  unfolding inv_run_def
proof (intro conjI allI impI)
  have run: "inv_run s" using exit_effectD(1)[OF e] by (rule pinv_parts)
  note len = exit_effectD(9)[OF e]
  fix i assume "i < length (procs (pt (leave s c t)))"
  then have i: "i < length (procs (pt s))" using len by simp
  have uniq: "d = c" if "running s d me" for d using run c that unfolding inv_run_def by blast
  have "st s i = RUNNING \<longleftrightarrow> (\<exists>d. running s d i)" using run i by (simp add: inv_run_def)
  moreover have "d \<noteq> c" if "running s d i" "i \<noteq> me" for d using that c by (auto simp: running_def)
  ultimately show "st (leave s c t) i = RUNNING \<longleftrightarrow> (\<exists>d. running (leave s c t) d i)"
    using uniq unfolding exit_slotD(1)[OF e i] running_idle[OF c] by auto
qed (use pinv_parts(1)[OF exit_effectD(1)[OF e]] exit_effectD(9)[OF e] in
    \<open>auto simp: inv_run_def running_idle[OF c]\<close>)

lemma inv_fork_exit:
  assumes e: "exit_effect s s' me r W"
  shows "inv_fork s'"
  unfolding inv_fork_def exit_effectD(9,12)[OF e]
proof (intro conjI allI impI)
  note inv = exit_effectD(1)[OF e]
  fix i assume i: "i < length (procs (pt s))"
  then have "st s i = EMBRYO \<longleftrightarrow> (\<exists>m. forking s m = Some i)"
    using pinv_parts(2)[OF inv] by (simp add: inv_fork_def)
  then show "st s' i = EMBRYO \<longleftrightarrow> (\<exists>m. forking s m = Some i)"
    unfolding exit_slotD(1)[OF e i] using exit_effectD(3)[OF e] by auto
next
  fix m m' k assume "forking s m = Some k" "forking s m' = Some k"
  then show "m = m'" using forkingD(6)[OF exit_effectD(1)[OF e]] by simp
next
  fix m k assume f: "forking s m = Some k"
  show "k < length (procs (pt s))" "m < length (procs (pt s))" "st s' m \<in> {RUNNING, RUNNABLE}"
    using forkingD(1-3)[OF exit_effectD(1)[OF e] f] exit_effectD(4)[OF e] f exit_slotD(1)[OF e, of m] by auto
qed

lemma inv_parent_exit:
  assumes e: "exit_effect s s' me r W"
  shows "inv_parent s'"
proof -
  note d = exit_effectD[OF e] and sl = exit_slotD[OF e]
  have alive: "alive s' q" if "alive s q" "q \<noteq> me" for q
    using that sl(1)[of q] by (auto simp: alive_def d(9))
  have pi: "inv_parent s" using d(1) by (rule pinv_parts)
  have pi_nth: "parent (procs (pt s) ! i) = Some q \<Longrightarrow> alive s q \<and> q \<noteq> i \<and> i \<noteq> r"
    if "i < length (procs (pt s))" for i q
    using pi that d(5) by (auto simp: inv_parent_def)
  have "\<forall>q. parent (procs (pt s') ! i) = Some q \<longrightarrow> alive s' q \<and> q \<noteq> i" if "i < length (procs (pt s))" for i
    using pi_nth[OF that] alive d(6,7) unfolding sl(2)[OF that] by (auto split: if_splits)
  moreover have "(st s' i \<in> {UNUSED, EMBRYO} \<longrightarrow> parent (procs (pt s') ! i) = None) \<and>
      (st s' i \<notin> {UNUSED, EMBRYO} \<longrightarrow> r \<noteq> i \<longrightarrow> parent (procs (pt s') ! i) \<noteq> None) \<and>
      (r = i \<longrightarrow> parent (procs (pt s') ! i) = None)"
    if i: "i < length (procs (pt s))" for i
  proof -
    have "st s' i \<in> {UNUSED, EMBRYO} \<longleftrightarrow> st s i \<in> {UNUSED, EMBRYO}" unfolding sl(1)[OF i] using d(3) by auto
    moreover have "parent (procs (pt s') ! i) = None \<longleftrightarrow> parent (procs (pt s) ! i) = None"
      unfolding sl(2)[OF i] by auto
    ultimately show ?thesis using pi i d(5) by (simp add: inv_parent_def)
  qed
  ultimately show ?thesis using alive[OF d(6,7)] by (simp add: inv_parent_def d(9,11))
qed

text \<open>Whoever still sleeps in \<open>wait\<close> after an exit has no zombie among its children.\<close>

lemma exit_wakes_waiters:
  assumes e: "exit_effect s s' me r W" and i: "i < length (procs (pt s))" "st s' i = SLEEPING"
    and ch: "pchan (procs (pt s) ! i) = ProcChan i"
    and kids: "\<forall>j<length (procs (pt s)). parent (procs (pt s) ! j) = Some i \<longrightarrow> st s j \<noteq> ZOMBIE"
    and j: "j < length (procs (pt s))" "parent (procs (pt s') ! j) = Some i"
  shows "st s' j \<noteq> ZOMBIE"
proof -
  note d = exit_effectD[OF e] and sl = exit_slotD[OF e]
  have i_me: "i \<noteq> me" and not_par: "parent (procs (pt s) ! me) \<noteq> Some i" and not_W: "\<not> (W \<and> r = i)"
    using i(2) ch unfolding sl(1)[OF i(1)] by (auto simp: slot_chan_def split: if_splits)
  have not_self: "parent (procs (pt s) ! me) \<noteq> Some me"
    using pinv_parts(4)[OF d(1)] d(2) by (auto simp: inv_parent_def)
  have "st s j \<noteq> ZOMBIE" "j \<noteq> me"
    using j sl(2)[OF j(1)] kids not_W not_par not_self d(8)
    by (auto simp: zombie_child_def st_def split: if_splits)
  then show ?thesis using sl(1)[OF j(1)] by auto
qed

lemma inv_wait_exit:
  assumes e: "exit_effect s s' me r W"
  shows "inv_wait s'"
  unfolding inv_wait_def exit_effectD(9)[OF e]
proof (intro allI impI)
  note d = exit_effectD[OF e] and sl = exit_slotD[OF e]
  fix i assume i: "i < length (procs (pt s))" "st s' i = SLEEPING"
  then have old: "st s i = SLEEPING" "i \<noteq> me" unfolding sl(1)[OF i(1)] by (auto split: if_splits)
  have w: "pchan (procs (pt s) ! i) \<noteq> NoChan" "\<And>q. pchan (procs (pt s) ! i) = ProcChan q \<Longrightarrow> q = i \<and>
      (\<exists>j<length (procs (pt s)). parent (procs (pt s) ! j) = Some i) \<and>
      (\<forall>j<length (procs (pt s)). parent (procs (pt s) ! j) = Some i \<longrightarrow> st s j \<noteq> ZOMBIE)"
    using pinv_parts(6)[OF d(1)] i(1) old(1) by (auto simp: inv_wait_def)
  have "\<exists>j<length (procs (pt s)). parent (procs (pt s') ! j) = Some i" if "pchan (procs (pt s) ! i) = ProcChan i"
    using w(2)[OF that] old(2) sl(2) by (metis option.inject)
  then show "pchan (procs (pt s') ! i) \<noteq> NoChan \<and> (\<forall>q. pchan (procs (pt s') ! i) = ProcChan q \<longrightarrow> q = i \<and>
      (\<exists>j<length (procs (pt s)). parent (procs (pt s') ! j) = Some i) \<and>
      (\<forall>j<length (procs (pt s)). parent (procs (pt s') ! j) = Some i \<longrightarrow> st s' j \<noteq> ZOMBIE))"
    using w exit_wakes_waiters[OF e i] unfolding sl(5)[OF i(1)] by blast
qed

lemma pinv_exits:
  assumes "pinv s" and "free_to_act s c me" and "exit me (pt s) = Ret t"
  shows "pinv (leave s c t)"
proof -
  obtain r W where e: "exit_effect s (leave s c t) me r W" using exit_effectI[OF assms] by blast
  note d = exit_effectD[OF e] and sl = exit_slotD[OF e]
  have unused: "st (leave s c t) i \<in> {UNUSED, EMBRYO} \<longleftrightarrow> st s i \<in> {UNUSED, EMBRYO}"
      "st (leave s c t) i = UNUSED \<longleftrightarrow> st s i = UNUSED" if "i < length (procs (pt s))" for i
    unfolding sl(1)[OF that] using d(3) by auto
  have "inv_pid (leave s c t)"
    using pinv_parts(3)[OF d(1)] unfolding inv_pid_def d(9,10) by (simp only: unused(2) sl(3) simp_thms cong: imp_cong)
  moreover have "inv_stack (leave s c t) = inv_stack s"
    unfolding inv_stack_def d(9) by (simp only: unused(1) sl(4) cong: imp_cong)
  ultimately show ?thesis
    using inv_run_exit[OF e] inv_fork_exit[OF e] inv_parent_exit[OF e] inv_wait_exit[OF e] assms(2)
      pinv_parts(5)[OF d(1)] by (simp add: pinv_def free_to_act_def)
qed

section \<open>Every reachable state\<close>

lemma boot_table_simps:
  "procs boot_table = replicate NPROC zero_proc" "nextpid boot_table = 1" "0 < NPROC"
  "pstate zero_proc = UNUSED" "parent zero_proc = None" "kstack zero_proc = 0"
  by (simp_all add: boot_table_def zero_proc_def NPROC_def)

lemma alloc_claim_boot:
  "alloc_claim boot_table = Ret (Some 0, (upd boot_table 0 (\<lambda>p. p\<lparr>pstate := EMBRYO, pid := 1, tickets := 1,
     ticks := 0, init_stride := MAXSTRIDE sdiv 1, passvalue := MAXSTRIDE sdiv 1\<rparr>))\<lparr>nextpid := 2\<rparr>)"
proof -
  have "find_index (\<lambda>p. pstate p = UNUSED) (procs boot_table) = Some 0"
    by (simp add: find_index_Some_iff boot_table_simps)
  then show ?thesis by (simp add: alloc_claim_def cint_def boot_table_simps)
qed

lemma userinit_boot:
  assumes "userinit boot_table stk pgd root = Ret t"
  shows "\<exists>p. procs t = (replicate NPROC zero_proc)[0 := p] \<and> initproc t = Some 0 \<and> nextpid t = 2 \<and>
    pstate p = RUNNABLE \<and> pid p = 1 \<and> parent p = None \<and> kstack p = stk \<and> stk \<noteq> 0 \<and> pchan p = NoChan \<and>
    passvalue p = 10000 \<and> init_stride p = 10000 \<and> ticks p = 0"
  using assms
  by (simp add: userinit_def allocproc_def alloc_claim_boot alloc_stack_def boot_table_simps MAXSTRIDE_def
      split: if_splits) (auto simp: upd_def boot_table_simps zero_proc_def)

lemma pinv_boot:
  assumes "userinit boot_table stk pgd root = Ret t"
  shows "pinv (boot_sys n t)"
proof -
  obtain p where t: "procs t = (replicate NPROC zero_proc)[0 := p]" "initproc t = Some 0" "nextpid t = 2"
    and p: "pstate p = RUNNABLE" "pid p = 1" "parent p = None" "kstack p = stk" "stk \<noteq> 0"
    using userinit_boot[OF assms] by blast
  have nth: "procs t ! i = (if i = 0 then p else zero_proc)" "length (procs t) = NPROC" if "i < NPROC" for i
    using that t(1) by (auto simp: nth_list_update_if NPROC_def)
  have st: "st (boot_sys n t) i = (if i = 0 then RUNNABLE else UNUSED)" if "i < NPROC" for i
    using that p(1) by (simp add: st_def boot_sys_def nth zero_proc_def)
  have run: "\<not> running (boot_sys n t) c i" for c i by (auto simp: running_def boot_sys_def)
  have sys: "pt (boot_sys n t) = t" "forking (boot_sys n t) = (\<lambda>_. None)" by (simp_all add: boot_sys_def)
  have len: "length (procs t) = NPROC" "0 < NPROC" using nth(2)[of 0] by (simp_all add: NPROC_def)
  have fields: "pid (procs t ! i) = (if i = 0 then 1 else 0)" "parent (procs t ! i) = None"
      "kstack (procs t ! i) = (if i = 0 then stk else 0)" if "i < NPROC" for i
    using p by (simp_all add: nth[OF that] boot_table_simps) (simp add: zero_proc_def)
  have "inv_run (boot_sys n t)" "inv_fork (boot_sys n t)" "inv_wait (boot_sys n t)"
    unfolding inv_run_def inv_fork_def inv_wait_def sys len by (auto simp: run st)
  moreover have "inv_pid (boot_sys n t)" "inv_stack (boot_sys n t)"
    unfolding inv_pid_def inv_stack_def sys len using p(5) by (auto simp: st fields t(3))
  moreover have "inv_parent (boot_sys n t)"
    unfolding inv_parent_def alive_def sys len t(2) using len(2) by (auto simp: st fields)
  ultimately show ?thesis by (simp add: pinv_def)
qed

lemma preach_pinv:
  assumes "preach G s" and "\<And>t. G t \<Longrightarrow> ready t \<noteq> {}"
  shows "pinv s"
  using assms(1)
proof (induction rule: preach.induct)
  case (schedule s c i t)
  then show ?case using assms(2) by (intro pinv_schedule)
next
  case (sleeps s c me a t)
  then show ?case by (intro pinv_sleeps[where ch = "AddrChan a"]) auto
next
  case (waits s c me r t)
  then show ?case using pinv_waits by blast
qed (auto intro: pinv_boot pinv_resume pinv_yields pinv_wakes pinv_kills pinv_fork_claims pinv_fork_no_stack
    pinv_fork_copies pinv_exits pinv_sets pinv_grows)

section \<open>Properties\<close>

text \<open>
  C23. The process table stays consistent. In every run in which the scheduler is only entered with a
  runnable process present, on any number of processors: the processes in state \<open>RUNNING\<close> are
  exactly those some processor runs, each on one processor only; processes in use have distinct
  positive pids; exactly the slots from \<open>RUNNABLE\<close> to \<open>ZOMBIE\<close> own a kernel stack, no two the same;
  and every process but the first has a living parent, other than itself.
\<close>

theorem process_table_sound:
  assumes "preach (\<lambda>t. ready t \<noteq> {}) s" and "i < length (procs (pt s))" and "j < length (procs (pt s))"
  shows "(st s i = RUNNING \<longleftrightarrow> (\<exists>!c. running s c i)) \<and>
    (st s i \<noteq> UNUSED \<longrightarrow> 0 < pid (procs (pt s) ! i)) \<and>
    (st s i \<noteq> UNUSED \<longrightarrow> st s j \<noteq> UNUSED \<longrightarrow> pid (procs (pt s) ! i) = pid (procs (pt s) ! j) \<longrightarrow> i = j) \<and>
    (kstack (procs (pt s) ! i) = 0 \<longleftrightarrow> st s i \<in> {UNUSED, EMBRYO}) \<and>
    (kstack (procs (pt s) ! i) \<noteq> 0 \<longrightarrow> kstack (procs (pt s) ! i) = kstack (procs (pt s) ! j) \<longrightarrow> i = j) \<and>
    (st s i \<notin> {UNUSED, EMBRYO} \<longrightarrow> initproc (pt s) \<noteq> Some i \<longrightarrow>
       (\<exists>q. parent (procs (pt s) ! i) = Some q \<and> alive s q \<and> q \<noteq> i))"
proof -
  have inv: "pinv s" using preach_pinv[OF assms(1)] by simp
  have "st s i = RUNNING \<longleftrightarrow> (\<exists>!c. running s c i)"
    using pinv_parts(1)[OF inv] assms(2) unfolding inv_run_def by blast
  moreover have "st s i \<notin> {UNUSED, EMBRYO} \<longrightarrow> initproc (pt s) \<noteq> Some i \<longrightarrow>
      (\<exists>q. parent (procs (pt s) ! i) = Some q \<and> alive s q \<and> q \<noteq> i)"
    using pinv_parts(4)[OF inv] assms(2) by (auto simp: inv_parent_def)
  ultimately show ?thesis
    using pinv_parts(3,5)[OF inv] assms(2,3) unfolding inv_pid_def inv_stack_def by blast
qed

text \<open>
  C26. \<open>wait\<close> misses no exit. In every run in which the scheduler is only entered with a runnable process
  present, a process that sleeps in \<open>wait\<close> has a child, and none
  of its children is a zombie: whenever a child exits, or a zombie is handed over to \<open>initproc\<close>, the
  waiting parent is made runnable by the same step. Nothing is said of runs in which a processor looks for a
  process while none is runnable: there it runs again whatever it chose last.
\<close>

theorem wait_misses_no_exit:
  assumes "preach (\<lambda>t. ready t \<noteq> {}) s" and "i < length (procs (pt s))"
    and "st s i = SLEEPING" and "pchan (procs (pt s) ! i) = ProcChan k"
  shows "k = i \<and> (\<exists>j<length (procs (pt s)). parent (procs (pt s) ! j) = Some i) \<and>
    (\<forall>j<length (procs (pt s)). parent (procs (pt s) ! j) = Some i \<longrightarrow> st s j \<noteq> ZOMBIE)"
proof -
  have "inv_wait s" using preach_pinv[OF assms(1)] by (simp add: pinv_def)
  then show ?thesis using assms(2-4) unfolding inv_wait_def by blast
qed

section \<open>Sample runs\<close>

definition the_ret :: "'a outcome \<Rightarrow> 'a" where
  "the_ret r = (case r of Ret x \<Rightarrow> x)"

lemma the_ret_iff: "is_ret r \<Longrightarrow> r = Ret (the_ret r)"
  by (cases r) (auto simp: the_ret_def)

text \<open>The first process is started, forks a child and waits for it.\<close>

definition demo0 :: ptable where "demo0 = the_ret (userinit boot_table 0x2000 0x3000 1)"
definition demo1 :: ptable where "demo1 = snd (the_ret (scheduler None demo0))"
definition demo2 :: ptable where "demo2 = snd (the_ret (alloc_claim demo1))"
definition demo3 :: ptable where "demo3 = snd (fork_copy (snd (alloc_stack demo2 1 0x4000)) 0 1 0x5000)"
definition demo4 :: ptable where "demo4 = snd (the_ret (wait_scan 0 demo3))"

lemma demo0: "userinit boot_table 0x2000 0x3000 1 = Ret demo0"
  unfolding demo0_def by (rule the_ret_iff) code_simp

lemma demo1: "scheduler None demo0 = Ret (0, demo1)"
  by code_simp

lemma demo4_facts: "pstate (procs demo4 ! 0) = SLEEPING" "pchan (procs demo4 ! 0) = ProcChan 0"
    "parent (procs demo4 ! 1) = Some 0" "length (procs demo4) = 64"
  by code_simp+

definition one_cpu :: "nat option \<Rightarrow> (nat \<Rightarrow> nat option) \<Rightarrow> ptable \<Rightarrow> psys" where
  "one_cpu p f t = \<lparr>pt = t, cpus = [\<lparr>cpu_proc = p, chosenProc = Some 0\<rparr>], forking = f\<rparr>"

lemma demo_steps:
  "alloc_claim demo1 = Ret (Some 1, demo2)"
  "alloc_stack demo2 1 0x4000 = (Some 1, snd (alloc_stack demo2 1 0x4000))"
  "fork_copy (snd (alloc_stack demo2 1 0x4000)) 0 1 0x5000 = (2, demo3)"
  "wait_scan 0 demo3 = Ret (WaitSleep, demo4)"
  "pchan (procs demo1 ! 0) = NoChan" "pchan (procs demo3 ! 0) = NoChan"
  "list_all (\<lambda>p. kstack p \<noteq> 0x4000) (procs demo2)"
  by code_simp+

lemma ready_demo0: "ready demo0 \<noteq> {}"
proof -
  have "pstate (procs demo0 ! 0) = RUNNABLE \<and> 0 < length (procs demo0)" by code_simp
  then show ?thesis by (auto simp: ready_def)
qed

lemma demo_run: "preach (\<lambda>t. ready t \<noteq> {}) (one_cpu None (\<lambda>_. None) demo4)"
proof -
  let ?G = "\<lambda>t. ready t \<noteq> {}"
  have "preach ?G (boot_sys 1 demo0)" by (rule preach.boot[OF demo0])
  then have "preach ?G ((boot_sys 1 demo0)\<lparr>pt := demo1, cpus := (cpus (boot_sys 1 demo0))
      [0 := \<lparr>cpu_proc = Some 0, chosenProc = Some 0\<rparr>]\<rparr>)"
    using demo1 ready_demo0 by (intro preach.schedule) (simp_all add: boot_sys_def)
  then have "preach ?G (one_cpu (Some 0) (\<lambda>_. None) demo1)" by (simp add: boot_sys_def one_cpu_def)
  from preach.fork_claims[OF this, of 0 0 1 demo2]
  have "preach ?G (one_cpu (Some 0) ((\<lambda>_. None)(0 := Some 1)) demo2)"
    using demo_steps by (simp add: one_cpu_def free_to_act_def running_def del: fun_upd_apply)
  from preach.fork_copies[OF this, of 0 0 1 "0x4000" 1 "snd (alloc_stack demo2 1 0x4000)" "0x5000" 2 demo3]
  have "preach ?G (one_cpu (Some 0) (((\<lambda>_. None)(0 := Some 1))(0 := None)) demo3)"
    using demo_steps by (simp add: one_cpu_def running_def list_all_iff)
  then have "preach ?G (one_cpu (Some 0) (\<lambda>_. None) demo3)" by (simp only: fun_upd_upd fun_upd_idem)
  from preach.waits[OF this, of 0 0 WaitSleep demo4]
  show ?thesis
    using demo_steps by (simp add: one_cpu_def free_to_act_def running_def leave_def)
qed

theorem process_table_sound_witness:
  "\<exists>s. preach (\<lambda>t. ready t \<noteq> {}) s \<and> st s 1 \<noteq> UNUSED \<and> pid (procs (pt s) ! 0) \<noteq> pid (procs (pt s) ! 1) \<and>
     kstack (procs (pt s) ! 1) \<noteq> 0"
proof -
  let ?s = "one_cpu None (\<lambda>_. None) demo4"
  have "st ?s 0 = SLEEPING" "st ?s 1 = RUNNABLE" "length (procs (pt ?s)) = 64"
    unfolding st_def one_cpu_def by code_simp+
  then show ?thesis
    using process_table_sound[OF demo_run, of 0 1] process_table_sound[OF demo_run, of 1 1] demo_run
    by (intro exI[of _ ?s]) auto
qed

theorem wait_misses_no_exit_witness:
  "\<exists>s. preach (\<lambda>t. ready t \<noteq> {}) s \<and> st s 0 = SLEEPING \<and> pchan (procs (pt s) ! 0) = ProcChan 0 \<and>
     (\<exists>j<length (procs (pt s)). parent (procs (pt s) ! j) = Some 0)"
proof -
  let ?s = "one_cpu None (\<lambda>_. None) demo4"
  have "st ?s 0 = SLEEPING" "pchan (procs (pt ?s) ! 0) = ProcChan 0" "0 < length (procs (pt ?s))"
    using demo4_facts by (simp_all add: st_def one_cpu_def)
  then show ?thesis using wait_misses_no_exit[OF demo_run, of 0 0] demo_run by blast
qed

text \<open>
  C40. Two processors can run the same process. The scheduler's \<open>chosenProc\<close> keeps its value from the
  previous round; when no process is runnable it is used all the same. With two processors, after
  the first process has run on processor 0, yielded and been picked up by processor 1, processor 0
  switches to it as well.
\<close>

theorem scheduler_runs_process_twice:
  "\<exists>s. preach (\<lambda>_. True) s \<and> running s 0 0 \<and> running s 1 0"
proof -
  define y where "y = the_ret (yield 0 demo1)"
  define z where "z = snd (the_ret (scheduler None y))"
  define w where "w = snd (the_ret (scheduler (Some 0) z))"
  have steps: "yield 0 demo1 = Ret y" "scheduler None y = Ret (0, z)" "scheduler (Some 0) z = Ret (0, w)"
    unfolding w_def z_def y_def by code_simp+
  let ?G = "\<lambda>_. True" and ?idle = "\<lparr>cpu_proc = None, chosenProc = None\<rparr>"
    and ?on = "\<lparr>cpu_proc = Some 0, chosenProc = Some 0\<rparr>" and ?off = "\<lparr>cpu_proc = None, chosenProc = Some 0\<rparr>"
  let ?sys = "\<lambda>t cs. \<lparr>pt = t, cpus = cs, forking = (\<lambda>_. None)\<rparr>"
  have "preach ?G (?sys demo0 [?idle, ?idle])"
    using preach.boot[OF demo0, of ?G 2] by (simp add: boot_sys_def numeral_2_eq_2)
  from preach.schedule[OF this, of 0 0 demo1] have "preach ?G (?sys demo1 [?on, ?idle])"
    using demo1 by simp
  from preach.yields[OF this, of 0 0 y] have "preach ?G (?sys y [?off, ?idle])"
    using steps(1) demo_steps(5) by (simp add: running_def leave_def)
  from preach.schedule[OF this, of 1 0 z] have "preach ?G (?sys z [?off, ?on])"
    using steps(2) by simp
  from preach.schedule[OF this, of 0 0 w] have "preach ?G (?sys w [?on, ?on])"
    using steps(3) by simp
  then show ?thesis by (intro exI[of _ "?sys w [?on, ?on]"]) (simp add: running_def)
qed

end
