(* ===== verification/Kstring.thy ===== *)
theory Kstring
  imports Prelude
begin

text \<open>
  Byte-addressed memory and the kernel's string routines (\<open>src/P5/xv6/kernel/string.c\<close>).

  Memory is a function from 32-bit addresses to bytes. The kernel maps physical memory one to one,
  so pointers are \<open>u32\<close> and pointer arithmetic wraps around. \<open>load32\<close> and \<open>store32\<close> are the
  little-endian word accesses of x86. A loop that counts a \<open>uint n\<close> down to zero is a recursion on
  the natural number \<open>n\<close>; \<open>strlen\<close>, which may run forever, is a partial function.
\<close>

type_synonym mem = "u32 \<Rightarrow> u8"

section \<open>Regions and words\<close>

text \<open>The bytes of a region, and a region replaced by a list of bytes.\<close>

definition bytes :: "mem \<Rightarrow> u32 \<Rightarrow> nat \<Rightarrow> u8 list" where
  "bytes m a n = map (\<lambda>i. m (a + of_nat i)) [0..<n]"

definition write_bytes :: "mem \<Rightarrow> u32 \<Rightarrow> u8 list \<Rightarrow> mem" where
  "write_bytes m a bs = (\<lambda>x. if unat (x - a) < length bs then bs ! unat (x - a) else m x)"

text \<open>The C string at an address.\<close>

definition cstring :: "mem \<Rightarrow> u32 \<Rightarrow> u8 list \<Rightarrow> bool" where
  "cstring m a cs \<longleftrightarrow> bytes m a (Suc (length cs)) = cs @ [0] \<and> 0 \<notin> set cs"

text \<open>The word at an address and the store of a word.\<close>

definition load32 :: "mem \<Rightarrow> u32 \<Rightarrow> u32" where
  "load32 m a = le32 (m a) (m (a + 1)) (m (a + 2)) (m (a + 3))"

definition word_bytes :: "u32 \<Rightarrow> u8 list" where
  "word_bytes v = map (\<lambda>i. of_nat (unat v div 256 ^ i)) [0..<4]"

definition store32 :: "mem \<Rightarrow> u32 \<Rightarrow> u32 \<Rightarrow> mem" where
  "store32 m a v = write_bytes m a (word_bytes v)"

section \<open>The routines of string.c\<close>

text \<open>\<open>memset\<close> is \<open>rep stosb\<close>: the low byte of \<open>c\<close>, \<open>n\<close> times.\<close>

fun stosb :: "nat \<Rightarrow> mem \<Rightarrow> u32 \<Rightarrow> u8 \<Rightarrow> mem" where
  "stosb 0 m a c = m"
| "stosb (Suc n) m a c = stosb n (m(a := c)) (a + 1) c"

definition memset :: "mem \<Rightarrow> u32 \<Rightarrow> u8 \<Rightarrow> nat \<Rightarrow> mem" where
  "memset m dst c n = stosb n m dst c"

fun memcmp :: "mem \<Rightarrow> u32 \<Rightarrow> u32 \<Rightarrow> nat \<Rightarrow> int" where
  "memcmp m s1 s2 0 = 0"
| "memcmp m s1 s2 (Suc n) =
     (if m s1 \<noteq> m s2 then uint (m s1) - uint (m s2) else memcmp m (s1 + 1) (s2 + 1) n)"

fun copy_down :: "nat \<Rightarrow> mem \<Rightarrow> u32 \<Rightarrow> u32 \<Rightarrow> mem" where
  "copy_down 0 m d s = m"
| "copy_down (Suc n) m d s = copy_down n (m(d - 1 := m (s - 1))) (d - 1) (s - 1)"

fun copy_up :: "nat \<Rightarrow> mem \<Rightarrow> u32 \<Rightarrow> u32 \<Rightarrow> mem" where
  "copy_up 0 m d s = m"
| "copy_up (Suc n) m d s = copy_up n (m(d := m s)) (d + 1) (s + 1)"

definition memmove :: "mem \<Rightarrow> u32 \<Rightarrow> u32 \<Rightarrow> nat \<Rightarrow> mem" where
  "memmove m dst src n =
     (if src < dst \<and> src + of_nat n > dst
      then copy_down n m (dst + of_nat n) (src + of_nat n)
      else copy_up n m dst src)"

fun strncmp :: "mem \<Rightarrow> u32 \<Rightarrow> u32 \<Rightarrow> nat \<Rightarrow> int" where
  "strncmp m p q 0 = 0"
| "strncmp m p q (Suc n) =
     (if m p \<noteq> 0 \<and> m p = m q then strncmp m (p + 1) (q + 1) n
      else uint (m p) - uint (m q))"

text \<open>
  Copying up to and including a NUL, at most \<open>n\<close> bytes: the loop that \<open>strncpy\<close> and
  \<open>safestrcpy\<close> share. It returns the memory, the next destination and the bytes left.
\<close>

fun copy_str :: "nat \<Rightarrow> mem \<Rightarrow> u32 \<Rightarrow> u32 \<Rightarrow> mem \<times> u32 \<times> nat" where
  "copy_str 0 m s t = (m, s, 0)"
| "copy_str (Suc n) m s t =
     (let m' = m(s := m t) in if m t \<noteq> 0 then copy_str n m' (s + 1) (t + 1) else (m', s + 1, n))"

definition strncpy :: "mem \<Rightarrow> u32 \<Rightarrow> u32 \<Rightarrow> int \<Rightarrow> mem" where
  "strncpy m s t n = (let (m', s', k) = copy_str (nat n) m s t in stosb k m' s' 0)"

text \<open>
  \<open>safestrcpy\<close> copies at most \<open>n - 1\<close> bytes and then writes a NUL at the cursor, which stands
  after the copied NUL if there was one.
\<close>

definition safestrcpy :: "mem \<Rightarrow> u32 \<Rightarrow> u32 \<Rightarrow> int \<Rightarrow> mem" where
  "safestrcpy m s t n =
     (if n \<le> 0 then m else let (m', s', k) = copy_str (nat (n - 1)) m s t in m'(s' := 0))"

partial_function (option) strlen_from :: "mem \<Rightarrow> u32 \<Rightarrow> nat \<Rightarrow> nat option" where
  "strlen_from m s n = (if m (s + of_nat n) = 0 then Some n else strlen_from m s (Suc n))"

definition strlen :: "mem \<Rightarrow> u32 \<Rightarrow> nat option" where
  "strlen m s = strlen_from m s 0"

section \<open>Regions\<close>

lemma length_bytes [simp]: "length (bytes m a n) = n"
  by (simp add: bytes_def)

lemma nth_bytes [simp]: "i < n \<Longrightarrow> bytes m a n ! i = m (a + of_nat i)"
  by (simp add: bytes_def)

lemma bytes_0 [simp]: "bytes m a 0 = []"
  by (simp add: bytes_def)

lemma bytes_Suc: "bytes m a (Suc n) = m a # bytes m (a + 1) n"
  by (rule nth_equalityI) (auto simp: nth_Cons algebra_simps split: nat.splits)

lemma write_bytes_Nil [simp]: "write_bytes m a [] = m"
  by (simp add: write_bytes_def)

lemma unat_diff_pos: "(x::u32) \<noteq> a \<Longrightarrow> 0 < unat (x - a)"
  by (metis eq_iff_diff_eq_0 gr0I unsigned_eq_0_iff)

lemma unat_minus_1: "(x::u32) \<noteq> 0 \<Longrightarrow> unat (x - 1) = unat x - 1"
  using unat_diff_pos[of x 0] by (subst unat_sub) (auto simp: word_le_nat_alt)

lemma unat_diff_step: "(x::u32) \<noteq> a \<Longrightarrow> unat (x - (a + 1)) = unat (x - a) - 1"
  using unat_minus_1[of "x - a"] by (simp add: algebra_simps)

lemma in_region_step:
  "(x::u32) \<noteq> a \<Longrightarrow> unat (x - (a + 1)) < n \<longleftrightarrow> unat (x - a) < Suc n"
  using unat_diff_step[of x a] unat_diff_pos[of x a] by auto

lemma not_in_region_self: "n < 4294967296 \<Longrightarrow> \<not> unat ((a::u32) - (a + 1)) < n"
  by (simp add: unsigned_minus_1_eq_mask mask_eq_exp_minus_1)

lemma write_bytes_Cons:
  assumes "length bs < 4294967296"
  shows "write_bytes m a (b # bs) = write_bytes (m(a := b)) (a + 1) bs"
proof
  fix x
  show "write_bytes m a (b # bs) x = write_bytes (m(a := b)) (a + 1) bs x"
  proof (cases "x = a")
    case True
    then show ?thesis using assms not_in_region_self[of "length bs" a] by (simp add: write_bytes_def)
  next
    case False
    then have "unat (x - a) \<noteq> 0" using unat_diff_pos by blast
    then show ?thesis
      using False in_region_step[OF False, of "length bs"] unat_diff_step[OF False]
      by (simp add: write_bytes_def nth_Cons')
  qed
qed

lemma write_bytes_append:
  assumes "length bs + length cs \<le> 4294967296"
  shows "write_bytes m a (bs @ cs) = write_bytes (write_bytes m a bs) (a + of_nat (length bs)) cs"
  using assms
proof (induction bs arbitrary: m a)
  case (Cons b bs)
  then show ?case
    by (simp add: write_bytes_Cons add.assoc)
qed simp

lemma unat_region: "i < n \<Longrightarrow> n \<le> 4294967296 \<Longrightarrow> unat ((a::u32) + of_nat i - a) = i"
  by simp

lemma bytes_write_same:
  assumes "k \<le> length bs" and "length bs \<le> 4294967296"
  shows "bytes (write_bytes m a bs) a k = take k bs"
  using assms by (intro nth_equalityI) (auto simp: write_bytes_def)

lemma write_bytes_outside:
  "length bs \<le> unat (x - a) \<Longrightarrow> write_bytes m a bs x = m x"
  by (simp add: write_bytes_def)

lemma regions_disjoint:
  assumes "n \<le> unat (b - a)" and "k \<le> unat ((a::u32) - b)" and "unat (x - a) < n"
  shows "\<not> unat (x - b) < k"
proof
  assume k: "unat (x - b) < k"
  show False
  proof (cases "unat (x - b) \<le> unat (x - a)")
    case True
    then have "unat ((x - a) - (x - b)) = unat (x - a) - unat (x - b)"
      by (simp only: unat_sub word_le_nat_alt)
    then show False using assms(1,3) by simp
  next
    case False
    then have "unat ((x - b) - (x - a)) = unat (x - b) - unat (x - a)"
      by (simp only: unat_sub word_le_nat_alt)
    then show False using assms(2) k by simp
  qed
qed

lemma length_word_bytes [simp]: "length (word_bytes v) = 4"
  by (simp add: word_bytes_def)

lemma le32_word_bytes:
  "le32 (word_bytes v ! 0) (word_bytes v ! 1) (word_bytes v ! 2) (word_bytes v ! 3) = v"
proof -
  have "unat (word_bytes v ! 0) + 256 * unat (word_bytes v ! 1) + 65536 * unat (word_bytes v ! 2) +
      16777216 * unat (word_bytes v ! 3) = unat v"
    using digits_256[of "unat v"] unat_lt_u32[of v]
    by (simp add: word_bytes_def unat_of_nat upt_rec unsigned_ucast_eq take_bit_eq_mod)
  then show ?thesis by (simp only: le32_def) simp
qed

lemma load32_bytes:
  "load32 m a = (let bs = bytes m a 4 in le32 (bs ! 0) (bs ! 1) (bs ! 2) (bs ! 3))"
  by (simp add: load32_def Let_def)

lemma load32_store32 [simp]: "load32 (store32 m a v) a = v"
  using le32_word_bytes[of v] by (simp add: load32_bytes store32_def bytes_write_same Let_def)

lemma store32_outside: "4 \<le> unat (x - a) \<Longrightarrow> store32 m a v x = m x"
  by (simp add: store32_def write_bytes_outside)

lemma load32_cong:
  assumes "\<And>x. unat (x - a) < 4 \<Longrightarrow> m x = m' x"
  shows "load32 m a = load32 m' a"
  using assms[of a] assms[of "a + 1"] assms[of "a + 2"] assms[of "a + 3"]
  by (simp add: load32_def)

lemma load32_store32_other:
  assumes "4 \<le> unat (b - a)" and "4 \<le> unat (a - b)"
  shows "load32 (store32 m a v) b = load32 m b"
  using regions_disjoint[OF assms(2,1)] by (intro load32_cong store32_outside) (simp add: not_less)

section \<open>The routines against the reference definitions\<close>

lemma stosb_write: "n \<le> 4294967296 \<Longrightarrow> stosb n m a c = write_bytes m a (replicate n c)"
  by (induction n arbitrary: m a) (simp_all add: write_bytes_Cons)

lemma memset_write: "n \<le> 4294967296 \<Longrightarrow> memset m a c n = write_bytes m a (replicate n c)"
  by (simp add: memset_def stosb_write)

text \<open>
  Copying upwards is right when no source byte has been overwritten before it is read, that is
  when the destination does not lie inside the source, above its start.
\<close>

definition above_free :: "u32 \<Rightarrow> u32 \<Rightarrow> nat \<Rightarrow> bool" where
  "above_free d s n \<longleftrightarrow> d = s \<or> n \<le> unat (d - s)"

lemma bytes_update_free:
  assumes "above_free d s (Suc n)" and "n < 4294967296"
  shows "bytes (m(d := m s)) (s + 1) n = bytes m (s + 1) n"
proof (rule nth_equalityI)
  fix i assume i: "i < length (bytes (m(d := m s)) (s + 1) n)"
  have "s + 1 + of_nat i \<noteq> d \<or> d = s"
  proof (rule ccontr)
    assume "\<not> ?thesis"
    then have "d - s = of_nat (Suc i)" and "d \<noteq> s" by (auto simp: algebra_simps)
    then have "unat (d - s) = Suc i" using i assms(2) by (simp del: of_nat_Suc)
    then show False using assms(1) i \<open>d \<noteq> s\<close> by (simp add: above_free_def)
  qed
  then show "bytes (m(d := m s)) (s + 1) n ! i = bytes m (s + 1) n ! i"
    using i by (cases "d = s") (auto simp: fun_upd_def)
qed simp

lemma above_free_step: "above_free d s (Suc n) \<Longrightarrow> above_free (d + 1) (s + 1) n"
  by (auto simp: above_free_def)

lemma copy_up_write:
  "above_free d s n \<Longrightarrow> n \<le> 4294967296 \<Longrightarrow> copy_up n m d s = write_bytes m d (bytes m s n)"
proof (induction n arbitrary: m d s)
  case (Suc n)
  then show ?case
    by (simp add: above_free_step bytes_update_free bytes_Suc write_bytes_Cons)
qed simp

lemma bytes_Suc_last: "bytes m a (Suc n) = bytes m a n @ [m (a + of_nat n)]"
  by (simp add: bytes_def)

lemma write_bytes_snoc:
  assumes "length bs < 4294967296" and "x = a + of_nat (length bs)"
  shows "write_bytes m a (bs @ [b]) = write_bytes (m(x := b)) a bs"
proof
  fix y
  have "unat (y - a) = length bs \<longleftrightarrow> y - a = of_nat (length bs)"
    using assms by (metis unat_of_nat_u32 word_unat_eq_iff)
  then have "unat (y - a) = length bs \<longleftrightarrow> y = x"
    using assms(2) by (auto simp: algebra_simps)
  then show "write_bytes m a (bs @ [b]) y = write_bytes (m(x := b)) a bs y"
    using assms(2) by (auto simp: write_bytes_def nth_append)
qed

lemma copy_down_write:
  assumes "above_free s d n" and "n \<le> 4294967296"
  shows "copy_down n m (d + of_nat n) (s + of_nat n) = write_bytes m d (bytes m s n)"
  using assms
proof (induction n arbitrary: m)
  case (Suc n)
  have free: "above_free s d n" using Suc.prems by (auto simp: above_free_def)
  have "s + of_nat i \<noteq> d + of_nat n \<or> s = d" if "i < n" for i
  proof (rule ccontr)
    assume "\<not> ?thesis"
    then have "s - d = of_nat (n - i)" and "s \<noteq> d"
      using that by (auto simp: of_nat_diff algebra_simps)
    moreover have "unat (of_nat (n - i) :: u32) = n - i" using Suc.prems that by (intro unat_of_nat_u32) simp
    ultimately have "unat (s - d) = n - i" by metis
    with \<open>s \<noteq> d\<close> show False using Suc.prems that by (simp add: above_free_def)
  qed
  then have "bytes (m(d + of_nat n := m (s + of_nat n))) s n = bytes m s n"
    by (intro nth_equalityI) auto
  then show ?case
    using Suc.IH[OF free, of "m(d + of_nat n := m (s + of_nat n))"] Suc.prems
    by (simp add: bytes_Suc_last write_bytes_snoc del: fun_upd_apply)
qed simp

lemma no_wrap_above: "(s::u32) < d \<Longrightarrow> unat d + n \<le> 4294967296 \<Longrightarrow> n \<le> unat (s - d)"
  by (simp add: unat_sub_if' word_less_nat_alt)

lemma unat_plus_of_nat: "unat (s::u32) + n < 4294967296 \<Longrightarrow> unat (s + of_nat n) = unat s + n"
  by (simp add: unat_word_ariths)

lemma strncmp_eq_0_iff:
  "strncmp m p q n = 0 \<longleftrightarrow> takeWhile (\<lambda>c. c \<noteq> 0) (bytes m p n) = takeWhile (\<lambda>c. c \<noteq> 0) (bytes m q n)"
  by (induction m p q n rule: strncmp.induct) (auto simp: bytes_Suc word_uint_eq_iff)

lemma memcmp_eq_0_iff: "memcmp m p q n = 0 \<longleftrightarrow> bytes m p n = bytes m q n"
  by (induction m p q n rule: memcmp.induct) (auto simp: bytes_Suc word_uint_eq_iff)

text \<open>What \<open>copy_str\<close> writes: the string, and its NUL if that is within the limit.\<close>

definition str_prefix :: "mem \<Rightarrow> u32 \<Rightarrow> nat \<Rightarrow> u8 list" where
  "str_prefix m t n = takeWhile (\<lambda>c. c \<noteq> 0) (bytes m t n)"

definition str_copied :: "mem \<Rightarrow> u32 \<Rightarrow> nat \<Rightarrow> u8 list" where
  "str_copied m t n =
     str_prefix m t n @ (if length (str_prefix m t n) < n then [0] else [])"

lemma length_str_prefix: "length (str_prefix m t n) \<le> n"
  by (metis length_bytes length_takeWhile_le str_prefix_def)

lemma length_str_copied: "length (str_copied m t n) \<le> n"
  using length_str_prefix[of m t n] by (simp add: str_copied_def)

lemma str_copied_Suc:
  "str_copied m t (Suc n) = (if m t = 0 then [0] else m t # str_copied m (t + 1) n)"
  by (simp add: str_copied_def str_prefix_def bytes_Suc)

lemma str_copied_cong: "bytes m t n = bytes m' t n \<Longrightarrow> str_copied m t n = str_copied m' t n"
  by (simp add: str_copied_def str_prefix_def)

lemma copy_str_write:
  assumes "above_free s t n" and "n \<le> 4294967296"
  shows "copy_str n m s t =
     (let bs = str_copied m t n in (write_bytes m s bs, s + of_nat (length bs), n - length bs))"
  using assms
proof (induction n arbitrary: m s t)
  case 0
  then show ?case using length_str_copied[of m t 0] by simp
next
  case (Suc n)
  have same: "str_copied (m(s := m t)) (t + 1) n = str_copied m (t + 1) n"
    using Suc.prems by (intro str_copied_cong bytes_update_free) auto
  have len: "length (str_copied m (t + 1) n) < 4294967296"
    using length_str_copied[of m "t + 1" n] Suc.prems by simp
  show ?case
    using Suc.IH[of "s + 1" "t + 1" "m(s := m t)"] Suc.prems above_free_step[OF Suc.prems(1)] same len
    by (auto simp: str_copied_Suc Let_def write_bytes_Cons add_ac simp del: fun_upd_apply)
qed

lemma strncpy_write:
  assumes "above_free s t n" and "n \<le> 4294967296"
  shows "strncpy m s t (int n) =
     write_bytes m s (str_prefix m t n @ replicate (n - length (str_prefix m t n)) 0)"
proof -
  let ?bs = "str_copied m t n"
  have "strncpy m s t (int n) =
      write_bytes (write_bytes m s ?bs) (s + of_nat (length ?bs)) (replicate (n - length ?bs) 0)"
    using assms by (simp add: strncpy_def copy_str_write Let_def stosb_write)
  also have "\<dots> = write_bytes m s (?bs @ replicate (n - length ?bs) 0)"
    using assms(2) length_str_copied[of m t n] by (subst write_bytes_append) simp_all
  also have "?bs @ replicate (n - length ?bs) 0 =
      str_prefix m t n @ replicate (n - length (str_prefix m t n)) 0"
    using length_str_prefix[of m t n]
    by (auto simp: str_copied_def Suc_diff_Suc simp flip: replicate_Suc)
  finally show ?thesis .
qed

lemma safestrcpy_write:
  assumes "above_free s t n" and "n < 4294967296"
  shows "safestrcpy m s t (int (Suc n)) = write_bytes m s (str_copied m t n @ [0])"
  using assms length_str_copied[of m t n]
  by (simp add: safestrcpy_def copy_str_write Let_def write_bytes_append write_bytes_Cons)

lemma strlen_from_cstring:
  "cstring m (s + of_nat n) cs \<Longrightarrow> strlen_from m s n = Some (n + length cs)"
proof (induction cs arbitrary: n)
  case Nil
  then show ?case by (subst strlen_from.simps) (simp add: cstring_def bytes_Suc)
next
  case (Cons c cs)
  then have "cstring m (s + of_nat (Suc n)) cs" and "m (s + of_nat n) \<noteq> 0"
    by (auto simp: cstring_def bytes_Suc[of _ _ "Suc _"] add_ac)
  then show ?case using Cons.IH[of "Suc n"] by (subst strlen_from.simps) simp
qed

lemma strlen_from_Some:
  assumes "strlen_from m s n = Some k"
  shows "n \<le> k \<and> cstring m (s + of_nat n) (bytes m (s + of_nat n) (k - n))" (is "?P m s n k")
proof (rule strlen_from.raw_induct[where P = ?P, OF _ assms])
  fix f m s n k
  assume IH: "\<And>m s n k. f m s n = Some k \<Longrightarrow> ?P m s n k"
    and step: "(if m (s + of_nat n) = 0 then Some n else f m s (Suc n)) = Some k"
  show "?P m s n k"
  proof (cases "m (s + of_nat n) = 0")
    case False
    then have "Suc n \<le> k" and "cstring m (s + of_nat (Suc n)) (bytes m (s + of_nat (Suc n)) (k - Suc n))"
      using IH[of m s "Suc n" k] step by auto
    moreover have "bytes m (s + of_nat n) (k - n) =
        m (s + of_nat n) # bytes m (s + of_nat (Suc n)) (k - Suc n)"
      using \<open>Suc n \<le> k\<close> bytes_Suc[of m "s + of_nat n" "k - Suc n"]
      by (simp add: Suc_diff_Suc[of n k] Suc_le_eq add_ac)
    ultimately show ?thesis
      using False by (auto simp: cstring_def bytes_Suc[of _ _ "Suc _"] add_ac)
  qed (use step in \<open>auto simp: cstring_def bytes_Suc\<close>)
qed

lemma safestrcpy_cstring:
  assumes "above_free s t n" and "n < 4294967296"
  shows "cstring (safestrcpy m s t (int (Suc n))) s (str_prefix m t n)"
proof -
  let ?k = "Suc (length (str_prefix m t n))" and ?bs = "str_copied m t n @ [0]"
  have "?k \<le> length ?bs" by (simp add: str_copied_def)
  then have "bytes (safestrcpy m s t (int (Suc n))) s ?k = take ?k ?bs"
    using assms length_str_copied[of m t n]
    by (subst safestrcpy_write[OF assms]) (rule bytes_write_same, auto)
  also have "\<dots> = str_prefix m t n @ [0]" by (auto simp: str_copied_def)
  finally show ?thesis
    by (auto simp: cstring_def str_prefix_def dest: set_takeWhileD)
qed

section \<open>Correctness\<close>

lemma memmove_write:
  assumes "unat src + n < 4294967296" and "unat dst + n < 4294967296"
  shows "memmove m dst src n = write_bytes m dst (bytes m src n)"
proof (cases "src < dst \<and> src + of_nat n > dst")
  case True
  then have "above_free src dst n"
    using assms no_wrap_above[of src dst n] by (simp add: above_free_def)
  then show ?thesis
    using True assms by (simp add: memmove_def copy_down_write)
next
  case False
  have "above_free dst src n"
  proof (cases "src < dst")
    case True
    then have "unat src + n \<le> unat dst"
      using False assms(1) by (auto simp: word_less_nat_alt unat_plus_of_nat not_less)
    then show ?thesis using True by (auto simp: above_free_def unat_sub word_less_nat_alt word_le_nat_alt)
  next
    case False
    then show ?thesis
      using assms no_wrap_above[of dst src n] by (auto simp: above_free_def not_less le_less)
  qed
  then show ?thesis using False assms by (auto simp: memmove_def copy_up_write)
qed

text \<open>
  C34. Overlapping copies. Unless a region runs over the end of the address space, \<open>memmove\<close>
  leaves at the destination exactly the bytes the source held before the call, however the two
  regions overlap, and changes no other byte.
\<close>

theorem memmove_correct:
  assumes "unat src + n < 4294967296" and "unat dst + n < 4294967296"
  shows "bytes (memmove m dst src n) dst n = bytes m src n \<and>
         (\<forall>x. n \<le> unat (x - dst) \<longrightarrow> memmove m dst src n x = m x)"
  using assms by (simp add: memmove_write bytes_write_same write_bytes_outside)

definition demo_mem :: mem where
  "demo_mem = (\<lambda>a. if a < 8 then of_nat (unat a + 65) else 0)"

theorem memmove_correct_witness:
  "bytes (memmove demo_mem 2 0 4) 2 4 = [65, 66, 67, 68] \<and> memmove demo_mem 2 0 4 6 = 71"
  using memmove_correct[of 0 4 2 demo_mem] by (auto simp: bytes_def demo_mem_def upt_rec)

text \<open>
  Bounded string copies. For a destination that does not overlap the source from above,
  \<open>strncpy\<close> fills exactly \<open>n\<close> bytes with the string and NUL padding, possibly without a
  terminator; \<open>safestrcpy\<close> with a positive \<open>n\<close> stays within \<open>n\<close> bytes and always leaves a C string,
  the longest prefix of the source that fits; \<open>strlen\<close> returns the length of that string.
\<close>

theorem string_copies:
  assumes "above_free s t n" and "n < 4294967296"
  shows "strncpy m s t (int n) =
           write_bytes m s (str_prefix m t n @ replicate (n - length (str_prefix m t n)) 0) \<and>
         cstring (safestrcpy m s t (int (Suc n))) s (str_prefix m t n) \<and>
         (\<forall>x. Suc n \<le> unat (x - s) \<longrightarrow> safestrcpy m s t (int (Suc n)) x = m x) \<and>
         strlen (safestrcpy m s t (int (Suc n))) s = Some (length (str_prefix m t n))"
proof (intro conjI allI impI)
  show "strncpy m s t (int n) =
      write_bytes m s (str_prefix m t n @ replicate (n - length (str_prefix m t n)) 0)"
    using assms by (simp add: strncpy_write)
  show c: "cstring (safestrcpy m s t (int (Suc n))) s (str_prefix m t n)"
    by (rule safestrcpy_cstring[OF assms])
  show "safestrcpy m s t (int (Suc n)) x = m x" if "Suc n \<le> unat (x - s)" for x
    using that length_str_copied[of m t n]
    by (subst safestrcpy_write[OF assms]) (auto intro!: write_bytes_outside)
  show "strlen (safestrcpy m s t (int (Suc n))) s = Some (length (str_prefix m t n))"
    using strlen_from_cstring[of _ s 0] c by (simp add: strlen_def)
qed

theorem string_copies_witness:
  "cstring (safestrcpy demo_mem 100 0 6) 100 [65, 66, 67, 68, 69] \<and>
   strlen (safestrcpy demo_mem 100 0 6) 100 = Some 5"
  using string_copies[of 100 0 5 demo_mem]
  by (simp add: above_free_def str_prefix_def bytes_def demo_mem_def upt_rec)

lemma strlen_Some_iff: "strlen m s = Some k \<longleftrightarrow> cstring m s (bytes m s k)"
  using strlen_from_cstring[of m s 0 "bytes m s k"] strlen_from_Some[of m s 0 k]
  by (auto simp: strlen_def)

end
