(* ===== verification/Kalloc.thy ===== *)
theory Kalloc
  imports Kstring
begin

text \<open>
  The physical page allocator with reference counts (\<open>src/P5/xv6/kernel/kalloc.c\<close>).

  The free list is threaded through the free pages themselves: the first word of a free page holds
  the address of the next one. The state is the allocator's variables and the whole memory, so that
  a write to a free page would be seen to damage the list. Every function runs between \<open>acquire\<close>
  and \<open>release\<close> of \<open>kmem.lock\<close>, which makes each call one step. \<open>end\<close>, the first address after the
  kernel, is set by the linker; it is the parameter \<open>kend\<close>.
\<close>

section \<open>Constants and state\<close>

definition PHYSTOP :: u32 where
  "PHYSTOP = 0x1000000"

definition PGROUNDUP :: "u32 \<Rightarrow> u32" where
  "PGROUNDUP sz = (sz + PGSIZE - 1) AND NOT (PGSIZE - 1)"

record kstate =
  kmem :: mem
  freelist :: u32
  free_pages :: u32
  ref_cnt :: "u32 list"

text \<open>Subscripts of \<open>ref_cnt\<close> are page numbers.\<close>

definition page_index :: "u32 \<Rightarrow> int" where
  "page_index v = uint (v div PGSIZE)"

section \<open>Operations\<close>

definition kfree :: "u32 \<Rightarrow> u32 \<Rightarrow> kstate \<Rightarrow> kstate outcome" where
  "kfree kend v s =
     (if v mod PGSIZE \<noteq> 0 \<or> v < kend \<or> v \<ge> PHYSTOP then Panic ''kfree''
      else bindO (aget (ref_cnt s) (page_index v)) (\<lambda>c.
        if c \<le> 1 then
          let m = memset (kmem s) v 1 (unat PGSIZE);
              m' = store32 m v (freelist s)
          in Ret (s\<lparr>kmem := m', freelist := v, free_pages := free_pages s + 1\<rparr>)
        else bindO (aset (ref_cnt s) (page_index v) (c - 1)) (\<lambda>cs. Ret (s\<lparr>ref_cnt := cs\<rparr>))))"

definition kalloc :: "kstate \<Rightarrow> (u32 \<times> kstate) outcome" where
  "kalloc s =
     (let r = freelist s in
      if r \<noteq> 0 then
        bindO (aset (ref_cnt s) (page_index r) 1) (\<lambda>cs.
        Ret (r, s\<lparr>freelist := load32 (kmem s) r, free_pages := free_pages s - 1, ref_cnt := cs\<rparr>))
      else Ret (r, s))"

definition kfreeCount :: "kstate \<Rightarrow> i32" where
  "kfreeCount s = free_pages s"

definition incPageRef :: "u32 \<Rightarrow> kstate \<Rightarrow> kstate outcome" where
  "incPageRef i s =
     bindO (aget (ref_cnt s) (uint i)) (\<lambda>c.
     bindO (aset (ref_cnt s) (uint i) (c + 1)) (\<lambda>cs. Ret (s\<lparr>ref_cnt := cs\<rparr>)))"

definition decPageRef :: "u32 \<Rightarrow> kstate \<Rightarrow> kstate outcome" where
  "decPageRef i s =
     bindO (aget (ref_cnt s) (uint i)) (\<lambda>c.
     bindO (aset (ref_cnt s) (uint i) (c - 1)) (\<lambda>cs. Ret (s\<lparr>ref_cnt := cs\<rparr>)))"

definition refCount :: "i32 \<Rightarrow> kstate \<Rightarrow> i32 outcome" where
  "refCount i s = aget (ref_cnt s) (sint i)"

lemma kfree_RetD: "kfree kend v s = Ret s' \<Longrightarrow> v < PHYSTOP \<and> kend \<le> v \<and> v mod PGSIZE = 0"
  by (auto simp: kfree_def not_le not_less split: if_splits)

text \<open>
  The loop of \<open>kinit\<close>. It ends because each round frees a page below \<open>PHYSTOP\<close>, so that the cursor
  cannot wrap around.
\<close>

function kinit_loop :: "u32 \<Rightarrow> u32 \<Rightarrow> kstate \<Rightarrow> kstate outcome" where
  "kinit_loop kend p s =
     (if p + PGSIZE \<le> PHYSTOP
      then bindO (kfree kend p s) (\<lambda>s'. kinit_loop kend (p + PGSIZE) s')
      else Ret s)"
  by auto

termination
proof (relation "measure (\<lambda>(kend, p, s). 4294967296 - unat p)", goal_cases)
  case (2 kend p s s')
  then have "unat p < unat PHYSTOP" using kfree_RetD[of kend p s s'] by (simp add: word_less_nat_alt)
  then show ?case by (simp add: PHYSTOP_def PGSIZE_def unat_word_ariths)
qed simp

declare kinit_loop.simps [simp del]

definition kinit :: "u32 \<Rightarrow> kstate \<Rightarrow> kstate outcome" where
  "kinit kend s = kinit_loop kend (PGROUNDUP kend) (s\<lparr>free_pages := 0\<rparr>)"

section \<open>The free list\<close>

text \<open>The pages the allocator manages, and the list threaded through memory from an address.\<close>

definition page_ok :: "u32 \<Rightarrow> u32 \<Rightarrow> bool" where
  "page_ok kend v \<longleftrightarrow> v mod PGSIZE = 0 \<and> kend \<le> v \<and> v < PHYSTOP"

fun run_list :: "mem \<Rightarrow> u32 \<Rightarrow> u32 list \<Rightarrow> bool" where
  "run_list m p [] \<longleftrightarrow> p = 0"
| "run_list m p (x # xs) \<longleftrightarrow> p = x \<and> x \<noteq> 0 \<and> run_list m (load32 m x) xs"

text \<open>
  The allocator's invariant, for a kernel that ends above address 0: the free list holds distinct
  managed pages whose counts are at most 1, and \<open>free_pages\<close> is its length.
\<close>

definition kalloc_ok :: "u32 \<Rightarrow> kstate \<Rightarrow> u32 list \<Rightarrow> bool" where
  "kalloc_ok kend s ps \<longleftrightarrow>
     0 < kend \<and> run_list (kmem s) (freelist s) ps \<and> distinct ps \<and>
     (\<forall>p\<in>set ps. page_ok kend p \<and> ref_cnt s ! unat (p div PGSIZE) \<le> 1) \<and>
     free_pages s = of_nat (length ps) \<and> length (ref_cnt s) = 4096"

definition pages :: "u32 \<Rightarrow> u32 set" where
  "pages kend = {v. page_ok kend v}"

definition page_count :: "kstate \<Rightarrow> u32 \<Rightarrow> nat" where
  "page_count s p = unat (ref_cnt s ! unat (p div PGSIZE))"

definition in_page :: "u32 \<Rightarrow> u32 \<Rightarrow> bool" where
  "in_page p x \<longleftrightarrow> unat (x - p) < 4096"

lemma finite_pages [simp]: "finite (pages kend)"
  by simp

lemma unat_div_PGSIZE: "unat (p div PGSIZE) = unat p div 4096"
  by (simp add: PGSIZE_def unat_div)

lemma mod_PGSIZE_iff: "p mod PGSIZE = 0 \<longleftrightarrow> unat p mod 4096 = 0"
  by (simp add: PGSIZE_def unat_mod word_unat_eq_iff)

lemma page_ok_index: "page_ok kend p \<Longrightarrow> unat (p div PGSIZE) < 4096"
  by (simp add: page_ok_def unat_div_PGSIZE word_less_nat_alt PHYSTOP_def less_mult_imp_div_less)

lemma pages_far:
  assumes "p mod PGSIZE = 0" and "q mod PGSIZE = 0" and "p \<noteq> q"
  shows "4096 \<le> unat (p - q)"
proof -
  have "4096 dvd unat p" "4096 dvd unat q" using assms by (auto simp: mod_PGSIZE_iff)
  then have "4096 dvd unat (p - q)"
    by (auto simp: unat_sub_if' intro!: dvd_diff_nat dvd_add)
  moreover have "0 < unat (p - q)" using assms(3) by (rule unat_diff_pos)
  ultimately show ?thesis by (rule dvd_imp_le)
qed

lemma page_index_inj:
  assumes "p mod PGSIZE = 0" and "q mod PGSIZE = 0" and "p \<noteq> q"
  shows "unat (p div PGSIZE) \<noteq> unat (q div PGSIZE)"
  using assms by (metis mod_PGSIZE_iff div_mult_mod_eq unat_div_PGSIZE word_unat_eq_iff)

lemma in_page_distinct:
  assumes "p mod PGSIZE = 0" and "q mod PGSIZE = 0" and "p \<noteq> q" and "in_page p x"
  shows "\<not> in_page q x"
  using regions_disjoint[of 4096 q p 4096 x] pages_far[of p q] pages_far[of q p] assms
  by (simp add: in_page_def)

lemma run_list_frame:
  assumes "run_list m p ps" and "\<And>q x. q \<in> set ps \<Longrightarrow> unat (x - q) < 4 \<Longrightarrow> m' x = m x"
  shows "run_list m' p ps"
  using assms
proof (induction ps arbitrary: p)
  case (Cons q ps)
  have "load32 m' q = load32 m q" using Cons.prems(2)[of q] by (intro load32_cong) simp
  moreover have "run_list m' (load32 m q) ps"
    using Cons.prems by (intro Cons.IH) auto
  ultimately show ?case using Cons.prems(1) by simp
qed simp

section \<open>Each operation on the free list\<close>

lemma kalloc_empty: "kalloc_ok kend s [] \<Longrightarrow> kalloc s = Ret (0, s)"
  by (simp add: kalloc_ok_def kalloc_def)

lemma kalloc_page:
  assumes "kalloc_ok kend s (p # ps)"
  shows "\<exists>s'. kalloc s = Ret (p, s') \<and> kalloc_ok kend s' ps \<and> kmem s' = kmem s \<and>
           ref_cnt s' = (ref_cnt s)[unat (p div PGSIZE) := 1]"
proof -
  let ?s = "s\<lparr>freelist := load32 (kmem s) p, free_pages := free_pages s - 1,
             ref_cnt := (ref_cnt s)[unat (p div PGSIZE) := 1]\<rparr>"
  have p: "page_ok kend p" "freelist s = p" "p \<noteq> 0" "length (ref_cnt s) = 4096"
    using assms by (simp_all add: kalloc_ok_def)
  then have "kalloc s = Ret (p, ?s)"
    using page_ok_index[OF p(1)] by (simp add: kalloc_def page_index_def array_simps)
  moreover have "kalloc_ok kend ?s ps"
    using assms by (auto simp: kalloc_ok_def nth_list_update_if)
  ultimately show ?thesis by auto
qed

lemma kfree_last:
  assumes ok: "kalloc_ok kend s ps" and v: "page_ok kend v" "v \<notin> set ps" "page_count s v \<le> 1"
  shows "\<exists>s'. kfree kend v s = Ret s' \<and> kalloc_ok kend s' (v # ps) \<and> ref_cnt s' = ref_cnt s \<and>
           (\<forall>x. \<not> in_page v x \<longrightarrow> kmem s' x = kmem s x) \<and>
           (\<forall>x. in_page v x \<and> 4 \<le> unat (x - v) \<longrightarrow> kmem s' x = 1)"
proof -
  let ?m = "store32 (memset (kmem s) v 1 (unat PGSIZE)) v (freelist s)"
  let ?s = "s\<lparr>kmem := ?m, freelist := v, free_pages := free_pages s + 1\<rparr>"
  have len: "unat (v div PGSIZE) < length (ref_cnt s)"
    using ok page_ok_index[OF v(1)] by (simp add: kalloc_ok_def)
  have cnt: "ref_cnt s ! unat (v div PGSIZE) \<le> 1"
    using v(3) by (simp add: page_count_def word_le_nat_alt)
  have ret: "kfree kend v s = Ret ?s"
    using v(1) len cnt by (auto simp: kfree_def page_ok_def page_index_def array_simps Let_def)
  have out: "?m x = kmem s x" if "\<not> in_page v x" for x
    using that by (simp add: in_page_def store32_outside memset_write PGSIZE_def write_bytes_outside)
  have junk: "?m x = 1" if "in_page v x" "4 \<le> unat (x - v)" for x
    using that by (simp add: in_page_def store32_outside memset_write PGSIZE_def write_bytes_def)
  have far: "?m x = kmem s x" if "q \<in> set ps" "unat (x - q) < 4" for q x
  proof (rule out)
    have "q mod PGSIZE = 0" "v mod PGSIZE = 0" "q \<noteq> v"
      using ok v that by (auto simp: kalloc_ok_def page_ok_def)
    then show "\<not> in_page v x" using in_page_distinct[of q v x] that by (simp add: in_page_def)
  qed
  have "v \<noteq> 0" using v(1) ok by (auto simp: page_ok_def kalloc_ok_def)
  moreover have "run_list ?m (freelist s) ps"
    using run_list_frame[of "kmem s" _ ps ?m] far ok by (simp add: kalloc_ok_def)
  ultimately have "kalloc_ok kend ?s (v # ps)"
    using ok v cnt by (simp add: kalloc_ok_def)
  with ret out junk show ?thesis by auto
qed

lemma kfree_shared:
  assumes ok: "kalloc_ok kend s ps" and v: "page_ok kend v" "v \<notin> set ps" "1 < page_count s v"
  shows "\<exists>s'. kfree kend v s = Ret s' \<and> kalloc_ok kend s' ps \<and> kmem s' = kmem s \<and>
           freelist s' = freelist s \<and> ref_cnt s' = (ref_cnt s)[unat (v div PGSIZE) := ref_cnt s ! unat (v div PGSIZE) - 1]"
proof -
  let ?s = "s\<lparr>ref_cnt := (ref_cnt s)[unat (v div PGSIZE) := ref_cnt s ! unat (v div PGSIZE) - 1]\<rparr>"
  have len: "unat (v div PGSIZE) < length (ref_cnt s)"
    using ok page_ok_index[OF v(1)] by (simp add: kalloc_ok_def)
  have "\<not> ref_cnt s ! unat (v div PGSIZE) \<le> 1"
    using v(3) by (simp add: page_count_def word_le_nat_alt)
  then have "kfree kend v s = Ret ?s"
    using v(1) len by (auto simp: kfree_def page_ok_def page_index_def array_simps Let_def)
  have "unat (v div PGSIZE) \<noteq> unat (q div PGSIZE)" if "q \<in> set ps" for q
    using that ok v by (intro page_index_inj) (auto simp: kalloc_ok_def page_ok_def)
  then have "kalloc_ok kend ?s ps"
    using ok by (auto simp: kalloc_ok_def nth_list_update_if)
  with \<open>kfree kend v s = Ret ?s\<close> show ?thesis by auto
qed

lemma incPageRef_page:
  assumes ok: "kalloc_ok kend s ps" and v: "page_ok kend v" "v \<notin> set ps"
  shows "\<exists>s'. incPageRef (v div PGSIZE) s = Ret s' \<and> kalloc_ok kend s' ps \<and> kmem s' = kmem s \<and>
           ref_cnt s' = (ref_cnt s)[unat (v div PGSIZE) := ref_cnt s ! unat (v div PGSIZE) + 1]"
proof -
  have "unat (v div PGSIZE) < length (ref_cnt s)"
    using ok page_ok_index[OF v(1)] by (simp add: kalloc_ok_def)
  moreover have "unat (v div PGSIZE) \<noteq> unat (q div PGSIZE)" if "q \<in> set ps" for q
    using that ok v by (intro page_index_inj) (auto simp: kalloc_ok_def page_ok_def)
  ultimately show ?thesis
    using ok by (auto simp: incPageRef_def array_simps kalloc_ok_def nth_list_update_if)
qed

lemma user_write_ok:
  assumes "kalloc_ok kend s ps" and "\<And>p. p \<in> set ps \<Longrightarrow> \<not> in_page p x"
  shows "kalloc_ok kend (s\<lparr>kmem := (kmem s)(x := b)\<rparr>) ps"
proof -
  have "((kmem s)(x := b)) y = kmem s y" if "q \<in> set ps" "unat (y - q) < 4" for q y
    using assms(2)[OF that(1)] that(2) by (cases "y = x") (simp_all add: in_page_def)
  then have "run_list ((kmem s)(x := b)) (freelist s) ps"
    using assms(1) run_list_frame[of "kmem s"] unfolding kalloc_ok_def by blast
  then show ?thesis using assms(1) by (simp add: kalloc_ok_def)
qed

section \<open>The contract of a page allocator\<close>

text \<open>
  What the rest of the kernel relies on. \<open>ok s ps\<close> says that the allocator is consistent and its
  free pages are \<open>ps\<close>; \<open>cnt\<close> is the reference count it keeps of a page.
\<close>

locale page_allocator =
  fixes ok :: "'s \<Rightarrow> u32 list \<Rightarrow> bool"
    and cnt :: "'s \<Rightarrow> u32 \<Rightarrow> nat"
    and managed :: "u32 set"
    and palloc :: "'s \<Rightarrow> (u32 \<times> 's) outcome"
    and pfree :: "u32 \<Rightarrow> 's \<Rightarrow> 's outcome"
    and pshare :: "u32 \<Rightarrow> 's \<Rightarrow> 's outcome"
    and pwrite :: "u32 \<Rightarrow> u8 \<Rightarrow> 's \<Rightarrow> 's"
  assumes finite_managed: "finite managed"
    and ok_free: "ok s ps \<Longrightarrow> distinct ps \<and> set ps \<subseteq> managed"
    and alloc_none: "ok s [] \<Longrightarrow> palloc s = Ret (0, s)"
    and alloc_some: "ok s (p # ps) \<Longrightarrow>
      \<exists>s'. palloc s = Ret (p, s') \<and> p \<noteq> 0 \<and> ok s' ps \<and> (\<forall>q\<in>managed. cnt s' q = (if q = p then 1 else cnt s q))"
    and free_last: "ok s ps \<Longrightarrow> p \<in> managed \<Longrightarrow> p \<notin> set ps \<Longrightarrow> cnt s p = 1 \<Longrightarrow>
      \<exists>s'. pfree p s = Ret s' \<and> ok s' (p # ps) \<and> (\<forall>q\<in>managed. cnt s' q = cnt s q)"
    and free_shared: "ok s ps \<Longrightarrow> p \<in> managed \<Longrightarrow> p \<notin> set ps \<Longrightarrow> 1 < cnt s p \<Longrightarrow>
      \<exists>s'. pfree p s = Ret s' \<and> ok s' ps \<and> (\<forall>q\<in>managed. cnt s' q = (if q = p then cnt s p - 1 else cnt s q))"
    and share_page: "ok s ps \<Longrightarrow> p \<in> managed \<Longrightarrow> p \<notin> set ps \<Longrightarrow> Suc (cnt s p) < 4294967296 \<Longrightarrow>
      \<exists>s'. pshare p s = Ret s' \<and> ok s' ps \<and> (\<forall>q\<in>managed. cnt s' q = (if q = p then Suc (cnt s p) else cnt s q))"
    and write_held: "ok s ps \<Longrightarrow> p \<in> managed \<Longrightarrow> p \<notin> set ps \<Longrightarrow> in_page p x \<Longrightarrow>
      ok (pwrite x b s) ps \<and> cnt (pwrite x b s) = cnt s"
begin

text \<open>
  The books of the clients: \<open>h p\<close> is the number of references they hold to page \<open>p\<close>.
\<close>

definition accounted :: "'s \<Rightarrow> (u32 \<Rightarrow> nat) \<Rightarrow> bool" where
  "accounted s h \<longleftrightarrow>
     (\<exists>ps. ok s ps \<and> (\<forall>p\<in>managed. (p \<in> set ps \<longleftrightarrow> h p = 0) \<and> (0 < h p \<longrightarrow> cnt s p = h p))) \<and>
     (\<forall>p. 0 < h p \<longrightarrow> p \<in> managed)"

lemma accounted_alloc:
  assumes "accounted s h" and "palloc s = Ret (p, s')" and "p \<noteq> 0"
  shows "h p = 0 \<and> accounted s' (h(p := 1))"
proof -
  obtain ps where ps: "ok s ps" "\<forall>p\<in>managed. (p \<in> set ps \<longleftrightarrow> h p = 0) \<and> (0 < h p \<longrightarrow> cnt s p = h p)"
    using assms(1) by (auto simp: accounted_def)
  obtain qs where qs: "ps = p # qs" "ok s' qs" "\<forall>q\<in>managed. cnt s' q = (if q = p then 1 else cnt s q)"
    using ps(1) assms(2,3) alloc_none[of s] alloc_some[of s] by (cases ps) fastforce+
  have p: "p \<in> managed" "distinct ps" using ok_free[OF ps(1)] qs(1) by auto
  then have "h p = 0" using ps(2) qs(1) by auto
  moreover have "\<forall>q\<in>managed. (q \<in> set qs \<longleftrightarrow> (h(p := 1)) q = 0) \<and> (0 < (h(p := 1)) q \<longrightarrow> cnt s' q = (h(p := 1)) q)"
    using ps(2) qs p(2) by auto
  ultimately show ?thesis
    using assms(1) qs(2) p(1) by (auto simp: accounted_def)
qed

lemma accounted_free:
  assumes "accounted s h" and "0 < h p"
  shows "\<exists>s'. pfree p s = Ret s' \<and> accounted s' (h(p := h p - 1))"
proof -
  obtain ps where ps: "ok s ps" "\<forall>p\<in>managed. (p \<in> set ps \<longleftrightarrow> h p = 0) \<and> (0 < h p \<longrightarrow> cnt s p = h p)"
    and p: "p \<in> managed"
    using assms by (auto simp: accounted_def)
  have held: "p \<notin> set ps" "cnt s p = h p" using ps p assms(2) by auto
  have rest: "\<forall>q. 0 < (h(p := h p - 1)) q \<longrightarrow> q \<in> managed" using assms(1) p by (auto simp: accounted_def)
  show ?thesis
  proof (cases "h p = 1")
    case True
    then obtain s' where s': "pfree p s = Ret s'" "ok s' (p # ps)" "\<forall>q\<in>managed. cnt s' q = cnt s q"
      using free_last[OF ps(1) p held(1)] held by auto
    then show ?thesis unfolding accounted_def
      using rest ps(2) True by (intro exI[of _ s'] conjI exI[of _ "p # ps"]) auto
  next
    case False
    then obtain s' where s': "pfree p s = Ret s'" "ok s' ps"
        "\<forall>q\<in>managed. cnt s' q = (if q = p then cnt s p - 1 else cnt s q)"
      using free_shared[OF ps(1) p held(1)] held assms(2) by auto
    then show ?thesis unfolding accounted_def
      using rest ps(2) False held assms(2) by (intro exI[of _ s'] conjI exI[of _ ps]) auto
  qed
qed

lemma accounted_share:
  assumes "accounted s h" and "0 < h p" and "Suc (h p) < 4294967296"
  shows "\<exists>s'. pshare p s = Ret s' \<and> accounted s' (h(p := Suc (h p)))"
proof -
  obtain ps where ps: "ok s ps" "\<forall>p\<in>managed. (p \<in> set ps \<longleftrightarrow> h p = 0) \<and> (0 < h p \<longrightarrow> cnt s p = h p)"
    and p: "p \<in> managed"
    using assms by (auto simp: accounted_def)
  have held: "p \<notin> set ps" "cnt s p = h p" using ps p assms(2) by auto
  obtain s' where "pshare p s = Ret s'" "ok s' ps"
      "\<forall>q\<in>managed. cnt s' q = (if q = p then Suc (cnt s p) else cnt s q)"
    using share_page[OF ps(1) p held(1)] held assms(3) by auto
  then show ?thesis unfolding accounted_def
    using ps(2) held assms p by (intro exI[of _ s'] conjI exI[of _ ps]) (auto simp: accounted_def)
qed

lemma accounted_write:
  assumes "accounted s h" and "0 < h p" and "in_page p x"
  shows "accounted (pwrite x b s) h"
proof -
  obtain ps where ps: "ok s ps" "\<forall>p\<in>managed. (p \<in> set ps \<longleftrightarrow> h p = 0) \<and> (0 < h p \<longrightarrow> cnt s p = h p)"
    and p: "p \<in> managed"
    using assms by (auto simp: accounted_def)
  then have "ok (pwrite x b s) ps \<and> cnt (pwrite x b s) = cnt s"
    using write_held[OF ps(1) p _ assms(3)] assms(2) by auto
  then show ?thesis using ps(2) assms(1) unfolding accounted_def by metis
qed

text \<open>No page is lost: the free pages and the pages in use make up all of memory.\<close>

lemma accounted_total:
  assumes "accounted s h"
  shows "\<exists>ps. ok s ps \<and> set ps = {p \<in> managed. h p = 0} \<and> length ps + card {p. 0 < h p} = card managed"
proof -
  obtain ps where ps: "ok s ps" "\<forall>p\<in>managed. p \<in> set ps \<longleftrightarrow> h p = 0"
    using assms by (auto simp: accounted_def)
  have set: "set ps = {p \<in> managed. h p = 0}" using ps ok_free by blast
  have "managed = set ps \<union> {p. 0 < h p}" using set assms by (auto simp: accounted_def)
  moreover have "set ps \<inter> {p. 0 < h p} = {}" using set by auto
  moreover have "length ps = card (set ps)" using ok_free[OF ps(1)] by (simp add: distinct_card)
  ultimately have "length ps + card {p. 0 < h p} = card managed"
    using finite_managed by (metis card_Un_disjoint finite_Un)
  then show ?thesis using ps set by blast
qed

end

definition user_write :: "u32 \<Rightarrow> u8 \<Rightarrow> kstate \<Rightarrow> kstate" where
  "user_write x b s = s\<lparr>kmem := (kmem s)(x := b)\<rparr>"

lemma page_count_update:
  assumes "page_ok kend p" and "page_ok kend q" and "length (ref_cnt s) = 4096"
    and "ref_cnt s' = (ref_cnt s)[unat (p div PGSIZE) := c]"
  shows "page_count s' q = (if q = p then unat c else page_count s q)"
  using assms page_index_inj[of p q] page_ok_index[of kend p]
  by (auto simp: page_count_def nth_list_update_if page_ok_def)

lemma unat_dec: "1 < unat (c::u32) \<Longrightarrow> unat (c - 1) = unat c - 1"
  by (rule unat_minus_1) auto

interpretation pa: page_allocator "kalloc_ok kend" page_count "pages kend" kalloc "kfree kend"
    "\<lambda>p. incPageRef (p div PGSIZE)" user_write
  for kend
proof (unfold_locales, goal_cases)
  case (2 s ps)
  then show ?case by (auto simp: kalloc_ok_def pages_def)
next
  case (3 s)
  then show ?case by (rule kalloc_empty)
next
  case (4 s p ps)
  have "p \<noteq> 0" "page_ok kend p" "length (ref_cnt s) = 4096" using 4 by (auto simp: kalloc_ok_def)
  then show ?case
    using kalloc_page[OF 4] page_count_update[of kend p _ s _ 1] by (fastforce simp: pages_def)
next
  case (5 s ps p)
  then show ?case using kfree_last[of kend s ps p] by (auto simp: pages_def page_count_def)
next
  case (6 s ps p)
  then have p: "page_ok kend p" "length (ref_cnt s) = 4096" by (simp_all add: pages_def kalloc_ok_def)
  obtain s' where s': "kfree kend p s = Ret s'" "kalloc_ok kend s' ps"
      "ref_cnt s' = (ref_cnt s)[unat (p div PGSIZE) := ref_cnt s ! unat (p div PGSIZE) - 1]"
    using kfree_shared[OF 6(1) p(1) 6(3,4)] by blast
  have "unat (ref_cnt s ! unat (p div PGSIZE) - 1) = page_count s p - 1"
    using 6(4) unat_dec by (simp add: page_count_def)
  then show ?case using s' page_count_update[OF p(1) _ p(2) s'(3)] by (auto simp: pages_def)
next
  case (7 s ps p)
  then have p: "page_ok kend p" "length (ref_cnt s) = 4096" by (simp_all add: pages_def kalloc_ok_def)
  obtain s' where s': "incPageRef (p div PGSIZE) s = Ret s'" "kalloc_ok kend s' ps"
      "ref_cnt s' = (ref_cnt s)[unat (p div PGSIZE) := ref_cnt s ! unat (p div PGSIZE) + 1]"
    using incPageRef_page[OF 7(1) p(1) 7(3)] by blast
  have "unat (ref_cnt s ! unat (p div PGSIZE) + 1) = Suc (page_count s p)"
    using 7(4) u32_plus_1[of "ref_cnt s ! unat (p div PGSIZE)"] by (simp add: page_count_def)
  then show ?case using s' page_count_update[OF p(1) _ p(2) s'(3)] by (auto simp: pages_def)
next
  case (8 s ps p x b)
  have "\<not> in_page q x" if "q \<in> set ps" for q
    using 8 that in_page_distinct[of p q x] by (auto simp: kalloc_ok_def pages_def page_ok_def)
  then show ?case using user_write_ok[OF 8(1)] by (simp add: user_write_def page_count_def fun_eq_iff)
qed simp

section \<open>Initialisation\<close>

lemma unat_PHYSTOP [simp]: "unat PHYSTOP = 16777216"
  by (simp add: PHYSTOP_def)

lemma PGROUNDUP_page:
  assumes "kend \<le> PHYSTOP"
  shows "PGROUNDUP kend mod PGSIZE = 0" and "kend \<le> PGROUNDUP kend"
    and "PGROUNDUP kend \<le> PHYSTOP" and "unat (PGROUNDUP kend) < unat kend + 4096"
proof -
  have k: "unat kend \<le> 16777216" using assms by (simp add: word_le_nat_alt)
  have e: "PGROUNDUP kend = (kend + 4095) AND NOT 4095"
    by (simp add: PGROUNDUP_def PGSIZE_def add.commute)
  have "unat (kend + 4095) = unat kend + 4095" using k by (simp add: unat_word_ariths)
  then have u: "unat (PGROUNDUP kend) = (unat kend + 4095) div 4096 * 4096"
    unfolding e page_mask by simp
  show "PGROUNDUP kend mod PGSIZE = 0" by (simp add: mod_PGSIZE_iff u)
  show "kend \<le> PGROUNDUP kend" using roundup_nat(1)[of "unat kend"] by (simp add: word_le_nat_alt u)
  show "unat (PGROUNDUP kend) < unat kend + 4096" using roundup_nat(2)[of "unat kend"] by (simp add: u)
  have "(unat kend + 4095) div 4096 \<le> 4096" using k by linarith
  then show "PGROUNDUP kend \<le> PHYSTOP" by (simp add: word_le_nat_alt u)
qed

lemma pages_below_next:
  assumes "p mod PGSIZE = 0" and "kend \<le> p" and "p < PHYSTOP"
  shows "{v \<in> pages kend. v < p + PGSIZE} = insert p {v \<in> pages kend. v < p}"
proof -
  have next_page: "unat (p + PGSIZE) = unat p + 4096"
    using assms(3) by (simp add: word_less_nat_alt PGSIZE_def unat_word_ariths)
  have "v = p" if "v \<in> pages kend" "v < p + PGSIZE" "\<not> v < p" for v
  proof (rule ccontr)
    assume "v \<noteq> p"
    moreover have "v mod PGSIZE = 0" using that(1) unfolding pages_def page_ok_def by blast
    ultimately have "4096 \<le> unat v - unat p"
      using pages_far[of v p] assms(1) that(3) by (simp add: unat_sub not_less)
    then show False using that(2) next_page by (simp add: word_less_nat_alt)
  qed
  moreover have "v < p + PGSIZE" if "v \<le> p" for v
    using that next_page by (simp add: word_less_nat_alt word_le_nat_alt)
  moreover have "p \<in> pages kend" unfolding pages_def page_ok_def using assms by blast
  ultimately show ?thesis by auto
qed

lemma kinit_loop_ok:
  assumes "kalloc_ok kend s ps" and "set ps = {v \<in> pages kend. v < p}"
    and "p mod PGSIZE = 0" and "kend \<le> p" and "p \<le> PHYSTOP" and "\<forall>q\<in>pages kend. page_count s q \<le> 1"
  shows "\<exists>s' ps'. kinit_loop kend p s = Ret s' \<and> kalloc_ok kend s' ps' \<and> set ps' = pages kend"
  using assms
proof (induction kend p s arbitrary: ps rule: kinit_loop.induct)
  case (1 kend p s)
  have next_page: "unat (p + PGSIZE) = unat p + 4096"
    using "1.prems"(5) by (simp add: word_le_nat_alt PGSIZE_def unat_word_ariths)
  show ?case
  proof (cases "p + PGSIZE \<le> PHYSTOP")
    case True
    then have "p < PHYSTOP" using next_page by (simp add: word_less_nat_alt word_le_nat_alt)
    then have p: "page_ok kend p" "p \<notin> set ps" "page_count s p \<le> 1"
      using "1.prems" by (auto simp: page_ok_def pages_def)
    obtain s1 where s1: "kfree kend p s = Ret s1" "kalloc_ok kend s1 (p # ps)" "ref_cnt s1 = ref_cnt s"
      using kfree_last[OF "1.prems"(1) p] by blast
    have "\<exists>s' ps'. kinit_loop kend (p + PGSIZE) s1 = Ret s' \<and> kalloc_ok kend s' ps' \<and> set ps' = pages kend"
    proof (rule "1.IH"[OF True s1(1,2)])
      show "set (p # ps) = {v \<in> pages kend. v < p + PGSIZE}"
        using pages_below_next[OF "1.prems"(3,4) \<open>p < PHYSTOP\<close>] "1.prems"(2) by simp
      show "(p + PGSIZE) mod PGSIZE = 0"
        using "1.prems"(3) next_page by (simp add: mod_PGSIZE_iff)
      show "kend \<le> p + PGSIZE"
        using "1.prems"(4) next_page by (simp add: word_le_nat_alt)
      show "\<forall>q\<in>pages kend. page_count s1 q \<le> 1"
        using "1.prems"(6) s1(3) by (simp add: page_count_def)
    qed (rule True)
    then show ?thesis using True s1(1) by (subst kinit_loop.simps) simp
  next
    case False
    have "p = PHYSTOP"
    proof (rule ccontr)
      assume "p \<noteq> PHYSTOP"
      then have "4096 \<le> unat PHYSTOP - unat p"
        using pages_far[of PHYSTOP p] "1.prems"(3,5) by (simp add: mod_PGSIZE_iff unat_sub)
      then show False using False next_page "1.prems"(5) by (simp add: word_le_nat_alt)
    qed
    then have "set ps = pages kend" using "1.prems"(2) by (auto simp: pages_def page_ok_def)
    then show ?thesis using False "1.prems"(1) by (subst kinit_loop.simps) auto
  qed
qed

text \<open>The zeroed variables of the kernel image, over memory with any contents.\<close>

definition kboot :: "mem \<Rightarrow> kstate" where
  "kboot m = \<lparr>kmem = m, freelist = 0, free_pages = 0, ref_cnt = replicate 4096 0\<rparr>"

lemma kinit_ok:
  assumes "0 < kend" and "kend \<le> PHYSTOP"
  shows "\<exists>s ps. kinit kend (kboot m) = Ret s \<and> kalloc_ok kend s ps \<and> set ps = pages kend"
  unfolding kinit_def
proof (rule kinit_loop_ok)
  show "kalloc_ok kend (kboot m\<lparr>free_pages := 0\<rparr>) []"
    using assms(1) by (simp add: kalloc_ok_def kboot_def)
  show "set [] = {v \<in> pages kend. v < PGROUNDUP kend}"
  proof -
    have False if "v \<in> pages kend" "v < PGROUNDUP kend" for v
    proof -
      have v: "v mod PGSIZE = 0" "kend \<le> v" using that(1) unfolding pages_def page_ok_def by blast+
      then have "4096 \<le> unat (PGROUNDUP kend) - unat v"
        using pages_far[of "PGROUNDUP kend" v] that PGROUNDUP_page[OF assms(2)] by (auto simp: unat_sub)
      then show False using v(2) PGROUNDUP_page(4)[OF assms(2)] by (simp add: word_le_nat_alt)
    qed
    then show ?thesis by auto
  qed
  show "\<forall>q\<in>pages kend. page_count (kboot m\<lparr>free_pages := 0\<rparr>) q \<le> 1"
    using page_ok_index by (auto simp: pages_def page_count_def kboot_def)
qed (use PGROUNDUP_page[OF assms(2)] in simp_all)

section \<open>Runs\<close>

text \<open>
  A run of the kernel as the allocator sees it: after \<open>kinit\<close>, pages are allocated, shared with
  \<open>incPageRef\<close>, and freed, and any byte of a page that is in use may be written. \<open>h p\<close> counts the
  references that are held to page \<open>p\<close>; a reference must be held to be shared or freed.
\<close>

inductive kreach :: "u32 \<Rightarrow> kstate \<Rightarrow> (u32 \<Rightarrow> nat) \<Rightarrow> bool" for kend where
  boot: "0 < kend \<Longrightarrow> kend \<le> PHYSTOP \<Longrightarrow> kinit kend (kboot m) = Ret s \<Longrightarrow> kreach kend s (\<lambda>_. 0)"
| alloc: "kreach kend s h \<Longrightarrow> kalloc s = Ret (p, s') \<Longrightarrow> p \<noteq> 0 \<Longrightarrow> kreach kend s' (h(p := h p + 1))"
| alloc_fail: "kreach kend s h \<Longrightarrow> kalloc s = Ret (0, s') \<Longrightarrow> kreach kend s' h"
| share: "kreach kend s h \<Longrightarrow> 0 < h p \<Longrightarrow> h p < 4294967295 \<Longrightarrow> incPageRef (p div PGSIZE) s = Ret s' \<Longrightarrow>
    kreach kend s' (h(p := h p + 1))"
| free: "kreach kend s h \<Longrightarrow> 0 < h p \<Longrightarrow> kfree kend p s = Ret s' \<Longrightarrow> kreach kend s' (h(p := h p - 1))"
| writes: "kreach kend s h \<Longrightarrow> 0 < h p \<Longrightarrow> in_page p x \<Longrightarrow> kreach kend (user_write x b s) h"

lemma kalloc_fail_unchanged:
  assumes "kalloc_ok kend s ps" and "kalloc s = Ret (0, s')"
  shows "ps = [] \<and> s' = s"
  using assms pa.alloc_some[of kend s] kalloc_empty[of kend s] by (cases ps) force+

lemma kreach_accounted: "kreach kend s h \<Longrightarrow> pa.accounted kend s h"
proof (induction rule: kreach.induct)
  case (boot m s)
  then obtain ps where "kalloc_ok kend s ps" "set ps = pages kend" using kinit_ok[of kend m] by auto
  then show ?case by (auto simp: pa.accounted_def)
next
  case (alloc s h p s')
  then show ?case using pa.accounted_alloc[of kend s h p s'] by (simp del: fun_upd_apply)
next
  case (alloc_fail s h s')
  then show ?case using kalloc_fail_unchanged unfolding pa.accounted_def by blast
next
  case (share s h p s')
  then show ?case using pa.accounted_share[of kend s h p] by (auto simp del: fun_upd_apply)
next
  case (free s h p s')
  then show ?case using pa.accounted_free[of kend s h p] by (auto simp del: fun_upd_apply)
next
  case (writes s h p x b)
  then show ?case using pa.accounted_write by blast
qed

lemma accounted_held:
  assumes "pa.accounted kend s h" and "0 < h p"
  shows "page_ok kend p" and "page_count s p = h p"
  using assms unfolding pa.accounted_def by (auto simp: pages_def)

lemma kalloc_returns:
  assumes ok: "kalloc_ok kend s ps"
  shows "\<exists>p s'. kalloc s = Ret (p, s') \<and> kmem s' = kmem s \<and>
           (if ps = [] then p = 0 \<and> s' = s else p \<in> set ps \<and> page_count s' p = 1)"
proof (cases ps)
  case Nil
  then show ?thesis using kalloc_empty[of kend s] ok by auto
next
  case (Cons p qs)
  then obtain s' where s': "kalloc s = Ret (p, s')" "kmem s' = kmem s"
      "ref_cnt s' = (ref_cnt s)[unat (p div PGSIZE) := 1]"
    using kalloc_page[of kend s p qs] ok by blast
  have "page_ok kend p" "length (ref_cnt s) = 4096" using ok Cons by (simp_all add: kalloc_ok_def)
  then have "page_count s' p = 1" using page_count_update[of kend p p s s' 1] s'(3) by simp
  then show ?thesis using s' Cons by auto
qed

lemma kfree_returns:
  assumes ok: "kalloc_ok kend s ps" and p: "page_ok kend p" "p \<notin> set ps" "0 < page_count s p"
  shows "\<exists>s'. kfree kend p s = Ret s' \<and> (\<forall>x. \<not> in_page p x \<longrightarrow> kmem s' x = kmem s x) \<and>
      (if page_count s p = 1
       then freelist s' = p \<and> (\<forall>x. in_page p x \<and> 4 \<le> unat (x - p) \<longrightarrow> kmem s' x = 1)
       else freelist s' = freelist s \<and> kmem s' = kmem s \<and> page_count s' p = page_count s p - 1)"
proof (cases "page_count s p = 1")
  case True
  then show ?thesis using kfree_last[OF ok p(1,2)] by (auto simp: kalloc_ok_def)
next
  case False
  then have more: "1 < page_count s p" using p(3) by simp
  obtain s' where s': "kfree kend p s = Ret s'" "kmem s' = kmem s" "freelist s' = freelist s"
      "ref_cnt s' = (ref_cnt s)[unat (p div PGSIZE) := ref_cnt s ! unat (p div PGSIZE) - 1]"
    using kfree_shared[OF ok p(1,2) more] by blast
  have "length (ref_cnt s) = 4096" using ok by (simp add: kalloc_ok_def)
  then have "page_count s' p = page_count s p - 1"
    using page_count_update[OF p(1,1) _ s'(4)] more unat_dec by (simp add: page_count_def)
  then show ?thesis using s' False by auto
qed

section \<open>Correctness\<close>

text \<open>
  C20. No page is ever given out twice. In every run, whatever the clients write into the pages they
  hold, the free list consists of exactly the managed pages nobody holds, each once; the reference
  count of a page in use is the number of references held; \<open>kfreeCount\<close> is the number of
  free pages; and free pages and pages in use together are all the pages above the kernel.
\<close>

theorem kalloc_never_shares:
  assumes "kreach kend s h"
  shows "\<exists>ps. run_list (kmem s) (freelist s) ps \<and> distinct ps \<and>
           set ps = {p. page_ok kend p \<and> h p = 0} \<and>
           (\<forall>p. 0 < h p \<longrightarrow> page_ok kend p \<and> page_count s p = h p) \<and>
           kfreeCount s = of_nat (length ps) \<and>
           length ps + card {p. 0 < h p} = card (pages kend)"
proof -
  have acc: "pa.accounted kend s h" using assms by (rule kreach_accounted)
  obtain ps where ps: "kalloc_ok kend s ps" "set ps = {p \<in> pages kend. h p = 0}"
      "length ps + card {p. 0 < h p} = card (pages kend)"
    using pa.accounted_total[OF acc] by blast
  have "\<forall>p. 0 < h p \<longrightarrow> page_ok kend p \<and> page_count s p = h p"
    using accounted_held[OF acc] by blast
  moreover have "set ps = {p. page_ok kend p \<and> h p = 0}" using ps(2) by (auto simp: pages_def)
  moreover have "run_list (kmem s) (freelist s) ps" "distinct ps" "kfreeCount s = of_nat (length ps)"
    using ps(1) by (simp_all add: kalloc_ok_def kfreeCount_def)
  ultimately show ?thesis using ps(3) by blast
qed

text \<open>
  Progress. In every reachable state \<open>kalloc\<close> returns: a page nobody holds if there is one,
  which is then referenced once, and 0 only when every page is in use. Freeing a held page returns
  too; it puts the page back, overwritten with junk, exactly when this was the last reference, and
  leaves all other pages alone.
\<close>

theorem kalloc_kfree_return:
  assumes "kreach kend s h"
  shows "(\<exists>p s'. kalloc s = Ret (p, s') \<and> kmem s' = kmem s \<and>
            (if \<exists>q. page_ok kend q \<and> h q = 0 then page_ok kend p \<and> h p = 0 \<and> page_count s' p = 1
             else p = 0 \<and> s' = s)) \<and>
         (\<forall>p. 0 < h p \<longrightarrow> (\<exists>s'. kfree kend p s = Ret s' \<and>
            (\<forall>x. \<not> in_page p x \<longrightarrow> kmem s' x = kmem s x) \<and>
            (if h p = 1 then freelist s' = p \<and> (\<forall>x. in_page p x \<and> 4 \<le> unat (x - p) \<longrightarrow> kmem s' x = 1)
             else freelist s' = freelist s \<and> kmem s' = kmem s \<and> page_count s' p = h p - 1)))"
proof -
  have acc: "pa.accounted kend s h" using assms by (rule kreach_accounted)
  obtain ps where ps: "kalloc_ok kend s ps" "set ps = {p \<in> pages kend. h p = 0}"
    using pa.accounted_total[OF acc] by blast
  then have "ps = [] \<longleftrightarrow> \<not> (\<exists>q. page_ok kend q \<and> h q = 0)"
    by (auto simp: pages_def simp flip: set_empty)
  moreover have "\<exists>s'. kfree kend p s = Ret s' \<and> (\<forall>x. \<not> in_page p x \<longrightarrow> kmem s' x = kmem s x) \<and>
      (if h p = 1 then freelist s' = p \<and> (\<forall>x. in_page p x \<and> 4 \<le> unat (x - p) \<longrightarrow> kmem s' x = 1)
       else freelist s' = freelist s \<and> kmem s' = kmem s \<and> page_count s' p = h p - 1)" if "0 < h p" for p
  proof -
    have "p \<notin> set ps" using ps(2) that by simp
    then show ?thesis
      using kfree_returns[OF ps(1), of p] that unfolding accounted_held(2)[of kend s h, OF acc that]
      using accounted_held(1)[of kend s h, OF acc that] by blast
  qed
  moreover have "page_ok kend p \<and> h p = 0" if "p \<in> set ps" for p
    using that ps(2) by (simp add: pages_def)
  moreover obtain p s' where "kalloc s = Ret (p, s')" "kmem s' = kmem s"
      "if ps = [] then p = 0 \<and> s' = s else p \<in> set ps \<and> page_count s' p = 1"
    using kalloc_returns[OF ps(1)] by blast
  ultimately show ?thesis by (intro conjI exI[of _ p] exI[of _ s']) (simp_all split: if_splits)
qed

text \<open>A machine with a single page above the kernel, and the run that allocates it.\<close>

lemma single_page: "pages 0xFFF000 = {0xFFF000}"
proof -
  have "v = 0xFFF000" if "v \<in> pages 0xFFF000" for v
  proof (rule ccontr)
    assume "v \<noteq> 0xFFF000"
    moreover have v: "v mod PGSIZE = 0" "0xFFF000 \<le> v" "v < PHYSTOP"
      using that unfolding pages_def page_ok_def by blast+
    ultimately have "4096 \<le> unat v - unat (0xFFF000 :: u32)"
      using pages_far[of v "0xFFF000"] by (simp add: unat_sub PGSIZE_def)
    then show False using v(3) by (simp add: word_less_nat_alt)
  qed
  moreover have "page_ok 0xFFF000 0xFFF000" by (simp add: page_ok_def PGSIZE_def PHYSTOP_def)
  ultimately show ?thesis by (auto simp: pages_def)
qed

lemma single_page_run:
  "\<exists>s. kreach 0xFFF000 s ((\<lambda>_. 0)(0xFFF000 := 1))"
proof -
  obtain s ps where s: "kinit 0xFFF000 (kboot (\<lambda>_. 0)) = Ret s" "kalloc_ok 0xFFF000 s ps"
      "set ps = {0xFFF000}"
    using kinit_ok[of "0xFFF000" "\<lambda>_. 0"] single_page by (auto simp: PHYSTOP_def)
  have "kreach 0xFFF000 s (\<lambda>_. 0)" using s(1) by (intro kreach.boot) (simp_all add: PHYSTOP_def)
  moreover obtain s' where "kalloc s = Ret (0xFFF000, s')" using kalloc_returns[OF s(2)] s(3) by (cases "ps = []") auto
  ultimately show ?thesis using kreach.alloc[of "0xFFF000" s "\<lambda>_. 0" "0xFFF000" s'] by auto
qed

theorem kalloc_never_shares_witness:
  "\<exists>s h. kreach 0xFFF000 s h \<and> h 0xFFF000 = 1 \<and> freelist s = 0 \<and> page_count s 0xFFF000 = 1 \<and>
     kfreeCount s = 0"
proof -
  obtain s where s: "kreach 0xFFF000 s ((\<lambda>_. 0)(0xFFF000 := 1))" using single_page_run by blast
  obtain ps where ps: "run_list (kmem s) (freelist s) ps" "page_count s 0xFFF000 = 1"
      "kfreeCount s = of_nat (length ps)" "set ps = {p. page_ok 0xFFF000 p \<and> ((\<lambda>_. 0::nat)(0xFFF000 := 1)) p = 0}"
    using kalloc_never_shares[OF s] by (auto simp del: fun_upd_apply) (simp add: fun_upd_def)
  have "ps = []" using ps(4) single_page by (auto simp: pages_def simp flip: set_empty split: if_splits)
  then show ?thesis using s ps by (intro exI[of _ s] exI[of _ "(\<lambda>_. 0)(0xFFF000 := 1)"]) auto
qed

theorem kalloc_kfree_return_witness:
  "\<exists>s h s'. kreach 0xFFF000 s h \<and> kalloc s = Ret (0, s) \<and> kfree 0xFFF000 0xFFF000 s = Ret s' \<and>
     freelist s' = 0xFFF000 \<and> kmem s' 0xFFF004 = 1"
proof -
  let ?h = "(\<lambda>_. 0::nat)(0xFFF000 := 1)"
  obtain s where s: "kreach 0xFFF000 s ?h" using single_page_run by blast
  have "\<not> (\<exists>q. page_ok 0xFFF000 q \<and> ?h q = 0)" using single_page by (auto simp: pages_def)
  then have "kalloc s = Ret (0, s)" using kalloc_kfree_return[OF s] by (simp del: fun_upd_apply) auto
  moreover obtain s' where "kfree 0xFFF000 0xFFF000 s = Ret s'" "freelist s' = 0xFFF000"
      "\<forall>x. in_page 0xFFF000 x \<and> 4 \<le> unat (x - 0xFFF000) \<longrightarrow> kmem s' x = 1"
    using kalloc_kfree_return[OF s] by (force simp: fun_upd_def)
  moreover have "in_page 0xFFF000 0xFFF004" by (simp add: in_page_def)
  ultimately show ?thesis using s by (intro exI[of _ s] exI[of _ ?h] exI[of _ s']) auto
qed

end
