(* ===== verification/Vm.thy ===== *)
theory Vm
  imports Kalloc
begin

text \<open>
  Page tables and copy-on-write (\<open>src/P5/xv6/kernel/vm.c\<close>).

  Page directories and page tables are pages of the byte memory of \<open>Kalloc\<close>; entries are read and
  written with \<open>load32\<close> and \<open>store32\<close>, so that every claim about a mapping is a claim about memory.
  Loading \<open>cr3\<close> and console output have no effect on this state. The address at which the kernel's
  data segment starts, \<open>data\<close>, is set by the linker and is a parameter, as is \<open>kend\<close>.
\<close>

section \<open>Constants and fields of an entry\<close>

definition USERTOP :: u32 where "USERTOP = 0xA0000"
definition PTE_P :: u32 where "PTE_P = 1"
definition PTE_W :: u32 where "PTE_W = 2"
definition PTE_U :: u32 where "PTE_U = 4"

definition PDX :: "u32 \<Rightarrow> u32" where
  "PDX la = drop_bit 22 la AND 0x3FF"

definition PTX :: "u32 \<Rightarrow> u32" where
  "PTX la = drop_bit 12 la AND 0x3FF"

definition PTE_ADDR :: "u32 \<Rightarrow> u32" where
  "PTE_ADDR pte = pte AND NOT 0xFFF"

definition PTE_FLAGS :: "u32 \<Rightarrow> u32" where
  "PTE_FLAGS pte = pte AND 0xFFF"

definition PGROUNDDOWN :: "u32 \<Rightarrow> u32" where
  "PGROUNDDOWN a = a AND NOT (PGSIZE - 1)"

definition present :: "u32 \<Rightarrow> bool" where
  "present pte \<longleftrightarrow> pte AND PTE_P \<noteq> 0"

section \<open>Walking and mapping\<close>

text \<open>\<open>walkpgdir\<close> returns the address of the entry, or 0.\<close>

definition walkpgdir :: "u32 \<Rightarrow> u32 \<Rightarrow> bool \<Rightarrow> kstate \<Rightarrow> (u32 \<times> kstate) outcome" where
  "walkpgdir pgdir va create s =
     (let pde = pgdir + 4 * PDX va; e = load32 (kmem s) pde in
      if present e then Ret (PTE_ADDR e + 4 * PTX va, s)
      else if \<not> create then Ret (0, s)
      else bindO (kalloc s) (\<lambda>(pgtab, s1).
        if pgtab = 0 then Ret (0, s1)
        else let m = memset (kmem s1) pgtab 0 (unat PGSIZE)
             in Ret (pgtab + 4 * PTX va,
                     s1\<lparr>kmem := store32 m pde (pgtab OR PTE_P OR PTE_W OR PTE_U)\<rparr>)))"

text \<open>
  The loop of \<open>mappages\<close> runs until \<open>a\<close> is \<open>last\<close>; \<open>n\<close> counts the pages still to come. Both addresses
  are multiples of the page size, so the count runs out exactly when they meet.
\<close>

fun mappages_loop :: "nat \<Rightarrow> u32 \<Rightarrow> u32 \<Rightarrow> u32 \<Rightarrow> u32 \<Rightarrow> u32 \<Rightarrow> kstate \<Rightarrow> (int \<times> kstate) outcome" where
  "mappages_loop n pgdir a lst pa perm s =
     bindO (walkpgdir pgdir a True s) (\<lambda>(pte, s1).
     if pte = 0 then Ret (-1, s1)
     else if present (load32 (kmem s1) pte) then Panic ''remap''
     else let s2 = s1\<lparr>kmem := store32 (kmem s1) pte (pa OR perm OR PTE_P)\<rparr> in
       if a = lst then Ret (0, s2)
       else case n of 0 \<Rightarrow> Undef ''mappages does not end''
            | Suc k \<Rightarrow> mappages_loop k pgdir (a + PGSIZE) lst (pa + PGSIZE) perm s2)"

declare mappages_loop.simps [simp del]

definition mappages :: "u32 \<Rightarrow> u32 \<Rightarrow> u32 \<Rightarrow> u32 \<Rightarrow> u32 \<Rightarrow> kstate \<Rightarrow> (int \<times> kstate) outcome" where
  "mappages pgdir la siz pa perm s =
     (let a = PGROUNDDOWN la; lst = PGROUNDDOWN (la + siz - 1)
      in mappages_loop (unat (lst - a) div 4096) pgdir a lst pa perm s)"

section \<open>Kernel mappings\<close>

definition kmap :: "u32 \<Rightarrow> (u32 \<times> u32 \<times> u32) list" where
  "kmap data =
     [(USERTOP, 0x100000, PTE_W), (0x100000, data, 0), (data, PHYSTOP, PTE_W), (0xFE000000, 0, PTE_W)]"

fun map_kernel :: "u32 \<Rightarrow> (u32 \<times> u32 \<times> u32) list \<Rightarrow> kstate \<Rightarrow> (int \<times> kstate) outcome" where
  "map_kernel pgdir [] s = Ret (0, s)"
| "map_kernel pgdir ((p, e, perm) # ks) s =
     bindO (mappages pgdir p (e - p) p perm s) (\<lambda>(r, s1).
     if r < 0 then Ret (-1, s1) else map_kernel pgdir ks s1)"

definition setupkvm :: "u32 \<Rightarrow> kstate \<Rightarrow> (u32 \<times> kstate) outcome" where
  "setupkvm data s =
     bindO (kalloc s) (\<lambda>(pgdir, s1).
     if pgdir = 0 then Ret (0, s1)
     else bindO (map_kernel pgdir (kmap data) (s1\<lparr>kmem := memset (kmem s1) pgdir 0 (unat PGSIZE)\<rparr>))
       (\<lambda>(r, s2). if r < 0 then Ret (0, s2) else Ret (pgdir, s2)))"

section \<open>Growing and shrinking\<close>

text \<open>\<open>inituvm\<close> does not check whether \<open>kalloc\<close> failed, nor what \<open>mappages\<close> returned.\<close>

definition inituvm :: "u32 \<Rightarrow> u8 list \<Rightarrow> kstate \<Rightarrow> kstate outcome" where
  "inituvm pgdir init s =
     (if length init \<ge> unat PGSIZE then Panic ''inituvm: more than a page''
      else bindO (kalloc s) (\<lambda>(mem, s1).
        if mem = 0 then Undef ''inituvm: null page''
        else bindO (mappages pgdir 0 PGSIZE mem (PTE_W OR PTE_U)
               (s1\<lparr>kmem := memset (kmem s1) mem 0 (unat PGSIZE)\<rparr>)) (\<lambda>(_, s2).
             Ret (s2\<lparr>kmem := write_bytes (kmem s2) mem init\<rparr>))))"

text \<open>
  The loops step through addresses by pages. An address that wraps around to 0 would start the
  loop over and never end; callers pass sizes up to \<open>USERTOP\<close>.
\<close>

lemma page_step_decreases:
  "\<not> a + PGSIZE < a \<Longrightarrow> 4294967296 - unat (a + PGSIZE) < 4294967296 - unat a"
proof -
  assume "\<not> a + PGSIZE < a"
  moreover have "a + PGSIZE \<noteq> a" by (simp add: PGSIZE_def)
  ultimately have "a < a + PGSIZE" by (metis linorder_neqE)
  then show ?thesis using unat_lt_u32[of "a + PGSIZE"] by (simp add: word_less_nat_alt)
qed

function dealloc_loop :: "u32 \<Rightarrow> u32 \<Rightarrow> u32 \<Rightarrow> u32 \<Rightarrow> kstate \<Rightarrow> kstate outcome" where
  "dealloc_loop kend pgdir a oldsz s =
     (if a < oldsz then
        bindO (walkpgdir pgdir a False s) (\<lambda>(pte, s1).
        let e = load32 (kmem s1) pte in
        bindO (if pte \<noteq> 0 \<and> present e then
                 if PTE_ADDR e = 0 then Panic ''kfree''
                 else bindO (kfree kend (PTE_ADDR e) s1) (\<lambda>s2. Ret (s2\<lparr>kmem := store32 (kmem s2) pte 0\<rparr>))
               else Ret s1) (\<lambda>s3.
        if a + PGSIZE < a then Undef ''deallocuvm does not end''
        else dealloc_loop kend pgdir (a + PGSIZE) oldsz s3))
      else Ret s)"
  by auto

termination
  by (relation "measure (\<lambda>(_, _, a, _, _). 4294967296 - unat a)") (simp_all add: page_step_decreases)

declare dealloc_loop.simps [simp del]

definition deallocuvm :: "u32 \<Rightarrow> u32 \<Rightarrow> u32 \<Rightarrow> u32 \<Rightarrow> kstate \<Rightarrow> (u32 \<times> kstate) outcome" where
  "deallocuvm kend pgdir oldsz newsz s =
     (if newsz \<ge> oldsz then Ret (oldsz, s)
      else bindO (dealloc_loop kend pgdir (PGROUNDUP newsz) oldsz s) (\<lambda>s1. Ret (newsz, s1)))"

function alloc_loop :: "u32 \<Rightarrow> u32 \<Rightarrow> u32 \<Rightarrow> u32 \<Rightarrow> u32 \<Rightarrow> kstate \<Rightarrow> (u32 \<times> kstate) outcome" where
  "alloc_loop kend pgdir oldsz a newsz s =
     (if a < newsz then
        bindO (kalloc s) (\<lambda>(mem, s1).
        if mem = 0 then bindO (deallocuvm kend pgdir newsz oldsz s1) (\<lambda>(_, s2). Ret (0, s2))
        else bindO (mappages pgdir a PGSIZE mem (PTE_W OR PTE_U)
               (s1\<lparr>kmem := memset (kmem s1) mem 0 (unat PGSIZE)\<rparr>)) (\<lambda>(_, s2).
             if a + PGSIZE < a then Undef ''allocuvm does not end''
             else alloc_loop kend pgdir oldsz (a + PGSIZE) newsz s2))
      else Ret (newsz, s))"
  by auto

termination
  by (relation "measure (\<lambda>(_, _, _, a, _, _). 4294967296 - unat a)") (simp_all add: page_step_decreases)

declare alloc_loop.simps [simp del]

definition allocuvm :: "u32 \<Rightarrow> u32 \<Rightarrow> u32 \<Rightarrow> u32 \<Rightarrow> kstate \<Rightarrow> (u32 \<times> kstate) outcome" where
  "allocuvm kend pgdir oldsz newsz s =
     (if newsz > USERTOP then Ret (0, s)
      else if newsz < oldsz then Ret (oldsz, s)
      else alloc_loop kend pgdir oldsz (PGROUNDUP oldsz) newsz s)"

section \<open>Freeing an address space\<close>

function free_tables :: "u32 \<Rightarrow> u32 \<Rightarrow> nat \<Rightarrow> kstate \<Rightarrow> kstate outcome" where
  "free_tables kend pgdir n s =
     (if n < 1024 then
        let e = load32 (kmem s) (pgdir + 4 * of_nat n) in
        bindO (if present e then kfree kend (PTE_ADDR e) s else Ret s) (\<lambda>s1.
        free_tables kend pgdir (Suc n) s1)
      else Ret s)"
  by auto

termination
  by (relation "measure (\<lambda>(_, _, n, _). 1024 - n)") auto

declare free_tables.simps [simp del]

definition freevm :: "u32 \<Rightarrow> u32 \<Rightarrow> kstate \<Rightarrow> kstate outcome" where
  "freevm kend pgdir s =
     (if pgdir = 0 then Panic ''freevm: no pgdir''
      else bindO (deallocuvm kend pgdir USERTOP 0 s) (\<lambda>(_, s1).
           bindO (free_tables kend pgdir 0 s1) (\<lambda>s2. kfree kend pgdir s2)))"

section \<open>Copying an address space\<close>

text \<open>
  The loops of \<open>copyuvm\<close> and \<open>cowuvm\<close> over the pages of the parent. They tell success from the jump
  to \<open>bad\<close>.
\<close>

function copy_loop :: "u32 \<Rightarrow> u32 \<Rightarrow> u32 \<Rightarrow> u32 \<Rightarrow> kstate \<Rightarrow> (bool \<times> kstate) outcome" where
  "copy_loop pgdir d i sz s =
     (if i < sz then
        bindO (walkpgdir pgdir i False s) (\<lambda>(pte, s1).
        let e = load32 (kmem s1) pte in
        if pte = 0 then Panic ''copyuvm: pte should exist''
        else if \<not> present e then Panic ''copyuvm: page not present''
        else bindO (kalloc s1) (\<lambda>(mem, s2).
          if mem = 0 then Ret (False, s2)
          else bindO (mappages d i PGSIZE mem (PTE_FLAGS e)
                 (s2\<lparr>kmem := memmove (kmem s2) mem (PTE_ADDR e) (unat PGSIZE)\<rparr>)) (\<lambda>(r, s3).
               if r < 0 then Ret (False, s3)
               else if i + PGSIZE < i then Undef ''copyuvm does not end''
               else copy_loop pgdir d (i + PGSIZE) sz s3)))
      else Ret (True, s))"
  by auto

termination
  by (relation "measure (\<lambda>(_, _, i, _, _). 4294967296 - unat i)") (simp_all add: page_step_decreases)

declare copy_loop.simps [simp del]

definition copyuvm :: "u32 \<Rightarrow> u32 \<Rightarrow> u32 \<Rightarrow> u32 \<Rightarrow> kstate \<Rightarrow> (u32 \<times> kstate) outcome" where
  "copyuvm kend data pgdir sz s =
     bindO (setupkvm data s) (\<lambda>(d, s1).
     if d = 0 then Ret (0, s1)
     else bindO (copy_loop pgdir d 0 sz s1) (\<lambda>(ok, s2).
          if ok then Ret (d, s2) else bindO (freevm kend d s2) (\<lambda>s3. Ret (0, s3))))"

function cow_loop :: "u32 \<Rightarrow> u32 \<Rightarrow> u32 \<Rightarrow> u32 \<Rightarrow> kstate \<Rightarrow> (bool \<times> kstate) outcome" where
  "cow_loop pgdir d i sz s =
     (if i < sz then
        bindO (walkpgdir pgdir i False s) (\<lambda>(pte, s1).
        let e = load32 (kmem s1) pte in
        if pte = 0 then Panic ''cowuvm: pte should exist''
        else if \<not> present e then Panic ''cowuvm: page not present''
        else let pa = PTE_ADDR e; e' = e AND NOT PTE_W in
          bindO (mappages d i PGSIZE pa (PTE_FLAGS e') (s1\<lparr>kmem := store32 (kmem s1) pte e'\<rparr>)) (\<lambda>(r, s2).
          if r < 0 then Ret (False, s2)
          else bindO (incPageRef (pa div PGSIZE) s2) (\<lambda>s3.
               if i + PGSIZE < i then Undef ''cowuvm does not end''
               else cow_loop pgdir d (i + PGSIZE) sz s3)))
      else Ret (True, s))"
  by auto

termination
  by (relation "measure (\<lambda>(_, _, i, _, _). 4294967296 - unat i)") (simp_all add: page_step_decreases)

declare cow_loop.simps [simp del]

definition cowuvm :: "u32 \<Rightarrow> u32 \<Rightarrow> u32 \<Rightarrow> u32 \<Rightarrow> kstate \<Rightarrow> (u32 \<times> kstate) outcome" where
  "cowuvm kend data pgdir sz s =
     bindO (setupkvm data s) (\<lambda>(d, s1).
     if d = 0 then Ret (0, s1)
     else bindO (cow_loop pgdir d 0 sz s1) (\<lambda>(ok, s2).
          if ok then Ret (d, s2) else bindO (freevm kend d s2) (\<lambda>s3. Ret (0, s3))))"

section \<open>Access to user memory\<close>

text \<open>\<open>uva2ka\<close> dereferences the entry without testing it for 0.\<close>

definition uva2ka :: "u32 \<Rightarrow> u32 \<Rightarrow> kstate \<Rightarrow> u32 outcome" where
  "uva2ka pgdir uva s =
     bindO (walkpgdir pgdir uva False s) (\<lambda>(pte, s1).
     if pte = 0 then Undef ''uva2ka: null pte''
     else let e = load32 (kmem s1) pte in
       if \<not> present e then Ret 0
       else if e AND PTE_U = 0 then Ret 0
       else Ret (PTE_ADDR e))"

text \<open>\<open>buf\<close> is the list of bytes still to copy, so \<open>len\<close> is its length.\<close>

function copyout :: "u32 \<Rightarrow> u32 \<Rightarrow> u8 list \<Rightarrow> kstate \<Rightarrow> (int \<times> kstate) outcome" where
  "copyout pgdir va buf s =
     (if buf = [] then Ret (0, s)
      else let va0 = PGROUNDDOWN va in
        bindO (uva2ka pgdir va0 s) (\<lambda>pa0.
        if pa0 = 0 then Ret (-1, s)
        else let n = min (4096 - unat (va - va0)) (length buf) in
          if n = 0 then Undef ''copyout does not end''
          else copyout pgdir (va0 + PGSIZE) (drop n buf)
                 (s\<lparr>kmem := write_bytes (kmem s) (pa0 + (va - va0)) (take n buf)\<rparr>)))"
  by auto

termination
  by (relation "measure (\<lambda>(_, _, buf, _). length buf)") auto

declare copyout.simps [simp del]

section \<open>The page fault handler\<close>

datatype cow_result = Handled | Killed

text \<open>
  \<open>cowHandler\<close> for the faulting address \<open>va\<close> of the current process. It reads \<open>*pte\<close> before it tests
  \<open>pte\<close>. When \<open>kalloc\<close> fails it kills the process but goes on: \<open>decPageRef\<close> runs, the page is copied
  to address 0, and the entry is set to physical page 0.

  Pages from \<open>kalloc\<close> are mapped directly, but address 0 is user memory. The page table of the process is active in
  the handler, so that the copy goes to the frame of the process's own first page. Whether its entry is writable
  does not matter, since \<open>vmenable\<close> leaves the write protection of the kernel off. Without that page the
  handler itself faults, again and again.
\<close>

definition copy_target :: "u32 \<Rightarrow> u32 \<Rightarrow> kstate \<Rightarrow> u32 outcome" where
  "copy_target pgdir mem s =
     (if mem \<noteq> 0 then Ret mem
      else bindO (walkpgdir pgdir 0 False s) (\<lambda>(pte, _).
        if pte = 0 \<or> \<not> present (load32 (kmem s) pte) then Undef ''cowHandler: fault in the kernel''
        else Ret (PTE_ADDR (load32 (kmem s) pte))))"

definition cowHandler :: "u32 \<Rightarrow> u32 \<Rightarrow> kstate \<Rightarrow> (cow_result \<times> kstate) outcome" where
  "cowHandler pgdir va s =
     bindO (walkpgdir pgdir va False s) (\<lambda>(pte, s1).
     if pte = 0 then Undef ''cowHandler: null pte''
     else let e = load32 (kmem s1) pte; pa = PTE_ADDR e in
       if \<not> present e \<or> e AND PTE_U = 0 \<or> va > USERTOP then Ret (Killed, s1)
       else bindO (refCount (pa div PGSIZE) s1) (\<lambda>ref.
         if sint ref \<le> 1 then Ret (Handled, s1\<lparr>kmem := store32 (kmem s1) pte (e + 2)\<rparr>)
         else bindO (kalloc s1) (\<lambda>(mem, s2).
              bindO (decPageRef (pa div PGSIZE) s2) (\<lambda>s3.
              bindO (copy_target pgdir mem s3) (\<lambda>dst.
              Ret (if mem = 0 then Killed else Handled,
                   s3\<lparr>kmem := store32 (memmove (kmem s3) dst pa (unat PGSIZE)) pte
                                (mem OR PTE_FLAGS e OR PTE_W OR PTE_P OR PTE_U)\<rparr>))))))"

end
