(* ===== verification/Vmspec.thy ===== *)
theory Vmspec
  imports Vm
begin

text \<open>
  The abstract view of an address space, and the page table operations of \<open>Vm\<close> against it.

  \<open>mapping m pgdir\<close> is the partial function from virtual addresses to page table entries that the
  two levels of tables stand for. \<open>owned\<close> are the pages the tables occupy. The lemmas say which
  bytes an operation touches and how the mapping changes, so that claims about several address
  spaces in one memory follow from the disjointness of what they own.
\<close>

section \<open>Bits of an entry\<close>

definition aligned :: "u32 \<Rightarrow> bool" where
  "aligned p \<longleftrightarrow> p mod PGSIZE = 0"

lemma aligned_iff: "aligned p \<longleftrightarrow> unat p mod 4096 = 0"
  by (simp add: aligned_def mod_PGSIZE_iff)

lemma aligned_and: "aligned p \<longleftrightarrow> p AND 0xFFF = 0"
  by (simp add: aligned_iff word_unat_eq_iff page_mask_mod)

lemma PTE_ADDR_aligned [simp]: "aligned (PTE_ADDR e)"
  unfolding aligned_iff PTE_ADDR_def page_mask by simp

lemma bit_0xFFF: "bit (0xFFF :: u32) n \<longleftrightarrow> n < 12"
proof -
  have "(0xFFF :: u32) = mask 12" by (simp add: mask_eq_exp_minus_1)
  then show ?thesis by (simp only: bit_mask_iff) auto
qed

lemma aligned_bit: "aligned p \<Longrightarrow> n < 12 \<Longrightarrow> \<not> bit p n"
  unfolding aligned_and by (metis bit_0xFFF bit_and_iff bit_0_eq bot_apply bot_bool_def)

definition is_flags :: "u32 \<Rightarrow> bool" where
  "is_flags f \<longleftrightarrow> f AND NOT 0xFFF = 0"

lemma is_flags_bit: "is_flags f \<Longrightarrow> bit f n \<Longrightarrow> n < 12"
  unfolding is_flags_def by (metis bit_0xFFF bit_and_iff bit_not_iff bit_0_eq bot_apply bot_bool_def bit_imp_le_length impossible_bit)

lemma PTE_FLAGS_is_flags [simp]: "is_flags (PTE_FLAGS e)"
  by (simp add: is_flags_def PTE_FLAGS_def bit_eq_iff bit_simps)

lemma flags_simps [simp]: "is_flags PTE_P" "is_flags PTE_W" "is_flags PTE_U"
  by (simp_all add: is_flags_def PTE_P_def PTE_W_def PTE_U_def)

lemma flags_or [simp]: "is_flags f \<Longrightarrow> is_flags g \<Longrightarrow> is_flags (f OR g)"
  by (simp add: is_flags_def bit.conj_disj_distrib2)

lemma bit_PTE_ADDR: "bit (PTE_ADDR e) n \<longleftrightarrow> bit e n \<and> 12 \<le> n"
  unfolding PTE_ADDR_def bit_and_iff bit_not_iff bit_0xFFF
  using bit_imp_le_length[of e n] by auto

lemma bit_PTE_FLAGS: "bit (PTE_FLAGS e) n \<longleftrightarrow> bit e n \<and> n < 12"
  unfolding PTE_FLAGS_def bit_and_iff bit_0xFFF by auto

lemma PTE_ADDR_or: "aligned p \<Longrightarrow> is_flags f \<Longrightarrow> PTE_ADDR (p OR f) = p"
  using aligned_bit[of p] is_flags_bit[of f]
  by (intro bit_word_eqI) (auto simp: bit_PTE_ADDR bit_or_iff not_less[symmetric])

lemma PTE_FLAGS_or: "aligned p \<Longrightarrow> is_flags f \<Longrightarrow> PTE_FLAGS (p OR f) = f"
  using aligned_bit[of p] is_flags_bit[of f]
  by (intro bit_word_eqI) (auto simp: bit_PTE_FLAGS bit_or_iff)

lemma present_bit: "present e \<longleftrightarrow> bit e 0"
proof -
  have "(e AND 1 \<noteq> 0) = bit e 0" by (simp add: and_one_eq odd_iff_mod_2_eq_one bit_0)
  then show ?thesis by (simp add: present_def PTE_P_def)
qed

lemma present_or [simp]: "present (a OR PTE_P)"
  by (simp add: present_bit bit_simps PTE_P_def)

section \<open>Indexes\<close>

definition pdx :: "u32 \<Rightarrow> nat" where "pdx va = unat va div 4194304"
definition ptx :: "u32 \<Rightarrow> nat" where "ptx va = unat va div 4096 mod 1024"

lemma pdx_lt [simp]: "pdx va < 1024"
  using unat_lt_u32[of va] by (simp add: pdx_def less_mult_imp_div_less)

lemma ptx_lt [simp]: "ptx va < 1024"
  by (simp add: ptx_def)

lemma mask_10: "unat ((x::u32) AND 0x3FF) = unat x mod 1024"
proof -
  have m: "(0x3FF :: u32) = mask 10" by (simp add: mask_eq_exp_minus_1)
  show ?thesis unfolding m by (simp add: unat_mod take_bit_eq_mod flip: take_bit_eq_mask)
qed

lemma PDX_nat: "PDX va = of_nat (pdx va)"
  using pdx_lt[of va]
  by (simp add: PDX_def word_unat_eq_iff mask_10 drop_bit_eq_div unat_div pdx_def)

lemma PTX_nat: "PTX va = of_nat (ptx va)"
  by (simp add: PTX_def word_unat_eq_iff mask_10 drop_bit_eq_div unat_div ptx_def)

definition same_page :: "u32 \<Rightarrow> u32 \<Rightarrow> bool" where
  "same_page a b \<longleftrightarrow> unat a div 4096 = unat b div 4096"

lemma same_page_iff: "same_page a b \<longleftrightarrow> pdx a = pdx b \<and> ptx a = ptx b"
proof -
  have "unat x div 4194304 = unat x div 4096 div 1024" for x :: u32 by (simp flip: div_mult2_eq)
  then show ?thesis unfolding same_page_def pdx_def ptx_def by (metis div_mult_mod_eq)
qed


section \<open>Tables in memory\<close>

text \<open>Entry \<open>i\<close> of the table at \<open>b\<close>, and the address it has.\<close>

definition ent_addr :: "u32 \<Rightarrow> nat \<Rightarrow> u32" where
  "ent_addr b i = b + 4 * of_nat i"

definition ent :: "mem \<Rightarrow> u32 \<Rightarrow> nat \<Rightarrow> u32" where
  "ent m b i = load32 m (ent_addr b i)"

lemma ent_at:
  assumes "i < 1024"
  shows "unat (x - ent_addr b i) < 4 \<longleftrightarrow> unat (x - b) div 4 = i"
proof -
  have "x - ent_addr b i = (x - b) - of_nat (4 * i)" by (simp add: ent_addr_def)
  moreover have "unat (of_nat (4 * i) :: u32) = 4 * i" using assms by (intro unat_of_nat_u32) simp
  ultimately have "unat (x - ent_addr b i) =
      (if 4 * i \<le> unat (x - b) then unat (x - b) - 4 * i else unat (x - b) + 2 ^ LENGTH(32) - 4 * i)"
    by (metis unat_sub_if')
  then show ?thesis using assms by auto
qed

lemma ent_in_page: "i < 1024 \<Longrightarrow> unat (x - ent_addr b i) < 4 \<Longrightarrow> in_page b x"
  by (auto simp: ent_at in_page_def)

lemma ent_cong: "i < 1024 \<Longrightarrow> (\<And>x. in_page b x \<Longrightarrow> m x = m' x) \<Longrightarrow> ent m b i = ent m' b i"
  unfolding ent_def using ent_in_page by (intro load32_cong) blast

lemma ent_store_same [simp]: "ent (store32 m (ent_addr b i) v) b i = v"
  by (simp add: ent_def)

lemma store_ent_outside:
  "i < 1024 \<Longrightarrow> \<not> in_page b x \<Longrightarrow> store32 m (ent_addr b i) v x = m x"
  using ent_in_page[of i x b] by (intro store32_outside) (rule leI, blast)

lemma ent_store_other:
  assumes "i < 1024" and "j < 1024" and "i \<noteq> j"
  shows "ent (store32 m (ent_addr b i) v) b j = ent m b j"
  unfolding ent_def
proof (intro load32_cong store32_outside)
  fix x assume "unat (x - ent_addr b j) < 4"
  then have "\<not> unat (x - ent_addr b i) < 4" using assms by (simp add: ent_at)
  then show "4 \<le> unat (x - ent_addr b i)" by simp
qed

lemma ent_store_elsewhere:
  assumes "aligned a" "aligned b" "a \<noteq> b" "i < 1024" "j < 1024"
  shows "ent (store32 m (ent_addr a i) v) b j = ent m b j"
  using assms in_page_distinct[of b a] store_ent_outside[of i a]
  by (intro ent_cong) (auto simp: aligned_def)

lemma zero_page_ent:
  assumes "i < 1024"
  shows "ent (memset m b 0 (unat PGSIZE)) b i = 0"
proof -
  have "memset m b 0 4096 x = 0" if "unat (x - ent_addr b i) < 4" for x
    using ent_in_page[OF assms that] by (simp add: memset_write write_bytes_def in_page_def)
  then have "load32 (memset m b 0 4096) (ent_addr b i) = load32 (\<lambda>_. 0) (ent_addr b i)"
    by (intro load32_cong) simp
  then show ?thesis by (simp add: ent_def load32_def le32_def PGSIZE_def)
qed

lemma memset_page_outside: "\<not> in_page b x \<Longrightarrow> memset m b c (unat PGSIZE) x = m x"
  by (simp add: memset_write PGSIZE_def write_bytes_def in_page_def)

section \<open>The mapping of an address space\<close>

definition mapping :: "mem \<Rightarrow> u32 \<Rightarrow> u32 \<Rightarrow> u32 option" where
  "mapping m pgdir va =
     (let d = ent m pgdir (pdx va) in
      if present d then let e = ent m (PTE_ADDR d) (ptx va) in if present e then Some e else None
      else None)"

definition tables :: "mem \<Rightarrow> u32 \<Rightarrow> u32 set" where
  "tables m pgdir = {PTE_ADDR (ent m pgdir i) |i. i < 1024 \<and> present (ent m pgdir i)}"

definition owned :: "mem \<Rightarrow> u32 \<Rightarrow> u32 set" where
  "owned m pgdir = insert pgdir (tables m pgdir)"

text \<open>A directory is well formed when its tables and itself are different pages.\<close>

definition pgdir_wf :: "mem \<Rightarrow> u32 \<Rightarrow> bool" where
  "pgdir_wf m pgdir \<longleftrightarrow> aligned pgdir \<and> pgdir \<notin> tables m pgdir \<and>
     (\<forall>i<1024. \<forall>j<1024. present (ent m pgdir i) \<and> present (ent m pgdir j) \<and>
        PTE_ADDR (ent m pgdir i) = PTE_ADDR (ent m pgdir j) \<longrightarrow> i = j)"

lemma owned_aligned: "pgdir_wf m pgdir \<Longrightarrow> p \<in> owned m pgdir \<Longrightarrow> aligned p"
  by (auto simp: pgdir_wf_def owned_def tables_def)

lemma tables_cong: "(\<And>i. i < 1024 \<Longrightarrow> ent m' pgdir i = ent m pgdir i) \<Longrightarrow> tables m' pgdir = tables m pgdir"
  unfolding tables_def by (rule Collect_cong) metis

lemma pgdir_wf_cong:
  assumes "\<And>i. i < 1024 \<Longrightarrow> ent m' pgdir i = ent m pgdir i"
  shows "pgdir_wf m' pgdir \<longleftrightarrow> pgdir_wf m pgdir"
  using tables_cong[of m' pgdir m, OF assms] assms unfolding pgdir_wf_def by auto

text \<open>An address space depends on the pages it owns, and on nothing else.\<close>

lemma space_frame:
  assumes "\<And>p x. p \<in> owned m pgdir \<Longrightarrow> in_page p x \<Longrightarrow> m' x = m x"
  shows "owned m' pgdir = owned m pgdir" and "pgdir_wf m' pgdir \<longleftrightarrow> pgdir_wf m pgdir"
    and "mapping m' pgdir = mapping m pgdir"
proof -
  have d: "ent m' pgdir i = ent m pgdir i" if "i < 1024" for i
    using that assms[of pgdir] by (intro ent_cong) (auto simp: owned_def)
  show "owned m' pgdir = owned m pgdir" unfolding owned_def using tables_cong[OF d] by blast
  show "pgdir_wf m' pgdir \<longleftrightarrow> pgdir_wf m pgdir" by (rule pgdir_wf_cong) (rule d)
  have "ent m' (PTE_ADDR (ent m pgdir i)) j = ent m (PTE_ADDR (ent m pgdir i)) j"
    if "i < 1024" "j < 1024" "present (ent m pgdir i)" for i j
    using that assms[of "PTE_ADDR (ent m pgdir i)"] by (intro ent_cong) (auto simp: owned_def tables_def)
  then show "mapping m' pgdir = mapping m pgdir"
    by (intro ext) (simp add: mapping_def d Let_def)
qed

text \<open>A page table entry written, where the table exists.\<close>

definition table_of :: "mem \<Rightarrow> u32 \<Rightarrow> u32 \<Rightarrow> u32" where
  "table_of m pgdir va = PTE_ADDR (ent m pgdir (pdx va))"

definition set_page :: "(u32 \<Rightarrow> u32 option) \<Rightarrow> u32 \<Rightarrow> u32 \<Rightarrow> u32 \<Rightarrow> u32 option" where
  "set_page f va e = (\<lambda>a. if same_page a va then (if present e then Some e else None) else f a)"

lemma store_pte:
  fixes e :: u32
  assumes wf: "pgdir_wf m pgdir" and pr: "present (ent m pgdir (pdx va))"
  defines "m' \<equiv> store32 m (ent_addr (table_of m pgdir va) (ptx va)) e"
  shows "pgdir_wf m' pgdir" and "owned m' pgdir = owned m pgdir"
    and "mapping m' pgdir = set_page (mapping m pgdir) va e"
    and "table_of m pgdir va \<in> owned m pgdir"
    and "\<And>i. i < 1024 \<Longrightarrow> ent m' pgdir i = ent m pgdir i"
proof -
  let ?t = "table_of m pgdir va"
  have t: "aligned ?t" "?t \<noteq> pgdir" "aligned pgdir"
    using wf pr unfolding pgdir_wf_def table_of_def tables_def by auto
  show d: "ent m' pgdir i = ent m pgdir i" if "i < 1024" for i
    unfolding m'_def using t that by (intro ent_store_elsewhere) auto
  show "pgdir_wf m' pgdir" using wf pgdir_wf_cong[OF d] by blast
  show "owned m' pgdir = owned m pgdir" unfolding owned_def using tables_cong[OF d] by blast
  show "?t \<in> owned m pgdir" using pr by (auto simp: table_of_def owned_def tables_def)
  have "ent m' (PTE_ADDR (ent m pgdir (pdx a))) (ptx a) =
      (if same_page a va then e else ent m (PTE_ADDR (ent m pgdir (pdx a))) (ptx a))"
    if "present (ent m pgdir (pdx a))" for a
  proof (cases "pdx a = pdx va")
    case True
    then show ?thesis unfolding m'_def table_of_def
      using ent_store_other[of "ptx va" "ptx a"] by (auto simp: same_page_iff)
  next
    case False
    then have "PTE_ADDR (ent m pgdir (pdx a)) \<noteq> ?t" using wf pr that unfolding pgdir_wf_def table_of_def by auto
    then show ?thesis unfolding m'_def using t(1) False
      by (subst ent_store_elsewhere) (auto simp: same_page_iff)
  qed
  then show "mapping m' pgdir = set_page (mapping m pgdir) va e"
    using pr by (intro ext) (auto simp: mapping_def d set_page_def Let_def same_page_iff)
qed

section \<open>Walking\<close>

text \<open>
  An address space beside the allocator: its pages are managed pages that are not free. \<open>changed\<close>
  bounds the bytes an operation may touch.
\<close>

definition space_ok :: "u32 \<Rightarrow> kstate \<Rightarrow> u32 list \<Rightarrow> u32 \<Rightarrow> bool" where
  "space_ok kend s ps pgdir \<longleftrightarrow> pgdir_wf (kmem s) pgdir \<and>
     (\<forall>p\<in>owned (kmem s) pgdir. page_ok kend p \<and> p \<notin> set ps)"

definition same_outside :: "u32 set \<Rightarrow> mem \<Rightarrow> mem \<Rightarrow> bool" where
  "same_outside P m m' \<longleftrightarrow> (\<forall>x. (\<forall>p\<in>P. \<not> in_page p x) \<longrightarrow> m' x = m x)"

lemma same_outside_trans:
  "same_outside P m m' \<Longrightarrow> same_outside Q m' m'' \<Longrightarrow> P \<union> Q \<subseteq> R \<Longrightarrow> same_outside R m m''"
  unfolding same_outside_def by (intro allI impI) (simp add: subset_iff)

lemma same_outside_page:
  assumes "same_outside P m m'" and "\<forall>p\<in>P. aligned p" and "aligned q" and "q \<notin> P" and "in_page q x"
  shows "m' x = m x"
proof -
  have "\<not> in_page p x" if "p \<in> P" for p
    using assms that in_page_distinct[of q p x] by (auto simp only: aligned_def)
  then show ?thesis using assms(1) by (simp add: same_outside_def)
qed

lemma page_ok_aligned: "page_ok kend p \<Longrightarrow> aligned p"
  by (simp only: page_ok_def aligned_def)

lemma kalloc_ok_mem:
  assumes "kalloc_ok kend s ps" and "\<And>q x. q \<in> set ps \<Longrightarrow> in_page q x \<Longrightarrow> m' x = kmem s x"
  shows "kalloc_ok kend (s\<lparr>kmem := m'\<rparr>) ps"
proof -
  have "run_list m' (freelist s) ps"
  proof (rule run_list_frame[of "kmem s"])
    show "run_list (kmem s) (freelist s) ps" using assms(1) by (simp add: kalloc_ok_def)
    show "m' x = kmem s x" if "q \<in> set ps" "unat (x - q) < 4" for q x
      using assms(2)[of q x] that by (simp add: in_page_def)
  qed
  then show ?thesis using assms(1) by (simp add: kalloc_ok_def)
qed

lemma kalloc_ok_outside:
  assumes "kalloc_ok kend s ps" and "same_outside P (kmem s) m'" and "\<forall>p\<in>P. aligned p" and "P \<inter> set ps = {}"
  shows "kalloc_ok kend (s\<lparr>kmem := m'\<rparr>) ps"
proof (rule kalloc_ok_mem[OF assms(1)])
  fix q x assume "q \<in> set ps" "in_page q x"
  moreover from this have "aligned q" using assms(1) page_ok_aligned by (auto simp: kalloc_ok_def)
  ultimately show "m' x = kmem s x" using same_outside_page[OF assms(2,3)] assms(4) by blast
qed

lemma ent_addr_nonzero:
  assumes "page_ok kend p" and "0 < kend" and "i < 1024"
  shows "ent_addr p i \<noteq> 0"
proof -
  have p: "0 < unat p" "unat p < 16777216"
    using assms(1,2) by (auto simp: page_ok_def word_less_nat_alt word_le_nat_alt)
  have "unat (of_nat (4 * i) :: u32) = 4 * i" using assms(3) by (intro unat_of_nat_u32) simp
  then have "unat (p + of_nat (4 * i)) = unat p + 4 * i"
    using p assms(3) by (subst unat_word_ariths) simp
  then show ?thesis using p(1) by (auto simp: ent_addr_def)
qed

lemma walk_found:
  "present (ent (kmem s) pgdir (pdx va)) \<Longrightarrow>
   walkpgdir pgdir va create s = Ret (ent_addr (table_of (kmem s) pgdir va) (ptx va), s)"
  by (simp add: walkpgdir_def PDX_nat PTX_nat Let_def ent_def ent_addr_def table_of_def)

lemma walk_missing:
  "\<not> present (ent (kmem s) pgdir (pdx va)) \<Longrightarrow> walkpgdir pgdir va False s = Ret (0, s)"
  by (simp add: walkpgdir_def PDX_nat Let_def ent_def ent_addr_def)

lemma walk_full:
  "kalloc_ok kend s [] \<Longrightarrow> \<not> present (ent (kmem s) pgdir (pdx va)) \<Longrightarrow>
   walkpgdir pgdir va True s = Ret (0, s)"
  by (simp add: walkpgdir_def PDX_nat Let_def ent_def ent_addr_def kalloc_empty)

text \<open>A new table: an empty page hung into the directory.\<close>

definition pde_of :: "u32 \<Rightarrow> u32" where
  "pde_of p = p OR PTE_P OR PTE_W OR PTE_U"

lemma pde_of [simp]:
  "aligned p \<Longrightarrow> PTE_ADDR (pde_of p) = p" "present (pde_of p)"
  unfolding pde_of_def
  by (simp_all add: PTE_ADDR_or word_bw_assocs) (simp add: present_bit bit_simps PTE_P_def)

definition add_table :: "mem \<Rightarrow> u32 \<Rightarrow> nat \<Rightarrow> u32 \<Rightarrow> mem" where
  "add_table m pgdir i p = store32 (memset m p 0 (unat PGSIZE)) (ent_addr pgdir i) (pde_of p)"

lemma not_present_0 [simp]: "\<not> present 0"
  by (simp add: present_def)

lemma add_table_ents:
  assumes "aligned pgdir" "aligned p" "p \<noteq> pgdir" "i < 1024" "j < 1024"
  shows "ent (add_table m pgdir i p) pgdir j = (if j = i then pde_of p else ent m pgdir j)"
    and "ent (add_table m pgdir i p) p j = 0"
    and "aligned q \<Longrightarrow> q \<noteq> p \<Longrightarrow> q \<noteq> pgdir \<Longrightarrow> ent (add_table m pgdir i p) q j = ent m q j"
proof -
  have z: "ent (memset m p 0 (unat PGSIZE)) q j = ent m q j" if "aligned q" "q \<noteq> p" for q
    using assms that in_page_distinct[of q p] memset_page_outside
    by (intro ent_cong) (auto simp: aligned_def)
  show "ent (add_table m pgdir i p) pgdir j = (if j = i then pde_of p else ent m pgdir j)"
    unfolding add_table_def using assms z[of pgdir] by (cases "j = i") (simp_all add: ent_store_other)
  show "ent (add_table m pgdir i p) p j = 0"
    unfolding add_table_def using assms by (simp add: ent_store_elsewhere zero_page_ent)
  show "ent (add_table m pgdir i p) q j = ent m q j" if "aligned q" "q \<noteq> p" "q \<noteq> pgdir"
    unfolding add_table_def using assms that z[of q] by (simp add: ent_store_elsewhere)
qed

lemma add_table_space:
  assumes wf: "pgdir_wf m pgdir" and i: "i < 1024" "\<not> present (ent m pgdir i)"
    and p: "aligned p" "p \<notin> owned m pgdir"
  defines "m' \<equiv> add_table m pgdir i p"
  shows "owned m' pgdir = insert p (owned m pgdir)" and "pgdir_wf m' pgdir"
    and "mapping m' pgdir = mapping m pgdir" and "same_outside {pgdir, p} m m'"
    and "ent m' pgdir i = pde_of p"
proof -
  have al: "aligned pgdir" "p \<noteq> pgdir" using wf p by (auto simp: pgdir_wf_def owned_def)
  note ents = add_table_ents[OF al(1) p(1) al(2) i(1), where m = m, folded m'_def]
  show "ent m' pgdir i = pde_of p" using ents(1)[OF i(1)] by simp
  have tab: "tables m' pgdir = insert p (tables m pgdir)"
  proof (intro equalityI subsetI)
    fix t assume "t \<in> tables m' pgdir"
    then show "t \<in> insert p (tables m pgdir)" using ents(1) p(1) by (auto simp: tables_def)
  next
    fix t assume t: "t \<in> insert p (tables m pgdir)"
    show "t \<in> tables m' pgdir"
    proof (cases "t = p")
      case True
      then show ?thesis unfolding tables_def using ents(1)[OF i(1)] i(1) p(1) by force
    next
      case False
      then obtain j where "j < 1024" "present (ent m pgdir j)" "t = PTE_ADDR (ent m pgdir j)"
        using t by (auto simp: tables_def)
      then show ?thesis unfolding tables_def using ents(1)[of j] i(2) by force
    qed
  qed
  then show "owned m' pgdir = insert p (owned m pgdir)" by (auto simp: owned_def)
  have tp: "PTE_ADDR (ent m pgdir j) \<noteq> p" "PTE_ADDR (ent m pgdir j) \<noteq> pgdir"
    if "j < 1024" "present (ent m pgdir j)" for j
    using that p(2) wf by (auto simp: owned_def tables_def pgdir_wf_def)
  show "pgdir_wf m' pgdir"
    unfolding pgdir_wf_def tab
    using wf al p tp by (auto simp: ents(1) pgdir_wf_def owned_def split: if_splits)
  show "mapping m' pgdir = mapping m pgdir"
    using tp i p(1) by (intro ext) (auto simp: mapping_def Let_def ents)
  show "same_outside {pgdir, p} m m'"
    using i(1) by (auto simp: same_outside_def m'_def add_table_def store_ent_outside memset_page_outside)
qed

lemma walk_new:
  assumes ok: "kalloc_ok kend s (p # ps)" and sp: "space_ok kend s (p # ps) pgdir"
    and no: "\<not> present (ent (kmem s) pgdir (pdx va))"
  shows "\<exists>s'. walkpgdir pgdir va True s = Ret (ent_addr p (ptx va), s') \<and> kalloc_ok kend s' ps \<and>
           kmem s' = add_table (kmem s) pgdir (pdx va) p \<and>
           ref_cnt s' = (ref_cnt s)[unat (p div PGSIZE) := 1]"
proof -
  obtain s1 where s1: "kalloc s = Ret (p, s1)" "kalloc_ok kend s1 ps" "kmem s1 = kmem s"
      "ref_cnt s1 = (ref_cnt s)[unat (p div PGSIZE) := 1]"
    using kalloc_page[OF ok] by auto
  have p: "page_ok kend p" "p \<noteq> 0" "p \<notin> set ps" using ok by (auto simp: kalloc_ok_def)
  let ?m = "add_table (kmem s) pgdir (pdx va) p"
  have walk: "walkpgdir pgdir va True s = Ret (ent_addr p (ptx va), s1\<lparr>kmem := ?m\<rparr>)"
    using no s1(1,3) p(2)
    by (simp add: walkpgdir_def PDX_nat PTX_nat Let_def ent_def ent_addr_def add_table_def pde_of_def)
  have wf: "pgdir_wf (kmem s) pgdir" "p \<notin> owned (kmem s) pgdir" "page_ok kend pgdir" "pgdir \<notin> set (p # ps)"
    using sp by (auto simp: space_ok_def owned_def)
  have "same_outside {pgdir, p} (kmem s1) ?m"
    using add_table_space(4)[OF wf(1) pdx_lt no page_ok_aligned[OF p(1)] wf(2)] s1(3) by simp
  then have "kalloc_ok kend (s1\<lparr>kmem := ?m\<rparr>) ps"
    using wf(3,4) p page_ok_aligned by (intro kalloc_ok_outside[OF s1(2)]) auto
  then show ?thesis using walk s1(4) by auto
qed

section \<open>Mapping a page\<close>

lemma unat_PGSIZE [simp]: "unat PGSIZE = 4096"
  by (simp add: PGSIZE_def)

lemma PGROUNDDOWN_nat: "unat (PGROUNDDOWN a) = unat a div 4096 * 4096"
  unfolding PGROUNDDOWN_def PGSIZE_def using page_mask[of a] by simp

lemma PGROUNDDOWN_aligned: "aligned va \<Longrightarrow> PGROUNDDOWN va = va"
  by (simp add: word_unat_eq_iff PGROUNDDOWN_nat aligned_iff mult.commute flip: minus_mod_eq_mult_div)

lemma PGROUNDDOWN_last: "aligned va \<Longrightarrow> PGROUNDDOWN (va + PGSIZE - 1) = va"
proof -
  assume a: "aligned va"
  then have d: "unat va div 4096 * 4096 = unat va"
    by (simp add: aligned_iff flip: minus_mod_eq_div_mult)
  have "unat va div 4096 < 1048576" using unat_lt_u32[of va] by (simp add: less_mult_imp_div_less)
  then have "unat va + 4095 < 4294967296" using d by linarith
  then have "unat (va + 4095) = unat va + 4095" by (simp add: unat_word_ariths)
  moreover have "(unat va + 4095) div 4096 = unat va div 4096"
    using d by (metis div_mult_self3 add.commute add.right_neutral div_less zero_neq_numeral
        numeral_less_iff semiring_norm(76) semiring_norm(81) semiring_norm(80))
  ultimately have "unat (PGROUNDDOWN (va + 4095)) = unat va" using d by (simp add: PGROUNDDOWN_nat)
  then show ?thesis by (simp add: PGSIZE_def word_unat_eq_iff add.commute)
qed

lemma mapping_none_iff:
  "present (ent m pgdir (pdx va)) \<Longrightarrow>
   mapping m pgdir va = None \<longleftrightarrow> \<not> present (ent m (table_of m pgdir va) (ptx va))"
  by (simp add: mapping_def table_of_def Let_def)

lemma store_pte_outside:
  assumes "pgdir_wf m pgdir" and "present (ent m pgdir (pdx va))"
  shows "same_outside (owned m pgdir) m (store32 m (ent_addr (table_of m pgdir va) (ptx va)) e)"
  using store_pte(4)[OF assms] by (auto simp: same_outside_def store_ent_outside)

text \<open>The entry a page gets.\<close>

definition pte_of :: "u32 \<Rightarrow> u32 \<Rightarrow> u32" where
  "pte_of pa perm = pa OR perm OR PTE_P"

lemma present_pte_of [simp]: "present (pte_of pa perm)"
  by (simp add: pte_of_def present_bit bit_simps PTE_P_def)

lemma mappages_present:
  assumes "kalloc_ok kend s ps" and "space_ok kend s ps pgdir" and "aligned va"
    and "mapping (kmem s) pgdir va = None" and "present (ent (kmem s) pgdir (pdx va))"
  shows "\<exists>s'. mappages pgdir va PGSIZE pa perm s = Ret (0, s') \<and> kalloc_ok kend s' ps \<and>
      space_ok kend s' ps pgdir \<and> owned (kmem s') pgdir = owned (kmem s) pgdir \<and>
      mapping (kmem s') pgdir = set_page (mapping (kmem s) pgdir) va (pte_of pa perm) \<and>
      same_outside (owned (kmem s) pgdir) (kmem s) (kmem s') \<and> ref_cnt s' = ref_cnt s"
proof -
  let ?t = "ent_addr (table_of (kmem s) pgdir va) (ptx va)"
  let ?s = "s\<lparr>kmem := store32 (kmem s) ?t (pte_of pa perm)\<rparr>"
  have wf: "pgdir_wf (kmem s) pgdir" using assms(2) by (simp add: space_ok_def)
  note st = store_pte(1-3)[OF wf assms(5), where e = "pte_of pa perm"]
  have pg: "\<forall>p\<in>owned (kmem s) pgdir. page_ok kend p \<and> p \<notin> set ps"
    using assms(2) by (simp add: space_ok_def)
  have "?t \<noteq> 0"
    using store_pte(4)[OF wf assms(5)] pg assms(1) by (intro ent_addr_nonzero[of kend]) (auto simp: kalloc_ok_def)
  then have run: "mappages pgdir va PGSIZE pa perm s = Ret (0, ?s)"
    using assms(4) mapping_none_iff[OF assms(5)]
    by (simp add: mappages_def PGROUNDDOWN_last PGROUNDDOWN_aligned assms(3) mappages_loop.simps
        walk_found[OF assms(5)] ent_def pte_of_def)
  have out: "same_outside (owned (kmem s) pgdir) (kmem s) (kmem ?s)"
    using store_pte_outside[OF wf assms(5)] by simp
  then have "kalloc_ok kend ?s ps"
    using pg page_ok_aligned by (intro kalloc_ok_outside[OF assms(1)]) auto
  moreover have "space_ok kend ?s ps pgdir" using st pg by (simp add: space_ok_def)
  ultimately show ?thesis using run st out by auto
qed

text \<open>The general case: a page may be taken for a new table, or there is none and nothing changes.\<close>

lemma mappages_page:
  assumes ok: "kalloc_ok kend s ps" and sp: "space_ok kend s ps pgdir" and va: "aligned va"
    and new: "mapping (kmem s) pgdir va = None"
  shows "(\<exists>s' qs rs. mappages pgdir va PGSIZE pa perm s = Ret (0, s') \<and> ps = qs @ rs \<and>
      length qs \<le> 1 \<and> kalloc_ok kend s' rs \<and> space_ok kend s' rs pgdir \<and>
      owned (kmem s') pgdir = owned (kmem s) pgdir \<union> set qs \<and>
      mapping (kmem s') pgdir = set_page (mapping (kmem s) pgdir) va (pte_of pa perm) \<and>
      same_outside (owned (kmem s') pgdir) (kmem s) (kmem s') \<and>
      (\<forall>p. page_ok kend p \<longrightarrow> p \<notin> set qs \<longrightarrow> page_count s' p = page_count s p)) \<or>
    ps = [] \<and> \<not> present (ent (kmem s) pgdir (pdx va)) \<and> mappages pgdir va PGSIZE pa perm s = Ret (-1, s)"
proof (cases "present (ent (kmem s) pgdir (pdx va))")
  case True
  then obtain s' where "mappages pgdir va PGSIZE pa perm s = Ret (0, s')" "kalloc_ok kend s' ps"
      "space_ok kend s' ps pgdir" "owned (kmem s') pgdir = owned (kmem s) pgdir"
      "mapping (kmem s') pgdir = set_page (mapping (kmem s) pgdir) va (pte_of pa perm)"
      "same_outside (owned (kmem s) pgdir) (kmem s) (kmem s')" "ref_cnt s' = ref_cnt s"
    using mappages_present[OF ok sp va new, of pa perm] by auto
  then show ?thesis by (intro disjI1 exI[of _ s'] exI[of _ "[]"] exI[of _ ps]) (simp add: page_count_def)
next
  case no: False
  show ?thesis
  proof (cases ps)
    case Nil
    then show ?thesis
      using ok no walk_full[of kend s pgdir va]
      by (simp add: mappages_def PGROUNDDOWN_last PGROUNDDOWN_aligned va mappages_loop.simps)
  next
    case (Cons q qs)
    obtain s1 where s1: "walkpgdir pgdir va True s = Ret (ent_addr q (ptx va), s1)" "kalloc_ok kend s1 qs"
        "kmem s1 = add_table (kmem s) pgdir (pdx va) q" "ref_cnt s1 = (ref_cnt s)[unat (q div PGSIZE) := 1]"
      using walk_new[OF ok[unfolded Cons] sp[unfolded Cons] no] by auto
    have q: "aligned q" "page_ok kend q" "q \<notin> set qs" "q \<notin> owned (kmem s) pgdir"
      using ok sp Cons page_ok_aligned[of kend q] by (auto simp: kalloc_ok_def space_ok_def)
    note at = add_table_space[OF _ pdx_lt no q(1,4), folded s1(3)]
    have wf: "pgdir_wf (kmem s) pgdir" using sp by (simp add: space_ok_def)
    have sp1: "space_ok kend s1 qs pgdir" using sp at(1,2)[OF wf] q Cons by (auto simp: space_ok_def)
    have pr: "present (ent (kmem s1) pgdir (pdx va))" using at(5)[OF wf] by simp
    have tab: "table_of (kmem s1) pgdir va = q" using at(5)[OF wf] q(1) by (simp add: table_of_def)
    have "mappages pgdir va PGSIZE pa perm s = mappages pgdir va PGSIZE pa perm s1"
      using s1(1) walk_found[OF pr, of True]
      by (simp add: mappages_def PGROUNDDOWN_last PGROUNDDOWN_aligned va mappages_loop.simps tab)
    moreover obtain s' where s': "mappages pgdir va PGSIZE pa perm s1 = Ret (0, s')" "kalloc_ok kend s' qs"
      "space_ok kend s' qs pgdir" "owned (kmem s') pgdir = owned (kmem s1) pgdir"
      "mapping (kmem s') pgdir = set_page (mapping (kmem s1) pgdir) va (pte_of pa perm)"
      "same_outside (owned (kmem s1) pgdir) (kmem s1) (kmem s')" "ref_cnt s' = ref_cnt s1"
      using mappages_present[OF s1(2) sp1 va _ pr, of pa perm] new at(3)[OF wf] by auto
    moreover have "same_outside (owned (kmem s') pgdir) (kmem s) (kmem s')"
      using at(1)[OF wf] s'(4) by (intro same_outside_trans[OF at(4)[OF wf] s'(6)]) (auto simp: owned_def)
    moreover have "page_count s' p = page_count s p" if "page_ok kend p" "p \<noteq> q" for p
      using page_count_update[of kend q p s s' 1] q(2) that ok s1(4) s'(7) by (simp add: kalloc_ok_def)
    ultimately show ?thesis
      using Cons at(1,3)[OF wf] by (intro disjI1 exI[of _ s'] exI[of _ "[q]"] exI[of _ qs]) auto
  qed
qed

text \<open>Address spaces that own no changed page are as before.\<close>

lemma other_space:
  assumes "same_outside P (kmem s) (kmem s')" and "\<forall>p\<in>P. aligned p" and "owned (kmem s) d \<inter> P = {}"
    and "space_ok kend s ps d"
  shows "mapping (kmem s') d = mapping (kmem s) d" and "owned (kmem s') d = owned (kmem s) d"
    and "set qs \<subseteq> set ps \<Longrightarrow> space_ok kend s' qs d"
proof -
  have fr: "kmem s' x = kmem s x" if "p \<in> owned (kmem s) d" "in_page p x" for p x
    using same_outside_page[OF assms(1,2)] that assms(3,4) owned_aligned
    unfolding space_ok_def by blast
  have f: "mapping (kmem s') d = mapping (kmem s) d" "owned (kmem s') d = owned (kmem s) d"
      "pgdir_wf (kmem s') d = pgdir_wf (kmem s) d"
    by (rule space_frame, erule (1) fr)+
  show "mapping (kmem s') d = mapping (kmem s) d" "owned (kmem s') d = owned (kmem s) d"
    using f by blast+
  show "set qs \<subseteq> set ps \<Longrightarrow> space_ok kend s' qs d"
    using assms(4) f unfolding space_ok_def by blast
qed

lemma space_owned_aligned: "space_ok kend s ps pgdir \<Longrightarrow> \<forall>p\<in>owned (kmem s) pgdir. aligned p"
  using owned_aligned by (auto simp: space_ok_def)

section \<open>Mapping a range of pages\<close>

text \<open>
  The abstract effect on the address space: \<open>n\<close> pages from \<open>va\<close> on, each with the entry of its own frame.
\<close>

definition set_range :: "(u32 \<rightharpoonup> u32) \<Rightarrow> u32 \<Rightarrow> nat \<Rightarrow> u32 \<Rightarrow> u32 \<Rightarrow> (u32 \<rightharpoonup> u32)" where
  "set_range f va n pa perm a =
     (if unat va \<le> unat a \<and> unat a < unat va + 4096 * n
      then Some (pte_of (pa + of_nat ((unat a - unat va) div 4096 * 4096)) perm) else f a)"

lemma set_range_0 [simp]: "set_range f va 0 pa perm = f"
  by (rule ext) (auto simp: set_range_def)

lemma aligned_next: "aligned va \<Longrightarrow> aligned (va + PGSIZE)"
  using mod_mod_cancel[of 4096 4294967296 "unat va + 4096"] by (simp add: PGSIZE_def aligned_iff unat_word_ariths)

lemma unat_next: "unat va + 4096 < 4294967296 \<Longrightarrow> unat (va + PGSIZE) = unat va + 4096"
  by (simp add: PGSIZE_def unat_word_ariths)

lemma set_range_Suc:
  assumes va: "aligned va" and fit: "unat va + 4096 * Suc n \<le> 4294967296"
  shows "set_range f va (Suc n) pa perm =
     set_range (set_page f va (pte_of pa perm)) (va + PGSIZE) n (pa + PGSIZE) perm"
proof (rule ext)
  fix a
  obtain v where v: "unat va = v * 4096" using va by (metis aligned_iff mod_0_imp_dvd dvdE mult.commute)
  show "set_range f va (Suc n) pa perm a =
     set_range (set_page f va (pte_of pa perm)) (va + PGSIZE) n (pa + PGSIZE) perm a"
  proof (cases "same_page a va")
    case True
    then have d: "unat a div 4096 = v" using v by (simp add: same_page_def)
    then have r: "v * 4096 \<le> unat a" "unat a < v * 4096 + 4096" by linarith+
    have "\<not> (unat (va + PGSIZE) \<le> unat a \<and> unat a < unat (va + PGSIZE) + 4096 * n)"
      using r v fit unat_next[of va] by (cases n) auto
    moreover have "(unat a - unat va) div 4096 = 0" using r v by simp
    ultimately show ?thesis using True r v by (auto simp: set_range_def set_page_def)
  next
    case False
    then have d: "unat a div 4096 \<noteq> v" using v by (simp add: same_page_def)
    then have o: "unat a < v * 4096 \<or> v * 4096 + 4096 \<le> unat a" by linarith
    show ?thesis
    proof (cases "n = 0")
      case True
      then show ?thesis using False o v by (auto simp: set_range_def set_page_def)
    next
      case n: False
      then have u: "unat (va + PGSIZE) = v * 4096 + 4096" using fit v unat_next[of va] by (cases n) auto
      show ?thesis
      proof (cases "unat a < v * 4096")
        case True
        then show ?thesis using False v u by (simp add: set_range_def set_page_def)
      next
        case big: False
        then obtain j where j: "unat a = v * 4096 + 4096 + j" using o by (auto simp: le_iff_add)
        have "pa + of_nat ((4096 + j) div 4096 * 4096) = pa + PGSIZE + of_nat (j div 4096 * 4096)"
          using div_add_self1[of 4096 j] by (simp add: PGSIZE_def)
        then show ?thesis using False v u j by (simp add: set_range_def set_page_def add.assoc)
      qed
    qed
  qed
qed

text \<open>The loop does one page and goes on with the next.\<close>

lemma mappages_one: "aligned va \<Longrightarrow> mappages pgdir va PGSIZE pa perm s = mappages_loop 0 pgdir va va pa perm s"
  by (simp add: mappages_def PGROUNDDOWN_last PGROUNDDOWN_aligned)

lemma mappages_loop_last: "mappages_loop n pgdir a a pa perm s = mappages_loop 0 pgdir a a pa perm s"
  by (simp add: mappages_loop.simps cong: if_cong)

lemma mappages_loop_step:
  assumes "a \<noteq> lst" and "mappages_loop 0 pgdir a a pa perm s = Ret (0, s1)"
  shows "mappages_loop (Suc k) pgdir a lst pa perm s = mappages_loop k pgdir (a + PGSIZE) lst (pa + PGSIZE) perm s1"
  using assms
  by (auto simp: mappages_loop.simps[of 0] mappages_loop.simps[of "Suc k"] Let_def
      split: outcome.splits if_splits prod.splits elim!: bindO_RetE)

lemma mappages_loop_fails:
  assumes "mappages_loop 0 pgdir a a pa perm s = Ret (-1, s1)"
  shows "mappages_loop k pgdir a lst pa perm s = Ret (-1, s1)"
  using assms
  by (auto simp: mappages_loop.simps[of 0] mappages_loop.simps[of k] Let_def
      split: outcome.splits if_splits prod.splits)

lemma mappages_loop_range:
  assumes "kalloc_ok kend s ps" and "space_ok kend s ps pgdir" and "aligned va"
    and "unat va + 4096 * Suc k \<le> 4294967296"
    and "\<And>a. unat va \<le> unat a \<Longrightarrow> unat a < unat va + 4096 * Suc k \<Longrightarrow> mapping (kmem s) pgdir a = None"
  shows "\<exists>r s' n qs rs. mappages_loop k pgdir va (va + of_nat (4096 * k)) pa perm s = Ret (r, s') \<and>
      (r = 0 \<and> n = Suc k \<or> r = -1 \<and> n \<le> k \<and> rs = []) \<and> ps = qs @ rs \<and> length qs \<le> n \<and>
      kalloc_ok kend s' rs \<and> space_ok kend s' rs pgdir \<and>
      owned (kmem s') pgdir = owned (kmem s) pgdir \<union> set qs \<and>
      mapping (kmem s') pgdir = set_range (mapping (kmem s) pgdir) va n pa perm \<and>
      same_outside (owned (kmem s') pgdir) (kmem s) (kmem s')"
  using assms
proof (induction k arbitrary: s ps va pa)
  case 0
  have "mapping (kmem s) pgdir va = None" using 0(5)[of va] by simp
  from mappages_page[OF 0(1-3) this, of pa perm] show ?case
    using set_range_Suc[OF 0(3), of 0] 0(1,2,4) unfolding mappages_one[OF 0(3)]
    by (elim disjE exE conjE) (fastforce simp: same_outside_def)+
next
  case (Suc k)
  let ?l = "va + of_nat (4096 * Suc k)" and ?v = "va + PGSIZE"
  have u: "unat ?v = unat va + 4096" using Suc.prems(4) by (intro unat_next) simp
  have l: "?l = ?v + of_nat (4096 * k)" by (simp add: PGSIZE_def)
  have "unat (of_nat (4096 * Suc k) :: u32) = 4096 * Suc k"
    using Suc.prems(4) by (intro unat_of_nat_u32) simp
  then have ne: "va \<noteq> ?l" by (metis add_cancel_left_right mult_eq_0_iff nat.distinct(1) unat_0 zero_neq_numeral)
  have "mapping (kmem s) pgdir va = None" using Suc.prems(5)[of va] by simp
  then consider (full) "ps = []" "mappages_loop 0 pgdir va va pa perm s = Ret (-1, s)"
    | (mapped) s1 q1 r1 where "mappages_loop 0 pgdir va va pa perm s = Ret (0, s1)"
      "ps = q1 @ r1" "length q1 \<le> 1" "kalloc_ok kend s1 r1" "space_ok kend s1 r1 pgdir"
      "owned (kmem s1) pgdir = owned (kmem s) pgdir \<union> set q1"
      "mapping (kmem s1) pgdir = set_page (mapping (kmem s) pgdir) va (pte_of pa perm)"
      "same_outside (owned (kmem s1) pgdir) (kmem s) (kmem s1)"
    using mappages_page[OF Suc.prems(1-3), of pa perm] unfolding mappages_one[OF Suc.prems(3)] by blast
  then show ?case
  proof cases
    case full
    then show ?thesis using mappages_loop_fails[OF full(2)] Suc.prems(1,2)
      by (intro exI[of _ "-1"] exI[of _ s] exI[of _ 0] exI[of _ "[]"]) (simp add: same_outside_def)
  next
    case mapped
    have new: "mapping (kmem s1) pgdir a = None"
      if "unat ?v \<le> unat a" "unat a < unat ?v + 4096 * Suc k" for a
    proof -
      have "\<not> same_page a va" using div_le_mono[OF that(1), of 4096] u by (simp add: same_page_def)
      then show ?thesis using mapped(7) that u Suc.prems(5)[of a] by (simp add: set_page_def)
    qed
    obtain r s' n qs rs where s': "mappages_loop k pgdir ?v ?l (pa + PGSIZE) perm s1 = Ret (r, s')"
        "r = 0 \<and> n = Suc k \<or> r = -1 \<and> n \<le> k \<and> rs = []" "r1 = qs @ rs" "length qs \<le> n"
        "kalloc_ok kend s' rs" "space_ok kend s' rs pgdir"
        "owned (kmem s') pgdir = owned (kmem s1) pgdir \<union> set qs"
        "mapping (kmem s') pgdir = set_range (mapping (kmem s1) pgdir) ?v n (pa + PGSIZE) perm"
        "same_outside (owned (kmem s') pgdir) (kmem s1) (kmem s')"
      using Suc.IH[OF mapped(4,5) aligned_next[OF Suc.prems(3)] _ new, of "pa + PGSIZE"] u Suc.prems(4)
      unfolding l by force
    have "unat va + 4096 * Suc n \<le> 4294967296" using s'(2) Suc.prems(4) by auto
    then have "mapping (kmem s') pgdir = set_range (mapping (kmem s) pgdir) va (Suc n) pa perm"
      using set_range_Suc[OF Suc.prems(3)] s'(8) mapped(7) by simp
    moreover have "same_outside (owned (kmem s') pgdir) (kmem s) (kmem s')"
      using same_outside_trans[OF mapped(8) s'(9)] s'(7) by simp
    ultimately show ?thesis
      using mappages_loop_step[OF ne mapped(1)] s' mapped(2,3,6)
      by (intro exI[of _ r] exI[of _ s'] exI[of _ "Suc n"] exI[of _ "q1 @ qs"] exI[of _ rs]) auto
  qed
qed

text \<open>The pages a range touches, from the page of its first byte to that of its last.\<close>

definition range_pages :: "u32 \<Rightarrow> u32 \<Rightarrow> nat" where
  "range_pages la siz = (unat la + unat siz - 1) div 4096 - unat la div 4096 + 1"

lemma mappages_as_loop:
  assumes "siz \<noteq> 0" and "unat la + unat siz \<le> 4294967296"
  defines "k \<equiv> range_pages la siz - 1"
  shows "mappages pgdir la siz pa perm s =
      mappages_loop k pgdir (PGROUNDDOWN la) (PGROUNDDOWN la + of_nat (4096 * k)) pa perm s"
    and "unat (PGROUNDDOWN la) + 4096 * Suc k \<le> 4294967296"
proof -
  have pos: "0 < unat siz" using assms(1) by (simp add: unat_gt_0)
  have e: "unat (la + siz - 1) = unat la + unat siz - 1"
  proof -
    have "la + siz - 1 = of_nat (unat la + unat siz - 1)"
      using pos by (simp add: of_nat_diff)
    then show ?thesis using assms(2) pos by (simp only: unat_of_nat_u32)
  qed
  have k: "unat (PGROUNDDOWN (la + siz - 1)) = unat (PGROUNDDOWN la) + 4096 * k"
    using pos div_le_mono[of "unat la" "unat la + unat siz - 1" 4096]
    by (simp add: PGROUNDDOWN_nat e k_def range_pages_def algebra_simps)
  then have l: "PGROUNDDOWN (la + siz - 1) = PGROUNDDOWN la + of_nat (4096 * k)"
    by (simp add: arg_cong[of _ _ "of_nat :: nat \<Rightarrow> u32", OF k, simplified])
  then have "unat (PGROUNDDOWN (la + siz - 1) - PGROUNDDOWN la) = 4096 * k"
    using k unat_lt_u32[of "PGROUNDDOWN (la + siz - 1)"] by (simp del: of_nat_mult add: unat_of_nat)
  then show "mappages pgdir la siz pa perm s =
      mappages_loop k pgdir (PGROUNDDOWN la) (PGROUNDDOWN la + of_nat (4096 * k)) pa perm s"
    using l by (simp add: mappages_def Let_def)
  have "unat (la + siz - 1) div 4096 < 1048576"
    using unat_lt_u32[of "la + siz - 1"] by (simp add: less_mult_imp_div_less)
  then have "unat (PGROUNDDOWN (la + siz - 1)) + 4096 \<le> 4294967296" by (simp add: PGROUNDDOWN_nat)
  then show "unat (PGROUNDDOWN la) + 4096 * Suc k \<le> 4294967296" using k by simp
qed

lemma PGROUNDDOWN_is_aligned [simp]: "aligned (PGROUNDDOWN a)"
  by (simp add: aligned_iff PGROUNDDOWN_nat)

lemma range_page_iff:
  "unat (PGROUNDDOWN la) \<le> unat a \<and> unat a < unat (PGROUNDDOWN la) + 4096 * n \<longleftrightarrow>
   unat la div 4096 \<le> unat a div 4096 \<and> unat a div 4096 < unat la div 4096 + n"
proof -
  have "q * 4096 \<le> x \<and> x < q * 4096 + 4096 * n \<longleftrightarrow> q \<le> x div 4096 \<and> x div 4096 < q + n" for q x :: nat
    by (simp add: less_eq_div_iff_mult_less_eq div_less_iff_less_mult algebra_simps)
  then show ?thesis by (simp add: PGROUNDDOWN_nat)
qed

lemma set_range_pages:
  "set_range f (PGROUNDDOWN la) n pa perm a =
     (let p = unat a div 4096; p0 = unat la div 4096
      in if p0 \<le> p \<and> p < p0 + n then Some ((pa + of_nat ((p - p0) * 4096)) OR perm OR PTE_P) else f a)"
proof -
  have "(x - q * 4096) div 4096 = x div 4096 - q" if "q * 4096 \<le> x" for q x :: nat
    using that div_mult_self4[of 4096 q "x - q * 4096"] by simp
  then show ?thesis
    unfolding set_range_def range_page_iff Let_def pte_of_def by (auto simp: PGROUNDDOWN_nat)
qed

text \<open>
  C4. \<open>mappages\<close> refines the update of a map. For a range of bytes of which no page is mapped yet it
  returns 0 with every page the range touches (aligned or not) mapped to its own frame, the
  \<open>j\<close>-th page to \<open>pa + 4096 * j\<close>, or -1 with the free list used up and only the first \<open>n\<close> pages of the
  range mapped. Both ways the rest of the address space is as before, the pages taken from the free
  list are exactly the tables the address space now owns in addition, at most one for each mapped
  page, no byte outside its own tables changes and every other address space keeps its mapping.
\<close>

theorem mappages_refines:
  assumes "kalloc_ok kend s ps" and "space_ok kend s ps pgdir"
    and "siz \<noteq> 0" and "unat la + unat siz \<le> 2 ^ 32"
    and "\<forall>a. unat la div 4096 \<le> unat a div 4096 \<and> unat a div 4096 < unat la div 4096 + range_pages la siz \<longrightarrow>
      mapping (kmem s) pgdir a = None"
  shows "\<exists>r s' n qs rs. mappages pgdir la siz pa perm s = Ret (r, s') \<and>
      (r = 0 \<and> n = range_pages la siz \<or> r = -1 \<and> n < range_pages la siz \<and> rs = []) \<and>
      ps = qs @ rs \<and> length qs \<le> n \<and> kalloc_ok kend s' rs \<and> space_ok kend s' rs pgdir \<and>
      owned (kmem s') pgdir = owned (kmem s) pgdir \<union> set qs \<and>
      (\<forall>a. mapping (kmem s') pgdir a =
         (let p = unat a div 4096; p0 = unat la div 4096
          in if p0 \<le> p \<and> p < p0 + n then Some ((pa + of_nat ((p - p0) * 4096)) OR perm OR PTE_P)
             else mapping (kmem s) pgdir a)) \<and>
      (\<forall>x. (\<forall>p\<in>owned (kmem s') pgdir. \<not> in_page p x) \<longrightarrow> kmem s' x = kmem s x) \<and>
      (\<forall>d. space_ok kend s ps d \<and> owned (kmem s) d \<inter> owned (kmem s) pgdir = {} \<longrightarrow>
         mapping (kmem s') d = mapping (kmem s) d)"
proof -
  define k where "k = range_pages la siz - 1"
  have n: "range_pages la siz = Suc k" by (simp add: k_def range_pages_def)
  note lp = mappages_as_loop[OF assms(3), of la, folded k_def]
  have "\<And>a. unat (PGROUNDDOWN la) \<le> unat a \<Longrightarrow> unat a < unat (PGROUNDDOWN la) + 4096 * Suc k \<Longrightarrow>
      mapping (kmem s) pgdir a = None"
    using assms(5) range_page_iff[of la _ "Suc k"] unfolding n by blast
  then obtain r s' n qs rs where s': "mappages pgdir la siz pa perm s = Ret (r, s')"
      "r = 0 \<and> n = Suc k \<or> r = -1 \<and> n \<le> k \<and> rs = []" "ps = qs @ rs" "length qs \<le> n"
      "kalloc_ok kend s' rs" "space_ok kend s' rs pgdir"
      "owned (kmem s') pgdir = owned (kmem s) pgdir \<union> set qs"
      "mapping (kmem s') pgdir = set_range (mapping (kmem s) pgdir) (PGROUNDDOWN la) n pa perm"
      "same_outside (owned (kmem s') pgdir) (kmem s) (kmem s')"
    using mappages_loop_range[OF assms(1,2), of "PGROUNDDOWN la" k pa perm] lp assms(4)
    by (auto simp: PGROUNDDOWN_is_aligned)
  have "mapping (kmem s') d = mapping (kmem s) d"
    if "space_ok kend s ps d" "owned (kmem s) d \<inter> owned (kmem s) pgdir = {}" for d
    using that s'(3,7)
    by (intro other_space(1)[OF s'(9) space_owned_aligned[OF s'(6)] _ that(1)]) (auto simp: space_ok_def)
  then show ?thesis
    using s' unfolding same_outside_def n
    by (intro exI[of _ r] exI[of _ s'] exI[of _ n] exI[of _ qs] exI[of _ rs])
      (auto simp: set_range_pages)
qed

section \<open>Sharing an address space\<close>

definition clear_W :: "u32 \<Rightarrow> u32" where
  "clear_W e = e AND NOT PTE_W"

lemma bit_clear_W: "bit (clear_W e) n \<longleftrightarrow> bit e n \<and> n \<noteq> 1"
proof -
  have "bit PTE_W n \<longleftrightarrow> n = 1" by (auto simp: PTE_W_def bit_2_iff)
  then show ?thesis unfolding clear_W_def bit_and_iff bit_not_iff
    using bit_imp_le_length[of e n] by auto
qed

lemma clear_W_facts [simp]:
  "present (clear_W e) = present e" "PTE_ADDR (clear_W e) = PTE_ADDR e"
  by (simp add: present_bit bit_clear_W) (rule bit_word_eqI, auto simp: bit_PTE_ADDR bit_clear_W)

lemma pte_of_split: "present e \<Longrightarrow> pte_of (PTE_ADDR e) (PTE_FLAGS e) = e"
  by (rule bit_word_eqI)
    (auto simp: pte_of_def bit_or_iff bit_PTE_ADDR bit_PTE_FLAGS present_bit PTE_P_def bit_1_iff)

lemma mapping_SomeD:
  assumes "mapping m pgdir va = Some e"
  shows "present (ent m pgdir (pdx va))" and "ent m (table_of m pgdir va) (ptx va) = e" and "present e"
  using assms by (auto simp: mapping_def Let_def table_of_def split: if_splits)

text \<open>The state in which a parent \<open>pgdir\<close> and a child \<open>d\<close> stand side by side.\<close>

definition pair_ok :: "u32 \<Rightarrow> kstate \<Rightarrow> u32 list \<Rightarrow> u32 \<Rightarrow> u32 \<Rightarrow> bool" where
  "pair_ok kend s ps pgdir d \<longleftrightarrow> kalloc_ok kend s ps \<and> space_ok kend s ps pgdir \<and> space_ok kend s ps d \<and>
     owned (kmem s) pgdir \<inter> owned (kmem s) d = {}"

lemma store_pte_pair:
  fixes e' :: u32
  assumes ok: "pair_ok kend s ps pgdir d" and e: "mapping (kmem s) pgdir va = Some e"
  defines "s' \<equiv> s\<lparr>kmem := store32 (kmem s) (ent_addr (table_of (kmem s) pgdir va) (ptx va)) e'\<rparr>"
  shows "pair_ok kend s' ps pgdir d" and "mapping (kmem s') pgdir = set_page (mapping (kmem s) pgdir) va e'"
    and "mapping (kmem s') d = mapping (kmem s) d" and "owned (kmem s') d = owned (kmem s) d"
    and "owned (kmem s') pgdir = owned (kmem s) pgdir"
    and "same_outside (owned (kmem s) pgdir) (kmem s) (kmem s')"
proof -
  have wf: "pgdir_wf (kmem s) pgdir" and p: "\<forall>p\<in>owned (kmem s) pgdir. aligned p \<and> p \<notin> set ps"
    and sp: "space_ok kend s ps pgdir"
    using ok space_owned_aligned by (auto simp: pair_ok_def space_ok_def)
  note st = store_pte(1-3)[OF wf mapping_SomeD(1)[OF e], where e = e']
  show out: "same_outside (owned (kmem s) pgdir) (kmem s) (kmem s')"
    using store_pte_outside[OF wf mapping_SomeD(1)[OF e]] by (simp add: s'_def)
  have "space_ok kend s ps d" "owned (kmem s) d \<inter> owned (kmem s) pgdir = {}"
    using ok by (auto simp: pair_ok_def)
  note o = other_space[OF out space_owned_aligned[OF sp] this(2,1)]
  show d: "mapping (kmem s') d = mapping (kmem s) d" "owned (kmem s') d = owned (kmem s) d"
    "mapping (kmem s') pgdir = set_page (mapping (kmem s) pgdir) va e'"
    "owned (kmem s') pgdir = owned (kmem s) pgdir"
    using o(1,2) st by (simp_all add: s'_def)
  have "kalloc_ok kend s' ps" unfolding s'_def
    using ok out p by (intro kalloc_ok_outside) (auto simp: pair_ok_def s'_def)
  then show "pair_ok kend s' ps pgdir d"
    using ok o(3)[of ps] st d by (auto simp: pair_ok_def space_ok_def s'_def)
qed

lemma mappages_pair:
  assumes ok: "pair_ok kend s ps pgdir d" and va: "aligned va" and new: "mapping (kmem s) d va = None"
  shows "(\<exists>s' qs rs. mappages d va PGSIZE pa perm s = Ret (0, s') \<and> ps = qs @ rs \<and> length qs \<le> 1 \<and>
      pair_ok kend s' rs pgdir d \<and> owned (kmem s') pgdir = owned (kmem s) pgdir \<and>
      owned (kmem s') d = owned (kmem s) d \<union> set qs \<and>
      mapping (kmem s') pgdir = mapping (kmem s) pgdir \<and>
      mapping (kmem s') d = set_page (mapping (kmem s) d) va (pte_of pa perm) \<and>
      same_outside (owned (kmem s') d) (kmem s) (kmem s') \<and>
      (\<forall>p. page_ok kend p \<longrightarrow> p \<notin> set ps \<longrightarrow> page_count s' p = page_count s p)) \<or>
    ps = [] \<and> \<not> present (ent (kmem s) d (pdx va)) \<and> mappages d va PGSIZE pa perm s = Ret (-1, s)"
proof -
  have parts: "kalloc_ok kend s ps" "space_ok kend s ps d" "space_ok kend s ps pgdir"
      "owned (kmem s) pgdir \<inter> owned (kmem s) d = {}"
    using ok by (auto simp: pair_ok_def)
  consider (full) "ps = []" "\<not> present (ent (kmem s) d (pdx va))" "mappages d va PGSIZE pa perm s = Ret (-1, s)"
    | (mapped) s' qs rs where "mappages d va PGSIZE pa perm s = Ret (0, s')" "ps = qs @ rs"
      "kalloc_ok kend s' rs" "space_ok kend s' rs d"
      "owned (kmem s') d = owned (kmem s) d \<union> set qs"
      "mapping (kmem s') d = set_page (mapping (kmem s) d) va (pte_of pa perm)"
      "same_outside (owned (kmem s') d) (kmem s) (kmem s')"
      "\<forall>p. page_ok kend p \<longrightarrow> p \<notin> set qs \<longrightarrow> page_count s' p = page_count s p" "length qs \<le> 1"
    using mappages_page[OF parts(1,2) va new, of pa perm] by blast
  then show ?thesis
  proof cases
    case mapped
    have disj: "owned (kmem s) pgdir \<inter> owned (kmem s') d = {}"
      using parts mapped(2,5) by (auto simp: space_ok_def)
    note o = other_space[OF mapped(7) space_owned_aligned[OF mapped(4)] disj parts(3)]
    have "pair_ok kend s' rs pgdir d"
      using mapped(2,3,4) o(2) o(3)[of rs] disj by (auto simp: pair_ok_def)
    then show ?thesis using mapped o(1,2) by (intro disjI1 exI[of _ s'] exI[of _ qs] exI[of _ rs]) auto
  qed blast
qed

text \<open>The reference count of a page, as the 32-bit number the code keeps.\<close>

definition refs :: "kstate \<Rightarrow> u32 \<Rightarrow> u32" where
  "refs s p = ref_cnt s ! unat (p div PGSIZE)"

lemma page_count_refs: "page_count s p = unat (refs s p)"
  by (simp add: page_count_def refs_def)

lemma refs_update:
  assumes "page_ok kend v" and "page_ok kend p" and "length (ref_cnt s) = 4096"
    and "ref_cnt s' = (ref_cnt s)[unat (v div PGSIZE) := c]"
  shows "refs s' p = (if p = v then c else refs s p)"
  using page_count_update[OF assms] by (metis page_count_refs word_unat_eq_iff)

lemma incPageRef_pair:
  assumes "pair_ok kend s ps pgdir d" and "page_ok kend v" and "v \<notin> set ps"
  shows "\<exists>s'. incPageRef (v div PGSIZE) s = Ret s' \<and> pair_ok kend s' ps pgdir d \<and> kmem s' = kmem s \<and>
      (\<forall>p. page_ok kend p \<longrightarrow> refs s' p = refs s p + (if p = v then 1 else 0))"
proof -
  obtain s' where s': "incPageRef (v div PGSIZE) s = Ret s'" "kalloc_ok kend s' ps" "kmem s' = kmem s"
      "ref_cnt s' = (ref_cnt s)[unat (v div PGSIZE) := ref_cnt s ! unat (v div PGSIZE) + 1]"
    using incPageRef_page[of kend s ps v] assms by (auto simp: pair_ok_def)
  have "length (ref_cnt s) = 4096" using assms(1) by (simp add: pair_ok_def kalloc_ok_def)
  then have "refs s' p = refs s p + (if p = v then 1 else 0)" if "page_ok kend p" for p
    using refs_update[OF assms(2) that _ s'(4)] by (simp add: refs_def)
  moreover have "pair_ok kend s' ps pgdir d"
    using assms(1) s'(2,3) by (simp add: pair_ok_def space_ok_def)
  ultimately show ?thesis using s'(1,3) by blast
qed

lemma ent_pair:
  assumes "pair_ok kend s ps pgdir d" and "same_outside (owned (kmem s) pgdir) (kmem s) m'" and "j < 1024"
  shows "ent m' d j = ent (kmem s) d j"
proof (rule ent_cong[OF assms(3)])
  fix x assume "in_page d x"
  moreover have "d \<notin> owned (kmem s) pgdir" "aligned d" "\<forall>p\<in>owned (kmem s) pgdir. aligned p"
    using assms(1) space_owned_aligned by (auto simp: pair_ok_def owned_def)
  ultimately show "m' x = kmem s x" using same_outside_page[OF assms(2)] by blast
qed

lemma cow_step:
  assumes ok: "pair_ok kend s ps pgdir d" and i: "aligned i" "i < sz" "\<not> i + PGSIZE < i"
    and e: "mapping (kmem s) pgdir i = Some e" "page_ok kend (PTE_ADDR e)" "PTE_ADDR e \<notin> set ps"
    and new: "mapping (kmem s) d i = None"
  shows "(\<exists>s' qs rs. cow_loop pgdir d i sz s = cow_loop pgdir d (i + PGSIZE) sz s' \<and> ps = qs @ rs \<and>
      pair_ok kend s' rs pgdir d \<and> owned (kmem s') pgdir = owned (kmem s) pgdir \<and>
      owned (kmem s') d = owned (kmem s) d \<union> set qs \<and>
      mapping (kmem s') pgdir = set_page (mapping (kmem s) pgdir) i (clear_W e) \<and>
      mapping (kmem s') d = set_page (mapping (kmem s) d) i (clear_W e) \<and>
      same_outside (owned (kmem s) pgdir \<union> owned (kmem s') d) (kmem s) (kmem s') \<and>
      (\<forall>p. page_ok kend p \<longrightarrow> p \<notin> set ps \<longrightarrow> refs s' p = refs s p + (if p = PTE_ADDR e then 1 else 0))) \<or>
    ps = [] \<and> \<not> present (ent (kmem s) d (pdx i)) \<and> (\<exists>s'. cow_loop pgdir d i sz s = Ret (False, s'))"
proof -
  let ?t = "ent_addr (table_of (kmem s) pgdir i) (ptx i)"
  let ?s = "s\<lparr>kmem := store32 (kmem s) ?t (clear_W e)\<rparr>"
  note m = mapping_SomeD[OF e(1)]
  note st = store_pte_pair[OF ok e(1), where e' = "clear_W e"]
  have "?t \<noteq> 0"
    using ok store_pte(4)[OF _ m(1)]
    by (intro ent_addr_nonzero[of kend]) (auto simp: pair_ok_def kalloc_ok_def space_ok_def)
  then have run: "cow_loop pgdir d i sz s =
      bindO (mappages d i PGSIZE (PTE_ADDR e) (PTE_FLAGS (clear_W e)) ?s) (\<lambda>(r, s2).
        if r < 0 then Ret (False, s2)
        else bindO (incPageRef (PTE_ADDR e div PGSIZE) s2) (\<lambda>s3. cow_loop pgdir d (i + PGSIZE) sz s3))"
    using i m 
    by (subst cow_loop.simps, unfold if_not_P[OF i(3)]) (simp add: walk_found ent_def clear_W_def Let_def)
  have val: "pte_of (PTE_ADDR e) (PTE_FLAGS (clear_W e)) = clear_W e"
    using pte_of_split[of "clear_W e"] m(3) by simp
  consider (full) "ps = []" "\<not> present (ent (kmem ?s) d (pdx i))"
      "mappages d i PGSIZE (PTE_ADDR e) (PTE_FLAGS (clear_W e)) ?s = Ret (-1, ?s)"
    | (mapped) s2 qs rs where
      "mappages d i PGSIZE (PTE_ADDR e) (PTE_FLAGS (clear_W e)) ?s = Ret (0, s2)" "ps = qs @ rs"
      "pair_ok kend s2 rs pgdir d" "owned (kmem s2) pgdir = owned (kmem ?s) pgdir"
      "owned (kmem s2) d = owned (kmem ?s) d \<union> set qs" "mapping (kmem s2) pgdir = mapping (kmem ?s) pgdir"
      "mapping (kmem s2) d = set_page (mapping (kmem ?s) d) i (clear_W e)"
      "same_outside (owned (kmem s2) d) (kmem ?s) (kmem s2)"
      "\<forall>p. page_ok kend p \<longrightarrow> p \<notin> set ps \<longrightarrow> page_count s2 p = page_count ?s p"
    using mappages_pair[OF st(1) i(1), of "PTE_ADDR e" "PTE_FLAGS (clear_W e)"] new st(3) val by auto
  then show ?thesis
  proof cases
    case full
    have "ent (kmem ?s) d (pdx i) = ent (kmem s) d (pdx i)"
      by (rule ent_pair[OF ok st(6)]) simp
    then show ?thesis using run full by simp
  next
    case mapped
    obtain s3 where s3: "incPageRef (PTE_ADDR e div PGSIZE) s2 = Ret s3" "pair_ok kend s3 rs pgdir d"
        "kmem s3 = kmem s2" "\<forall>p. page_ok kend p \<longrightarrow> refs s3 p = refs s2 p + (if p = PTE_ADDR e then 1 else 0)"
      using incPageRef_pair[OF mapped(3) e(2)] e(3) mapped(2) by auto
    have "refs s2 p = refs s p" if "page_ok kend p" "p \<notin> set ps" for p
      using mapped(9) that by (simp add: page_count_refs word_unat_eq_iff) (simp add: refs_def)
    moreover have "same_outside (owned (kmem s) pgdir \<union> owned (kmem s3) d) (kmem s) (kmem s3)"
      unfolding s3(3) by (rule same_outside_trans[OF st(6) mapped(8)]) auto
    ultimately show ?thesis
      using run mapped(1,2) s3 st mapped(4-7)
      by (intro disjI1 exI[of _ s3] exI[of _ qs] exI[of _ rs]) auto
  qed
qed

text \<open>The pages from \<open>i\<close> up to the size \<open>sz\<close>, and those of them that map to \<open>p\<close>.\<close>

definition in_range :: "u32 \<Rightarrow> u32 \<Rightarrow> u32 \<Rightarrow> bool" where
  "in_range i sz a \<longleftrightarrow> unat i div 4096 \<le> unat a div 4096 \<and> unat a div 4096 * 4096 < unat sz"

definition sharers :: "mem \<Rightarrow> u32 \<Rightarrow> u32 \<Rightarrow> u32 \<Rightarrow> u32 \<Rightarrow> u32 set" where
  "sharers m pgdir i sz p =
     {va. aligned va \<and> in_range i sz va \<and> (\<exists>e. mapping m pgdir va = Some e \<and> PTE_ADDR e = p)}"

definition user_ok :: "u32 \<Rightarrow> kstate \<Rightarrow> u32 list \<Rightarrow> u32 \<Rightarrow> u32 \<Rightarrow> u32 \<Rightarrow> bool" where
  "user_ok kend s ps pgdir i sz \<longleftrightarrow> (\<forall>a. in_range i sz a \<longrightarrow>
     (\<exists>e. mapping (kmem s) pgdir a = Some e \<and> page_ok kend (PTE_ADDR e) \<and> PTE_ADDR e \<notin> set ps))"

lemma next_page:
  assumes "aligned i" and "i < sz" and "sz \<le> USERTOP"
  shows "unat (i + PGSIZE) = unat i + 4096" and "aligned (i + PGSIZE)" and "\<not> i + PGSIZE < i"
    and "unat (i + PGSIZE) div 4096 = Suc (unat i div 4096)"
proof -
  have "unat i < 655360" using assms(2,3) by (simp add: word_less_nat_alt word_le_nat_alt USERTOP_def)
  then show n: "unat (i + PGSIZE) = unat i + 4096" by (simp add: unat_word_ariths)
  show "aligned (i + PGSIZE)" using assms(1) n by (simp add: aligned_iff)
  show "\<not> i + PGSIZE < i" using n by (simp add: word_less_nat_alt)
  show "unat (i + PGSIZE) div 4096 = Suc (unat i div 4096)" using n by simp
qed

lemma in_range_step:
  assumes "aligned i" and "i < sz" and "sz \<le> USERTOP"
  shows "in_range i sz a \<longleftrightarrow> same_page a i \<or> in_range (i + PGSIZE) sz a"
    and "in_range (i + PGSIZE) sz a \<Longrightarrow> \<not> same_page a i"
proof -
  have "unat i div 4096 * 4096 = unat i" using assms(1) by (simp add: aligned_iff flip: minus_mod_eq_div_mult)
  then show "in_range i sz a \<longleftrightarrow> same_page a i \<or> in_range (i + PGSIZE) sz a"
    using assms(2) unfolding in_range_def same_page_def next_page(4)[OF assms]
    by (auto simp: word_less_nat_alt)
  show "in_range (i + PGSIZE) sz a \<Longrightarrow> \<not> same_page a i"
    unfolding in_range_def same_page_def next_page(4)[OF assms] by auto
qed

lemma aligned_same_page: "aligned a \<Longrightarrow> aligned b \<Longrightarrow> same_page a b \<Longrightarrow> a = b"
  unfolding same_page_def aligned_iff by (metis add.right_neutral div_mult_mod_eq word_unat_eq_iff)

lemma in_range_empty: "aligned i \<Longrightarrow> \<not> i < sz \<Longrightarrow> \<not> in_range i sz a"
proof -
  assume "aligned i" "\<not> i < sz"
  then have "unat sz \<le> unat i div 4096 * 4096"
    by (simp add: aligned_iff word_less_nat_alt flip: minus_mod_eq_div_mult)
  moreover have "unat i div 4096 \<le> unat a div 4096 \<Longrightarrow> unat i div 4096 * 4096 \<le> unat a div 4096 * 4096"
    by simp
  ultimately show ?thesis unfolding in_range_def by linarith
qed

lemma sharers_step:
  assumes i: "aligned i" "i < sz" "sz \<le> USERTOP" and e: "mapping m pgdir i = Some e"
    and m': "mapping m' pgdir = set_page (mapping m pgdir) i e'"
  shows "of_nat (card (sharers m pgdir i sz p)) =
      (if p = PTE_ADDR e then 1 else 0) + (of_nat (card (sharers m' pgdir (i + PGSIZE) sz p)) :: u32)"
proof -
  have rest: "mapping m' pgdir va = mapping m pgdir va" if "in_range (i + PGSIZE) sz va" for va
    using in_range_step(2)[OF i that] by (simp add: m' set_page_def)
  have i': "\<not> in_range (i + PGSIZE) sz i" using in_range_step(2)[OF i] by (auto simp: same_page_def)
  have r: "in_range i sz va \<longleftrightarrow> va = i \<or> in_range (i + PGSIZE) sz va" if "aligned va" for va
    using in_range_step(1)[OF i, of va] aligned_same_page[OF that i(1)] by (auto simp: same_page_def)
  have "sharers m pgdir i sz p =
      (if p = PTE_ADDR e then {i} else {}) \<union> sharers m' pgdir (i + PGSIZE) sz p"
    using i(1) e rest by (auto simp: sharers_def r)
  moreover have "i \<notin> sharers m' pgdir (i + PGSIZE) sz p" using i' by (simp add: sharers_def)
  ultimately show ?thesis by (auto simp: card_insert_if)
qed

text \<open>The mapping after the pages of a range have been made read-only.\<close>

definition shared_map :: "(u32 \<Rightarrow> u32 option) \<Rightarrow> (u32 \<Rightarrow> u32 option) \<Rightarrow> u32 \<Rightarrow> u32 \<Rightarrow> u32 \<Rightarrow> u32 option" where
  "shared_map parent old i sz =
     (\<lambda>a. if in_range i sz a then map_option clear_W (parent a) else old a)"

lemma mapping_same_page: "same_page a b \<Longrightarrow> mapping m pgdir a = mapping m pgdir b"
  by (simp add: same_page_iff mapping_def Let_def)

lemma shared_map_step:
  assumes i: "aligned i" "i < sz" "sz \<le> USERTOP" and e: "mapping m pgdir i = Some e"
    and m': "mapping m' pgdir = set_page (mapping m pgdir) i (clear_W e)"
  shows "shared_map (mapping m' pgdir) (set_page old i (clear_W e)) (i + PGSIZE) sz =
         shared_map (mapping m pgdir) old i sz"
proof
  fix a
  have "same_page a i \<Longrightarrow> mapping m pgdir a = Some e" using mapping_same_page[of a i] e by simp
  then show "shared_map (mapping m' pgdir) (set_page old i (clear_W e)) (i + PGSIZE) sz a =
      shared_map (mapping m pgdir) old i sz a"
    using in_range_step[OF i, of a] mapping_SomeD(3)[OF e] by (auto simp: shared_map_def m' set_page_def)
qed

definition cow_post :: "u32 \<Rightarrow> kstate \<Rightarrow> u32 list \<Rightarrow> u32 \<Rightarrow> u32 \<Rightarrow> u32 \<Rightarrow> u32 \<Rightarrow> kstate \<Rightarrow> bool" where
  "cow_post kend s ps pgdir d i sz s' \<longleftrightarrow>
     (\<exists>qs rs. ps = qs @ rs \<and> pair_ok kend s' rs pgdir d \<and>
        owned (kmem s') pgdir = owned (kmem s) pgdir \<and> owned (kmem s') d = owned (kmem s) d \<union> set qs) \<and>
     mapping (kmem s') pgdir = shared_map (mapping (kmem s) pgdir) (mapping (kmem s) pgdir) i sz \<and>
     mapping (kmem s') d = shared_map (mapping (kmem s) pgdir) (mapping (kmem s) d) i sz \<and>
     same_outside (owned (kmem s) pgdir \<union> owned (kmem s') d) (kmem s) (kmem s') \<and>
     (\<forall>p. page_ok kend p \<longrightarrow> p \<notin> set ps \<longrightarrow>
        refs s' p = refs s p + of_nat (card (sharers (kmem s) pgdir i sz p)))"

lemma cow_post_none:
  assumes "pair_ok kend s ps pgdir d" and "aligned i" and "\<not> i < sz"
  shows "cow_post kend s ps pgdir d i sz s"
  unfolding cow_post_def
  using assms in_range_empty[OF assms(2,3)]
  by (intro conjI exI[of _ "[]"] exI[of _ ps]) (auto simp: shared_map_def sharers_def same_outside_def)

lemma cow_post_step:
  assumes i: "aligned i" "i < sz" "sz \<le> USERTOP" and e: "mapping (kmem s) pgdir i = Some e"
    and s1: "ps = qs @ rs" "owned (kmem s1) pgdir = owned (kmem s) pgdir"
      "owned (kmem s1) d = owned (kmem s) d \<union> set qs"
      "mapping (kmem s1) pgdir = set_page (mapping (kmem s) pgdir) i (clear_W e)"
      "mapping (kmem s1) d = set_page (mapping (kmem s) d) i (clear_W e)"
      "same_outside (owned (kmem s) pgdir \<union> owned (kmem s1) d) (kmem s) (kmem s1)"
      "\<forall>p. page_ok kend p \<longrightarrow> p \<notin> set ps \<longrightarrow> refs s1 p = refs s p + (if p = PTE_ADDR e then 1 else 0)"
    and post: "cow_post kend s1 rs pgdir d (i + PGSIZE) sz s'"
  shows "cow_post kend s ps pgdir d i sz s'"
proof -
  obtain qs' rs' where r: "rs = qs' @ rs'" "pair_ok kend s' rs' pgdir d"
      "owned (kmem s') pgdir = owned (kmem s1) pgdir" "owned (kmem s') d = owned (kmem s1) d \<union> set qs'"
    using post by (auto simp: cow_post_def)
  have "\<exists>qs rs. ps = qs @ rs \<and> pair_ok kend s' rs pgdir d \<and>
      owned (kmem s') pgdir = owned (kmem s) pgdir \<and> owned (kmem s') d = owned (kmem s) d \<union> set qs"
    using r s1(1-3) by (intro exI[of _ "qs @ qs'"] exI[of _ rs']) auto
  moreover have "mapping (kmem s') pgdir = shared_map (mapping (kmem s) pgdir) (mapping (kmem s) pgdir) i sz"
    "mapping (kmem s') d = shared_map (mapping (kmem s) pgdir) (mapping (kmem s) d) i sz"
    using post s1(4,5) shared_map_step[OF i e s1(4)] by (simp_all add: cow_post_def)
  moreover have "same_outside (owned (kmem s) pgdir \<union> owned (kmem s') d) (kmem s) (kmem s')"
    using post s1(2) r(4) unfolding cow_post_def by (intro same_outside_trans[OF s1(6)]) auto
  moreover have "refs s' p = refs s p + of_nat (card (sharers (kmem s) pgdir i sz p))"
    if "page_ok kend p" "p \<notin> set ps" for p
    using post s1(1,7) that sharers_step[OF i e s1(4), of p] by (simp add: cow_post_def)
  ultimately show ?thesis by (simp add: cow_post_def)
qed

lemma cow_loop_post:
  assumes "pair_ok kend s ps pgdir d" and "aligned i" and "sz \<le> USERTOP"
    and "user_ok kend s ps pgdir i sz" and "\<forall>a. in_range i sz a \<longrightarrow> mapping (kmem s) d a = None"
  shows "\<exists>ok s'. cow_loop pgdir d i sz s = Ret (ok, s') \<and>
      (ok \<longrightarrow> cow_post kend s ps pgdir d i sz s') \<and> (\<not> ok \<longrightarrow> ps = [] \<and> \<not> present (ent (kmem s) d 0))"
  using assms
proof (induction "unat sz - unat i" arbitrary: i s ps rule: less_induct)
  case less
  show ?case
  proof (cases "i < sz")
    case False
    then have "cow_loop pgdir d i sz s = Ret (True, s)" by (subst cow_loop.simps) simp
    then show ?thesis using cow_post_none[OF less.prems(1,2) False] by blast
  next
    case True
    note i = less.prems(2) True less.prems(3)
    have "in_range i sz i" using in_range_step(1)[OF i] by (simp add: same_page_def)
    then obtain e where e: "mapping (kmem s) pgdir i = Some e" "page_ok kend (PTE_ADDR e)" "PTE_ADDR e \<notin> set ps"
      and new: "mapping (kmem s) d i = None"
      using less.prems(4,5) by (auto simp: user_ok_def)
    have p0: "pdx i = 0" using i(2,3) by (simp add: pdx_def word_less_nat_alt word_le_nat_alt USERTOP_def)
    consider (full) s' where "ps = []" "\<not> present (ent (kmem s) d (pdx i))" "cow_loop pgdir d i sz s = Ret (False, s')"
      | (go) s1 qs rs where "cow_loop pgdir d i sz s = cow_loop pgdir d (i + PGSIZE) sz s1" "ps = qs @ rs"
        "pair_ok kend s1 rs pgdir d" "owned (kmem s1) pgdir = owned (kmem s) pgdir"
        "owned (kmem s1) d = owned (kmem s) d \<union> set qs"
        "mapping (kmem s1) pgdir = set_page (mapping (kmem s) pgdir) i (clear_W e)"
        "mapping (kmem s1) d = set_page (mapping (kmem s) d) i (clear_W e)"
        "same_outside (owned (kmem s) pgdir \<union> owned (kmem s1) d) (kmem s) (kmem s1)"
        "\<forall>p. page_ok kend p \<longrightarrow> p \<notin> set ps \<longrightarrow> refs s1 p = refs s p + (if p = PTE_ADDR e then 1 else 0)"
      using cow_step[OF less.prems(1) i(1,2) next_page(3)[OF i] e new] by blast
    then show ?thesis
    proof cases
      case full
      then show ?thesis using p0 by (intro exI[of _ False] exI[of _ s']) simp
    next
      case go
      have "present (ent (kmem s1) d 0)"
        using mapping_SomeD(1)[of "kmem s1" d i "clear_W e"] mapping_SomeD(3)[OF e(1)] p0
        by (simp add: go(7) set_page_def same_page_def)
      moreover
      have "unat sz - unat (i + PGSIZE) < unat sz - unat i"
        using next_page(1)[OF i] True by (simp add: word_less_nat_alt)
      moreover have "user_ok kend s1 rs pgdir (i + PGSIZE) sz"
        "\<forall>a. in_range (i + PGSIZE) sz a \<longrightarrow> mapping (kmem s1) d a = None"
        using less.prems(4,5) in_range_step[OF i] go(2) by (auto simp: user_ok_def go(6,7) set_page_def)
      ultimately obtain ok s' where s': "cow_loop pgdir d (i + PGSIZE) sz s1 = Ret (ok, s')"
          "ok \<longrightarrow> cow_post kend s1 rs pgdir d (i + PGSIZE) sz s'" ok
        using less.hyps[OF _ go(3) next_page(2)[OF i] i(3)] by blast
      then show ?thesis
        using cow_post_step[OF i e(1) go(2,4-9)] go(1) by auto
    qed
  qed
qed

text \<open>
  C3. The loop of \<open>cowuvm\<close>, which \<open>fork\<close> uses in place of copying. When the parent's pages up to
  \<open>sz\<close> are mapped and the child's are not, the loop returns. It fails only when no page is free for
  the child's table. Otherwise every page of the range is afterwards mapped in parent and child to
  the same physical page with the same flags and without write permission, all other entries of
  both are as before, the reference count of a physical page has grown by the number of parent
  pages that map to it, and memory has changed only in the tables of the two address spaces.
\<close>

theorem cow_loop_shares:
  assumes "pair_ok kend s ps pgdir d" and "sz \<le> USERTOP" and "user_ok kend s ps pgdir 0 sz"
    and "\<forall>a. in_range 0 sz a \<longrightarrow> mapping (kmem s) d a = None"
  shows "\<exists>ok s'. cow_loop pgdir d 0 sz s = Ret (ok, s') \<and> (\<not> ok \<longrightarrow> ps = []) \<and>
     (ok \<longrightarrow>
       (\<forall>a. in_range 0 sz a \<longrightarrow> (\<exists>e. mapping (kmem s) pgdir a = Some e \<and>
          mapping (kmem s') pgdir a = Some (e AND NOT PTE_W) \<and> mapping (kmem s') d a = Some (e AND NOT PTE_W))) \<and>
       (\<forall>a. \<not> in_range 0 sz a \<longrightarrow> mapping (kmem s') pgdir a = mapping (kmem s) pgdir a \<and>
          mapping (kmem s') d a = mapping (kmem s) d a) \<and>
       (\<forall>p. page_ok kend p \<and> p \<notin> set ps \<longrightarrow>
          refs s' p = refs s p + of_nat (card (sharers (kmem s) pgdir 0 sz p))) \<and>
       (\<forall>x. (\<forall>p\<in>owned (kmem s) pgdir \<union> owned (kmem s') d. \<not> in_page p x) \<longrightarrow> kmem s' x = kmem s x))"
proof -
  have a: "aligned 0" by (simp add: aligned_iff)
  obtain ok s' where s': "cow_loop pgdir d 0 sz s = Ret (ok, s')" "\<not> ok \<longrightarrow> ps = []"
      "ok \<longrightarrow> cow_post kend s ps pgdir d 0 sz s'"
    using cow_loop_post[OF assms(1) a assms(2-4)] by blast
  have "\<exists>e. mapping (kmem s) pgdir a = Some e \<and> mapping (kmem s') pgdir a = Some (e AND NOT PTE_W) \<and>
      mapping (kmem s') d a = Some (e AND NOT PTE_W)" if "in_range 0 sz a" ok for a
    using s'(3) that assms(3) by (fastforce simp: cow_post_def shared_map_def user_ok_def clear_W_def)
  then show ?thesis using s' by (auto simp: cow_post_def shared_map_def same_outside_def)
qed

end
