(* ===== verification/Cow.thy ===== *)
theory Cow
  imports Vmspec
begin

text \<open>
  The page fault handler of copy-on-write, \<open>cowHandler\<close> of \<open>src/P5/xv6/kernel/vm.c\<close>, against the
  abstract view of address spaces of \<open>Vmspec\<close>: what a write fault does to the faulting process, to
  every other process and to the reference counts, and what happens when memory runs out.
\<close>

section \<open>The copy-on-write fault\<close>

lemma page_not_null: "page_ok kend p \<Longrightarrow> 0 < kend \<Longrightarrow> p \<noteq> 0"
  by (auto simp: page_ok_def word_less_nat_alt word_le_nat_alt)

lemma memmove_page:
  assumes "aligned a" "aligned b" "a < PHYSTOP" "b < PHYSTOP"
  shows "bytes (memmove m b a (unat PGSIZE)) b 4096 = bytes m a 4096"
    and "same_outside {b} m (memmove m b a (unat PGSIZE))"
proof -
  have "unat a + 4096 < 4294967296" "unat b + 4096 < 4294967296"
    using assms by (simp_all add: word_less_nat_alt)
  note w = memmove_write[OF this, of m]
  show "bytes (memmove m b a (unat PGSIZE)) b 4096 = bytes m a 4096" by (simp add: w bytes_write_same)
  show "same_outside {b} m (memmove m b a (unat PGSIZE))"
    by (simp add: w same_outside_def in_page_def write_bytes_outside)
qed

lemma set_W_bit: "e AND PTE_W = 0 \<Longrightarrow> e + 2 = e OR PTE_W"
  by (simp add: PTE_W_def disjunctive_add bit_eq_iff bit_simps)

lemma sint_le_1: "unat (x::u32) < 2147483648 \<Longrightarrow> sint x \<le> 1 \<longleftrightarrow> unat x \<le> 1"
proof -
  assume "unat x < 2147483648"
  moreover have "uint x = int (unat x)" by simp
  ultimately show ?thesis using sint_small[of x] by linarith
qed

lemma refCount_page:
  assumes "kalloc_ok kend s ps" and "page_ok kend p"
  shows "refCount (p div PGSIZE) s = Ret (refs s p)"
proof -
  have i: "unat (p div PGSIZE) < 4096" by (rule page_ok_index[OF assms(2)])
  then have "sint (p div PGSIZE) = uint (p div PGSIZE)" by (intro sint_small) simp
  moreover have "length (ref_cnt s) = 4096" using assms(1) by (simp add: kalloc_ok_def)
  ultimately show ?thesis using i by (simp add: refCount_def refs_def aget_uint)
qed

text \<open>What the handler does, once the entry is found and the access is legal.\<close>

definition fault_ok :: "u32 \<Rightarrow> kstate \<Rightarrow> u32 list \<Rightarrow> u32 \<Rightarrow> u32 \<Rightarrow> u32 \<Rightarrow> bool" where
  "fault_ok kend s ps pgdir va e \<longleftrightarrow>
     kalloc_ok kend s ps \<and> space_ok kend s ps pgdir \<and> mapping (kmem s) pgdir va = Some e \<and>
     e AND PTE_U \<noteq> 0 \<and> va \<le> USERTOP \<and>
     page_ok kend (PTE_ADDR e) \<and> PTE_ADDR e \<notin> set ps \<and> PTE_ADDR e \<notin> owned (kmem s) pgdir"

lemma fault_pte:
  assumes "fault_ok kend s ps pgdir va e"
  shows "walkpgdir pgdir va False s = Ret (ent_addr (table_of (kmem s) pgdir va) (ptx va), s)"
    and "ent_addr (table_of (kmem s) pgdir va) (ptx va) \<noteq> 0"
    and "load32 (kmem s) (ent_addr (table_of (kmem s) pgdir va) (ptx va)) = e" and "present e"
    and "table_of (kmem s) pgdir va \<in> owned (kmem s) pgdir"
proof -
  have m: "mapping (kmem s) pgdir va = Some e" and wf: "pgdir_wf (kmem s) pgdir"
    using assms by (auto simp: fault_ok_def space_ok_def)
  note f = mapping_SomeD[OF m]
  show "walkpgdir pgdir va False s = Ret (ent_addr (table_of (kmem s) pgdir va) (ptx va), s)"
    by (rule walk_found[OF f(1)])
  show o: "table_of (kmem s) pgdir va \<in> owned (kmem s) pgdir" by (rule store_pte(4)[OF wf f(1)])
  show "ent_addr (table_of (kmem s) pgdir va) (ptx va) \<noteq> 0"
    using o assms by (intro ent_addr_nonzero[of kend]) (auto simp: fault_ok_def space_ok_def kalloc_ok_def)
  show "load32 (kmem s) (ent_addr (table_of (kmem s) pgdir va) (ptx va)) = e" "present e"
    using f by (simp_all add: ent_def)
qed

lemma cowHandler_eval:
  assumes "fault_ok kend s ps pgdir va e"
  defines "t \<equiv> ent_addr (table_of (kmem s) pgdir va) (ptx va)"
  shows "cowHandler pgdir va s =
     (if sint (refs s (PTE_ADDR e)) \<le> 1 then Ret (Handled, s\<lparr>kmem := store32 (kmem s) t (e + 2)\<rparr>)
      else bindO (kalloc s) (\<lambda>(mem, s2). bindO (decPageRef (PTE_ADDR e div PGSIZE) s2) (\<lambda>s3.
        bindO (copy_target pgdir mem s3) (\<lambda>dst.
        Ret (if mem = 0 then Killed else Handled,
             s3\<lparr>kmem := store32 (memmove (kmem s3) dst (PTE_ADDR e) (unat PGSIZE)) t
                          (mem OR PTE_FLAGS e OR PTE_W OR PTE_P OR PTE_U)\<rparr>)))))"
proof -
  have "e AND PTE_U \<noteq> 0" "\<not> USERTOP < va" "kalloc_ok kend s ps" "page_ok kend (PTE_ADDR e)"
    using assms(1) by (auto simp: fault_ok_def not_less)
  then show ?thesis
    using fault_pte[OF assms(1), folded t_def] refCount_page[of kend s ps "PTE_ADDR e"]
    by (simp add: cowHandler_def Let_def)
qed

lemma decPageRef_page:
  assumes ok: "kalloc_ok kend s ps" and v: "page_ok kend v" "v \<notin> set ps"
  shows "\<exists>s'. decPageRef (v div PGSIZE) s = Ret s' \<and> kalloc_ok kend s' ps \<and> kmem s' = kmem s \<and>
      (\<forall>p. page_ok kend p \<longrightarrow> refs s' p = refs s p - (if p = v then 1 else 0))"
proof -
  let ?i = "unat (v div PGSIZE)"
  let ?s = "s\<lparr>ref_cnt := (ref_cnt s)[?i := ref_cnt s ! ?i - 1]\<rparr>"
  have len: "?i < length (ref_cnt s)" using ok page_ok_index[OF v(1)] by (simp add: kalloc_ok_def)
  have other: "unat (p div PGSIZE) \<noteq> ?i" if "page_ok kend p" "p \<noteq> v" for p
    using page_index_inj[of p v] that v(1) unfolding page_ok_def by blast
  have "decPageRef (v div PGSIZE) s = Ret ?s" using len by (simp add: decPageRef_def aget_uint aset_uint)
  moreover have "kalloc_ok kend ?s ps"
    using ok v(2) other by (auto simp: kalloc_ok_def nth_list_update_if) metis
  moreover have "refs ?s p = refs s p - (if p = v then 1 else 0)" if "page_ok kend p" for p
    using other[OF that] len by (auto simp: refs_def nth_list_update_if)
  ultimately show ?thesis by auto
qed

text \<open>A page filled with a copy, then the entry pointed at it.\<close>

lemma copy_and_map:
  fixes e' :: u32
  assumes f: "fault_ok kend s ps pgdir va e"
    and b: "aligned b" "b < PHYSTOP" "b \<notin> owned (kmem s) pgdir"
  defines "m \<equiv> store32 (memmove (kmem s) b (PTE_ADDR e) (unat PGSIZE))
                 (ent_addr (table_of (kmem s) pgdir va) (ptx va)) e'"
  shows "mapping m pgdir = set_page (mapping (kmem s) pgdir) va e'" and "pgdir_wf m pgdir"
    and "owned m pgdir = owned (kmem s) pgdir" and "bytes m b 4096 = bytes (kmem s) (PTE_ADDR e) 4096"
    and "same_outside {b, table_of (kmem s) pgdir va} (kmem s) m"
proof -
  let ?m = "memmove (kmem s) b (PTE_ADDR e) (unat PGSIZE)"
  have e: "mapping (kmem s) pgdir va = Some e" "PTE_ADDR e < PHYSTOP" "space_ok kend s ps pgdir"
    and wf: "pgdir_wf (kmem s) pgdir"
    using f by (auto simp: fault_ok_def page_ok_def space_ok_def)
  note mv = memmove_page[OF PTE_ADDR_aligned b(1) e(2) b(2), of "kmem s"]
  have same: "?m x = kmem s x" if "p \<in> owned (kmem s) pgdir" "in_page p x" for p x
    using same_outside_page[OF mv(2)] that b owned_aligned[OF wf that(1)] by blast
  have fr: "mapping ?m pgdir = mapping (kmem s) pgdir" "owned ?m pgdir = owned (kmem s) pgdir"
      "pgdir_wf ?m pgdir = pgdir_wf (kmem s) pgdir"
    by (rule space_frame, erule (1) same)+
  have d: "ent ?m pgdir (pdx va) = ent (kmem s) pgdir (pdx va)"
    using same by (intro ent_cong) (auto simp: owned_def)
  have t: "table_of ?m pgdir va = table_of (kmem s) pgdir va" by (simp only: table_of_def d)
  have pr: "present (ent ?m pgdir (pdx va))" using mapping_SomeD(1)[OF e(1)] d by simp
  note st = store_pte(1-3)[of ?m pgdir va, where e = e', unfolded t, folded m_def]
  show "mapping m pgdir = set_page (mapping (kmem s) pgdir) va e'" "pgdir_wf m pgdir"
    "owned m pgdir = owned (kmem s) pgdir"
    using st fr wf pr by simp_all
  have tb: "aligned (table_of (kmem s) pgdir va)" "table_of (kmem s) pgdir va \<noteq> b"
    using fault_pte(5)[OF f] owned_aligned[OF wf] b(3) by auto
  have out: "same_outside {table_of (kmem s) pgdir va} ?m m"
    by (auto simp: same_outside_def m_def store_ent_outside)
  then show "same_outside {b, table_of (kmem s) pgdir va} (kmem s) m"
    by (intro same_outside_trans[OF mv(2)]) auto
  have "m (b + of_nat i) = ?m (b + of_nat i)" if "i < 4096" for i
    using tb b(1) that by (intro same_outside_page[OF out, of b]) (auto simp: in_page_def)
  then show "bytes m b 4096 = bytes (kmem s) (PTE_ADDR e) 4096"
    using mv(1) by (simp add: bytes_def)
qed

lemma entry_split: "present e \<Longrightarrow> e = PTE_ADDR e OR PTE_FLAGS e"
  by (rule bit_word_eqI) (auto simp: bit_or_iff bit_PTE_ADDR bit_PTE_FLAGS)

lemma bit_PTE_U: "bit PTE_U n \<longleftrightarrow> n = 2"
proof -
  have e: "PTE_U = 2 ^ 2" by (simp add: PTE_U_def)
  show ?thesis unfolding e bit_exp_iff by auto
qed

lemma and_PTE_U: "e AND PTE_U \<noteq> 0 \<longleftrightarrow> bit e 2"
proof -
  have "e AND PTE_U = (if bit e 2 then PTE_U else 0)"
    by (intro bit_word_eqI) (auto simp: bit_and_iff bit_PTE_U)
  then show ?thesis by (simp add: PTE_U_def)
qed

lemma entry_flags:
  assumes "present e" and "e AND PTE_U \<noteq> 0"
  shows "q OR PTE_FLAGS e OR PTE_W OR PTE_P OR PTE_U = q OR PTE_FLAGS e OR PTE_W"
  using assms
  by (intro bit_word_eqI)
    (auto simp: bit_or_iff bit_PTE_FLAGS and_PTE_U present_bit bit_PTE_U PTE_P_def bit_1_iff)

text \<open>What a handled fault leaves: the entry \<open>e\<close> of the page now is the writable page \<open>q\<close>.\<close>

definition fault_done :: "u32 \<Rightarrow> kstate \<Rightarrow> u32 list \<Rightarrow> u32 \<Rightarrow> u32 \<Rightarrow> u32 \<Rightarrow> u32 \<Rightarrow> u32 list \<Rightarrow> kstate \<Rightarrow> bool" where
  "fault_done kend s ps pgdir va e q rs s' \<longleftrightarrow>
     kalloc_ok kend s' rs \<and> space_ok kend s' rs pgdir \<and> owned (kmem s') pgdir = owned (kmem s) pgdir \<and>
     mapping (kmem s') pgdir = set_page (mapping (kmem s) pgdir) va (q OR PTE_FLAGS e OR PTE_W) \<and>
     bytes (kmem s') q 4096 = bytes (kmem s) (PTE_ADDR e) 4096 \<and>
     same_outside (insert (table_of (kmem s) pgdir va) (set ps - set rs)) (kmem s) (kmem s')"

lemma fault_alone:
  assumes f: "fault_ok kend s ps pgdir va e" and w: "e AND PTE_W = 0" and one: "unat (refs s (PTE_ADDR e)) \<le> 1"
  shows "\<exists>s'. cowHandler pgdir va s = Ret (Handled, s') \<and>
      fault_done kend s ps pgdir va e (PTE_ADDR e) ps s' \<and> ref_cnt s' = ref_cnt s"
proof -
  let ?t = "table_of (kmem s) pgdir va"
  let ?s = "s\<lparr>kmem := store32 (kmem s) (ent_addr ?t (ptx va)) (e + 2)\<rparr>"
  have "sint (refs s (PTE_ADDR e)) \<le> 1" using one by (subst sint_le_1) simp_all
  then have run: "cowHandler pgdir va s = Ret (Handled, ?s)" using cowHandler_eval[OF f] by simp
  have sp: "space_ok kend s ps pgdir" and ok: "kalloc_ok kend s ps" and wf: "pgdir_wf (kmem s) pgdir"
    and pr: "present (ent (kmem s) pgdir (pdx va))"
    and al: "\<forall>p\<in>{?t}. aligned p" and free: "{?t} \<inter> set ps = {}" and pt: "PTE_ADDR e \<notin> {?t}"
    using f mapping_SomeD(1) fault_pte(5)[OF f] space_owned_aligned by (auto simp: fault_ok_def space_ok_def)
  have e2: "e + 2 = PTE_ADDR e OR PTE_FLAGS e OR PTE_W"
    using set_W_bit[OF w] entry_split[OF fault_pte(4)[OF f]] by (metis word_bw_assocs(2))
  have out: "same_outside {?t} (kmem s) (kmem ?s)" by (auto simp: same_outside_def store_ent_outside)
  note st = store_pte(1-3)[OF wf pr, where e = "e + 2"]
  have "kalloc_ok kend ?s ps" using kalloc_ok_outside[OF ok out al free] by simp
  moreover have "space_ok kend ?s ps pgdir" using sp st by (simp add: space_ok_def)
  moreover have "kmem ?s (PTE_ADDR e + of_nat i) = kmem s (PTE_ADDR e + of_nat i)" if "i < 4096" for i
    using that by (intro same_outside_page[OF out al PTE_ADDR_aligned pt]) (simp add: in_page_def)
  then have "bytes (kmem ?s) (PTE_ADDR e) 4096 = bytes (kmem s) (PTE_ADDR e) 4096" by (simp add: bytes_def)
  ultimately show ?thesis using run st out by (simp add: fault_done_def e2)
qed

lemma fault_shared:
  assumes f: "fault_ok kend s (q # ps) pgdir va e"
    and many: "1 < unat (refs s (PTE_ADDR e))" "unat (refs s (PTE_ADDR e)) < 2147483648"
  shows "\<exists>s'. cowHandler pgdir va s = Ret (Handled, s') \<and>
      fault_done kend s (q # ps) pgdir va e q ps s' \<and>
      (\<forall>p. page_ok kend p \<longrightarrow>
        refs s' p = (if p = q then 1 else if p = PTE_ADDR e then refs s p - 1 else refs s p))"
proof -
  let ?pa = "PTE_ADDR e" and ?t = "table_of (kmem s) pgdir va"
  have ok: "kalloc_ok kend s (q # ps)" and pa: "page_ok kend ?pa" "?pa \<noteq> q" "?pa \<notin> set ps"
    and sp: "space_ok kend s (q # ps) pgdir" and q: "page_ok kend q" "q \<noteq> 0" "q \<notin> set ps" "q < PHYSTOP"
      "q \<notin> owned (kmem s) pgdir"
    using f by (auto simp: fault_ok_def kalloc_ok_def space_ok_def page_ok_def)
  obtain s2 where s2: "kalloc s = Ret (q, s2)" "kalloc_ok kend s2 ps" "kmem s2 = kmem s"
      "ref_cnt s2 = (ref_cnt s)[unat (q div PGSIZE) := 1]" using kalloc_page[OF ok] by auto
  obtain s3 where s3: "decPageRef (?pa div PGSIZE) s2 = Ret s3" "kalloc_ok kend s3 ps" "kmem s3 = kmem s2"
      "\<forall>p. page_ok kend p \<longrightarrow> refs s3 p = refs s2 p - (if p = ?pa then 1 else 0)"
    using decPageRef_page[OF s2(2) pa(1,3)] by auto
  let ?m = "store32 (memmove (kmem s) q ?pa (unat PGSIZE)) (ent_addr ?t (ptx va)) (q OR PTE_FLAGS e OR PTE_W)"
  have fl: "q OR PTE_FLAGS e OR PTE_W OR PTE_P OR PTE_U = q OR PTE_FLAGS e OR PTE_W"
    using f fault_pte(4)[OF f] by (intro entry_flags) (auto simp: fault_ok_def)
  have "\<not> sint (refs s ?pa) \<le> 1" using many by (simp add: sint_le_1)
  then have run: "cowHandler pgdir va s = Ret (Handled, s3\<lparr>kmem := ?m\<rparr>)"
    using cowHandler_eval[OF f] s2 s3 q(2) by (simp add: fl copy_target_def)
  note cm = copy_and_map[OF f page_ok_aligned[OF q(1)] q(4,5), where e' = "q OR PTE_FLAGS e OR PTE_W"]
  have t: "?t \<in> owned (kmem s) pgdir" by (rule fault_pte(5)[OF f])
  then have "aligned ?t" "?t \<notin> set ps" using sp space_owned_aligned[OF sp] by (auto simp: space_ok_def)
  then have "kalloc_ok kend (s3\<lparr>kmem := ?m\<rparr>) ps"
    using cm(5) s2(3) s3(3) q page_ok_aligned by (intro kalloc_ok_outside[OF s3(2), of "{q, ?t}"]) auto
  moreover have "set (q # ps) - set ps = {q}" using q(3) by auto
  ultimately have "fault_done kend s (q # ps) pgdir va e q ps (s3\<lparr>kmem := ?m\<rparr>)"
    using cm sp by (auto simp: fault_done_def space_ok_def insert_commute)
  moreover have "refs s2 p = (if p = q then 1 else refs s p)" if "page_ok kend p" for p
    using ok by (intro refs_update[OF q(1) that _ s2(4)]) (simp add: kalloc_ok_def)
  ultimately show ?thesis using run s3(4) pa(2) by (auto simp: refs_def)
qed

lemma fault_done_frame:
  assumes d: "fault_done kend s ps pgdir va e q rs s'" and f: "fault_ok kend s ps pgdir va e"
  shows "page_ok kend p \<Longrightarrow> p \<notin> set ps \<Longrightarrow> p \<notin> owned (kmem s) pgdir \<Longrightarrow> in_page p x \<Longrightarrow> kmem s' x = kmem s x"
    and "space_ok kend s ps d \<Longrightarrow> owned (kmem s) d \<inter> owned (kmem s) pgdir = {} \<Longrightarrow>
         mapping (kmem s') d = mapping (kmem s) d"
proof -
  let ?P = "insert (table_of (kmem s) pgdir va) (set ps - set rs)"
  have out: "same_outside ?P (kmem s) (kmem s')" using d by (simp add: fault_done_def)
  have t: "table_of (kmem s) pgdir va \<in> owned (kmem s) pgdir" by (rule fault_pte(5)[OF f])
  have al: "\<forall>p\<in>?P. aligned p"
    using f t space_owned_aligned page_ok_aligned by (auto simp: fault_ok_def kalloc_ok_def)
  show "kmem s' x = kmem s x" if "page_ok kend p" "p \<notin> set ps" "p \<notin> owned (kmem s) pgdir" "in_page p x"
    using that t page_ok_aligned by (intro same_outside_page[OF out al _ _ that(4)]) auto
  show "mapping (kmem s') d = mapping (kmem s) d"
    if "space_ok kend s ps d" "owned (kmem s) d \<inter> owned (kmem s) pgdir = {}"
    using that t by (intro other_space(1)[OF out al _ that(1)]) (auto simp: space_ok_def)
qed

lemma fault_handled:
  assumes "fault_ok kend s ps pgdir va e" and "e AND PTE_W = 0"
    and "unat (refs s (PTE_ADDR e)) < 2147483648" and "unat (refs s (PTE_ADDR e)) \<le> 1 \<or> ps \<noteq> []"
  shows "\<exists>s' q rs. cowHandler pgdir va s = Ret (Handled, s') \<and> fault_done kend s ps pgdir va e q rs s' \<and> aligned q \<and>
     (if unat (refs s (PTE_ADDR e)) \<le> 1 then q = PTE_ADDR e \<and> refs s' (PTE_ADDR e) = refs s (PTE_ADDR e)
      else q \<in> set ps \<and> refs s' q = 1 \<and> refs s' (PTE_ADDR e) = refs s (PTE_ADDR e) - 1)"
proof (cases "unat (refs s (PTE_ADDR e)) \<le> 1")
  case True
  then obtain s' where "cowHandler pgdir va s = Ret (Handled, s')" "ref_cnt s' = ref_cnt s"
      "fault_done kend s ps pgdir va e (PTE_ADDR e) ps s'"
    using fault_alone[OF assms(1,2)] by blast
  then show ?thesis using True
    by (intro exI[of _ s'] exI[of _ "PTE_ADDR e"] exI[of _ ps]) (simp add: refs_def)
next
  case False
  then obtain q qs where ps: "ps = q # qs" using assms(4) by (cases ps) auto
  obtain s' where s': "cowHandler pgdir va s = Ret (Handled, s')" "fault_done kend s ps pgdir va e q qs s'"
      "\<forall>p. page_ok kend p \<longrightarrow>
        refs s' p = (if p = q then 1 else if p = PTE_ADDR e then refs s p - 1 else refs s p)"
    using fault_shared[of kend s q qs pgdir va e] assms(1,3) False ps by (auto simp: not_le)
  moreover have "page_ok kend q" "page_ok kend (PTE_ADDR e)" "PTE_ADDR e \<noteq> q"
    using assms(1) ps by (auto simp: fault_ok_def kalloc_ok_def)
  ultimately show ?thesis
    using False ps page_ok_aligned by (intro exI[of _ s'] exI[of _ q] exI[of _ qs]) auto
qed

text \<open>
  C2. A write to a copy-on-write page. When the handler does not run out of memory, the faulting
  process gets the page writable with its other flags unchanged, on a physical page with the same
  contents, and its other pages are as before. A page nobody shares is kept; otherwise the process
  gets a page that was free, with one reference, and the old page loses one. No byte of a physical
  page that is neither free nor a page table of this process changes, so that the others still read
  what they read before, and every other address space keeps its mapping.
\<close>

theorem cow_fault_isolates:
  assumes "fault_ok kend s ps pgdir va e" and "e AND PTE_W = 0"
    and "unat (refs s (PTE_ADDR e)) < 2147483648" and "unat (refs s (PTE_ADDR e)) \<le> 1 \<or> ps \<noteq> []"
  shows "\<exists>s' q. cowHandler pgdir va s = Ret (Handled, s') \<and>
     mapping (kmem s') pgdir va = Some (q OR PTE_FLAGS e OR PTE_W) \<and> PTE_ADDR (q OR PTE_FLAGS e OR PTE_W) = q \<and>
     (\<forall>a. unat a div 4096 \<noteq> unat va div 4096 \<longrightarrow> mapping (kmem s') pgdir a = mapping (kmem s) pgdir a) \<and>
     bytes (kmem s') q 4096 = bytes (kmem s) (PTE_ADDR e) 4096 \<and>
     (if unat (refs s (PTE_ADDR e)) \<le> 1 then q = PTE_ADDR e \<and> refs s' (PTE_ADDR e) = refs s (PTE_ADDR e)
      else q \<in> set ps \<and> refs s' q = 1 \<and> refs s' (PTE_ADDR e) = refs s (PTE_ADDR e) - 1) \<and>
     (\<forall>p x. page_ok kend p \<and> p \<notin> set ps \<and> p \<notin> owned (kmem s) pgdir \<and> in_page p x \<longrightarrow> kmem s' x = kmem s x) \<and>
     (\<forall>d. space_ok kend s ps d \<and> owned (kmem s) d \<inter> owned (kmem s) pgdir = {} \<longrightarrow>
        mapping (kmem s') d = mapping (kmem s) d)"
proof -
  obtain s' q rs where s': "cowHandler pgdir va s = Ret (Handled, s')" "fault_done kend s ps pgdir va e q rs s'"
    "aligned q"
    "if unat (refs s (PTE_ADDR e)) \<le> 1 then q = PTE_ADDR e \<and> refs s' (PTE_ADDR e) = refs s (PTE_ADDR e)
      else q \<in> set ps \<and> refs s' q = 1 \<and> refs s' (PTE_ADDR e) = refs s (PTE_ADDR e) - 1"
    using fault_handled[OF assms] by blast
  have pr: "present (q OR PTE_FLAGS e OR PTE_W)"
    using fault_pte(4)[OF assms(1)] by (simp add: present_bit bit_or_iff bit_PTE_FLAGS)
  have map: "mapping (kmem s') pgdir = set_page (mapping (kmem s) pgdir) va (q OR PTE_FLAGS e OR PTE_W)"
    and cp: "bytes (kmem s') q 4096 = bytes (kmem s) (PTE_ADDR e) 4096"
    using s'(2) by (simp_all add: fault_done_def)
  have ad: "PTE_ADDR (q OR PTE_FLAGS e OR PTE_W) = q" using s'(3) by (simp add: PTE_ADDR_or word_bw_assocs)
  show ?thesis
    using s'(1,4) pr map cp ad fault_done_frame[OF s'(2) assms(1)]
    by (intro exI[of _ s'] exI[of _ q]) (simp add: set_page_def same_page_def, blast)
qed

lemma PGROUNDDOWN_page: "same_page (PGROUNDDOWN va) va"
  by (simp add: same_page_def PGROUNDDOWN_nat)

lemma dealloc_null_page:
  assumes "mapping (kmem s) pgdir a = Some e" and "PTE_ADDR e = 0" and "a < oldsz"
    and "ent_addr (table_of (kmem s) pgdir a) (ptx a) \<noteq> 0"
  shows "dealloc_loop kend pgdir a oldsz s = Panic ''kfree''"
  using mapping_SomeD[OF assms(1)] assms(2-4)
  by (subst dealloc_loop.simps) (simp add: walk_found ent_def)

lemma no_memory_dec:
  assumes f: "fault_ok kend s [] pgdir va e"
    and many: "1 < unat (refs s (PTE_ADDR e))" "unat (refs s (PTE_ADDR e)) < 2147483648"
  obtains s3 where "kmem s3 = kmem s" "refs s3 (PTE_ADDR e) = refs s (PTE_ADDR e) - 1"
    "cowHandler pgdir va s = bindO (copy_target pgdir 0 s3) (\<lambda>dst. Ret (Killed,
       s3\<lparr>kmem := store32 (memmove (kmem s) dst (PTE_ADDR e) (unat PGSIZE))
          (ent_addr (table_of (kmem s) pgdir va) (ptx va)) (PTE_FLAGS e OR PTE_W)\<rparr>))"
proof -
  have ok: "kalloc_ok kend s []" and pa: "page_ok kend (PTE_ADDR e)" using f by (auto simp: fault_ok_def)
  obtain s3 where s3: "decPageRef (PTE_ADDR e div PGSIZE) s = Ret s3" "kmem s3 = kmem s"
      "\<forall>p. page_ok kend p \<longrightarrow> refs s3 p = refs s p - (if p = PTE_ADDR e then 1 else 0)"
    using decPageRef_page[OF ok pa] by auto
  have fl: "0 OR PTE_FLAGS e OR PTE_W OR PTE_P OR PTE_U = 0 OR PTE_FLAGS e OR PTE_W"
    using f fault_pte(4)[OF f] by (intro entry_flags) (auto simp: fault_ok_def)
  have "\<not> sint (refs s (PTE_ADDR e)) \<le> 1" using many by (simp add: sint_le_1)
  then show thesis
    using that[of s3] cowHandler_eval[OF f] kalloc_empty[OF ok] s3 pa fl by simp
qed

lemma cow_no_memory_fault:
  assumes f: "fault_ok kend s [] pgdir va e"
    and many: "1 < unat (refs s (PTE_ADDR e))" "unat (refs s (PTE_ADDR e)) < 2147483648"
    and m: "mapping (kmem s) pgdir 0 = None"
  shows "cowHandler pgdir va s = Undef ''cowHandler: fault in the kernel''"
proof -
  obtain s3 where s3: "kmem s3 = kmem s"
      "cowHandler pgdir va s = bindO (copy_target pgdir 0 s3) (\<lambda>dst. Ret (Killed,
         s3\<lparr>kmem := store32 (memmove (kmem s) dst (PTE_ADDR e) (unat PGSIZE))
            (ent_addr (table_of (kmem s) pgdir va) (ptx va)) (PTE_FLAGS e OR PTE_W)\<rparr>))"
    using no_memory_dec[OF f many] by metis
  have "copy_target pgdir 0 s3 = Undef ''cowHandler: fault in the kernel''"
  proof (cases "present (ent (kmem s) pgdir (pdx 0))")
    case True
    then have "\<not> present (ent (kmem s) (table_of (kmem s) pgdir 0) (ptx 0))"
      using m by (simp add: mapping_def table_of_def Let_def split: if_splits)
    then show ?thesis using walk_found[of s3 pgdir 0 False] True s3(1) by (simp add: copy_target_def ent_def)
  next
    case False
    then show ?thesis using walk_missing[of s3 pgdir 0] s3(1) by (simp add: copy_target_def)
  qed
  then show ?thesis using s3(2) by simp
qed

lemma cow_no_memory_copy:
  assumes f: "fault_ok kend s [] pgdir va e"
    and many: "1 < unat (refs s (PTE_ADDR e))" "unat (refs s (PTE_ADDR e)) < 2147483648"
    and m0: "mapping (kmem s) pgdir 0 = Some e0" "page_ok kend (PTE_ADDR e0)" "PTE_ADDR e0 \<notin> owned (kmem s) pgdir"
  shows "\<exists>s'. cowHandler pgdir va s = Ret (Killed, s') \<and>
     refs s' (PTE_ADDR e) = refs s (PTE_ADDR e) - 1 \<and>
     bytes (kmem s') (PTE_ADDR e0) 4096 = bytes (kmem s) (PTE_ADDR e) 4096 \<and>
     mapping (kmem s') pgdir va = Some (PTE_FLAGS e OR PTE_W) \<and> PTE_ADDR (PTE_FLAGS e OR PTE_W) = 0 \<and>
     (\<forall>oldsz. PGROUNDDOWN va < oldsz \<longrightarrow> dealloc_loop kend pgdir (PGROUNDDOWN va) oldsz s' = Panic ''kfree'')"
proof -
  let ?t = "table_of (kmem s) pgdir va" and ?e = "PTE_FLAGS e OR PTE_W"
  have sp: "space_ok kend s [] pgdir" and k: "0 < kend" using f by (auto simp: fault_ok_def kalloc_ok_def)
  obtain s3 where s3: "kmem s3 = kmem s" "refs s3 (PTE_ADDR e) = refs s (PTE_ADDR e) - 1"
      "cowHandler pgdir va s = bindO (copy_target pgdir 0 s3) (\<lambda>dst. Ret (Killed,
         s3\<lparr>kmem := store32 (memmove (kmem s) dst (PTE_ADDR e) (unat PGSIZE)) (ent_addr ?t (ptx va)) ?e\<rparr>))"
    using no_memory_dec[OF f many] by metis
  have z: "ent_addr (table_of (kmem s) pgdir 0) (ptx 0) \<noteq> 0"
    using sp store_pte(4)[of "kmem s" pgdir 0] mapping_SomeD(1)[OF m0(1)] k
    by (intro ent_addr_nonzero[of kend]) (auto simp: space_ok_def)
  have "copy_target pgdir 0 s3 = Ret (PTE_ADDR e0)"
    using walk_found[of s3 pgdir 0 False] mapping_SomeD[OF m0(1)] s3(1) z by (simp add: copy_target_def ent_def)
  then have run: "cowHandler pgdir va s = Ret (Killed,
      s3\<lparr>kmem := store32 (memmove (kmem s) (PTE_ADDR e0) (PTE_ADDR e) (unat PGSIZE)) (ent_addr ?t (ptx va)) ?e\<rparr>)"
    using s3(3) by simp
  let ?m = "store32 (memmove (kmem s) (PTE_ADDR e0) (PTE_ADDR e) (unat PGSIZE)) (ent_addr ?t (ptx va)) ?e"
  let ?s = "s3\<lparr>kmem := ?m\<rparr>"
  have b: "PTE_ADDR e0 < PHYSTOP" using m0(2) by (simp add: page_ok_def)
  note cm = copy_and_map[OF f PTE_ADDR_aligned b m0(3), where e' = ?e]
  let ?a = "PGROUNDDOWN va"
  have pr: "present ?e" using fault_pte(4)[OF f] by (simp add: present_bit bit_or_iff bit_PTE_FLAGS)
  then have m: "mapping (kmem ?s) pgdir ?a = Some ?e" "mapping (kmem ?s) pgdir va = Some ?e"
    using cm(1) PGROUNDDOWN_page by (simp_all add: set_page_def same_page_def)
  have "aligned 0" by (simp add: aligned_iff)
  then have pe: "PTE_ADDR ?e = 0" using PTE_ADDR_or[of 0 ?e] by simp
  have "table_of ?m pgdir ?a \<in> owned (kmem s) pgdir"
    using store_pte(4)[of ?m pgdir ?a] mapping_SomeD(1)[OF m(1)] cm(2,3) by simp
  then have "ent_addr (table_of ?m pgdir ?a) (ptx ?a) \<noteq> 0"
    using sp k by (intro ent_addr_nonzero[of kend]) (auto simp: space_ok_def)
  then have "dealloc_loop kend pgdir ?a oldsz ?s = Panic ''kfree''" if "?a < oldsz" for oldsz
    using dealloc_null_page[OF m(1) pe that] by simp
  moreover have "refs ?s (PTE_ADDR e) = refs s (PTE_ADDR e) - 1" using s3(2) by (simp add: refs_def)
  ultimately show ?thesis using run cm(4) m(2) pe by (intro exI[of _ ?s]) simp
qed

text \<open>
  C37. The handler when a shared page is written and no page is free. It marks the process killed, but goes on. The
  page's reference count is decremented although the copy failed. The copy goes to address 0, that is, over the
  first page of the process itself: its frame, which other processes may share, gets the contents of the page
  written to. The process is left with physical page 0 mapped and writable in place of the page. When
  the address space is freed later, \<open>deallocuvm\<close> panics there. A process without a first page makes the handler fault.
\<close>

theorem cow_fault_no_memory:
  assumes f: "fault_ok kend s [] pgdir va e"
    and many: "1 < unat (refs s (PTE_ADDR e))" "unat (refs s (PTE_ADDR e)) < 2147483648"
  shows "(mapping (kmem s) pgdir 0 = None \<longrightarrow> cowHandler pgdir va s = Undef ''cowHandler: fault in the kernel'') \<and>
    (\<forall>e0. mapping (kmem s) pgdir 0 = Some e0 \<and> page_ok kend (PTE_ADDR e0) \<and> PTE_ADDR e0 \<notin> owned (kmem s) pgdir \<longrightarrow>
       (\<exists>s'. cowHandler pgdir va s = Ret (Killed, s') \<and>
          refs s' (PTE_ADDR e) = refs s (PTE_ADDR e) - 1 \<and>
          bytes (kmem s') (PTE_ADDR e0) 4096 = bytes (kmem s) (PTE_ADDR e) 4096 \<and>
          mapping (kmem s') pgdir va = Some (PTE_FLAGS e OR PTE_W) \<and> PTE_ADDR (PTE_FLAGS e OR PTE_W) = 0 \<and>
          (\<forall>oldsz. PGROUNDDOWN va < oldsz \<longrightarrow>
             dealloc_loop kend pgdir (PGROUNDDOWN va) oldsz s' = Panic ''kfree'')))"
proof (intro conjI impI allI; (elim conjE)?)
  show "cowHandler pgdir va s = Undef ''cowHandler: fault in the kernel''" if "mapping (kmem s) pgdir 0 = None"
    by (rule cow_no_memory_fault[OF f many that])
  show "\<exists>s'. cowHandler pgdir va s = Ret (Killed, s') \<and>
      refs s' (PTE_ADDR e) = refs s (PTE_ADDR e) - 1 \<and>
      bytes (kmem s') (PTE_ADDR e0) 4096 = bytes (kmem s) (PTE_ADDR e) 4096 \<and>
      mapping (kmem s') pgdir va = Some (PTE_FLAGS e OR PTE_W) \<and> PTE_ADDR (PTE_FLAGS e OR PTE_W) = 0 \<and>
      (\<forall>oldsz. PGROUNDDOWN va < oldsz \<longrightarrow> dealloc_loop kend pgdir (PGROUNDDOWN va) oldsz s' = Panic ''kfree'')"
    if "mapping (kmem s) pgdir 0 = Some e0" "page_ok kend (PTE_ADDR e0)" "PTE_ADDR e0 \<notin> owned (kmem s) pgdir" for e0
    by (rule cow_no_memory_copy[OF f many that])
qed

section \<open>Examples\<close>

text \<open>
  Two empty directories at \<open>0x200000\<close> and \<open>0x201000\<close>, a user page at \<open>0x202000\<close> with two
  references, and a free list that starts at \<open>0x203000\<close> and goes on at \<open>nxt\<close>.
\<close>

definition demo_vm :: "u32 \<Rightarrow> u32 \<Rightarrow> kstate" where
  "demo_vm nxt n = \<lparr>kmem = store32 (\<lambda>_. 0) 0x203000 nxt, freelist = 0x203000, free_pages = n,
     ref_cnt = (replicate 4096 1)[0x202 := 2]\<rparr>"

lemma aligned_distinct: "aligned p \<Longrightarrow> aligned q \<Longrightarrow> p \<noteq> q \<Longrightarrow> in_page p x \<Longrightarrow> \<not> in_page q x"
  unfolding aligned_def by (rule in_page_distinct)

lemma demo_zero: "aligned p \<Longrightarrow> p \<noteq> 0x203000 \<Longrightarrow> in_page p x \<Longrightarrow> kmem (demo_vm nxt n) x = 0"
proof -
  assume p: "aligned p" "p \<noteq> 0x203000" "in_page p x"
  have "aligned 0x203000" by (simp add: aligned_iff)
  then have "\<not> in_page 0x203000 x" using p by (intro aligned_distinct[of p])
  then have "4 \<le> unat (x - 0x203000)" by (simp add: in_page_def)
  then show ?thesis using store32_outside[of x "0x203000"] by (simp add: demo_vm_def)
qed

lemma zero_space:
  assumes "\<And>x. in_page p x \<Longrightarrow> m x = 0" and "aligned p"
  shows "owned m p = {p}" and "pgdir_wf m p" and "mapping m p va = None"
proof -
  have z: "ent m p i = 0" if "i < 1024" for i
  proof -
    have "ent m p i = ent (\<lambda>_. 0) p i" using that assms(1) by (intro ent_cong) auto
    then show ?thesis by (simp add: ent_def load32_def le32_def)
  qed
  show "owned m p = {p}" "pgdir_wf m p" "mapping m p va = None"
    using z assms(2) by (auto simp: owned_def tables_def pgdir_wf_def mapping_def Let_def)
qed

lemma demo_aligned: "aligned 0x200000" "aligned 0x201000" "aligned 0x202000" "aligned 0"
  by (simp_all add: aligned_iff)

lemmas demo_space = zero_space[OF demo_zero, OF demo_aligned(1) _ _ demo_aligned(1)]
  zero_space[OF demo_zero, OF demo_aligned(2) _ _ demo_aligned(2)]

lemma demo_page_ok: "p \<in> {0x200000, 0x201000, 0x202000, 0x203000, 0x204000} \<Longrightarrow> page_ok 0x200000 p"
  by (auto simp: page_ok_def PGSIZE_def PHYSTOP_def)

lemma demo_kalloc:
  "kalloc_ok 0x200000 (demo_vm 0 1) [0x203000]"
  "kalloc_ok 0x200000 (demo_vm 0x204000 2) [0x203000, 0x204000]"
proof -
  have l: "load32 (kmem (demo_vm nxt n)) 0x203000 = nxt" "load32 (kmem (demo_vm nxt n)) 0x204000 = 0" for nxt n
    by (simp_all add: demo_vm_def load32_store32_other) (simp add: load32_def le32_def)
  then show "kalloc_ok 0x200000 (demo_vm 0 1) [0x203000]"
    "kalloc_ok 0x200000 (demo_vm 0x204000 2) [0x203000, 0x204000]"
    using demo_page_ok by (simp_all add: kalloc_ok_def) (simp_all add: demo_vm_def PGSIZE_def)
qed

lemma demo_pair:
  assumes "kalloc_ok 0x200000 (demo_vm nxt n) ps" and "set ps \<subseteq> {0x203000, 0x204000}"
  shows "pair_ok 0x200000 (demo_vm nxt n) ps 0x201000 0x200000"
  using assms demo_page_ok demo_space
  by (auto simp: pair_ok_def space_ok_def)

text \<open>The user page mapped read-only at address 0 of the directory at \<open>0x200000\<close>.\<close>

definition demo_pte :: u32 where
  "demo_pte = pte_of 0x202000 PTE_U"

lemma demo_pte:
  "PTE_ADDR demo_pte = 0x202000" "present demo_pte" "demo_pte AND PTE_U \<noteq> 0" "demo_pte AND PTE_W = 0"
  using PTE_ADDR_or[OF demo_aligned(3), of "PTE_U OR PTE_P"]
  by (simp_all add: demo_pte_def pte_of_def word_bw_assocs) (simp_all add: PTE_U_def PTE_P_def PTE_W_def present_def)

lemma owned_table:
  assumes "space_ok kend s ps p" and "mapping (kmem s) p va = Some e"
  shows "owned (kmem s) p \<noteq> {p}"
proof -
  have "table_of (kmem s) p va \<in> tables (kmem s) p"
    using mapping_SomeD(1)[OF assms(2)] by (auto simp: tables_def table_of_def)
  moreover have "p \<notin> tables (kmem s) p" using assms(1) by (simp add: space_ok_def pgdir_wf_def)
  ultimately show ?thesis by (auto simp: owned_def)
qed

lemma demo_mapped:
  assumes "kalloc_ok 0x200000 (demo_vm nxt n) (0x203000 # rs)" and "set rs \<subseteq> {0x204000}" and va: "aligned va"
  shows "\<exists>s. mappages 0x200000 va PGSIZE 0x202000 PTE_U (demo_vm nxt n) = Ret (0, s) \<and>
     pair_ok 0x200000 s rs 0x200000 0x201000 \<and>
     mapping (kmem s) 0x200000 = set_page (\<lambda>_. None) va demo_pte \<and> mapping (kmem s) 0x201000 = (\<lambda>_. None) \<and>
     owned (kmem s) 0x200000 = {0x200000, 0x203000} \<and> unat (refs s 0x202000) = 2"
proof -
  have pr: "pair_ok 0x200000 (demo_vm nxt n) (0x203000 # rs) 0x201000 0x200000"
    using assms by (intro demo_pair) auto
  have none: "mapping (kmem (demo_vm nxt n)) 0x200000 va = None" by (rule demo_space) simp_all
  obtain s qs rs' where s: "mappages 0x200000 va PGSIZE 0x202000 PTE_U (demo_vm nxt n) = Ret (0, s)"
      "0x203000 # rs = qs @ rs'" "length qs \<le> 1" "pair_ok 0x200000 s rs' 0x201000 0x200000"
      "owned (kmem s) 0x200000 = owned (kmem (demo_vm nxt n)) 0x200000 \<union> set qs"
      "mapping (kmem s) 0x201000 = mapping (kmem (demo_vm nxt n)) 0x201000"
      "mapping (kmem s) 0x200000 = set_page (mapping (kmem (demo_vm nxt n)) 0x200000) va demo_pte"
      "\<forall>p. page_ok 0x200000 p \<longrightarrow> p \<notin> set (0x203000 # rs) \<longrightarrow> page_count s p = page_count (demo_vm nxt n) p"
    using mappages_pair[OF pr va none, of "0x202000" PTE_U, folded demo_pte_def]
      list.distinct(2)[of "0x203000" rs] by blast
  have m: "mapping (kmem s) 0x200000 va = Some demo_pte" using s(7) demo_pte by (simp add: set_page_def same_page_def)
  have "qs \<noteq> []" using owned_table[OF _ m] s(4,5) demo_space(1) by (auto simp: pair_ok_def)
  then have q: "qs = [0x203000]" "rs' = rs" using s(2,3) by (cases qs; auto)+
  have "page_count s 0x202000 = 2"
    using s(8)[THEN spec, of "0x202000"] demo_page_ok[of "0x202000"] assms(2)
    by (auto simp: page_count_def demo_vm_def PGSIZE_def)
  moreover have "mapping (kmem (demo_vm nxt n)) 0x200000 = (\<lambda>_. None)"
    "mapping (kmem (demo_vm nxt n)) 0x201000 = (\<lambda>_. None)"
    "owned (kmem (demo_vm nxt n)) 0x200000 = {0x200000}"
    using demo_space by (auto intro!: ext)
  ultimately show ?thesis
    using s q by (auto simp: page_count_refs pair_ok_def)
qed

theorem mappages_refines_witness:
  "\<exists>r s' (n::nat). mappages 0x200000 0x10 PGSIZE 0x202000 PTE_U (demo_vm 0 1) = Ret (r, s') \<and>
     (r = 0 \<and> n = 2 \<or> r = -1 \<and> n < 2) \<and>
     mapping (kmem s') 0x200000 0x1FFF = (if n = 2 then Some (0x203000 OR PTE_U OR PTE_P) else None) \<and>
     mapping (kmem s') 0x200000 0x2000 = None \<and> mapping (kmem s') 0x201000 0 = None"
proof -
  have pr: "pair_ok 0x200000 (demo_vm 0 1) [0x203000] 0x201000 0x200000" by (intro demo_pair demo_kalloc) simp
  have none: "mapping (kmem (demo_vm 0 1)) 0x200000 a = None" "mapping (kmem (demo_vm 0 1)) 0x201000 a = None" for a
    by (rule demo_space, simp_all)+
  have h: "kalloc_ok 0x200000 (demo_vm 0 1) [0x203000]" "space_ok 0x200000 (demo_vm 0 1) [0x203000] 0x200000"
    "space_ok 0x200000 (demo_vm 0 1) [0x203000] 0x201000"
    "owned (kmem (demo_vm 0 1)) 0x201000 \<inter> owned (kmem (demo_vm 0 1)) 0x200000 = {}"
    using pr by (auto simp: pair_ok_def)
  have "range_pages 0x10 PGSIZE = 2" "PGSIZE \<noteq> 0" by (simp_all add: range_pages_def PGSIZE_def)
  then obtain r s' n where s': "mappages 0x200000 0x10 PGSIZE 0x202000 PTE_U (demo_vm 0 1) = Ret (r, s')"
      "r = 0 \<and> n = 2 \<or> r = -1 \<and> n < 2"
      "\<And>a. mapping (kmem s') 0x200000 a = (if unat a div 4096 < n
          then Some ((0x202000 + of_nat (unat a div 4096 * 4096)) OR PTE_U OR PTE_P) else None)"
      "mapping (kmem s') 0x201000 = mapping (kmem (demo_vm 0 1)) 0x201000"
    using mappages_refines[OF h(1,2), of PGSIZE "0x10" "0x202000" PTE_U] h(3,4) none by auto
  then show ?thesis using none by (intro exI[of _ r] exI[of _ s'] exI[of _ n]) auto
qed

theorem cow_fault_isolates_witness:
  "\<exists>s s' q. mapping (kmem s) 0x200000 = set_page (\<lambda>_. None) 0 demo_pte \<and>
     cowHandler 0x200000 0x10 s = Ret (Handled, s') \<and> q \<in> {0x204000} \<and> refs s' q = 1 \<and>
     mapping (kmem s') 0x200000 0x10 = Some (q OR PTE_FLAGS demo_pte OR PTE_W) \<and>
     bytes (kmem s') q 4096 = bytes (kmem s) 0x202000 4096"
proof -
  obtain s where s: "pair_ok 0x200000 s [0x204000] 0x200000 0x201000"
      "mapping (kmem s) 0x200000 = set_page (\<lambda>_. None) 0 demo_pte"
      "owned (kmem s) 0x200000 = {0x200000, 0x203000}" "unat (refs s 0x202000) = 2"
    using demo_mapped[OF demo_kalloc(2) _ demo_aligned(4)] by auto
  have "fault_ok 0x200000 s [0x204000] 0x200000 0x10 demo_pte"
    using s demo_page_ok demo_pte
    by (auto simp: fault_ok_def pair_ok_def set_page_def same_page_def USERTOP_def)
  then show ?thesis
    using cow_fault_isolates[of "0x200000" s "[0x204000]" "0x200000" "0x10" demo_pte] s(2,4) demo_pte
    by fastforce
qed

text \<open>The shared page mapped at address 4096, the frame \<open>0x204000\<close> at address 0, and no free page.\<close>

definition demo_low :: u32 where
  "demo_low = pte_of 0x204000 PTE_U"

lemma demo_low: "PTE_ADDR demo_low = 0x204000"
  using PTE_ADDR_or[of "0x204000" "PTE_U OR PTE_P"]
  by (simp add: demo_low_def pte_of_def word_bw_assocs aligned_iff PTE_U_def PTE_P_def is_flags_def)

lemma demo_full:
  "\<exists>s. pair_ok 0x200000 s [] 0x200000 0x201000 \<and>
     mapping (kmem s) 0x200000 = set_page (set_page (\<lambda>_. None) 0x1000 demo_pte) 0 demo_low \<and>
     owned (kmem s) 0x200000 = {0x200000, 0x203000} \<and> unat (refs s 0x202000) = 2"
proof -
  have a: "aligned 0x1000" by (simp add: aligned_iff)
  obtain s where s: "pair_ok 0x200000 s [] 0x200000 0x201000"
      "mapping (kmem s) 0x200000 = set_page (\<lambda>_. None) 0x1000 demo_pte"
      "owned (kmem s) 0x200000 = {0x200000, 0x203000}" "unat (refs s 0x202000) = 2"
    using demo_mapped[OF demo_kalloc(1) _ a] by auto
  have pr: "pair_ok 0x200000 s [] 0x201000 0x200000" using s(1) by (auto simp: pair_ok_def)
  have "mapping (kmem s) 0x200000 0x1000 = Some demo_pte" and none: "mapping (kmem s) 0x200000 0 = None"
    using s(2) demo_pte(2) by (simp_all add: set_page_def same_page_def)
  then have "present (ent (kmem s) 0x200000 (pdx 0))"
    using mapping_SomeD(1)[of "kmem s" "0x200000" "0x1000" demo_pte] by (simp add: pdx_def)
  then obtain s' where s': "pair_ok 0x200000 s' [] 0x201000 0x200000"
      "owned (kmem s') 0x200000 = owned (kmem s) 0x200000"
      "mapping (kmem s') 0x200000 = set_page (mapping (kmem s) 0x200000) 0 demo_low"
      "\<forall>p. page_ok 0x200000 p \<longrightarrow> page_count s' p = page_count s p"
    using mappages_pair[OF pr demo_aligned(4) none, of "0x204000" PTE_U, folded demo_low_def] by auto
  have "unat (refs s' 0x202000) = 2"
    using s'(4) s(4) demo_page_ok[of "0x202000"] by (simp add: page_count_refs)
  then show ?thesis using s' s by (intro exI[of _ s']) (auto simp: pair_ok_def)
qed

theorem cow_fault_no_memory_witness:
  "\<exists>s s'. mapping (kmem s) 0x200000 0x1010 = Some demo_pte \<and>
     mapping (kmem s) 0x200000 0 = Some demo_low \<and>
     cowHandler 0x200000 0x1010 s = Ret (Killed, s') \<and>
     bytes (kmem s') 0x204000 4096 = bytes (kmem s) 0x202000 4096 \<and>
     dealloc_loop 0x200000 0x200000 0x1000 8192 s' = Panic ''kfree''"
proof -
  obtain s where s: "pair_ok 0x200000 s [] 0x200000 0x201000"
      "mapping (kmem s) 0x200000 = set_page (set_page (\<lambda>_. None) 0x1000 demo_pte) 0 demo_low"
      "owned (kmem s) 0x200000 = {0x200000, 0x203000}" "unat (refs s 0x202000) = 2"
    using demo_full by auto
  have low: "present demo_low" by (simp add: demo_low_def pte_of_def present_def PTE_U_def PTE_P_def)
  have m: "mapping (kmem s) 0x200000 0x1010 = Some demo_pte" "mapping (kmem s) 0x200000 0 = Some demo_low"
    using s(2) demo_pte(2) low by (simp_all add: set_page_def same_page_def)
  have f: "fault_ok 0x200000 s [] 0x200000 0x1010 demo_pte"
    using s(1,3) m demo_page_ok demo_pte
    by (auto simp: fault_ok_def pair_ok_def USERTOP_def)
  have k: "page_ok 0x200000 (PTE_ADDR demo_low)" "PTE_ADDR demo_low \<notin> owned (kmem s) 0x200000"
    using s(3) demo_page_ok demo_low by simp_all
  have "PGROUNDDOWN 0x1010 = 0x1000" by (simp add: PGROUNDDOWN_def PGSIZE_def)
  then show ?thesis
    using conjunct2[OF cow_fault_no_memory[OF f]] s(4) m k demo_pte(1) demo_low by fastforce
qed

theorem cow_loop_shares_witness:
  "\<exists>s s'. mapping (kmem s) 0x200000 = set_page (\<lambda>_. None) 0 demo_pte \<and>
     cow_loop 0x200000 0x201000 0 4096 s = Ret (True, s') \<and>
     mapping (kmem s') 0x201000 0 = Some (demo_pte AND NOT PTE_W)"
proof -
  obtain s where s: "pair_ok 0x200000 s [0x204000] 0x200000 0x201000"
      "mapping (kmem s) 0x200000 = set_page (\<lambda>_. None) 0 demo_pte" "mapping (kmem s) 0x201000 = (\<lambda>_. None)"
    using demo_mapped[OF demo_kalloc(2) _ demo_aligned(4)] by auto
  have r: "in_range 0 4096 a \<longleftrightarrow> same_page a 0" for a by (auto simp: in_range_def same_page_def)
  have "user_ok 0x200000 s [0x204000] 0x200000 0 4096"
    using s demo_page_ok demo_pte by (auto simp: user_ok_def r set_page_def)
  moreover have "in_range 0 4096 0" by (simp add: in_range_def)
  ultimately show ?thesis
    using cow_loop_shares[OF s(1), of 4096] s(2,3) demo_pte(2)
    by (fastforce simp: USERTOP_def set_page_def same_page_def)
qed

end
