(* ===== verification/Sh.thy ===== *)
theory Sh
  imports Prelude
begin

text \<open>
  The shell of xv6 (\<open>src/P5/xv6/user/sh.c\<close>): the tokeniser, the recursive descent parser and
  \<open>nulterminate\<close>.

  A command line is a list of characters without the terminating NUL, so \<open>es\<close> is its length and the
  character at \<open>es\<close> is NUL. Pointers into the line are positions. A command tree is a value: the
  parser fills \<open>argv\<close> of an \<open>execcmd\<close> that already hangs below \<open>redircmd\<close> nodes, which is an update
  of the innermost node. \<open>malloc\<close> is taken to succeed. The parser calls itself only after it has
  consumed a character; the four mutually recursive functions carry a counter for the depth of
  calls, and it is proved that \<open>parsecmd\<close> starts them with enough.
\<close>

section \<open>Command trees\<close>

definition MAXARGS :: nat where "MAXARGS = 10"

datatype cmd =
    EXEC "(nat \<times> nat) list"
  | REDIR cmd nat nat int int
  | PIPE cmd cmd
  | LIST cmd cmd
  | BACK cmd

definition O_RDONLY :: int where "O_RDONLY = 0"
definition O_WRONLY :: int where "O_WRONLY = 1"
definition O_CREATE :: int where "O_CREATE = 512"

text \<open>The constructors: a fresh, cleared node with its fields set.\<close>

definition execcmd :: cmd where [simp]: "execcmd = EXEC []"

definition redircmd :: "cmd \<Rightarrow> nat \<Rightarrow> nat \<Rightarrow> int \<Rightarrow> int \<Rightarrow> cmd" where
  [simp]: "redircmd subcmd file efile mode fd = REDIR subcmd file efile mode fd"

definition pipecmd :: "cmd \<Rightarrow> cmd \<Rightarrow> cmd" where [simp]: "pipecmd left right = PIPE left right"
definition listcmd :: "cmd \<Rightarrow> cmd \<Rightarrow> cmd" where [simp]: "listcmd left right = LIST left right"
definition backcmd :: "cmd \<Rightarrow> cmd" where [simp]: "backcmd subcmd = BACK subcmd"

text \<open>\<open>cmd->argv[argc] = q; cmd->eargv[argc] = eq\<close> on the node that \<open>execcmd\<close> made.\<close>

fun add_arg :: "nat \<Rightarrow> nat \<Rightarrow> cmd \<Rightarrow> cmd" where
  "add_arg q eq (EXEC args) = EXEC (args @ [(q, eq)])"
| "add_arg q eq (REDIR c f ef mode fd) = REDIR (add_arg q eq c) f ef mode fd"
| "add_arg q eq c = c"

section \<open>Tokens\<close>

definition NUL :: char where "NUL = CHR 0x00"

definition whitespace :: string where
  "whitespace = [CHR 0x20, CHR 0x09, CHR 0x0D, CHR 0x0A, CHR 0x0B]"

definition symbols :: string where
  "symbols = ''<|>&;()''"

text \<open>\<open>strchr\<close> never finds NUL.\<close>

definition strchr :: "string \<Rightarrow> char \<Rightarrow> bool" where
  "strchr t c \<longleftrightarrow> c \<in> set t \<and> c \<noteq> NUL"

definition ch :: "string \<Rightarrow> nat \<Rightarrow> char" where
  "ch b s = (if s < length b then b ! s else NUL)"

function skip_while :: "(char \<Rightarrow> bool) \<Rightarrow> string \<Rightarrow> nat \<Rightarrow> nat" where
  "skip_while P b s = (if s < length b \<and> P (b ! s) then skip_while P b (Suc s) else s)"
  by auto

termination
  by (relation "measure (\<lambda>(_, b, s). length b - s)") auto

declare skip_while.simps [simp del]

definition skip_ws :: "string \<Rightarrow> nat \<Rightarrow> nat" where
  "skip_ws b s = skip_while (strchr whitespace) b s"

definition word_char :: "char \<Rightarrow> bool" where
  "word_char c \<longleftrightarrow> \<not> strchr whitespace c \<and> \<not> strchr symbols c"

text \<open>The token, where it starts and ends, and the position after the blanks that follow it.\<close>

definition gettoken :: "string \<Rightarrow> nat \<Rightarrow> char \<times> nat \<times> nat \<times> nat" where
  "gettoken b s =
     (let q = skip_ws b s; c = ch b q;
          (ret, e) =
            (if c = NUL then (c, q)
             else if c \<in> set ''|();&<'' then (c, Suc q)
             else if c = CHR ''>'' then
               if ch b (Suc q) = CHR ''>'' then (CHR ''+'', Suc (Suc q)) else (c, Suc q)
             else (CHR ''a'', skip_while word_char b q))
      in (ret, q, e, skip_ws b e))"

definition peek :: "string \<Rightarrow> nat \<Rightarrow> string \<Rightarrow> bool \<times> nat" where
  "peek b s toks = (let s' = skip_ws b s; c = ch b s' in (c \<noteq> NUL \<and> strchr toks c, s'))"

section \<open>Facts on tokens\<close>

lemma skip_while_bounds:
  "s \<le> skip_while P b s" "s \<le> length b \<Longrightarrow> skip_while P b s \<le> length b"
proof -
  show "s \<le> skip_while P b s"
  proof (induction P b s rule: skip_while.induct)
    case (1 P b s)
    then show ?case using skip_while.simps[of P b s] by auto
  qed
  show "s \<le> length b \<Longrightarrow> skip_while P b s \<le> length b"
  proof (induction P b s rule: skip_while.induct)
    case (1 P b s)
    then show ?case using skip_while.simps[of P b s] by auto
  qed
qed

lemma skip_while_skips:
  "s \<le> k \<Longrightarrow> k < skip_while P b s \<Longrightarrow> k < length b \<and> P (b ! k)"
proof (induction P b s rule: skip_while.induct)
  case (1 P b s)
  then show ?case using skip_while.simps[of P b s] by (cases "k = s") (auto split: if_splits)
qed

lemma skip_while_stops:
  "skip_while P b s < length b \<Longrightarrow> \<not> P (b ! skip_while P b s)"
proof (induction P b s rule: skip_while.induct)
  case (1 P b s)
  then show ?case using skip_while.simps[of P b s] by (auto split: if_splits)
qed

lemma skip_ws_bounds [simp]:
  "s \<le> skip_ws b s" "s \<le> length b \<Longrightarrow> skip_ws b s \<le> length b"
  using skip_while_bounds by (auto simp: skip_ws_def)

lemma skip_ws_ch: "\<not> strchr whitespace (ch b (skip_ws b s))"
  using skip_while_stops[of "strchr whitespace" b s]
  by (auto simp: ch_def skip_ws_def strchr_def)

lemma peek_bounds: "peek b s toks = (r, s') \<Longrightarrow> s \<le> s' \<and> (s \<le> length b \<longrightarrow> s' \<le> length b) \<and> (r \<longrightarrow> s' < length b)"
  using skip_ws_bounds[of s b] by (auto simp: peek_def Let_def ch_def simp del: skip_ws_bounds split: if_splits)

text \<open>A token that is not the end advances the position.\<close>

lemma gettoken_bounds:
  assumes "gettoken b s = (tok, q, eq, s')"
  shows "s \<le> q" and "q \<le> eq" and "eq \<le> s'" and "s \<le> length b \<Longrightarrow> s' \<le> length b \<and> eq \<le> length b"
    and "tok \<noteq> NUL \<Longrightarrow> q < eq \<and> q < length b"
proof -
  let ?q = "skip_ws b s"
  have w: "?q < skip_while word_char b ?q" if "?q < length b" "word_char (b ! ?q)"
    using that skip_while_bounds(1)[of "Suc ?q" word_char b] by (subst skip_while.simps) simp
  have wc: "word_char (ch b ?q)" if "ch b ?q \<notin> set ''|();&<''" "ch b ?q \<noteq> CHR ''>''"
    using that skip_ws_ch[of b s] by (auto simp: word_char_def symbols_def strchr_def)
  have q: "q = ?q" "s' = skip_ws b eq" using assms by (auto simp: gettoken_def Let_def split: prod.splits if_splits)
  then show "s \<le> q" "eq \<le> s'" by simp_all
  show "q \<le> eq" "tok \<noteq> NUL \<Longrightarrow> q < eq \<and> q < length b"
    using assms w wc skip_while_bounds(1)[of ?q word_char b]
    by (auto simp: gettoken_def Let_def ch_def split: if_splits)
  have "?q < length b" if "ch b ?q \<noteq> NUL" using that by (simp add: ch_def split: if_splits)
  moreover have "Suc ?q < length b" if "ch b (Suc ?q) = CHR ''>''"
    using that by (simp add: ch_def NUL_def split: if_splits)
  ultimately have "eq \<le> length b" if "s \<le> length b"
    using assms that skip_while_bounds(2)[of ?q b word_char] skip_ws_bounds(2)[OF that]
    by (auto simp: gettoken_def Let_def split: if_splits)
  then show "s \<le> length b \<Longrightarrow> s' \<le> length b \<and> eq \<le> length b" using q(2) by simp
qed

lemma skip_while_idem: "skip_while P b (skip_while P b s) = skip_while P b s"
  using skip_while_stops[of P b s] by (subst skip_while.simps) auto

lemma peek_gettoken:
  assumes "peek b s toks = (True, s1)" and "gettoken b s1 = (tok, q, eq, s2)"
  shows "s < s2" and "s < length b" and "tok \<noteq> NUL"
proof -
  have s1: "s1 = skip_ws b s" "ch b s1 \<noteq> NUL" using assms(1) by (auto simp: peek_def Let_def)
  have "skip_ws b s1 = s1" unfolding s1(1) skip_ws_def by (rule skip_while_idem)
  then show t: "tok \<noteq> NUL"
    using assms(2) s1(2) by (auto simp: gettoken_def Let_def NUL_def split: if_splits)
  show "s < s2" "s < length b"
    using t gettoken_bounds[OF assms(2)] peek_bounds[OF assms(1)] by auto
qed

lemma token_advance:
  assumes "peek b s toks = (True, s1)" and "gettoken b s1 = (tok, q, eq, s2)"
  shows "length b - s2 < length b - s"
  using peek_gettoken[OF assms] by simp

lemma redir_advance:
  assumes "peek b s toks = (True, s1)" and "gettoken b s1 = (tok, q0, eq0, s2)"
    and "gettoken b s2 = (tok', q, eq, s3)"
  shows "length b - s3 < length b - s"
  using peek_gettoken(1,2)[OF assms(1,2)] gettoken_bounds(1-3)[OF assms(3)] by linarith

section \<open>The parser\<close>

definition redir :: "char \<Rightarrow> cmd \<Rightarrow> nat \<Rightarrow> nat \<Rightarrow> cmd" where
  "redir tok c q eq =
     (if tok = CHR ''<'' then redircmd c q eq O_RDONLY 0 else redircmd c q eq (O_WRONLY + O_CREATE) 1)"

function parseredirs :: "string \<Rightarrow> cmd \<Rightarrow> nat \<Rightarrow> (cmd \<times> nat) outcome" where
  "parseredirs b c s =
     (case peek b s ''<>'' of (p, s1) \<Rightarrow>
      if p then
        (case gettoken b s1 of (tok, _, _, s2) \<Rightarrow>
         case gettoken b s2 of (tok', q, eq, s3) \<Rightarrow>
           if tok' \<noteq> CHR ''a'' then Panic ''missing file for redirection''
           else parseredirs b (redir tok c q eq) s3)
      else Ret (c, s1))"
  by auto

termination
  by (relation "measure (\<lambda>(b, _, s). length b - s)") (auto dest: redir_advance[OF sym sym sym])

declare parseredirs.simps [simp del]

function back_loop :: "string \<Rightarrow> cmd \<Rightarrow> nat \<Rightarrow> cmd \<times> nat" where
  "back_loop b c s =
     (case peek b s ''&'' of (p, s1) \<Rightarrow>
      if p then (case gettoken b s1 of (_, _, _, s2) \<Rightarrow> back_loop b (backcmd c) s2) else (c, s1))"
  by auto

termination
  by (relation "measure (\<lambda>(b, _, s). length b - s)") (auto dest: token_advance[OF sym sym])

declare back_loop.simps [simp del]

text \<open>The loop of \<open>parseexec\<close>. At the end of the line it leaves without a token.\<close>

function arg_loop :: "string \<Rightarrow> nat \<Rightarrow> cmd \<Rightarrow> nat \<Rightarrow> (cmd \<times> nat) outcome" where
  "arg_loop b argc ret s =
     (case peek b s ''|)&;'' of (p, s1) \<Rightarrow>
      if p then Ret (ret, s1)
      else
        (case gettoken b s1 of (tok, q, eq, s2) \<Rightarrow>
         if tok = NUL then Ret (ret, s2)
         else if tok \<noteq> CHR ''a'' then Panic ''syntax''
         else if Suc argc \<ge> MAXARGS then Panic ''too many args''
         else bindO (parseredirs b (add_arg q eq ret) s2) (\<lambda>(ret', s3). arg_loop b (Suc argc) ret' s3)))"
  by auto

termination
  by (relation "measure (\<lambda>(_, argc, _, _). MAXARGS - argc)") auto

declare arg_loop.simps [simp del]

fun parseline :: "nat \<Rightarrow> string \<Rightarrow> nat \<Rightarrow> (cmd \<times> nat) outcome"
  and parsepipe :: "nat \<Rightarrow> string \<Rightarrow> nat \<Rightarrow> (cmd \<times> nat) outcome"
  and parseexec :: "nat \<Rightarrow> string \<Rightarrow> nat \<Rightarrow> (cmd \<times> nat) outcome"
  and parseblock :: "nat \<Rightarrow> string \<Rightarrow> nat \<Rightarrow> (cmd \<times> nat) outcome" where
  "parseline 0 b s = Undef ''depth''"
| "parseline (Suc n) b s =
     bindO (parsepipe n b s) (\<lambda>(c0, s0).
     case back_loop b c0 s0 of (c, s1) \<Rightarrow>
     case peek b s1 '';'' of (p, s2) \<Rightarrow>
       if p then
         (case gettoken b s2 of (_, _, _, s3) \<Rightarrow>
          bindO (parseline n b s3) (\<lambda>(c', s4). Ret (listcmd c c', s4)))
       else Ret (c, s2))"
| "parsepipe 0 b s = Undef ''depth''"
| "parsepipe (Suc n) b s =
     bindO (parseexec n b s) (\<lambda>(c, s1).
     case peek b s1 ''|'' of (p, s2) \<Rightarrow>
       if p then
         (case gettoken b s2 of (_, _, _, s3) \<Rightarrow>
          bindO (parsepipe n b s3) (\<lambda>(c', s4). Ret (pipecmd c c', s4)))
       else Ret (c, s2))"
| "parseexec 0 b s = Undef ''depth''"
| "parseexec (Suc n) b s =
     (case peek b s ''('' of (p, s1) \<Rightarrow>
      if p then parseblock n b s1
      else bindO (parseredirs b execcmd s1) (\<lambda>(ret, s2). arg_loop b 0 ret s2))"
| "parseblock 0 b s = Undef ''depth''"
| "parseblock (Suc n) b s =
     (case peek b s ''('' of (p, s1) \<Rightarrow>
      if \<not> p then Panic ''parseblock''
      else
        (case gettoken b s1 of (_, _, _, s2) \<Rightarrow>
         bindO (parseline n b s2) (\<lambda>(c, s3).
         case peek b s3 '')'' of (p', s4) \<Rightarrow>
           if \<not> p' then Panic ''syntax - missing )''
           else (case gettoken b s4 of (_, _, _, s5) \<Rightarrow> parseredirs b c s5))))"

text \<open>\<open>buf\<close> is the line with its terminating NUL.\<close>

fun nulterminate :: "cmd \<Rightarrow> string \<Rightarrow> string" where
  "nulterminate (EXEC args) buf = foldl (\<lambda>buf (q, eq). buf[eq := NUL]) buf args"
| "nulterminate (REDIR c f ef mode fd) buf = (nulterminate c buf)[ef := NUL]"
| "nulterminate (PIPE l r) buf = nulterminate r (nulterminate l buf)"
| "nulterminate (LIST l r) buf = nulterminate r (nulterminate l buf)"
| "nulterminate (BACK c) buf = nulterminate c buf"

definition depth_for :: "string \<Rightarrow> nat \<Rightarrow> nat" where
  "depth_for b s = 4 * (length b - s) + 4"

definition parsecmd :: "string \<Rightarrow> (cmd \<times> string) outcome" where
  "parsecmd b =
     bindO (parseline (depth_for b 0) b 0) (\<lambda>(c, s).
     case peek b s [] of (_, s1) \<Rightarrow>
       if s1 \<noteq> length b then Panic ''syntax'' else Ret (c, nulterminate c (b @ [NUL])))"

section \<open>The parser returns\<close>

text \<open>The words a tree refers to.\<close>

definition tok_ok :: "string \<Rightarrow> nat \<Rightarrow> nat \<Rightarrow> bool" where
  "tok_ok b q eq \<longleftrightarrow> q < eq \<and> eq \<le> length b \<and> (\<forall>k. q \<le> k \<and> k < eq \<longrightarrow> word_char (b ! k) \<and> b ! k \<noteq> NUL) \<and>
     (eq < length b \<longrightarrow> \<not> word_char (b ! eq))"

fun spans :: "cmd \<Rightarrow> (nat \<times> nat) list" where
  "spans (EXEC args) = args"
| "spans (REDIR c f ef mode fd) = (f, ef) # spans c"
| "spans (PIPE l r) = spans l @ spans r"
| "spans (LIST l r) = spans l @ spans r"
| "spans (BACK c) = spans c"

fun args_ok :: "cmd \<Rightarrow> bool" where
  "args_ok (EXEC args) \<longleftrightarrow> length args < MAXARGS"
| "args_ok (REDIR c f ef mode fd) \<longleftrightarrow> args_ok c"
| "args_ok (PIPE l r) \<longleftrightarrow> args_ok l \<and> args_ok r"
| "args_ok (LIST l r) \<longleftrightarrow> args_ok l \<and> args_ok r"
| "args_ok (BACK c) \<longleftrightarrow> args_ok c"

definition cmd_ok :: "string \<Rightarrow> cmd \<Rightarrow> bool" where
  "cmd_ok b c \<longleftrightarrow> (\<forall>(q, eq)\<in>set (spans c). tok_ok b q eq) \<and> args_ok c"

lemma cmd_ok_simps [simp]:
  "cmd_ok b (PIPE l r) \<longleftrightarrow> cmd_ok b l \<and> cmd_ok b r"
  "cmd_ok b (LIST l r) \<longleftrightarrow> cmd_ok b l \<and> cmd_ok b r"
  "cmd_ok b (BACK c) \<longleftrightarrow> cmd_ok b c"
  "cmd_ok b (REDIR c q eq mode fd) \<longleftrightarrow> cmd_ok b c \<and> tok_ok b q eq"
  by (auto simp: cmd_ok_def)

lemma gettoken_word:
  assumes "NUL \<notin> set b" and "gettoken b s = (CHR ''a'', q, eq, s')" and "s \<le> length b"
  shows "tok_ok b q eq"
proof -
  have "CHR ''a'' \<noteq> NUL" by (simp add: NUL_def)
  then have q: "q < eq" "q < length b" "eq \<le> length b"
    using gettoken_bounds(4,5)[OF assms(2)] assms(3) by auto
  have e: "eq = skip_while word_char b q"
    using assms(2) by (auto simp: gettoken_def Let_def NUL_def split: if_splits)
  have "word_char (b ! k) \<and> b ! k \<noteq> NUL" if "q \<le> k" "k < eq" for k
    using skip_while_skips[of q k word_char b] that e assms(1) by (auto simp: in_set_conv_nth)
  then show ?thesis using q e skip_while_stops[of word_char b q] by (simp add: tok_ok_def)
qed

definition good :: "string \<Rightarrow> nat \<Rightarrow> (cmd \<times> nat) outcome \<Rightarrow> bool" where
  "good b s r = (case r of Ret (c, s') \<Rightarrow> s \<le> s' \<and> s' \<le> length b \<and> cmd_ok b c | Panic _ \<Rightarrow> True | Undef _ \<Rightarrow> False)"

lemma good_simps [simp]:
  "good b s (Ret (c, s')) \<longleftrightarrow> s \<le> s' \<and> s' \<le> length b \<and> cmd_ok b c" "good b s (Panic m)" "\<not> good b s (Undef m)"
  by (simp_all add: good_def)

lemma good_bind:
  assumes "good b s m" and "\<And>c s'. m = Ret (c, s') \<Longrightarrow> s \<le> s' \<Longrightarrow> s' \<le> length b \<Longrightarrow> cmd_ok b c \<Longrightarrow> good b s (f (c, s'))"
  shows "good b s (bindO m f)"
proof (cases m)
  case (Ret x)
  then show ?thesis using assms by (cases x) simp
qed (use assms in simp_all)

lemma good_mono: "good b s r \<Longrightarrow> s0 \<le> s \<Longrightarrow> good b s0 r"
  by (cases r) (auto simp: good_def)

lemma parseredirs_good:
  assumes "NUL \<notin> set b" and "s \<le> length b" and "cmd_ok b c"
  shows "good b s (parseredirs b c s)"
  using assms
proof (induction b c s rule: parseredirs.induct)
  case (1 b c s)
  obtain p s1 where p: "peek b s ''<>'' = (p, s1)" by fastforce
  obtain tok q0 eq0 s2 where t: "gettoken b s1 = (tok, q0, eq0, s2)" using prod_cases4 by blast
  obtain tok' q eq s3 where t': "gettoken b s2 = (tok', q, eq, s3)" using prod_cases4 by blast
  have s1: "s \<le> s1" "s1 \<le> length b" using peek_bounds[OF p] "1.prems" by auto
  have s2: "s \<le> s2" "s2 \<le> length b" using gettoken_bounds[OF t] s1 by auto
  have s3: "s \<le> s3" "s3 \<le> length b" using gettoken_bounds[OF t'] s2 by auto
  show ?case
  proof (cases "p \<and> tok' = CHR ''a''")
    case True
    have "tok_ok b q eq" using gettoken_word[OF "1.prems"(1)] t' True s2 by auto
    then have "cmd_ok b (redir tok c q eq)" using "1.prems"(3) by (simp add: redir_def)
    then have "good b s3 (parseredirs b (redir tok c q eq) s3)"
      using "1.IH"[OF p[symmetric] _ t[symmetric] refl refl t'[symmetric] refl refl] True s3 "1.prems" by blast
    then show ?thesis using True p t t' s3 by (subst parseredirs.simps) (auto intro: good_mono)
  next
    case False
    then show ?thesis using p t t' s1 "1.prems"(3) by (subst parseredirs.simps) auto
  qed
qed

lemma back_loop_good:
  assumes "s \<le> length b" and "cmd_ok b c"
  shows "good b s (Ret (back_loop b c s))"
  using assms
proof (induction b c s rule: back_loop.induct)
  case (1 b c s)
  obtain p s1 where p: "peek b s ''&'' = (p, s1)" by fastforce
  obtain tok q0 eq0 s2 where t: "gettoken b s1 = (tok, q0, eq0, s2)" using prod_cases4 by blast
  have s1: "s \<le> s1" "s1 \<le> length b" using peek_bounds[OF p] "1.prems" by auto
  have s2: "s \<le> s2" "s2 \<le> length b" using gettoken_bounds[OF t] s1 by auto
  show ?case
  proof (cases p)
    case True
    then have "good b s2 (Ret (back_loop b (BACK c) s2))"
      using "1.IH"[OF p[symmetric] _ t[symmetric]] s2 "1.prems" by simp
    then show ?thesis using True p t s2 by (subst back_loop.simps) (auto intro: good_mono)
  next
    case False
    then show ?thesis using p s1 "1.prems" by (subst back_loop.simps) simp
  qed
qed

text \<open>The number of arguments collected so far, in the node that is being filled.\<close>

fun nargs :: "cmd \<Rightarrow> nat" where
  "nargs (EXEC args) = length args"
| "nargs (REDIR c f ef mode fd) = nargs c"
| "nargs _ = MAXARGS"

lemma parseredirs_nargs: "parseredirs b c s = Ret (c', s') \<Longrightarrow> nargs c' = nargs c"
proof (induction b c s rule: parseredirs.induct)
  case (1 b c s)
  obtain p s1 where p: "peek b s ''<>'' = (p, s1)" by fastforce
  obtain tok q0 eq0 s2 where t: "gettoken b s1 = (tok, q0, eq0, s2)" using prod_cases4 by blast
  obtain tok' q eq s3 where t': "gettoken b s2 = (tok', q, eq, s3)" using prod_cases4 by blast
  have "nargs (redir tok c q eq) = nargs c" by (simp add: redir_def)
  then show ?case
    using "1.IH"[OF p[symmetric] _ t[symmetric] refl refl t'[symmetric] refl refl] "1.prems"
    by (subst (asm) parseredirs.simps) (auto simp: p t t' split: if_splits)
qed

lemma add_arg_ok:
  "cmd_ok b c \<Longrightarrow> tok_ok b q eq \<Longrightarrow> nargs c = n \<Longrightarrow> Suc n < MAXARGS \<Longrightarrow>
   cmd_ok b (add_arg q eq c) \<and> nargs (add_arg q eq c) = Suc n"
  by (induction c arbitrary: n) (auto simp: cmd_ok_def)

lemma arg_loop_good:
  assumes "NUL \<notin> set b" and "s \<le> length b" and "cmd_ok b ret" and "nargs ret = argc"
  shows "good b s (arg_loop b argc ret s)"
  using assms
proof (induction b argc ret s rule: arg_loop.induct)
  case (1 b argc ret s)
  obtain p s1 where p: "peek b s ''|)&;'' = (p, s1)" by fastforce
  obtain tok q eq s2 where t: "gettoken b s1 = (tok, q, eq, s2)" using prod_cases4 by blast
  have s1: "s \<le> s1" "s1 \<le> length b" using peek_bounds[OF p] "1.prems" by auto
  have s2: "s \<le> s2" "s2 \<le> length b" using gettoken_bounds[OF t] s1 by auto
  show ?case
  proof (cases "\<not> p \<and> tok = CHR ''a'' \<and> Suc argc < MAXARGS")
    case True
    then have a: "cmd_ok b (add_arg q eq ret)" "nargs (add_arg q eq ret) = Suc argc"
      using add_arg_ok[OF "1.prems"(3) _ "1.prems"(4)] gettoken_word[OF "1.prems"(1)] t s1 by auto
    have "good b s (bindO (parseredirs b (add_arg q eq ret) s2) (\<lambda>(ret', s3). arg_loop b (Suc argc) ret' s3))"
    proof (rule good_bind)
      show "good b s (parseredirs b (add_arg q eq ret) s2)"
        using parseredirs_good[OF "1.prems"(1) s2(2) a(1)] s2(1) good_mono by blast
      fix c s3 assume r: "parseredirs b (add_arg q eq ret) s2 = Ret (c, s3)" "s \<le> s3" "s3 \<le> length b" "cmd_ok b c"
      have "good b s3 (arg_loop b (Suc argc) c s3)"
        using "1.IH"[OF p[symmetric] _ t[symmetric] refl refl _ _ _ r(1) refl] True r "1.prems"
          parseredirs_nargs[OF r(1)] a(2) by (auto simp: NUL_def)
      then show "good b s (case (c, s3) of (ret', s3) \<Rightarrow> arg_loop b (Suc argc) ret' s3)"
        using r(2) good_mono by auto
    qed
    then show ?thesis using True p t by (subst arg_loop.simps) (simp add: NUL_def)
  next
    case False
    then show ?thesis using p t s1 s2 "1.prems"(3) by (subst arg_loop.simps) auto
  qed
qed

text \<open>A separator and what follows it, as in \<open>parseline\<close> and \<open>parsepipe\<close>.\<close>

lemma seq_good:
  assumes s: "s \<le> s1" "s1 \<le> length b" and c: "cmd_ok b c"
    and K: "\<And>c'. cmd_ok b c' \<Longrightarrow> cmd_ok b (K c c')"
    and rec: "\<And>s3. s1 < s3 \<Longrightarrow> s3 \<le> length b \<Longrightarrow> good b s3 (rec s3)"
  shows "good b s (case peek b s1 toks of (p, s2) \<Rightarrow>
       if p then (case gettoken b s2 of (_, _, _, s3) \<Rightarrow> bindO (rec s3) (\<lambda>(c', s4). Ret (K c c', s4)))
       else Ret (c, s2))"
proof -
  obtain p s2 where p: "peek b s1 toks = (p, s2)" by fastforce
  obtain tok q eq s3 where t: "gettoken b s2 = (tok, q, eq, s3)" using prod_cases4 by blast
  have s2: "s1 \<le> s2" "s2 \<le> length b" using peek_bounds[OF p] s by auto
  show ?thesis
  proof (cases p)
    case True
    then have s3: "s1 < s3" "s3 \<le> length b" using peek_gettoken[of b s1 toks s2] p t gettoken_bounds(4)[OF t] s2 by auto
    have "good b s (bindO (rec s3) (\<lambda>(c', s4). Ret (K c c', s4)))"
    proof (rule good_bind)
      show "good b s (rec s3)" using rec[OF s3] good_mono s(1) s3(1) by (meson le_trans less_imp_le)
    qed (use K in auto)
    then show ?thesis using True p t by simp
  next
    case False
    then show ?thesis using p s s2 c by simp
  qed
qed

lemma parseblock_good:
  assumes b: "NUL \<notin> set b" and s: "s \<le> length b"
    and rec: "\<And>s'. s < s' \<Longrightarrow> s' \<le> length b \<Longrightarrow> good b s' (parseline n b s')"
  shows "good b s (parseblock (Suc n) b s)"
proof -
  obtain p s1 where p: "peek b s ''('' = (p, s1)" by fastforce
  obtain tok q eq s2 where t: "gettoken b s1 = (tok, q, eq, s2)" using prod_cases4 by blast
  have "good b s (bindO (parseline n b s2) (\<lambda>(c, s3).
         case peek b s3 '')'' of (p', s4) \<Rightarrow>
           if \<not> p' then Panic ''syntax - missing )''
           else (case gettoken b s4 of (_, _, _, s5) \<Rightarrow> parseredirs b c s5)))" if "p"
  proof (rule good_bind)
    have s2: "s < s2" "s2 \<le> length b"
      using peek_gettoken[of b s "''(''" s1] p t that gettoken_bounds(4)[OF t] peek_bounds[OF p] s by auto
    then show "good b s (parseline n b s2)" using rec good_mono by (meson less_imp_le)
    fix c s3 assume c: "s \<le> s3" "s3 \<le> length b" "cmd_ok b c"
    obtain p' s4 where p': "peek b s3 '')'' = (p', s4)" by fastforce
    obtain tok' q' eq' s5 where t': "gettoken b s4 = (tok', q', eq', s5)" using prod_cases4 by blast
    have "s \<le> s5" "s5 \<le> length b" using peek_bounds[OF p'] gettoken_bounds[OF t'] c by auto
    then have "good b s (parseredirs b c s5)" using parseredirs_good[OF b _ c(3)] good_mono by blast
    then show "good b s (case (c, s3) of (c, s3) \<Rightarrow> case peek b s3 '')'' of (p', s4) \<Rightarrow>
           if \<not> p' then Panic ''syntax - missing )''
           else (case gettoken b s4 of (_, _, _, s5) \<Rightarrow> parseredirs b c s5))"
      using p' t' by simp
  qed
  then show ?thesis using p t by simp
qed

lemma parser_good:
  assumes b: "NUL \<notin> set b"
  shows "\<forall>s\<le>length b.
     (4 * (length b - s) + 4 \<le> n \<longrightarrow> good b s (parseline n b s)) \<and>
     (4 * (length b - s) + 3 \<le> n \<longrightarrow> good b s (parsepipe n b s)) \<and>
     (4 * (length b - s) + 2 \<le> n \<longrightarrow> good b s (parseexec n b s)) \<and>
     (4 * (length b - s) + 1 \<le> n \<longrightarrow> good b s (parseblock n b s))"
proof (induction n)
  case (Suc n)
  show ?case
  proof (intro allI impI conjI)
    fix s assume s: "s \<le> length b"
    {
      assume n: "4 * (length b - s) + 4 \<le> Suc n"
      have "good b s (case back_loop b c0 s0 of (c, s1) \<Rightarrow> case peek b s1 '';'' of (p, s2) \<Rightarrow>
         if p then (case gettoken b s2 of (_, _, _, s3) \<Rightarrow> bindO (parseline n b s3) (\<lambda>(c', s4). Ret (listcmd c c', s4)))
         else Ret (c, s2))" if "s \<le> s0" "s0 \<le> length b" "cmd_ok b c0" for c0 s0
      proof -
        obtain c s1 where l: "back_loop b c0 s0 = (c, s1)" by fastforce
        have "s0 \<le> s1" "s1 \<le> length b" "cmd_ok b c" using back_loop_good[of s0 b c0] that l by auto
        then show ?thesis unfolding l prod.case
          using that Suc.IH n by (intro seq_good) auto
      qed
      then show "good b s (parseline (Suc n) b s)"
        using Suc.IH s n by (subst parseline.simps) (intro good_bind, auto)
    next
      assume n: "4 * (length b - s) + 3 \<le> Suc n"
      have "good b s (case peek b s1 ''|'' of (p, s2) \<Rightarrow>
         if p then (case gettoken b s2 of (_, _, _, s3) \<Rightarrow> bindO (parsepipe n b s3) (\<lambda>(c', s4). Ret (pipecmd c c', s4)))
         else Ret (c, s2))" if "s \<le> s1" "s1 \<le> length b" "cmd_ok b c" for c s1
        using that Suc.IH n by (intro seq_good) auto
      then show "good b s (parsepipe (Suc n) b s)"
        using Suc.IH s n by (subst parsepipe.simps) (intro good_bind, auto)
    next
      assume n: "4 * (length b - s) + 2 \<le> Suc n"
      obtain p s1 where p: "peek b s ''('' = (p, s1)" by fastforce
      have s1: "s \<le> s1" "s1 \<le> length b" using peek_bounds[OF p] s by auto
      have blk: "good b s (parseblock n b s1)" using Suc.IH s1 n good_mono[of b s1 _ s] by auto
      have "good b s (bindO (parseredirs b (EXEC []) s1) (\<lambda>(ret, s2). arg_loop b 0 ret s2))"
      proof (rule good_bind)
        have "cmd_ok b (EXEC [])" by (simp add: cmd_ok_def MAXARGS_def)
        then show "good b s (parseredirs b (EXEC []) s1)" using parseredirs_good[OF b s1(2)] s1(1) good_mono by blast
        fix c s2 assume r: "parseredirs b (EXEC []) s1 = Ret (c, s2)" "s \<le> s2" "s2 \<le> length b" "cmd_ok b c"
        then have "good b s2 (arg_loop b 0 c s2)" using arg_loop_good[OF b r(3,4)] parseredirs_nargs[OF r(1)] by simp
        then show "good b s (case (c, s2) of (ret, s2) \<Rightarrow> arg_loop b 0 ret s2)" using r(2) good_mono by auto
      qed
      then show "good b s (parseexec (Suc n) b s)" using p blk by simp
    next
      assume n: "4 * (length b - s) + 1 \<le> Suc n"
      then show "good b s (parseblock (Suc n) b s)" using parseblock_good[OF b s] Suc.IH by auto
    }
  qed
qed simp

section \<open>The strings of a parsed command\<close>

definition cstr :: "string \<Rightarrow> nat \<Rightarrow> string" where
  "cstr buf q = takeWhile (\<lambda>x. x \<noteq> NUL) (drop q buf)"

definition slice :: "string \<Rightarrow> nat \<Rightarrow> nat \<Rightarrow> string" where
  "slice b q eq = take (eq - q) (drop q b)"

lemma foldl_terminate:
  "length (foldl (\<lambda>buf (q, eq). buf[eq := NUL]) buf args) = length buf"
  "k < length buf \<Longrightarrow> foldl (\<lambda>buf (q, eq). buf[eq := NUL]) buf args ! k = (if k \<in> snd ` set args then NUL else buf ! k)"
  by (induction args arbitrary: buf) (auto simp: nth_list_update_if rev_image_eqI)

lemma length_nulterminate [simp]: "length (nulterminate c buf) = length buf"
  by (induction c arbitrary: buf) (simp_all add: foldl_terminate)

lemma nth_nulterminate:
  "k < length buf \<Longrightarrow> nulterminate c buf ! k = (if k \<in> snd ` set (spans c) then NUL else buf ! k)"
  by (induction c arbitrary: buf) (auto simp: foldl_terminate nth_list_update_if)

lemma takeWhile_at:
  assumes "n < length xs" and "\<And>k. k < n \<Longrightarrow> P (xs ! k)" and "\<not> P (xs ! n)"
  shows "takeWhile P xs = take n xs"
  using assms
proof (induction xs arbitrary: n)
  case (Cons x xs)
  show ?case
  proof (cases n)
    case (Suc m)
    then show ?thesis using Cons.IH[of m] Cons.prems(1,3) Cons.prems(2)[of 0] Cons.prems(2)[of "Suc k" for k] by force
  qed (use Cons.prems in simp)
qed simp

text \<open>The NULs that end one word do not cut into another.\<close>

lemma cstr_nulterminate:
  assumes c: "cmd_ok b c" and t: "(q, eq) \<in> set (spans c)"
  shows "cstr (nulterminate c (b @ [NUL])) q = slice b q eq"
proof -
  let ?buf = "nulterminate c (b @ [NUL])"
  have ok: "tok_ok b q eq" and all: "\<forall>(q', e)\<in>set (spans c). tok_ok b q' e" using c t by (auto simp: cmd_ok_def)
  have inside: "?buf ! k = b ! k \<and> b ! k \<noteq> NUL" if k: "q \<le> k" "k < eq" for k
  proof -
    have w: "word_char (b ! k)" "b ! k \<noteq> NUL" "k < length b" using ok k by (auto simp: tok_ok_def)
    then have "k \<notin> snd ` set (spans c)" using all by (auto simp: tok_ok_def)
    then show ?thesis using w by (simp add: nth_nulterminate nth_append)
  qed
  have "?buf ! eq = NUL" using ok t by (subst nth_nulterminate) (force simp: tok_ok_def)+
  then have "cstr ?buf q = take (eq - q) (drop q ?buf)"
    unfolding cstr_def using ok inside by (intro takeWhile_at) (auto simp: tok_ok_def)
  also have "\<dots> = slice b q eq" unfolding slice_def
    using ok inside by (intro nth_equalityI) (auto simp: tok_ok_def)
  finally show ?thesis .
qed

text \<open>
  C18. Parsing a command line of the shell ends, whatever the line: either with one of the shell's
  own error messages, or with a command tree and the line cut into strings. Then every argument and
  file name of the tree is a C string that is exactly the word of the line at that place, free of
  blanks and of the shell's symbols, and no command has more than nine arguments, so that the
  terminating null pointer always fits \<open>argv\<close>.
\<close>

theorem parsecmd_safe:
  assumes "NUL \<notin> set b"
  shows "(\<exists>m. parsecmd b = Panic m) \<or>
     (\<exists>c buf. parsecmd b = Ret (c, buf) \<and> args_ok c \<and>
        (\<forall>(q, eq)\<in>set (spans c). q < eq \<and> eq \<le> length b \<and> cstr buf q = take (eq - q) (drop q b) \<and>
           (\<forall>x\<in>set (cstr buf q). x \<notin> set whitespace \<and> x \<notin> set symbols)))"
proof -
  have g: "good b 0 (parseline (depth_for b 0) b 0)" using parser_good[OF assms] by (simp add: depth_for_def)
  show ?thesis
  proof (cases "parseline (depth_for b 0) b 0")
    case (Ret r)
    obtain c s where r: "r = (c, s)" by fastforce
    have c: "cmd_ok b c" using g Ret r by simp
    have "q < eq \<and> eq \<le> length b \<and> cstr (nulterminate c (b @ [NUL])) q = take (eq - q) (drop q b) \<and>
        (\<forall>x\<in>set (cstr (nulterminate c (b @ [NUL])) q). x \<notin> set whitespace \<and> x \<notin> set symbols)"
      if t: "(q, eq) \<in> set (spans c)" for q eq
    proof -
      have ok: "tok_ok b q eq" using c t by (auto simp: cmd_ok_def)
      have "x \<notin> set whitespace \<and> x \<notin> set symbols" if x: "x \<in> set (slice b q eq)" for x
      proof -
        obtain i where "i < length (slice b q eq)" "x = slice b q eq ! i" using x by (auto simp: in_set_conv_nth)
        then have i: "q + i < eq" "x = b ! (q + i)" using ok by (auto simp: slice_def tok_ok_def)
        then have "word_char x" "x \<noteq> NUL" using ok unfolding tok_ok_def by simp_all
        then show ?thesis by (simp add: word_char_def strchr_def)
      qed
      then show ?thesis using ok cstr_nulterminate[OF c t] by (simp add: tok_ok_def slice_def)
    qed
    then show ?thesis
      using Ret r c by (auto simp: parsecmd_def cmd_ok_def split: prod.splits)
  next
    case (Panic m)
    then show ?thesis by (simp add: parsecmd_def)
  next
    case (Undef m)
    then show ?thesis using g by simp
  qed
qed

theorem parsecmd_safe_witness:
  "parsecmd ''ls <f|(wc x)&'' = Ret (BACK (PIPE (REDIR (EXEC [(0, 2)]) 4 5 0 0) (EXEC [(7, 9), (10, 11)])),
     ''ls'' @ [NUL] @ ''<f'' @ [NUL] @ ''(wc'' @ [NUL] @ ''x'' @ [NUL] @ ''&'' @ [NUL]) \<and>
   cstr (''ls'' @ [NUL] @ ''<f'' @ [NUL] @ ''(wc'' @ [NUL] @ ''x'' @ [NUL] @ ''&'' @ [NUL]) 7 = ''wc''"
proof -
  have e: "parsecmd ''ls <f|(wc x)&'' = Ret (BACK (PIPE (REDIR (EXEC [(0, 2)]) 4 5 0 0) (EXEC [(7, 9), (10, 11)])),
     ''ls'' @ [NUL] @ ''<f'' @ [NUL] @ ''(wc'' @ [NUL] @ ''x'' @ [NUL] @ ''&'' @ [NUL])"
    by code_simp
  have "NUL \<notin> set ''ls <f|(wc x)&''" by (simp add: NUL_def)
  from parsecmd_safe[OF this] show ?thesis using e by auto
qed

end
