(* ===== verification/Shprint.thy ===== *)
theory Shprint
  imports Sh
begin

text \<open>
  Printing and parsing shell commands: a printer for command trees, and the proof that the parser of
  \<open>Sh\<close> reads back every tree from what the printer writes.
\<close>

section \<open>Printing and parsing\<close>

text \<open>A command with its strings, and the fully bracketed line that writes it.\<close>

datatype scmd =
    SExec "string list"
  | SRedir scmd string int int
  | SPipe scmd scmd
  | SList scmd scmd
  | SBack scmd

fun read_cmd :: "(nat \<Rightarrow> nat \<Rightarrow> string) \<Rightarrow> cmd \<Rightarrow> scmd" where
  "read_cmd f (EXEC args) = SExec (map (\<lambda>(q, eq). f q eq) args)"
| "read_cmd f (REDIR c q eq mode fd) = SRedir (read_cmd f c) (f q eq) mode fd"
| "read_cmd f (PIPE l r) = SPipe (read_cmd f l) (read_cmd f r)"
| "read_cmd f (LIST l r) = SList (read_cmd f l) (read_cmd f r)"
| "read_cmd f (BACK c) = SBack (read_cmd f c)"

fun print_cmd :: "scmd \<Rightarrow> string" where
  "print_cmd (SExec ws) = concat (map (\<lambda>w. w @ '' '') ws)"
| "print_cmd (SRedir c f mode fd) = ''('' @ print_cmd c @ '')'' @ (if fd = 0 then ''<'' else ''>'') @ f"
| "print_cmd (SPipe l r) = ''('' @ print_cmd l @ '')|('' @ print_cmd r @ '')''"
| "print_cmd (SList l r) = ''('' @ print_cmd l @ '');('' @ print_cmd r @ '')''"
| "print_cmd (SBack c) = ''('' @ print_cmd c @ '')&''"

definition word_ok :: "string \<Rightarrow> bool" where
  "word_ok w \<longleftrightarrow> w \<noteq> [] \<and> (\<forall>x\<in>set w. word_char x \<and> x \<noteq> NUL)"

fun scmd_ok :: "scmd \<Rightarrow> bool" where
  "scmd_ok (SExec ws) \<longleftrightarrow> length ws < MAXARGS \<and> (\<forall>w\<in>set ws. word_ok w)"
| "scmd_ok (SRedir c f mode fd) \<longleftrightarrow> scmd_ok c \<and> word_ok f \<and> (mode, fd) \<in> {(O_RDONLY, 0), (O_WRONLY + O_CREATE, 1)}"
| "scmd_ok (SPipe l r) \<longleftrightarrow> scmd_ok l \<and> scmd_ok r"
| "scmd_ok (SList l r) \<longleftrightarrow> scmd_ok l \<and> scmd_ok r"
| "scmd_ok (SBack c) \<longleftrightarrow> scmd_ok c"

text \<open>What the tokeniser sees at a position, from the rest of the line.\<close>

definition blank :: "char \<Rightarrow> bool" where
  "blank c \<longleftrightarrow> strchr whitespace c"

definition starts :: "string \<Rightarrow> char" where
  "starts t = (case t of [] \<Rightarrow> NUL | c # _ \<Rightarrow> c)"

lemma starts_simps [simp]: "starts [] = NUL" "starts (c # t) = c"
  by (simp_all add: starts_def)

lemma ch_starts: "s \<le> length b \<Longrightarrow> ch b s = starts (drop s b)"
  by (auto simp: ch_def starts_def drop_all Cons_nth_drop_Suc[symmetric] split: list.splits)

lemma skip_while_no: "\<not> P (ch b s) \<Longrightarrow> skip_while P b s = s"
  by (subst skip_while.simps) (auto simp: ch_def)

lemma skip_ws_no: "\<not> blank (ch b s) \<Longrightarrow> skip_ws b s = s"
  by (simp add: skip_ws_def blank_def skip_while_no)

lemma not_blank [simp]:
  "\<not> blank NUL" "c \<in> set ''|();&<>'' \<Longrightarrow> \<not> blank c" "word_char c \<Longrightarrow> \<not> blank c"
  by (auto simp: blank_def strchr_def whitespace_def word_char_def)

lemma peek_at:
  assumes "s \<le> length b" and "\<not> blank (starts (drop s b))"
  shows "peek b s toks = (starts (drop s b) \<noteq> NUL \<and> starts (drop s b) \<in> set toks, s)"
  using assms skip_ws_no[of b s] by (auto simp: peek_def Let_def ch_starts strchr_def)

lemma drop_tail: "drop s b = x @ y \<Longrightarrow> drop (s + length x) b = y"
  by (metis append_eq_conv_conj drop_drop add.commute)

lemma drop_le: "drop s b = x @ y \<Longrightarrow> s \<le> length b \<Longrightarrow> s + length x \<le> length b"
proof -
  assume a: "drop s b = x @ y" "s \<le> length b"
  then have "length b - s = length x + length y" by (metis length_append length_drop)
  then show ?thesis using a(2) by linarith
qed

lemma gettoken_symbol:
  assumes "drop s b = c # t" and "c \<in> set ''|();&<''" and "\<not> blank (starts t)" and "s \<le> length b"
  shows "gettoken b s = (c, s, Suc s, Suc s)"
proof -
  have s: "ch b s = c" "ch b (Suc s) = starts t"
    using assms drop_tail[of s b "[c]" t] drop_le[of s b "[c]" t] by (simp_all add: ch_starts)
  then have "skip_ws b s = s" "skip_ws b (Suc s) = Suc s" using assms(2,3) by (auto intro!: skip_ws_no)
  moreover have "c \<noteq> NUL" using assms(2) by (auto simp: NUL_def)
  ultimately show ?thesis using assms(2) s by (simp add: gettoken_def Let_def)
qed

lemma skip_word:
  assumes "drop s b = w @ t" and "\<forall>x\<in>set w. word_char x" and "starts t = NUL \<or> \<not> word_char (starts t)"
    and "NUL \<notin> set b" and "s \<le> length b"
  shows "skip_while word_char b s = s + length w"
  using assms
proof (induction w arbitrary: s)
  case Nil
  then show ?case by (subst skip_while.simps) (auto simp: starts_def Cons_nth_drop_Suc[symmetric] in_set_conv_nth split: list.splits)
next
  case (Cons x w)
  have "s < length b" "b ! s = x"
    using Cons.prems(1) by (metis append_Cons drop_eq_Nil leI list.distinct(1), metis append_Cons nth_via_drop)
  moreover have "drop (Suc s) b = w @ t" using drop_tail[of s b "[x]"] Cons.prems(1) by simp
  ultimately have "skip_while word_char b (Suc s) = Suc s + length w" using Cons by simp
  then show ?case using \<open>s < length b\<close> \<open>b ! s = x\<close> Cons.prems(2) by (subst skip_while.simps) simp
qed

lemma starts_word [simp]: "word_ok w \<Longrightarrow> starts (w @ t) = hd w" "word_ok w \<Longrightarrow> word_char (hd w) \<and> hd w \<noteq> NUL"
  by (cases w; simp add: word_ok_def)+

lemma word_not_symbol: "word_char c \<Longrightarrow> c \<noteq> NUL \<Longrightarrow> c \<notin> set ''|();&<>''"
  by (auto simp: word_char_def strchr_def symbols_def)

lemma gettoken_word_at:
  assumes "drop s b = w @ t" and "word_ok w" and "\<not> word_char (starts t) \<or> t = []"
    and "NUL \<notin> set b" and "s \<le> length b"
  shows "gettoken b s = (CHR ''a'', s, s + length w, skip_ws b (s + length w))"
proof -
  have c: "ch b s = hd w" "word_char (hd w)" "hd w \<noteq> NUL"
    using assms(1,2,5) starts_word by (simp_all add: ch_starts)
  then have q: "skip_ws b s = s" by (intro skip_ws_no) simp
  have "skip_while word_char b s = s + length w"
    using assms by (intro skip_word) (auto simp: word_ok_def)
  then show ?thesis using q c word_not_symbol[OF c(2,3)] by (auto simp: gettoken_def Let_def)
qed

lemma slice_at: "drop s b = w @ t \<Longrightarrow> slice b s (s + length w) = w"
  by (simp add: slice_def)

lemma parseredirs_none:
  assumes "s \<le> length b" and "\<not> blank (starts (drop s b))" and "starts (drop s b) \<notin> set ''<>''"
  shows "parseredirs b c s = Ret (c, s)"
  using peek_at[OF assms(1,2), of "''<>''"] assms(3) by (subst parseredirs.simps) simp

text \<open>What may follow a command.\<close>

definition closes :: "string \<Rightarrow> bool" where
  "closes t \<longleftrightarrow> t = [] \<or> hd t = CHR '')''"

lemma closes_starts: "closes t \<Longrightarrow> starts t = NUL \<or> starts t = CHR '')''"
  by (cases t) (auto simp: closes_def)

lemma skip_blank:
  assumes "drop s b = CHR '' '' # t" and "\<not> blank (starts t)" and "s \<le> length b"
  shows "skip_ws b s = Suc s"
proof -
  have "s < length b" "b ! s = CHR '' ''"
    using assms(1) by (metis drop_eq_Nil leI list.distinct(1), metis nth_via_drop)
  moreover have "skip_ws b (Suc s) = Suc s"
    using assms drop_tail[of s b "[CHR '' '']" t] drop_le[of s b "[CHR '' '']" t]
    by (intro skip_ws_no) (simp add: ch_starts)
  ultimately show ?thesis
    unfolding skip_ws_def by (subst skip_while.simps) (simp add: strchr_def whitespace_def NUL_def)
qed

lemma NUL_not: "c \<in> set ''|();&<>a+ '' \<Longrightarrow> NUL \<noteq> c" "c \<in> set ''|();&<>a+ '' \<Longrightarrow> c \<noteq> NUL"
  by (auto simp: NUL_def)

lemma words_start:
  assumes "\<forall>w\<in>set ws. word_ok w" and "closes t"
  shows "\<not> blank (starts (concat (map (\<lambda>w. w @ '' '') ws) @ t))"
    and "starts (concat (map (\<lambda>w. w @ '' '') ws) @ t) \<notin> set ''<>''"
    and "ws \<noteq> [] \<Longrightarrow> starts (concat (map (\<lambda>w. w @ '' '') ws) @ t) \<notin> set ''|()&;''"
    and "ws \<noteq> [] \<Longrightarrow> starts (concat (map (\<lambda>w. w @ '' '') ws) @ t) \<noteq> NUL"
proof -
  let ?c = "starts (concat (map (\<lambda>w. w @ '' '') ws) @ t)"
  have "\<not> blank ?c \<and> ?c \<notin> set ''<>'' \<and> (ws \<noteq> [] \<longrightarrow> ?c \<notin> set ''|()&;'' \<and> ?c \<noteq> NUL)"
  proof (cases ws)
    case Nil
    then show ?thesis using closes_starts[OF assms(2)] by (auto simp: NUL_not)
  next
    case (Cons w vs)
    then have w: "word_ok w" using assms(1) by simp
    then have c: "?c = hd w" "word_char (hd w)" "hd w \<noteq> NUL" using Cons starts_word by simp_all
    show ?thesis unfolding c(1) using c(2,3) word_not_symbol[OF c(2,3)] by simp
  qed
  then show "\<not> blank ?c" "?c \<notin> set ''<>''" "ws \<noteq> [] \<Longrightarrow> ?c \<notin> set ''|()&;''" "ws \<noteq> [] \<Longrightarrow> ?c \<noteq> NUL"
    by simp_all
qed

fun add_args :: "(nat \<times> nat) list \<Rightarrow> cmd \<Rightarrow> cmd" where
  "add_args [] c = c"
| "add_args ((q, eq) # as) c = add_args as (add_arg q eq c)"

lemma add_args_EXEC: "add_args as (EXEC bs) = EXEC (bs @ as)"
  by (induction as arbitrary: bs) auto

lemma arg_loop_words:
  assumes "drop s b = concat (map (\<lambda>w. w @ '' '') ws) @ t" and "\<forall>w\<in>set ws. word_ok w" and "closes t"
    and "argc + length ws < MAXARGS" and "NUL \<notin> set b" and "s \<le> length b"
  shows "\<exists>as. arg_loop b argc ret s = Ret (add_args as ret, s + length (concat (map (\<lambda>w. w @ '' '') ws))) \<and>
     map (\<lambda>(q, eq). slice b q eq) as = ws"
  using assms
proof (induction ws arbitrary: s argc ret)
  case Nil
  have c: "starts t = NUL \<or> starts t = CHR '')''" by (rule closes_starts[OF Nil.prems(3)])
  have p: "peek b s ''|)&;'' = (starts t = CHR '')'', s)"
    using peek_at[of s b "''|)&;''"] Nil c by (auto simp: NUL_not)
  have g: "starts t = NUL \<Longrightarrow> \<exists>q e. gettoken b s = (NUL, q, e, s)"
    using Nil skip_ws_no[of b s] by (simp add: gettoken_def Let_def ch_starts)
  then have "arg_loop b argc ret s = Ret (ret, s)"
    using p c by (subst arg_loop.simps) (auto simp: NUL_def)
  then show ?case by (intro exI[of _ "[]"]) simp
next
  case (Cons w ws)
  let ?rest = "concat (map (\<lambda>w. w @ '' '') ws) @ t"
  let ?s = "s + length w"
  have d: "drop s b = w @ CHR '' '' # ?rest" and w: "word_ok w" using Cons.prems by simp_all
  have d': "drop ?s b = CHR '' '' # ?rest" "?s \<le> length b"
    using drop_tail[OF d] drop_le[OF d] Cons.prems by auto
  have d'': "drop (Suc ?s) b = ?rest" "Suc ?s \<le> length b"
    using drop_tail[of ?s b "[CHR '' '']"] drop_le[of ?s b "[CHR '' '']"] d' by auto
  have nb: "\<not> blank (starts ?rest)" "starts ?rest \<notin> set ''<>''"
    using words_start(1,2)[of ws t] Cons.prems(2,3) by auto
  have p: "peek b s ''|)&;'' = (False, s)"
    using peek_at[of s b "''|)&;''"] words_start[of "w # ws" t] Cons.prems by simp
  have "\<not> word_char (CHR '' '')" by (simp add: word_char_def strchr_def whitespace_def NUL_def)
  then have g: "gettoken b s = (CHR ''a'', s, ?s, Suc ?s)"
    using gettoken_word_at[OF d w] skip_blank[OF d'(1) nb(1) d'(2)] Cons.prems by simp
  have r: "parseredirs b (add_arg s ?s ret) (Suc ?s) = Ret (add_arg s ?s ret, Suc ?s)"
    using nb d'' by (intro parseredirs_none) auto
  have ih: "\<forall>w\<in>set ws. word_ok w" "Suc argc + length ws < MAXARGS" using Cons.prems(2,4) by auto
  obtain as where as: "arg_loop b (Suc argc) (add_arg s ?s ret) (Suc ?s) =
      Ret (add_args as (add_arg s ?s ret), Suc ?s + length (concat (map (\<lambda>w. w @ '' '') ws)))"
      "map (\<lambda>(q, eq). slice b q eq) as = ws"
    using Cons.IH[OF d''(1) ih(1) Cons.prems(3) ih(2) Cons.prems(5) d''(2)] by blast
  have "arg_loop b argc ret s = arg_loop b (Suc argc) (add_arg s ?s ret) (Suc ?s)"
    using p g r Cons.prems(4) by (subst arg_loop.simps) (simp add: NUL_def)
  then show ?case using as slice_at[OF d] by (intro exI[of _ "(s, ?s) # as"]) simp
qed

lemma print_start:
  assumes "scmd_ok c" and "closes t"
  shows "\<not> blank (starts (print_cmd c @ t))"
  using assms words_start(1)[OF _ assms(2)] by (cases c) simp_all

text \<open>A bracketed command, up to the redirections after it.\<close>

lemma block_at:
  assumes d: "drop s b = CHR ''('' # print_cmd c @ CHR '')'' # t" and c: "scmd_ok c" and s: "s \<le> length b"
    and t: "\<not> blank (starts t)"
    and line: "parseline n b (Suc s) = Ret (c', Suc s + length (print_cmd c))"
  shows "parseexec (Suc (Suc n)) b s = parseredirs b c' (s + length (print_cmd c) + 2)"
proof -
  let ?e = "Suc s + length (print_cmd c)"
  have d1: "drop (Suc s) b = print_cmd c @ CHR '')'' # t" "Suc s \<le> length b"
    using drop_tail[of s b "[CHR ''('']"] drop_le[of s b "[CHR ''('']"] d s by auto
  have d2: "drop ?e b = CHR '')'' # t" "?e \<le> length b" using drop_tail[OF d1(1)] drop_le[OF d1] by auto
  have p1: "peek b s ''('' = (True, s)" using peek_at[OF s, of "''(''"] d by (simp add: NUL_not)
  have nb: "\<not> blank (starts (print_cmd c @ CHR '')'' # t))" using c by (intro print_start) (simp_all add: closes_def)
  have g1: "gettoken b s = (CHR ''('', s, Suc s, Suc s)" using d nb s by (intro gettoken_symbol) auto
  have p2: "peek b ?e '')'' = (True, ?e)" using peek_at[OF d2(2), of "'')''"] d2(1) by (simp add: NUL_not)
  have g2: "gettoken b ?e = (CHR '')'', ?e, Suc ?e, Suc ?e)" using d2 t by (intro gettoken_symbol) auto
  show ?thesis using p1 g1 p2 g2 line by simp
qed

lemma pipe_end:
  assumes "parseexec n b s = Ret (c, e)" and "e \<le> length b" and "\<not> blank (starts (drop e b))"
    and "starts (drop e b) \<noteq> CHR ''|''"
  shows "parsepipe (Suc n) b s = Ret (c, e)"
  using assms peek_at[OF assms(2,3), of "''|''"] by simp

lemma back_none:
  assumes "e \<le> length b" and "\<not> blank (starts (drop e b))" and "starts (drop e b) \<noteq> CHR ''&''"
  shows "back_loop b c e = (c, e)"
  using assms peek_at[OF assms(1,2), of "''&''"] by (subst back_loop.simps) simp

lemma line_end:
  assumes "parsepipe n b s = Ret (c, e)" and "e \<le> length b" and "closes (drop e b)"
  shows "parseline (Suc n) b s = Ret (c, e)"
proof -
  have st: "starts (drop e b) = NUL \<or> starts (drop e b) = CHR '')''" by (rule closes_starts[OF assms(3)])
  then have nb: "\<not> blank (starts (drop e b))" by auto
  have "back_loop b c e = (c, e)" using st nb assms(2) by (intro back_none) (auto simp: NUL_not)
  moreover have "peek b e '';'' = (False, e)" using peek_at[OF assms(2) nb, of "'';''"] st by (auto simp: NUL_not)
  ultimately show ?thesis using assms(1) by simp
qed

text \<open>A bracketed command as a part of a larger one.\<close>

lemma paren_pipe:
  assumes d: "drop s b = CHR ''('' # print_cmd c @ CHR '')'' # t" and c: "scmd_ok c" and s: "s \<le> length b"
    and t: "\<not> blank (starts t)" "starts t \<notin> set ''<>''"
    and line: "parseline n b (Suc s) = Ret (c', Suc s + length (print_cmd c))"
  shows "parseexec (Suc (Suc n)) b s = Ret (c', s + length (print_cmd c) + 2)"
    and "drop (s + length (print_cmd c) + 2) b = t" and "s + length (print_cmd c) + 2 \<le> length b"
proof -
  let ?x = "CHR ''('' # print_cmd c @ [CHR '')'']"
  show e: "drop (s + length (print_cmd c) + 2) b = t" "s + length (print_cmd c) + 2 \<le> length b"
    using drop_tail[of s b ?x t] drop_le[of s b ?x t] d s by simp_all
  show "parseexec (Suc (Suc n)) b s = Ret (c', s + length (print_cmd c) + 2)"
    using block_at[OF d c s t(1) line] e t by (simp add: parseredirs_none)
qed

lemma redir_at:
  assumes d: "drop s b = r # f @ t" and r: "r = CHR ''<'' \<or> r = CHR ''>''" and f: "word_ok f" and t: "closes t"
    and b: "NUL \<notin> set b" and s: "s \<le> length b"
  shows "parseredirs b c s = Ret (redir r c (Suc s) (Suc s + length f), Suc s + length f)"
    and "slice b (Suc s) (Suc s + length f) = f"
    and "drop (Suc s + length f) b = t" and "Suc s + length f \<le> length b"
proof -
  have d1: "drop (Suc s) b = f @ t" "Suc s \<le> length b"
    using drop_tail[of s b "[r]"] drop_le[of s b "[r]"] d s by auto
  show d2: "drop (Suc s + length f) b = t" "Suc s + length f \<le> length b"
    using drop_tail[OF d1(1)] drop_le[OF d1] by auto
  show "slice b (Suc s) (Suc s + length f) = f" by (rule slice_at[OF d1(1)])
  have st: "starts t = NUL \<or> starts t = CHR '')''" by (rule closes_starts[OF t])
  then have nb: "\<not> blank (starts t)" by auto
  have fc: "word_char (hd f)" "hd f \<noteq> NUL" using starts_word(2)[OF f] by auto
  have ff: "ch b (Suc s) = hd f" using d1 starts_word(1)[OF f] by (simp add: ch_starts)
  have rs: "ch b s = r" "\<not> blank r" "r \<noteq> NUL" using d s r by (auto simp: ch_starts NUL_not)
  have "skip_ws b s = s" "skip_ws b (Suc s) = Suc s"
    using rs ff fc by (auto intro!: skip_ws_no)
  then have g1: "gettoken b s = (r, s, Suc s, Suc s)"
    using rs ff word_not_symbol[OF fc] r by (auto simp: gettoken_def Let_def)
  have "skip_ws b (Suc s + length f) = Suc s + length f" using d2 nb by (intro skip_ws_no) (simp add: ch_starts)
  moreover have "\<not> word_char (starts t) \<or> t = []" using st t by (cases t) (auto simp: closes_def word_char_def strchr_def symbols_def NUL_def)
  ultimately have g2: "gettoken b (Suc s) = (CHR ''a'', Suc s, Suc s + length f, Suc s + length f)"
    using gettoken_word_at[OF d1(1) f _ b d1(2)] by simp
  have p: "peek b s ''<>'' = (True, s)" using peek_at[OF s, of "''<>''"] d rs r by auto
  have "parseredirs b (redir r c (Suc s) (Suc s + length f)) (Suc s + length f) =
      Ret (redir r c (Suc s) (Suc s + length f), Suc s + length f)"
    using st nb d2 by (intro parseredirs_none) (auto simp: NUL_not)
  then show "parseredirs b c s = Ret (redir r c (Suc s) (Suc s + length f), Suc s + length f)"
    using p g1 g2 by (subst parseredirs.simps) simp
qed

text \<open>What the round trip says of a command at any place of a line.\<close>

definition reads :: "string \<Rightarrow> scmd \<Rightarrow> bool" where
  "reads b c \<longleftrightarrow> (\<forall>s t n. drop s b = print_cmd c @ t \<longrightarrow> closes t \<longrightarrow> s \<le> length b \<longrightarrow>
     4 * (length b - s) + 4 \<le> n \<longrightarrow>
     (\<exists>c'. parseline n b s = Ret (c', s + length (print_cmd c)) \<and> read_cmd (slice b) c' = c))"

lemma reads_paren:
  assumes "reads b c" and d: "drop s b = CHR ''('' # print_cmd c @ CHR '')'' # t" and "s \<le> length b"
    and "4 * (length b - s) \<le> n"
  shows "\<exists>c'. parseline n b (Suc s) = Ret (c', Suc s + length (print_cmd c)) \<and> read_cmd (slice b) c' = c"
proof -
  have "drop (Suc s) b = print_cmd c @ CHR '')'' # t" "Suc s \<le> length b"
    using drop_tail[of s b "[CHR ''('']"] drop_le[of s b "[CHR ''('']"] d assms(3) by auto
  moreover have "closes (CHR '')'' # t)" by (simp add: closes_def)
  moreover have "4 * (length b - Suc s) + 4 \<le> n" using assms(4) calculation(2) by linarith
  ultimately show ?thesis using assms(1) unfolding reads_def by blast
qed

lemma fuel4: "4 * k + 4 \<le> n \<Longrightarrow> \<exists>m. n = Suc (Suc (Suc (Suc m))) \<and> 4 * k \<le> m"
  by (intro exI[of _ "n - 4"]) auto

lemma reads_exec:
  assumes "scmd_ok (SExec ws)" and b: "NUL \<notin> set b"
  shows "reads b (SExec ws)"
  unfolding reads_def
proof (intro allI impI)
  fix s t n assume d: "drop s b = print_cmd (SExec ws) @ t" and t: "closes t" and s: "s \<le> length b"
    and n: "4 * (length b - s) + 4 \<le> n"
  have d': "drop s b = concat (map (\<lambda>w. w @ '' '') ws) @ t" using d by simp
  have w: "\<forall>w\<in>set ws. word_ok w" "0 + length ws < MAXARGS" using assms(1) by simp_all
  let ?e = "s + length (concat (map (\<lambda>w. w @ '' '') ws))"
  have e: "drop ?e b = t" "?e \<le> length b" using drop_tail[OF d'] drop_le[OF d' s] by auto
  obtain as where as: "arg_loop b 0 (EXEC []) s = Ret (add_args as (EXEC []), ?e)"
      "map (\<lambda>(q, eq). slice b q eq) as = ws"
    using arg_loop_words[OF d' w(1) t w(2) b s] by blast
  have st: "\<not> blank (starts (drop s b))" "starts (drop s b) \<notin> set ''<>''" "starts (drop s b) \<noteq> CHR ''(''"
    using words_start[OF w(1) t] d' closes_starts[OF t] by (cases ws; auto simp: NUL_not)+
  obtain m where m: "n = Suc (Suc (Suc (Suc m)))" using fuel4[OF n] by blast
  have "parseexec (Suc (Suc m)) b s = Ret (EXEC as, ?e)"
    using peek_at[OF s st(1), of "''(''"] st parseredirs_none[OF s st(1,2)] as(1) by (simp add: add_args_EXEC)
  then have "parsepipe (Suc (Suc (Suc m))) b s = Ret (EXEC as, ?e)"
    using e closes_starts[OF t] by (intro pipe_end) (auto simp: NUL_not)
  then have "parseline n b s = Ret (EXEC as, ?e)" unfolding m using e t by (intro line_end) auto
  then show "\<exists>c'. parseline n b s = Ret (c', s + length (print_cmd (SExec ws))) \<and> read_cmd (slice b) c' = SExec ws"
    using as(2) by auto
qed

lemma closes_nb: "closes t \<Longrightarrow> \<not> blank (starts t) \<and> starts t \<notin> set ''<>|&;''"
  using closes_starts[of t] by (auto simp: NUL_not)

lemma reads_redir:
  assumes ih: "reads b c" and ok: "scmd_ok (SRedir c f mode fd)" and b: "NUL \<notin> set b"
  shows "reads b (SRedir c f mode fd)"
  unfolding reads_def
proof (intro allI impI)
  fix s t n assume d: "drop s b = print_cmd (SRedir c f mode fd) @ t" and t: "closes t" and s: "s \<le> length b"
    and n: "4 * (length b - s) + 4 \<le> n"
  let ?r = "if fd = 0 then CHR ''<'' else CHR ''>''" and ?e = "s + length (print_cmd c) + 2"
  obtain m where m: "n = Suc (Suc (Suc (Suc m)))" "4 * (length b - s) \<le> m" using fuel4[OF n] by blast
  have d1: "drop s b = CHR ''('' # print_cmd c @ CHR '')'' # ?r # f @ t" using d by (simp split: if_splits)
  obtain c' where c': "parseline m b (Suc s) = Ret (c', Suc s + length (print_cmd c))" "read_cmd (slice b) c' = c"
    using reads_paren[OF ih d1 s m(2)] by blast
  have "drop ?e b = ?r # f @ t" "?e \<le> length b"
    using drop_tail[of s b "CHR ''('' # print_cmd c @ [CHR '')'']"] drop_le[of s b "CHR ''('' # print_cmd c @ [CHR '')'']"] d1 s
    by simp_all
  note r = redir_at[OF this(1) _ _ t b this(2)]
  have f: "word_ok f" "scmd_ok c" using ok by auto
  have "parseexec (Suc (Suc m)) b s = Ret (redir ?r c' (Suc ?e) (Suc ?e + length f), Suc ?e + length f)"
    using block_at[OF d1 f(2) s _ c'(1)] r(1)[OF _ f(1)] by simp
  then have "parsepipe (Suc (Suc (Suc m))) b s = Ret (redir ?r c' (Suc ?e) (Suc ?e + length f), Suc ?e + length f)"
    using r(3,4)[OF _ f(1)] closes_nb[OF t] by (intro pipe_end) auto
  then have "parseline n b s = Ret (redir ?r c' (Suc ?e) (Suc ?e + length f), Suc ?e + length f)"
    unfolding m using r(3,4)[OF _ f(1)] t by (intro line_end) auto
  moreover have "read_cmd (slice b) (redir ?r c' (Suc ?e) (Suc ?e + length f)) = SRedir c f mode fd"
    using c'(2) r(2)[OF _ f(1)] ok by (auto simp: redir_def)
  ultimately show "\<exists>c'. parseline n b s = Ret (c', s + length (print_cmd (SRedir c f mode fd))) \<and>
      read_cmd (slice b) c' = SRedir c f mode fd"
    by (auto split: if_splits)
qed

lemma reads_back:
  assumes ih: "reads b c" and ok: "scmd_ok c"
  shows "reads b (SBack c)"
  unfolding reads_def
proof (intro allI impI)
  fix s t n assume d: "drop s b = print_cmd (SBack c) @ t" and t: "closes t" and s: "s \<le> length b"
    and n: "4 * (length b - s) + 4 \<le> n"
  let ?e = "s + length (print_cmd c) + 2"
  obtain m where m: "n = Suc (Suc (Suc (Suc m)))" "4 * (length b - s) \<le> m" using fuel4[OF n] by blast
  have d1: "drop s b = CHR ''('' # print_cmd c @ CHR '')'' # CHR ''&'' # t" using d by simp
  obtain c' where c': "parseline m b (Suc s) = Ret (c', Suc s + length (print_cmd c))" "read_cmd (slice b) c' = c"
    using reads_paren[OF ih d1 s m(2)] by blast
  have e: "parseexec (Suc (Suc m)) b s = Ret (c', ?e)" "drop ?e b = CHR ''&'' # t" "?e \<le> length b"
    using paren_pipe[OF d1 ok s _ _ c'(1)] by simp_all
  then have p: "parsepipe (Suc (Suc (Suc m))) b s = Ret (c', ?e)" by (intro pipe_end) auto
  have e': "drop (Suc ?e) b = t" "Suc ?e \<le> length b"
    using drop_tail[of ?e b "[CHR ''&'']"] drop_le[of ?e b "[CHR ''&'']"] e(2,3) by simp_all
  have nb: "\<not> blank (starts t)" "starts t \<notin> set ''<>|&;''" using closes_nb[OF t] by auto
  have "peek b ?e ''&'' = (True, ?e)" using peek_at[OF e(3), of "''&''"] e(2) by (simp add: NUL_not)
  moreover have "gettoken b ?e = (CHR ''&'', ?e, Suc ?e, Suc ?e)" using e nb by (intro gettoken_symbol) auto
  moreover have "back_loop b (BACK c') (Suc ?e) = (BACK c', Suc ?e)" using e' nb by (intro back_none) auto
  ultimately have "back_loop b c' ?e = (BACK c', Suc ?e)" by (subst back_loop.simps) simp
  moreover have "peek b (Suc ?e) '';'' = (False, Suc ?e)" using peek_at[OF e'(2), of "'';''"] e'(1) nb by auto
  ultimately have "parseline n b s = Ret (BACK c', Suc ?e)" unfolding m parseline.simps p by simp
  then show "\<exists>c'. parseline n b s = Ret (c', s + length (print_cmd (SBack c))) \<and> read_cmd (slice b) c' = SBack c"
    using c'(2) by (intro exI[of _ "BACK c'"]) simp
qed

text \<open>Two bracketed commands with a separator: the part \<open>SPipe\<close> and \<open>SList\<close> share.\<close>

lemma reads_two:
  assumes ihl: "reads b l" and ihr: "reads b r" and ok: "scmd_ok l" "scmd_ok r"
    and d: "drop s b = ''('' @ print_cmd l @ '')'' @ [x] @ ''('' @ print_cmd r @ '')'' @ t"
    and x: "x = CHR ''|'' \<or> x = CHR '';''" and t: "closes t" and s: "s \<le> length b"
    and m: "4 * (length b - s) \<le> m" and m': "4 * (length b - Suc s) \<le> m'"
  defines "e \<equiv> s + length (print_cmd l) + 2" and "e' \<equiv> s + length (print_cmd l) + length (print_cmd r) + 5"
  shows "\<exists>l' r'. parseexec (Suc (Suc m)) b s = Ret (l', e) \<and> peek b e [x] = (True, e) \<and>
     gettoken b e = (x, e, Suc e, Suc e) \<and> drop e b = x # drop (Suc e) b \<and> e \<le> length b \<and>
     parseexec (Suc (Suc m')) b (Suc e) = Ret (r', e') \<and> drop e' b = t \<and> e' \<le> length b \<and>
     read_cmd (slice b) l' = l \<and> read_cmd (slice b) r' = r"
proof -
  have d1: "drop s b = CHR ''('' # print_cmd l @ CHR '')'' # x # CHR ''('' # print_cmd r @ CHR '')'' # t"
    using d by simp
  obtain l' where l': "parseline m b (Suc s) = Ret (l', Suc s + length (print_cmd l))" "read_cmd (slice b) l' = l"
    using reads_paren[OF ihl d1 s m] by blast
  have xb: "\<not> blank x" "x \<notin> set ''<>''" using x by auto
  have e: "parseexec (Suc (Suc m)) b s = Ret (l', e)" "drop e b = x # CHR ''('' # print_cmd r @ CHR '')'' # t" "e \<le> length b"
    using paren_pipe[OF d1 ok(1) s _ _ l'(1)] xb by (simp_all add: e_def)
  have p: "peek b e [x] = (True, e)" "gettoken b e = (x, e, Suc e, Suc e)"
    using peek_at[OF e(3), of "[x]"] gettoken_symbol[OF e(2) _ _ e(3)] e(2) x by (auto simp: NUL_not)
  have d2: "drop (Suc e) b = CHR ''('' # print_cmd r @ CHR '')'' # t" "Suc e \<le> length b"
    using drop_tail[of e b "[x]"] drop_le[of e b "[x]"] e(2,3) by simp_all
  have "4 * (length b - Suc e) \<le> m'" using m' by (simp add: e_def)
  then obtain r' where r': "parseline m' b (Suc (Suc e)) = Ret (r', Suc (Suc e) + length (print_cmd r))"
      "read_cmd (slice b) r' = r"
    using reads_paren[OF ihr d2] by blast
  have nbt: "\<not> blank (starts t)" "starts t \<notin> set ''<>''" using closes_nb[OF t] by auto
  have ee: "e' = Suc e + length (print_cmd r) + 2" by (simp add: e_def e'_def)
  have "parseexec (Suc (Suc m')) b (Suc e) = Ret (r', e')" "drop e' b = t" "e' \<le> length b"
    unfolding ee by (rule paren_pipe[OF d2(1) ok(2) d2(2) nbt r'(1)])+
  then show ?thesis using e d2 p l'(2) r'(2) by auto
qed

lemma reads_pipe:
  assumes "reads b l" "reads b r" "scmd_ok l" "scmd_ok r"
  shows "reads b (SPipe l r)"
  unfolding reads_def
proof (intro allI impI)
  fix s t n assume d: "drop s b = print_cmd (SPipe l r) @ t" and t: "closes t" and s: "s \<le> length b"
    and n: "4 * (length b - s) + 4 \<le> n"
  obtain m where m: "n = Suc (Suc (Suc (Suc m)))" "4 * (length b - s) \<le> m" using fuel4[OF n] by blast
  have "s < length b" using d s by (cases "s = length b") auto
  then obtain m' where m': "m = Suc m'" and k: "4 * (length b - Suc s) \<le> m'" using m(2) by (cases m) auto
  let ?e = "s + length (print_cmd l) + 2" and ?e' = "s + length (print_cmd l) + length (print_cmd r) + 5"
  have d': "drop s b = ''('' @ print_cmd l @ '')'' @ [CHR ''|''] @ ''('' @ print_cmd r @ '')'' @ t" using d by simp
  obtain l' r' where lr: "parseexec (Suc (Suc m)) b s = Ret (l', ?e)" "peek b ?e ''|'' = (True, ?e)"
      "gettoken b ?e = (CHR ''|'', ?e, Suc ?e, Suc ?e)" "parseexec (Suc m) b (Suc ?e) = Ret (r', ?e')"
      "drop ?e' b = t" "?e' \<le> length b" "read_cmd (slice b) l' = l" "read_cmd (slice b) r' = r"
    using reads_two[OF assms d' disjI1[OF refl] t s m(2) k] unfolding m' by blast
  have "parsepipe (Suc (Suc m)) b (Suc ?e) = Ret (r', ?e')"
    using lr(4-6) closes_nb[OF t] by (intro pipe_end) auto
  then have "parsepipe (Suc (Suc (Suc m))) b s = Ret (PIPE l' r', ?e')" using lr(1-3) by (simp del: parseexec.simps)
  then have "parseline n b s = Ret (PIPE l' r', ?e')" unfolding m using lr(5,6) t by (intro line_end) auto
  then show "\<exists>c'. parseline n b s = Ret (c', s + length (print_cmd (SPipe l r))) \<and> read_cmd (slice b) c' = SPipe l r"
    using lr(7,8) by (intro exI[of _ "PIPE l' r'"]) (simp add: add.assoc)
qed

lemma reads_list:
  assumes "reads b l" "reads b r" "scmd_ok l" "scmd_ok r"
  shows "reads b (SList l r)"
  unfolding reads_def
proof (intro allI impI)
  fix s t n assume d: "drop s b = print_cmd (SList l r) @ t" and t: "closes t" and s: "s \<le> length b"
    and n: "4 * (length b - s) + 4 \<le> n"
  obtain m where m: "n = Suc (Suc (Suc (Suc m)))" "4 * (length b - s) \<le> m" using fuel4[OF n] by blast
  have "s < length b" using d s by (cases "s = length b") auto
  then obtain m' where m': "m = Suc m'" and k: "4 * (length b - Suc s) \<le> m'" using m(2) by (cases m) auto
  let ?e = "s + length (print_cmd l) + 2" and ?e' = "s + length (print_cmd l) + length (print_cmd r) + 5"
  have d': "drop s b = ''('' @ print_cmd l @ '')'' @ [CHR '';''] @ ''('' @ print_cmd r @ '')'' @ t" using d by simp
  obtain l' r' where lr: "parseexec (Suc (Suc m)) b s = Ret (l', ?e)" "peek b ?e '';'' = (True, ?e)"
      "gettoken b ?e = (CHR '';'', ?e, Suc ?e, Suc ?e)" "parseexec (Suc m) b (Suc ?e) = Ret (r', ?e')"
      "drop ?e' b = t" "?e' \<le> length b" "read_cmd (slice b) l' = l" "read_cmd (slice b) r' = r"
      "drop ?e b = CHR '';'' # drop (Suc ?e) b" "?e \<le> length b"
    using reads_two[OF assms d' disjI2[OF refl] t s m(2) k] unfolding m' by metis
  have "parsepipe (Suc (Suc m)) b (Suc ?e) = Ret (r', ?e')"
    using lr(4-6) closes_nb[OF t] by (intro pipe_end) auto
  then have r: "parseline (Suc (Suc (Suc m))) b (Suc ?e) = Ret (r', ?e')" using lr(5,6) t by (intro line_end) auto
  have st: "starts (drop ?e b) = CHR '';''" using arg_cong[OF lr(9), of starts] by (simp only: starts_simps)
  have l: "parsepipe (Suc (Suc (Suc m))) b s = Ret (l', ?e)" 
    by (rule pipe_end[OF lr(1,10)]) (simp_all only: st, simp_all)
  have "back_loop b l' ?e = (l', ?e)" 
    by (rule back_none[OF lr(10)]) (simp_all only: st, simp_all)
  then have "parseline n b s = Ret (LIST l' r', ?e')"
    unfolding m(1) parseline.simps(2)[of "Suc (Suc (Suc m))"] l using lr(2,3) r by (simp del: parseline.simps)
  then show "\<exists>c'. parseline n b s = Ret (c', s + length (print_cmd (SList l r))) \<and> read_cmd (slice b) c' = SList l r"
    using lr(7,8) by (intro exI[of _ "LIST l' r'"]) (simp add: add.assoc)
qed

lemma all_read: "scmd_ok c \<Longrightarrow> NUL \<notin> set b \<Longrightarrow> reads b c"
  by (induction c) (auto intro: reads_exec reads_redir reads_pipe reads_list reads_back simp del: print_cmd.simps)

lemma print_no_NUL: "scmd_ok c \<Longrightarrow> NUL \<notin> set (print_cmd c)"
  by (induction c) (auto simp: word_ok_def NUL_def)

lemma read_cmd_cong: "(\<And>q eq. (q, eq) \<in> set (spans c) \<Longrightarrow> f q eq = g q eq) \<Longrightarrow> read_cmd f c = read_cmd g c"
  by (induction c) auto

text \<open>
  C16. The shell's parser reads back what is written. Every command tree whose words are non-empty
  and free of blanks and symbols, with at most nine arguments to a command, can be written as a
  line, with brackets around the parts, and \<open>parsecmd\<close> turns that line into exactly this tree, its
  strings read as C strings from the buffer.
\<close>

theorem parse_print_roundtrip:
  assumes "scmd_ok c"
  shows "\<exists>c' buf. parsecmd (print_cmd c) = Ret (c', buf) \<and> read_cmd (\<lambda>q _. cstr buf q) c' = c"
proof -
  let ?b = "print_cmd c"
  have b: "NUL \<notin> set ?b" by (rule print_no_NUL[OF assms])
  have "drop 0 ?b = print_cmd c @ []" "closes []" "4 * (length ?b - 0) + 4 \<le> depth_for ?b 0"
    by (simp_all add: closes_def depth_for_def)
  then have "\<exists>c'. parseline (depth_for ?b 0) ?b 0 = Ret (c', 0 + length ?b) \<and> read_cmd (slice ?b) c' = c"
    using all_read[OF assms b] unfolding reads_def by blast
  then obtain c' where c': "parseline (depth_for ?b 0) ?b 0 = Ret (c', length ?b)" "read_cmd (slice ?b) c' = c"
    by auto
  have "cmd_ok ?b c'" using parser_good[OF b, of "depth_for ?b 0"] c'(1) by (auto simp: depth_for_def)
  then have "read_cmd (\<lambda>q _. cstr (nulterminate c' (?b @ [NUL])) q) c' = read_cmd (slice ?b) c'"
    using cstr_nulterminate by (intro read_cmd_cong) auto
  moreover have "peek ?b (length ?b) [] = (False, length ?b)" using peek_at[of "length ?b" ?b "[]"] by simp
  ultimately show ?thesis using c' by (simp add: parsecmd_def)
qed

theorem parse_print_roundtrip_witness:
  "\<exists>c' buf. parsecmd ''(ls -l )|((sort )>out)'' = Ret (c', buf) \<and>
     read_cmd (\<lambda>q _. cstr buf q) c' = SPipe (SExec [''ls'', ''-l'']) (SRedir (SExec [''sort'']) ''out'' 513 1)"
proof -
  let ?c = "SPipe (SExec [''ls'', ''-l'']) (SRedir (SExec [''sort'']) ''out'' 513 1)"
  have "scmd_ok ?c" by code_simp
  moreover have "print_cmd ?c = ''(ls -l )|((sort )>out)''" by simp
  ultimately show ?thesis using parse_print_roundtrip[of ?c] by simp
qed

end
