(* ===== verification/Fdtab.thy ===== *)
theory Fdtab
  imports Prelude
begin

text \<open>
  The table of open files of a process (\<open>src/P5/xv6/kernel/sysfile.c\<close>): what \<open>fdalloc\<close> and the check of
  \<open>argfd\<close> do with it, for whatever stands for an open file.
\<close>

definition fdalloc :: "'f \<Rightarrow> 'f option list \<Rightarrow> (nat \<times> 'f option list) option" where
  "fdalloc f t = (case find_index (\<lambda>x. x = None) t of None \<Rightarrow> None | Some fd \<Rightarrow> Some (fd, t[fd := Some f]))"

definition fdlookup :: "int \<Rightarrow> 'f option list \<Rightarrow> 'f option" where
  "fdlookup fd t = (if fd < 0 \<or> fd \<ge> int NOFILE then None else t ! nat fd)"

lemma fdalloc_SomeD:
  "fdalloc f t = Some (fd, t') \<Longrightarrow> fd < length t \<and> t ! fd = None \<and> (\<forall>j<fd. t ! j \<noteq> None) \<and> t' = t[fd := Some f]"
  by (auto simp: fdalloc_def find_index_Some_iff split: option.splits)

lemma fdalloc_None: "fdalloc f t = None \<longleftrightarrow> None \<notin> set t"
proof (cases "find_index (\<lambda>x. x = None) t")
  case (Some fd)
  then have "None \<in> set t" using find_index_SomeD[OF Some] nth_mem by metis
  then show ?thesis using Some by (simp add: fdalloc_def)
next
  case None
  then have "None \<notin> set t" by (auto simp: find_index_None_iff)
  then show ?thesis using None by (simp add: fdalloc_def)
qed

end
