(* ===== verification/Shrun.thy ===== *)
theory Shrun
  imports Shprint Fdtab
begin

text \<open>
  Running commands: \<open>runcmd\<close>, \<open>getcmd\<close>, \<open>gets\<close> and \<open>main\<close> of the shell
  (\<open>src/P5/xv6/user/sh.c\<close>, \<open>ulib.c\<close>), over the descriptor table that the system calls of
  \<open>src/P5/xv6/kernel/sysfile.c\<close> maintain.

  \<open>runcmd\<close> starts processes. What it starts is a tree that records which process waits for which;
  a leaf is a program with its arguments and its descriptor table at the call of \<open>exec\<close>. Whether
  \<open>open\<close>, \<open>fork\<close> and \<open>pipe\<close> succeed is up to the kernel: the record \<open>env\<close> says so, by file and mode,
  and by the number of forks before.
\<close>

section \<open>Descriptor tables\<close>

datatype ofile = Std nat | Opened string int | PipeR nat | PipeW nat

type_synonym fdtab = "ofile option list"

definition sys_dup :: "int \<Rightarrow> fdtab \<Rightarrow> fdtab" where
  "sys_dup fd t =
     (case fdlookup fd t of None \<Rightarrow> t
      | Some f \<Rightarrow> (case fdalloc f t of None \<Rightarrow> t | Some (_, t') \<Rightarrow> t'))"

definition sys_close :: "int \<Rightarrow> fdtab \<Rightarrow> fdtab" where
  "sys_close fd t = (case fdlookup fd t of None \<Rightarrow> t | Some _ \<Rightarrow> t[nat fd := None])"

text \<open>\<open>ok\<close> says whether \<open>pipealloc\<close> found two file structures and a page.\<close>

definition sys_pipe :: "bool \<Rightarrow> nat \<Rightarrow> fdtab \<Rightarrow> (int \<times> int \<times> fdtab) option" where
  "sys_pipe ok k t =
     (if \<not> ok then None
      else case fdalloc (PipeR k) t of None \<Rightarrow> None
      | Some (fd0, t1) \<Rightarrow>
        (case fdalloc (PipeW k) t1 of None \<Rightarrow> None | Some (fd1, t2) \<Rightarrow> Some (int fd0, int fd1, t2)))"

section \<open>Running a command\<close>

datatype 'a run =
    Exit
  | Fail string
  | Prog "string list" 'a
  | Seq "'a run" "'a run"
  | Par "'a run" "'a run"
  | Bg "'a run"

record env =
  opens :: "string \<Rightarrow> int \<Rightarrow> bool"
  forks :: "nat \<Rightarrow> bool"
  pipes :: "nat \<Rightarrow> bool"

text \<open>
  \<open>k\<close> counts the forks so far; a pipe is named by the fork that follows it. \<open>Seq a b\<close> runs \<open>a\<close> in a
  child and waits before it goes on with \<open>b\<close>; \<open>Par a b\<close> starts both and waits for both; \<open>Bg a\<close>
  starts \<open>a\<close> and does not wait.
\<close>

fun runcmd :: "env \<Rightarrow> scmd \<Rightarrow> fdtab \<Rightarrow> nat \<Rightarrow> fdtab run \<times> nat" where
  "runcmd E (SExec []) t k = (Exit, k)"
| "runcmd E (SExec (w # ws)) t k = (Prog (w # ws) t, k)"
| "runcmd E (SRedir c file mode fd) t k =
     (let t1 = sys_close fd t in
      case (if opens E file mode then fdalloc (Opened file mode) t1 else None) of
        None \<Rightarrow> (Fail (''open '' @ file @ '' failed''), k)
      | Some (_, t2) \<Rightarrow> runcmd E c t2 k)"
| "runcmd E (SList l r) t k =
     (if \<not> forks E k then (Fail ''fork'', Suc k)
      else let (a, k1) = runcmd E l t (Suc k); (b, k2) = runcmd E r t k1 in (Seq a b, k2))"
| "runcmd E (SPipe l r) t k =
     (case sys_pipe (pipes E k) k t of None \<Rightarrow> (Fail ''pipe'', k)
      | Some (p0, p1, t1) \<Rightarrow>
        if \<not> forks E k then (Fail ''fork'', Suc k)
        else
          let (a, k1) = runcmd E l (sys_close p1 (sys_close p0 (sys_dup p1 (sys_close 1 t1)))) (Suc k) in
          if \<not> forks E k1 then (Par a (Fail ''fork''), Suc k1)
          else
            let (b, k2) = runcmd E r (sys_close p1 (sys_close p0 (sys_dup p0 (sys_close 0 t1)))) (Suc k1)
            in (Par a b, k2))"
| "runcmd E (SBack c) t k =
     (if \<not> forks E k then (Fail ''fork'', Suc k)
      else let (a, k1) = runcmd E c t (Suc k) in (Bg a, k1))"

section \<open>Reading commands\<close>

text \<open>\<open>gets\<close>: at most \<open>n\<close> characters, up to and including a newline or carriage return.\<close>

fun gets :: "nat \<Rightarrow> string \<Rightarrow> string \<times> string" where
  "gets 0 inp = ([], inp)"
| "gets (Suc n) [] = ([], [])"
| "gets (Suc n) (c # inp) =
     (if c = CHR 0x0A \<or> c = CHR 0x0D then ([c], inp)
      else let (line, rest) = gets n inp in (c # line, rest))"

text \<open>The C string in the buffer and the rest of the input; \<open>None\<close> is the return value -1.\<close>

definition getcmd :: "nat \<Rightarrow> string \<Rightarrow> (string \<times> string) option" where
  "getcmd nbuf inp =
     (let (line, rest) = gets (nbuf - 1) inp; buf = takeWhile (\<lambda>c. c \<noteq> NUL) line in
      if buf = [] then None else Some (buf, rest))"

datatype step = Chdir string | Run string

lemma gets_rest: "gets n inp = (line, rest) \<Longrightarrow> inp = line @ rest"
  by (induction n inp arbitrary: line rest rule: gets.induct) (auto split: if_splits prod.splits)

text \<open>The loop of \<open>main\<close>: the steps the shell takes, one after the other.\<close>

function shell :: "string \<Rightarrow> step list" where
  "shell inp =
     (case getcmd 100 inp of None \<Rightarrow> []
      | Some (buf, rest) \<Rightarrow>
        (if take 3 buf = ''cd '' then Chdir (drop 3 (butlast buf)) else Run buf) # shell rest)"
  by auto

termination
proof (relation "measure length", goal_cases)
  case (2 inp x buf rest)
  obtain line where "gets 99 inp = (line, rest)" "line \<noteq> []"
    using 2 by (fastforce simp: getcmd_def Let_def split: prod.splits if_splits)
  then show ?case using gets_rest[of 99 inp line rest] 2 by simp
qed simp

declare shell.simps [simp del]

section \<open>Standard input and output\<close>

text \<open>
  The table of a process that has exactly its standard descriptors open, and what a command does in
  terms of these three.
\<close>

definition std_tab :: "ofile \<times> ofile \<times> ofile \<Rightarrow> fdtab" where
  "std_tab x = (case x of (i, out, err) \<Rightarrow> [Some i, Some out, Some err] @ replicate 13 None)"

fun plan :: "env \<Rightarrow> scmd \<Rightarrow> ofile \<times> ofile \<times> ofile \<Rightarrow> nat \<Rightarrow> (ofile \<times> ofile \<times> ofile) run \<times> nat" where
  "plan E (SExec ws) x k = (if ws = [] then Exit else Prog ws x, k)"
| "plan E (SRedir c file mode fd) (i, out, err) k =
     (if \<not> opens E file mode then (Fail (''open '' @ file @ '' failed''), k)
      else plan E c (if fd = 0 then (Opened file mode, out, err) else (i, Opened file mode, err)) k)"
| "plan E (SList l r) x k =
     (if \<not> forks E k then (Fail ''fork'', Suc k)
      else let (a, k1) = plan E l x (Suc k); (b, k2) = plan E r x k1 in (Seq a b, k2))"
| "plan E (SPipe l r) (i, out, err) k =
     (if \<not> pipes E k then (Fail ''pipe'', k)
      else if \<not> forks E k then (Fail ''fork'', Suc k)
      else let (a, k1) = plan E l (i, PipeW k, err) (Suc k) in
        if \<not> forks E k1 then (Par a (Fail ''fork''), Suc k1)
        else let (b, k2) = plan E r (PipeR k, out, err) (Suc k1) in (Par a b, k2))"
| "plan E (SBack c) x k =
     (if \<not> forks E k then (Fail ''fork'', Suc k) else let (a, k1) = plan E c x (Suc k) in (Bg a, k1))"

lemmas fd_defs = NOFILE_def fdalloc_def sys_dup_def sys_close_def sys_pipe_def fdlookup_def find_index_def

lemma std_redir:
  "fdalloc f (sys_close 0 (std_tab (i, out, err))) = Some (0, std_tab (f, out, err))"
  "fdalloc f (sys_close 1 (std_tab (i, out, err))) = Some (1, std_tab (i, f, err))"
  by (simp_all add: fd_defs std_tab_def)

lemma std_pipe:
  obtains t where "sys_pipe True k (std_tab (i, out, err)) = Some (3, 4, t)"
    and "sys_close 4 (sys_close 3 (sys_dup 4 (sys_close 1 t))) = std_tab (i, PipeW k, err)"
    and "sys_close 4 (sys_close 3 (sys_dup 3 (sys_close 0 t))) = std_tab (PipeR k, out, err)"
proof
  let ?t = "[Some i, Some out, Some err, Some (PipeR k), Some (PipeW k)] @ replicate 11 None"
  show "sys_pipe True k (std_tab (i, out, err)) = Some (3, 4, ?t)"
    by (simp add: fd_defs std_tab_def eval_nat_numeral)
  show "sys_close 4 (sys_close 3 (sys_dup 4 (sys_close 1 ?t))) = std_tab (i, PipeW k, err)"
    "sys_close 4 (sys_close 3 (sys_dup 3 (sys_close 0 ?t))) = std_tab (PipeR k, out, err)"
    by (simp_all add: fd_defs std_tab_def eval_nat_numeral)
qed

text \<open>
  C24. Descriptors of the programs a command starts. From a shell that has exactly descriptors 0, 1
  and 2 open, \<open>runcmd\<close> on its descriptor tables does what the abstract plan says on the three
  standard files: a redirection replaces standard input or output, because the lowest free number
  is the one just closed; in a pipeline the left command writes to the pipe the right one reads
  from; and every program starts with exactly its three standard descriptors open, so that no
  process keeps an end of a pipe it does not use.
\<close>

theorem runcmd_refines_plan:
  assumes "scmd_ok c"
  shows "runcmd E c (std_tab x) k = map_prod (map_run std_tab) id (plan E c x k)"
  using assms
proof (induction c arbitrary: x k)
  case (SExec ws)
  show ?case by (cases ws) simp_all
next
  case (SRedir c f mode fd)
  obtain i out err where x: "x = (i, out, err)" by (cases x) auto
  have "fd = 0 \<or> fd = 1" using SRedir.prems by auto
  then show ?case using SRedir by (auto simp: x std_redir Let_def)
next
  case (SPipe l r)
  obtain i out err where x: "x = (i, out, err)" by (cases x) auto
  obtain t where t: "sys_pipe True k (std_tab (i, out, err)) = Some (3, 4, t)"
    "sys_close 4 (sys_close 3 (sys_dup 4 (sys_close 1 t))) = std_tab (i, PipeW k, err)"
    "sys_close 4 (sys_close 3 (sys_dup 3 (sys_close 0 t))) = std_tab (PipeR k, out, err)"
    by (rule std_pipe)
  have no: "sys_pipe False k (std_tab (i, out, err)) = None" by (simp add: sys_pipe_def)
  show ?case using SPipe by (cases "pipes E k") (auto simp: x t no Let_def split: prod.splits)
qed (auto simp: Let_def split: prod.splits)

theorem runcmd_refines_plan_witness:
  "runcmd \<lparr>opens = \<lambda>_ _. True, forks = \<lambda>_. True, pipes = \<lambda>_. True\<rparr>
     (SPipe (SRedir (SExec [''cat'']) ''in'' 0 0) (SExec [''wc''])) (std_tab (Std 0, Std 1, Std 2)) 7 =
   (Par (Prog [''cat''] (std_tab (Opened ''in'' 0, PipeW 7, Std 2)))
        (Prog [''wc''] (std_tab (PipeR 7, Std 1, Std 2))), 9)"
proof -
  have "scmd_ok (SPipe (SRedir (SExec [''cat'']) ''in'' 0 0) (SExec [''wc'']))" by code_simp
  then show ?thesis unfolding runcmd_refines_plan[OF \<open>scmd_ok _\<close>] by simp
qed

section \<open>Lines of input\<close>

definition plain :: "string \<Rightarrow> bool" where
  "plain l \<longleftrightarrow> (\<forall>c\<in>set l. c \<noteq> NUL \<and> c \<noteq> CHR 0x0A \<and> c \<noteq> CHR 0x0D)"

lemma gets_line:
  "plain l \<Longrightarrow> length l < n \<Longrightarrow> gets n (l @ CHR 0x0A # rest) = (l @ [CHR 0x0A], rest)"
proof (induction l arbitrary: n)
  case Nil
  then show ?case by (cases n) auto
next
  case (Cons c l)
  then show ?case by (cases n) (auto simp: plain_def)
qed

lemma getcmd_line:
  assumes "plain l" and "length l < 99"
  shows "getcmd 100 (l @ CHR 0x0A # rest) = Some (l @ [CHR 0x0A], rest)"
proof -
  have "\<forall>c\<in>set (l @ [CHR 0x0A]). c \<noteq> NUL" using assms(1) by (auto simp: plain_def NUL_def)
  then show ?thesis using gets_line[OF assms, of rest] by (simp add: getcmd_def)
qed

lemma take3_line: "take 3 (l @ [CHR 0x0A]) = ''cd '' \<longleftrightarrow> take 3 l = ''cd ''"
proof (cases "length l < 3")
  case True
  then have "length l = 0 \<or> length l = 1 \<or> length l = 2" by linarith
  then show ?thesis by (auto simp: length_Suc_conv numeral_2_eq_2 eval_nat_numeral)
qed simp

text \<open>
  The main loop of the shell. Given lines of fewer than 99 characters, each ended by a newline,
  the shell takes one step per line and in order: it changes directory in its own process for a
  line that starts with \<open>cd\<close> and a blank, with the newline cut off, and runs every other line.
\<close>

theorem shell_lines:
  assumes "\<forall>l\<in>set ls. plain l \<and> length l < 99"
  shows "shell (concat (map (\<lambda>l. l @ [CHR 0x0A]) ls)) =
     map (\<lambda>l. if take 3 l = ''cd '' then Chdir (drop 3 l) else Run (l @ [CHR 0x0A])) ls"
  using assms
proof (induction ls)
  case Nil
  show ?case by (subst shell.simps) (simp add: getcmd_def eval_nat_numeral)
next
  case (Cons l ls)
  then show ?case
    using getcmd_line[of l "concat (map (\<lambda>l. l @ [CHR 0x0A]) ls)"]
    by (subst shell.simps) (auto simp: take3_line butlast_append)
qed

theorem shell_lines_witness:
  "shell (''cd /bin'' @ [CHR 0x0A] @ ''ls'' @ [CHR 0x0A]) = [Chdir ''/bin'', Run (''ls'' @ [CHR 0x0A])]"
  using shell_lines[of "[''cd /bin'', ''ls'']"] by (simp add: plain_def NUL_def)

end
