(* ===== verification/Bio.thy ===== *)
theory Bio
  imports Prelude
begin

text \<open>
  The buffer cache and the disk driver (\<open>src/P5/xv6/kernel/bio.c\<close>, \<open>ide.c\<close>).

  The cache is an array of buffers and the order of the list through \<open>prev\<close> and \<open>next\<close>, most
  recently used first. The three bits of \<open>flags\<close> are three booleans. \<open>bget\<close>, \<open>brelse\<close>, \<open>iderw\<close> up to
  the point where it sleeps, and the interrupt handler \<open>ideintr\<close> each run under a lock and are one
  step. The disk holds 512-byte sectors of two drives; a request addresses them by the low bit of
  \<open>dev\<close> and the low 28 bits of \<open>sector\<close>, as \<open>idestart\<close> programs the controller.
\<close>

section \<open>State\<close>

definition NBUF :: nat where "NBUF = 10"

record buf =
  busy :: bool
  valid :: bool
  dirty :: bool
  bdev :: u32
  bsector :: u32
  bdata :: "u8 list"

record bstate =
  bufs :: "buf list"
  lru :: "nat list"
  idequeue :: "nat list"
  disk :: "u32 \<times> u32 \<Rightarrow> u8 list"
  havedisk1 :: bool

section \<open>Operations\<close>

text \<open>\<open>binit\<close> inserts each buffer at the front.\<close>

definition binit :: "bstate \<Rightarrow> bstate" where
  "binit s = s\<lparr>lru := foldl (\<lambda>l b. b # l) [] [0..<NBUF], bufs := map (\<lambda>b. b\<lparr>bdev := -1\<rparr>) (bufs s)\<rparr>"

text \<open>
  \<open>bget\<close> returns a buffer, or \<open>None\<close> when it has to sleep until the one it wants is released; it
  then starts over.
\<close>

definition bget :: "u32 \<Rightarrow> u32 \<Rightarrow> bstate \<Rightarrow> (nat option \<times> bstate) outcome" where
  "bget dev sector s =
     (case find (\<lambda>b. bdev (bufs s ! b) = dev \<and> bsector (bufs s ! b) = sector) (lru s) of
        Some b \<Rightarrow>
          if \<not> busy (bufs s ! b) then Ret (Some b, s\<lparr>bufs := (bufs s)[b := (bufs s ! b)\<lparr>busy := True\<rparr>]\<rparr>)
          else Ret (None, s)
      | None \<Rightarrow>
          (case find (\<lambda>b. \<not> busy (bufs s ! b)) (rev (lru s)) of
             Some b \<Rightarrow>
               Ret (Some b, s\<lparr>bufs := (bufs s)[b := (bufs s ! b)\<lparr>bdev := dev, bsector := sector,
                                 busy := True, valid := False, dirty := False\<rparr>]\<rparr>)
           | None \<Rightarrow> Panic ''bget: no buffers''))"

definition phys :: "buf \<Rightarrow> u32 \<times> u32" where
  "phys b = (bdev b AND 1, bsector b AND 0x0FFFFFFF)"

text \<open>A write hands the data to the controller at once, a read waits for the interrupt.\<close>

definition idestart :: "nat \<Rightarrow> bstate \<Rightarrow> bstate" where
  "idestart i s =
     (let b = bufs s ! i in if dirty b then s\<lparr>disk := (disk s)(phys b := bdata b)\<rparr> else s)"

text \<open>\<open>ok\<close> is the result of \<open>idewait(1)\<close>: whether the drive reports success.\<close>

definition ideintr :: "bool \<Rightarrow> bstate \<Rightarrow> bstate" where
  "ideintr ok s =
     (case idequeue s of
        [] \<Rightarrow> s
      | i # q \<Rightarrow>
          let b = bufs s ! i;
              b1 = (if \<not> dirty b \<and> ok then b\<lparr>bdata := disk s (phys b)\<rparr> else b);
              s1 = s\<lparr>idequeue := q, bufs := (bufs s)[i := b1\<lparr>valid := True, dirty := False\<rparr>]\<rparr>
          in (case q of [] \<Rightarrow> s1 | j # _ \<Rightarrow> idestart j s1))"

text \<open>\<open>iderw\<close> up to its wait; the wait ends when the buffer is \<open>ready\<close>.\<close>

definition ready :: "buf \<Rightarrow> bool" where
  "ready b \<longleftrightarrow> valid b \<and> \<not> dirty b"

definition iderw :: "nat \<Rightarrow> bstate \<Rightarrow> bstate outcome" where
  "iderw i s =
     (let b = bufs s ! i in
      if \<not> busy b then Panic ''iderw: buf not busy''
      else if ready b then Panic ''iderw: nothing to do''
      else if bdev b \<noteq> 0 \<and> \<not> havedisk1 s then Panic ''iderw: ide disk 1 not present''
      else let s1 = s\<lparr>idequeue := idequeue s @ [i]\<rparr>
           in Ret (if idequeue s = [] then idestart i s1 else s1))"

definition bread :: "u32 \<Rightarrow> u32 \<Rightarrow> bstate \<Rightarrow> (nat option \<times> bstate) outcome" where
  "bread dev sector s =
     bindO (bget dev sector s) (\<lambda>(r, s1).
     case r of None \<Rightarrow> Ret (None, s1)
     | Some i \<Rightarrow>
         if \<not> valid (bufs s1 ! i) then bindO (iderw i s1) (\<lambda>s2. Ret (Some i, s2)) else Ret (Some i, s1))"

definition bwrite :: "nat \<Rightarrow> bstate \<Rightarrow> bstate outcome" where
  "bwrite i s =
     (if \<not> busy (bufs s ! i) then Panic ''bwrite''
      else iderw i (s\<lparr>bufs := (bufs s)[i := (bufs s ! i)\<lparr>dirty := True\<rparr>]\<rparr>))"

definition brelse :: "nat \<Rightarrow> bstate \<Rightarrow> bstate outcome" where
  "brelse i s =
     (if \<not> busy (bufs s ! i) then Panic ''brelse''
      else Ret (s\<lparr>lru := i # remove1 i (lru s), bufs := (bufs s)[i := (bufs s ! i)\<lparr>busy := False\<rparr>]\<rparr>))"

section \<open>Processes using the cache\<close>

text \<open>
  A buffer is idle or held by a process, which may have changed the data since it was last in step
  with the disk; \<open>bad\<close> are the buffers whose last request was a read on which the drive reported an error. Processes call \<open>bread\<close>, wait for their request, change the data, call \<open>bwrite\<close> and
  wait, and release the buffer; interrupts come in between. A process releases a buffer only after
  it has written its changes, as every caller in \<open>fs.c\<close> does.
\<close>

datatype phase = Idle | Held bool

definition empty_buf :: buf where
  "empty_buf = \<lparr>busy = False, valid = False, dirty = False, bdev = 0, bsector = 0, bdata = replicate 512 0\<rparr>"

definition bboot :: "(u32 \<times> u32 \<Rightarrow> u8 list) \<Rightarrow> bool \<Rightarrow> bstate" where
  "bboot d h = \<lparr>bufs = replicate NBUF empty_buf, lru = [], idequeue = [], disk = d, havedisk1 = h\<rparr>"

definition sector_ok :: "u32 \<Rightarrow> u32 \<Rightarrow> bool" where
  "sector_ok dev sector \<longleftrightarrow> dev \<le> 1 \<and> sector < 0x10000000"

text \<open>What an interrupt does to \<open>bad\<close>: the request at the head of the queue is complete.\<close>

definition failed_reads :: "bool \<Rightarrow> bstate \<Rightarrow> nat set \<Rightarrow> nat set" where
  "failed_reads ok s bad =
     (case idequeue s of [] \<Rightarrow> bad
      | i # _ \<Rightarrow> if \<not> dirty (bufs s ! i) \<and> \<not> ok then insert i bad else bad - {i})"

inductive breach :: "bstate \<Rightarrow> phase list \<Rightarrow> nat set \<Rightarrow> bool" where
  boot: "breach (binit (bboot d h)) (replicate NBUF Idle) {}"
| read: "breach s ph bad \<Longrightarrow> sector_ok dev sector \<Longrightarrow> bread dev sector s = Ret (Some i, s') \<Longrightarrow>
    breach s' (ph[i := Held False]) bad"
| intr: "breach s ph bad \<Longrightarrow> breach (ideintr ok s) ph (failed_reads ok s bad)"
| modify: "breach s ph bad \<Longrightarrow> i < NBUF \<Longrightarrow> ph ! i = Held m \<Longrightarrow> ready (bufs s ! i) \<Longrightarrow>
    breach (s\<lparr>bufs := (bufs s)[i := (bufs s ! i)\<lparr>bdata := d\<rparr>]\<rparr>) (ph[i := Held True]) bad"
| "write": "breach s ph bad \<Longrightarrow> i < NBUF \<Longrightarrow> ph ! i = Held m \<Longrightarrow> ready (bufs s ! i) \<Longrightarrow> bwrite i s = Ret s' \<Longrightarrow>
    breach s' (ph[i := Held False]) bad"
| release: "breach s ph bad \<Longrightarrow> i < NBUF \<Longrightarrow> ph ! i = Held False \<Longrightarrow> ready (bufs s ! i) \<Longrightarrow> brelse i s = Ret s' \<Longrightarrow>
    breach s' (ph[i := Idle]) bad"

section \<open>The invariant\<close>














lemma idestart_simps [simp]:
  "bufs (idestart j s) = bufs s" "lru (idestart j s) = lru s" "idequeue (idestart j s) = idequeue s"
  by (simp_all add: idestart_def Let_def)
















text \<open>
  A read of sector 5 on disk 0 in a fresh system, up to its interrupt. When the drive reports an error, the process
  goes on with a buffer that does not have the contents of the sector.
\<close>

definition demo_disk :: "u32 \<times> u32 \<Rightarrow> u8 list" where
  "demo_disk = (\<lambda>(d, n). if n = 5 then [7, 8, 9] else [])"

definition demo_reading :: bstate where
  "demo_reading = snd (case bread 0 5 (binit (bboot demo_disk False)) of Ret p \<Rightarrow> p)"

lemma demo_reading: "breach demo_reading ((replicate NBUF Idle)[0 := Held False]) {}"
proof -
  have r: "bread 0 5 (binit (bboot demo_disk False)) = Ret (Some 0, demo_reading)" by code_simp
  show ?thesis using breach.read[OF breach.boot _ r] by (simp add: sector_ok_def)
qed

lemma demo_bad: "failed_reads True demo_reading {} = {}" "failed_reads False demo_reading {} = {0}"
proof -
  have "idequeue demo_reading = [0]" "\<not> dirty (bufs demo_reading ! 0)" by code_simp+
  then show "failed_reads True demo_reading {} = {}" "failed_reads False demo_reading {} = {0}"
    by (simp_all add: failed_reads_def)
qed


theorem failed_read_is_valid:
  "\<exists>s ph bad. breach s ph bad \<and> ph ! 0 = Held False \<and> ready (bufs s ! 0) \<and>
     bdata (bufs s ! 0) \<noteq> disk s (bdev (bufs s ! 0), bsector (bufs s ! 0))"
proof -
  let ?s = "ideintr False demo_reading"
  have b: "breach ?s ((replicate NBUF Idle)[0 := Held False]) {0}"
    using breach.intr[OF demo_reading, of False] by (simp add: demo_bad)
  have "ready (bufs ?s ! 0)" "length (bdata (bufs ?s ! 0)) = 512" "bsector (bufs ?s ! 0) = 5" "bdev (bufs ?s ! 0) = 0"
    "disk ?s (0, 5) = [7, 8, 9]" by code_simp+
  then show ?thesis using b
    by (intro exI[of _ ?s] exI[of _ "(replicate NBUF Idle)[0 := Held False]"] exI[of _ "{0}"]) (auto simp: NBUF_def)
qed

end
