(* ===== verification/Fs.thy ===== *)
theory Fs
  imports Prelude
begin

text \<open>
  The file system (\<open>src/P5/xv6/kernel/fs.c\<close>, \<open>include/fs.h\<close>): block allocator, inodes, file
  contents, directories and paths.

  The disk is a function from device and block number to 512 bytes. A \<open>bread\<close> with its \<open>brelse\<close>
  reads a block, a \<open>bwrite\<close> replaces it; that the buffer cache behaves like this is what the theory
  \<open>Bio\<close> shows. Inodes are entries of the cache \<open>icache\<close> and pointers to them are indexes. The model
  is sequential: it runs one operation at a time, and an operation that would have to wait for the
  lock of another process has the outcome \<open>Undef ''waits''\<close>. Reading and writing of device files goes
  through \<open>devsw\<close>, which the drivers fill in; it is a parameter.
\<close>

section \<open>Constants and layout\<close>

definition ROOTINO :: u32 where "ROOTINO = 1"
definition ROOTDEV :: u32 where "ROOTDEV = 1"
definition BSIZE :: nat where "BSIZE = 512"
definition NDIRECT :: nat where "NDIRECT = 12"
definition NINDIRECT :: nat where "NINDIRECT = 128"
definition MAXFILE :: nat where "MAXFILE = 140"
definition IPB :: nat where "IPB = 8"
definition BPB :: nat where "BPB = 4096"
definition DIRSIZ :: nat where "DIRSIZ = 14"
definition NINODE :: nat where "NINODE = 50"
definition NDEV :: nat where "NDEV = 10"
definition T_DIR :: u16 where "T_DIR = 1"
definition T_FILE :: u16 where "T_FILE = 2"
definition T_DEV :: u16 where "T_DEV = 3"

definition IBLOCK :: "nat \<Rightarrow> nat" where "IBLOCK i = i div IPB + 2"
definition BBLOCK :: "nat \<Rightarrow> nat \<Rightarrow> nat" where "BBLOCK b ninodes = b div BPB + ninodes div IPB + 3"

type_synonym block = "u8 list"

text \<open>Little-endian numbers in a list of bytes, and a range of bytes replaced.\<close>

definition put :: "u8 list \<Rightarrow> nat \<Rightarrow> u8 list \<Rightarrow> u8 list" where
  "put bs k xs = take k bs @ xs @ drop (k + length xs) bs"

definition bytes16 :: "u16 \<Rightarrow> u8 list" where
  "bytes16 v = [of_nat (unat v), of_nat (unat v div 256)]"

definition bytes32 :: "u32 \<Rightarrow> u8 list" where
  "bytes32 v = map (\<lambda>i. of_nat (unat v div 256 ^ i)) [0..<4]"

record superblock =
  sb_size :: u32
  sb_nblocks :: u32
  sb_ninodes :: u32

record dinode =
  d_type :: u16
  d_major :: u16
  d_minor :: u16
  d_nlink :: u16
  d_size :: u32
  d_addrs :: "u32 list"

text \<open>A \<open>struct dinode\<close> as its 64 bytes.\<close>

definition dinode_bytes :: "dinode \<Rightarrow> u8 list" where
  "dinode_bytes d = bytes16 (d_type d) @ bytes16 (d_major d) @ bytes16 (d_minor d) @ bytes16 (d_nlink d) @
     bytes32 (d_size d) @ concat (map bytes32 (d_addrs d))"

definition dinode_at :: "u8 list \<Rightarrow> nat \<Rightarrow> dinode" where
  "dinode_at bs k = \<lparr>d_type = get16 bs k, d_major = get16 bs (k + 2), d_minor = get16 bs (k + 4),
     d_nlink = get16 bs (k + 6), d_size = get32 bs (k + 8),
     d_addrs = map (\<lambda>i. get32 bs (k + 12 + 4 * i)) [0..<NDIRECT + 1]\<rparr>"

section \<open>State\<close>

record inode =
  i_dev :: u32
  i_num :: u32
  i_ref :: int
  i_busy :: bool
  i_valid :: bool
  i_type :: u16
  i_major :: u16
  i_minor :: u16
  i_nlink :: u16
  i_size :: u32
  i_addrs :: "u32 list"

record fsys =
  blk :: "u32 \<Rightarrow> nat \<Rightarrow> block"
  icache :: "inode list"

definition set_blk :: "u32 \<Rightarrow> nat \<Rightarrow> block \<Rightarrow> fsys \<Rightarrow> fsys" where
  "set_blk dev bno bs s = s\<lparr>blk := (blk s)(dev := (blk s dev)(bno := bs))\<rparr>"

definition set_inode :: "nat \<Rightarrow> inode \<Rightarrow> fsys \<Rightarrow> fsys" where
  "set_inode ip i s = s\<lparr>icache := (icache s)[ip := i]\<rparr>"

section \<open>Blocks\<close>

definition readsb :: "u32 \<Rightarrow> fsys \<Rightarrow> superblock" where
  "readsb dev s = (let bs = blk s dev 1 in \<lparr>sb_size = get32 bs 0, sb_nblocks = get32 bs 4, sb_ninodes = get32 bs 8\<rparr>)"

definition bzero :: "u32 \<Rightarrow> nat \<Rightarrow> fsys \<Rightarrow> fsys" where
  "bzero dev bno s = set_blk dev bno (replicate BSIZE 0) s"

text \<open>Bit \<open>bi\<close> of a bitmap block, and the block with it set or cleared.\<close>

definition tst :: "block \<Rightarrow> nat \<Rightarrow> bool" where
  "tst bs bi \<longleftrightarrow> bs ! (bi div 8) AND push_bit (bi mod 8) 1 \<noteq> 0"

definition setb :: "block \<Rightarrow> nat \<Rightarrow> block" where
  "setb bs bi = bs[bi div 8 := bs ! (bi div 8) OR push_bit (bi mod 8) 1]"

definition clrb :: "block \<Rightarrow> nat \<Rightarrow> block" where
  "clrb bs bi = bs[bi div 8 := bs ! (bi div 8) AND NOT (push_bit (bi mod 8) 1)]"

text \<open>The search for a free bit stops at the end of the bitmap block, not at the size of the disk.\<close>

function balloc_loop :: "u32 \<Rightarrow> superblock \<Rightarrow> nat \<Rightarrow> fsys \<Rightarrow> (nat \<times> fsys) outcome" where
  "balloc_loop dev sb b s =
     (if b < unat (sb_size sb) then
        let bno = BBLOCK b (unat (sb_ninodes sb)); bs = blk s dev bno in
        case find_index (\<lambda>bi. \<not> tst bs bi) [0..<BPB] of
          Some bi \<Rightarrow> Ret (b + bi, set_blk dev bno (setb bs bi) s)
        | None \<Rightarrow> bindO (cint (int b + int BPB)) (\<lambda>_. balloc_loop dev sb (b + BPB) s)
      else Panic ''balloc: out of blocks'')"
  by auto

termination
  by (relation "measure (\<lambda>(_, sb, b, _). unat (sb_size sb) - b)") (auto simp: BPB_def)

declare balloc_loop.simps [simp del]

definition balloc :: "u32 \<Rightarrow> fsys \<Rightarrow> (nat \<times> fsys) outcome" where
  "balloc dev s = balloc_loop dev (readsb dev s) 0 s"

definition bfree :: "u32 \<Rightarrow> nat \<Rightarrow> fsys \<Rightarrow> fsys outcome" where
  "bfree dev b s =
     (let s1 = bzero dev b s; sb = readsb dev s1; bno = BBLOCK b (unat (sb_ninodes sb));
          bs = blk s1 dev bno; bi = b mod BPB in
      if \<not> tst bs bi then Panic ''freeing free block''
      else Ret (set_blk dev bno (clrb bs bi) s1))"

section \<open>Inodes\<close>

definition iget :: "u32 \<Rightarrow> u32 \<Rightarrow> fsys \<Rightarrow> (nat \<times> fsys) outcome" where
  "iget dev inum s =
     (case find_index (\<lambda>i. i_ref i > 0 \<and> i_dev i = dev \<and> i_num i = inum) (icache s) of
        Some ip \<Rightarrow> Ret (ip, set_inode ip ((icache s ! ip)\<lparr>i_ref := i_ref (icache s ! ip) + 1\<rparr>) s)
      | None \<Rightarrow>
          (case find_index (\<lambda>i. i_ref i = 0) (icache s) of
             None \<Rightarrow> Panic ''iget: no inodes''
           | Some ip \<Rightarrow> Ret (ip, set_inode ip ((icache s ! ip)\<lparr>i_dev := dev, i_num := inum, i_ref := 1,
                                    i_busy := False, i_valid := False\<rparr>) s)))"

text \<open>The loop of \<open>ialloc\<close> over the inode numbers.\<close>

function ialloc_loop :: "u32 \<Rightarrow> nat \<Rightarrow> u16 \<Rightarrow> nat \<Rightarrow> fsys \<Rightarrow> (nat \<times> fsys) outcome" where
  "ialloc_loop dev n type inum s =
     (if inum < n then
        let bs = blk s dev (IBLOCK inum); k = 64 * (inum mod IPB) in
        if d_type (dinode_at bs k) = 0
        then iget dev (of_nat inum)
               (set_blk dev (IBLOCK inum) (put bs k (bytes16 type @ replicate 62 0)) s)
        else ialloc_loop dev n type (Suc inum) s
      else Panic ''ialloc: no inodes'')"
  by auto

termination
  by (relation "measure (\<lambda>(_, n, _, inum, _). n - inum)") auto

declare ialloc_loop.simps [simp del]

definition ialloc :: "u32 \<Rightarrow> u16 \<Rightarrow> fsys \<Rightarrow> (nat \<times> fsys) outcome" where
  "ialloc dev type s = ialloc_loop dev (unat (sb_ninodes (readsb dev s))) type 1 s"

definition iupdate :: "nat \<Rightarrow> fsys \<Rightarrow> fsys" where
  "iupdate ip s =
     (let i = icache s ! ip; bno = IBLOCK (unat (i_num i));
          d = \<lparr>d_type = i_type i, d_major = i_major i, d_minor = i_minor i, d_nlink = i_nlink i,
               d_size = i_size i, d_addrs = i_addrs i\<rparr>
      in set_blk (i_dev i) bno (put (blk s (i_dev i) bno) (64 * (unat (i_num i) mod IPB)) (dinode_bytes d)) s)"

definition idup :: "nat \<Rightarrow> fsys \<Rightarrow> nat \<times> fsys" where
  "idup ip s = (ip, set_inode ip ((icache s ! ip)\<lparr>i_ref := i_ref (icache s ! ip) + 1\<rparr>) s)"

definition ilock :: "nat \<Rightarrow> fsys \<Rightarrow> fsys outcome" where
  "ilock ip s =
     (let i = icache s ! ip in
      if i_ref i < 1 then Panic ''ilock''
      else if i_busy i then Undef ''waits''
      else if i_valid i then Ret (set_inode ip (i\<lparr>i_busy := True\<rparr>) s)
      else
        let d = dinode_at (blk s (i_dev i) (IBLOCK (unat (i_num i)))) (64 * (unat (i_num i) mod IPB)) in
        if d_type d = 0 then Panic ''ilock: no type''
        else Ret (set_inode ip (i\<lparr>i_busy := True, i_valid := True, i_type := d_type d, i_major := d_major d,
                    i_minor := d_minor d, i_nlink := d_nlink d, i_size := d_size d, i_addrs := d_addrs d\<rparr>) s))"

definition iunlock :: "nat \<Rightarrow> fsys \<Rightarrow> fsys outcome" where
  "iunlock ip s =
     (let i = icache s ! ip in
      if \<not> i_busy i \<or> i_ref i < 1 then Panic ''iunlock''
      else Ret (set_inode ip (i\<lparr>i_busy := False\<rparr>) s))"

section \<open>Contents of an inode\<close>

text \<open>\<open>bmap\<close> reads the indirect block before it allocates and writes that copy back afterwards.\<close>

definition set_addr :: "nat \<Rightarrow> nat \<Rightarrow> nat \<Rightarrow> fsys \<Rightarrow> fsys" where
  "set_addr ip k b s = set_inode ip ((icache s ! ip)\<lparr>i_addrs := (i_addrs (icache s ! ip))[k := of_nat b]\<rparr>) s"

definition bmap :: "nat \<Rightarrow> nat \<Rightarrow> fsys \<Rightarrow> (nat \<times> fsys) outcome" where
  "bmap ip bn s =
     (let i = icache s ! ip; dev = i_dev i in
      if bn < NDIRECT then
        if i_addrs i ! bn = 0
        then bindO (balloc dev s) (\<lambda>(b, s1). Ret (b, set_addr ip bn b s1))
        else Ret (unat (i_addrs i ! bn), s)
      else if bn - NDIRECT < NINDIRECT then
        bindO (if i_addrs i ! NDIRECT = 0
               then bindO (balloc dev s) (\<lambda>(b, s1). Ret (b, set_addr ip NDIRECT b s1))
               else Ret (unat (i_addrs i ! NDIRECT), s)) (\<lambda>(ind, s1).
        let a = blk s1 dev ind; k = 4 * (bn - NDIRECT) in
        if get32 a k = 0
        then bindO (balloc dev s1) (\<lambda>(b, s2). Ret (b, set_blk dev ind (put a k (bytes32 (of_nat b))) s2))
        else Ret (unat (get32 a k), s1))
      else Panic ''bmap: out of range'')"

fun free_all :: "u32 \<Rightarrow> u32 list \<Rightarrow> fsys \<Rightarrow> fsys outcome" where
  "free_all dev [] s = Ret s"
| "free_all dev (a # as) s = bindO (if a \<noteq> 0 then bfree dev (unat a) s else Ret s) (free_all dev as)"

text \<open>\<open>itrunc\<close> clears the addresses it has freed; none is left.\<close>

definition itrunc :: "nat \<Rightarrow> fsys \<Rightarrow> fsys outcome" where
  "itrunc ip s =
     (let i = icache s ! ip; dev = i_dev i; ind = i_addrs i ! NDIRECT in
      bindO (free_all dev (take NDIRECT (i_addrs i)) s) (\<lambda>s1.
      bindO (if ind \<noteq> 0
             then bindO (free_all dev (map (\<lambda>j. get32 (blk s1 dev (unat ind)) (4 * j)) [0..<NINDIRECT]) s1)
                    (bfree dev (unat ind))
             else Ret s1) (\<lambda>s2.
      Ret (iupdate ip (set_inode ip (i\<lparr>i_addrs := replicate (NDIRECT + 1) 0, i_size := 0\<rparr>) s2)))))"

definition iput :: "nat \<Rightarrow> fsys \<Rightarrow> fsys outcome" where
  "iput ip s =
     (let i = icache s ! ip in
      bindO (if i_ref i = 1 \<and> i_valid i \<and> i_nlink i = 0 then
               if i_busy i then Panic ''iput busy''
               else bindO (itrunc ip (set_inode ip (i\<lparr>i_busy := True\<rparr>) s)) (\<lambda>s1.
                    let s2 = iupdate ip (set_inode ip ((icache s1 ! ip)\<lparr>i_type := 0\<rparr>) s1)
                    in Ret (set_inode ip ((icache s2 ! ip)\<lparr>i_busy := False, i_valid := False\<rparr>) s2))
             else Ret s) (\<lambda>s3.
      Ret (set_inode ip ((icache s3 ! ip)\<lparr>i_ref := i_ref (icache s3 ! ip) - 1\<rparr>) s3)))"

definition iunlockput :: "nat \<Rightarrow> fsys \<Rightarrow> fsys outcome" where
  "iunlockput ip s = bindO (iunlock ip s) (iput ip)"

record fstat =
  st_dev :: u32
  st_ino :: u32
  st_type :: u16
  st_nlink :: u16
  st_size :: u32

definition stati :: "nat \<Rightarrow> fsys \<Rightarrow> fstat" where
  "stati ip s = (let i = icache s ! ip in
     \<lparr>st_dev = i_dev i, st_ino = i_num i, st_type = i_type i, st_nlink = i_nlink i, st_size = i_size i\<rparr>)"

record devsw =
  dread :: "u16 \<Rightarrow> u32 \<Rightarrow> (int \<times> u8 list) option"
  dwrite :: "u16 \<Rightarrow> u8 list \<Rightarrow> int option"

definition no_dev :: "u16 \<Rightarrow> bool" where
  "no_dev major \<longleftrightarrow> sint major < 0 \<or> sint major \<ge> int NDEV"

text \<open>The loop of \<open>readi\<close>: \<open>n\<close> bytes from \<open>off\<close>.\<close>

function readi_loop :: "nat \<Rightarrow> nat \<Rightarrow> nat \<Rightarrow> fsys \<Rightarrow> (u8 list \<times> fsys) outcome" where
  "readi_loop ip off n s =
     (if n = 0 then Ret ([], s)
      else bindO (bmap ip (off div BSIZE) s) (\<lambda>(b, s1).
        let m = min n (BSIZE - off mod BSIZE);
            xs = take m (drop (off mod BSIZE) (blk s1 (i_dev (icache s1 ! ip)) b)) in
        bindO (readi_loop ip (off + m) (n - m) s1) (\<lambda>(ys, s2). Ret (xs @ ys, s2))))"
  by auto

termination
  by (relation "measure (\<lambda>(_, _, n, _). n)") (auto simp: BSIZE_def)

declare readi_loop.simps [simp del]

definition readi :: "devsw \<Rightarrow> nat \<Rightarrow> u32 \<Rightarrow> u32 \<Rightarrow> fsys \<Rightarrow> (int \<times> u8 list \<times> fsys) outcome" where
  "readi dv ip off n s =
     (let i = icache s ! ip in
      if i_type i = T_DEV then
        if no_dev (i_major i) then Ret (-1, [], s)
        else (case dread dv (i_major i) n of None \<Rightarrow> Ret (-1, [], s) | Some (r, xs) \<Rightarrow> Ret (r, xs, s))
      else if off > i_size i \<or> off + n < off then Ret (-1, [], s)
      else let n' = (if off + n > i_size i then i_size i - off else n) in
        bindO (readi_loop ip (unat off) (unat n') s) (\<lambda>(xs, s1). Ret (uint n', xs, s1)))"

function writei_loop :: "nat \<Rightarrow> nat \<Rightarrow> u8 list \<Rightarrow> fsys \<Rightarrow> fsys outcome" where
  "writei_loop ip off src s =
     (if src = [] then Ret s
      else bindO (bmap ip (off div BSIZE) s) (\<lambda>(b, s1).
        let m = min (length src) (BSIZE - off mod BSIZE); dev = i_dev (icache s1 ! ip) in
        writei_loop ip (off + m) (drop m src)
          (set_blk dev b (put (blk s1 dev b) (off mod BSIZE) (take m src)) s1)))"
  by auto

termination
  by (relation "measure (\<lambda>(_, _, src, _). length src)") (auto simp: BSIZE_def)

declare writei_loop.simps [simp del]

text \<open>\<open>src\<close> holds the \<open>n\<close> bytes to write.\<close>

definition writei :: "devsw \<Rightarrow> nat \<Rightarrow> u8 list \<Rightarrow> u32 \<Rightarrow> u32 \<Rightarrow> fsys \<Rightarrow> (int \<times> fsys) outcome" where
  "writei dv ip src off n s =
     (let i = icache s ! ip in
      if i_type i = T_DEV then
        if no_dev (i_major i) then Ret (-1, s)
        else (case dwrite dv (i_major i) src of None \<Rightarrow> Ret (-1, s) | Some r \<Rightarrow> Ret (r, s))
      else if off > i_size i \<or> off + n < off then Ret (-1, s)
      else let n' = (if off + n > of_nat (MAXFILE * BSIZE) then of_nat (MAXFILE * BSIZE) - off else n) in
        bindO (writei_loop ip (unat off) (take (unat n') src) s) (\<lambda>s1.
        let j = icache s1 ! ip in
        Ret (uint n', if n' > 0 \<and> off + n' > i_size j
                      then iupdate ip (set_inode ip (j\<lparr>i_size := off + n'\<rparr>) s1) else s1)))"

section \<open>Directories\<close>

text \<open>\<open>namecmp\<close> is \<open>strncmp\<close> up to \<open>DIRSIZ\<close>; a list that ends is followed by NUL.\<close>

fun strncmp_eq :: "nat \<Rightarrow> u8 list \<Rightarrow> u8 list \<Rightarrow> bool" where
  "strncmp_eq 0 p q \<longleftrightarrow> True"
| "strncmp_eq (Suc n) p q \<longleftrightarrow>
     (let c = (case p of [] \<Rightarrow> 0 | x # _ \<Rightarrow> x); d = (case q of [] \<Rightarrow> 0 | x # _ \<Rightarrow> x) in
      if c \<noteq> 0 \<and> c = d then strncmp_eq n (tl p) (tl q) else c = d)"

definition namecmp :: "u8 list \<Rightarrow> u8 list \<Rightarrow> bool" where
  "namecmp s t = strncmp_eq DIRSIZ s t"

definition de_inum :: "block \<Rightarrow> nat \<Rightarrow> u16" where
  "de_inum bs k = get16 bs (16 * k)"

definition de_name :: "block \<Rightarrow> nat \<Rightarrow> u8 list" where
  "de_name bs k = take DIRSIZ (drop (16 * k + 2) bs)"

text \<open>Block by block; the offset of the entry and its inode number.\<close>

function dirlookup_loop :: "nat \<Rightarrow> u8 list \<Rightarrow> nat \<Rightarrow> fsys \<Rightarrow> ((nat \<times> u16) option \<times> fsys) outcome" where
  "dirlookup_loop dp name off s =
     (if off < unat (i_size (icache s ! dp)) then
        bindO (bmap dp (off div BSIZE) s) (\<lambda>(b, s1).
        let bs = blk s1 (i_dev (icache s1 ! dp)) b in
        case find_index (\<lambda>k. de_inum bs k \<noteq> 0 \<and> namecmp name (de_name bs k)) [0..<32] of
          Some k \<Rightarrow> Ret (Some (off + 16 * k, de_inum bs k), s1)
        | None \<Rightarrow> dirlookup_loop dp name (off + BSIZE) s1)
      else Ret (None, s))"
  by auto

termination
proof (relation "measure (\<lambda>(_, _, off, _). 4294967296 - off)", goal_cases)
  case (2 dp name off s)
  then show ?case using unat_lt_u32[of "i_size (icache s ! dp)"] by (simp add: BSIZE_def)
qed simp

declare dirlookup_loop.simps [simp del]

definition dirlookup :: "nat \<Rightarrow> u8 list \<Rightarrow> fsys \<Rightarrow> ((nat \<times> nat) option \<times> fsys) outcome" where
  "dirlookup dp name s =
     (if i_type (icache s ! dp) \<noteq> T_DIR then Panic ''dirlookup not DIR''
      else bindO (dirlookup_loop dp name 0 s) (\<lambda>(r, s1).
        case r of None \<Rightarrow> Ret (None, s1)
        | Some (off, inum) \<Rightarrow>
            bindO (iget (i_dev (icache s1 ! dp)) (ucast inum) s1) (\<lambda>(ip, s2). Ret (Some (ip, off), s2))))"

text \<open>
  The search of \<open>dirlink\<close> for an empty entry. The first argument bounds the rounds; \<open>dirlink\<close> gives one
  more than the directory has entries, so that the test of \<open>off\<close> always ends the loop.
\<close>

fun empty_dirent :: "nat \<Rightarrow> devsw \<Rightarrow> nat \<Rightarrow> nat \<Rightarrow> fsys \<Rightarrow> (nat \<times> fsys) outcome" where
  "empty_dirent 0 dv dp off s = Ret (off, s)"
| "empty_dirent (Suc k) dv dp off s =
     (if off < unat (i_size (icache s ! dp)) then
        bindO (readi dv dp (of_nat off) 16 s) (\<lambda>(r, xs, s1).
        if r \<noteq> 16 then Panic ''dirlink read''
        else if get16 xs 0 = 0 then Ret (off, s1) else empty_dirent k dv dp (off + 16) s1)
      else Ret (off, s))"

definition dirlink :: "devsw \<Rightarrow> nat \<Rightarrow> u8 list \<Rightarrow> u32 \<Rightarrow> fsys \<Rightarrow> (int \<times> fsys) outcome" where
  "dirlink dv dp name inum s =
     bindO (dirlookup dp name s) (\<lambda>(r, s1).
     case r of
       Some (ip, _) \<Rightarrow> bindO (iput ip s1) (\<lambda>s2. Ret (-1, s2))
     | None \<Rightarrow>
         bindO (empty_dirent (Suc (unat (i_size (icache s1 ! dp)) div 16)) dv dp 0 s1) (\<lambda>(off, s2).
         let de = bytes16 (ucast inum) @ take DIRSIZ (name @ replicate DIRSIZ 0) in
         bindO (writei dv dp de (of_nat off) 16 s2) (\<lambda>(w, s3).
         if w \<noteq> 16 then Panic ''dirlink'' else Ret (0, s3))))"

section \<open>Paths\<close>

definition slash :: u8 where "slash = 47"

text \<open>The next element of a path and the rest; \<open>None\<close> is the null pointer.\<close>

definition skipelem :: "u8 list \<Rightarrow> (u8 list \<times> u8 list) option" where
  "skipelem path =
     (let p = dropWhile (\<lambda>c. c = slash) path in
      if p = [] then None
      else let s = takeWhile (\<lambda>c. c \<noteq> slash) p; rest = dropWhile (\<lambda>c. c \<noteq> slash) p in
        Some (if length s \<ge> DIRSIZ then take DIRSIZ s else s, dropWhile (\<lambda>c. c = slash) rest))"

lemma skipelem_shorter: "skipelem path = Some (name, rest) \<Longrightarrow> length rest < length path"
proof -
  assume a: "skipelem path = Some (name, rest)"
  let ?p = "dropWhile (\<lambda>c. c = slash) path"
  have r: "?p \<noteq> []" "rest = dropWhile (\<lambda>c. c = slash) (dropWhile (\<lambda>c. c \<noteq> slash) ?p)"
    using a by (auto simp: skipelem_def Let_def split: if_splits)
  have "hd ?p \<noteq> slash" using r(1) hd_dropWhile[of "\<lambda>c. c = slash" path] by blast
  then have "length (dropWhile (\<lambda>c. c \<noteq> slash) ?p) < length ?p"
    using r(1) by (cases ?p) (auto simp: le_imp_less_Suc length_dropWhile_le)
  moreover have "length rest \<le> length (dropWhile (\<lambda>c. c \<noteq> slash) ?p)" unfolding r(2) by (rule length_dropWhile_le)
  moreover have "length ?p \<le> length path" by (rule length_dropWhile_le)
  ultimately show ?thesis by linarith
qed

function namex_loop :: "bool \<Rightarrow> nat \<Rightarrow> u8 list \<Rightarrow> fsys \<Rightarrow> ((nat \<times> u8 list) option \<times> fsys) outcome" where
  "namex_loop par ip path s =
     (case skipelem path of
        None \<Rightarrow> if par then bindO (iput ip s) (\<lambda>s1. Ret (None, s1)) else Ret (Some (ip, []), s)
      | Some (name, rest) \<Rightarrow>
          bindO (ilock ip s) (\<lambda>s1.
          if i_type (icache s1 ! ip) \<noteq> T_DIR then bindO (iunlockput ip s1) (\<lambda>s2. Ret (None, s2))
          else if par \<and> rest = [] then bindO (iunlock ip s1) (\<lambda>s2. Ret (Some (ip, name), s2))
          else bindO (dirlookup ip name s1) (\<lambda>(r, s2).
            case r of
              None \<Rightarrow> bindO (iunlockput ip s2) (\<lambda>s3. Ret (None, s3))
            | Some (nxt, _) \<Rightarrow> bindO (iunlockput ip s2) (\<lambda>s3. namex_loop par nxt rest s3))))"
  by auto

termination
  by (relation "measure (\<lambda>(_, _, path, _). length path)") (auto dest: skipelem_shorter)

declare namex_loop.simps [simp del]

definition namex :: "nat \<Rightarrow> u8 list \<Rightarrow> bool \<Rightarrow> fsys \<Rightarrow> ((nat \<times> u8 list) option \<times> fsys) outcome" where
  "namex cwd path par s =
     bindO (if path \<noteq> [] \<and> hd path = slash then iget ROOTDEV ROOTINO s else Ret (idup cwd s)) (\<lambda>(ip, s1).
     namex_loop par ip path s1)"

definition namei :: "nat \<Rightarrow> u8 list \<Rightarrow> fsys \<Rightarrow> (nat option \<times> fsys) outcome" where
  "namei cwd path s = bindO (namex cwd path False s) (\<lambda>(r, s1). Ret (map_option fst r, s1))"

definition nameiparent :: "nat \<Rightarrow> u8 list \<Rightarrow> fsys \<Rightarrow> ((nat \<times> u8 list) option \<times> fsys) outcome" where
  "nameiparent cwd path s = namex cwd path True s"

end
