(* ===== verification/Fspath.thy ===== *)
theory Fspath
  imports Fs
begin

text \<open>
  Names in the file system: paths are taken apart by \<open>skipelem\<close>, and names are compared up to
  \<open>DIRSIZ\<close> characters.
\<close>

section \<open>Comparing names\<close>

definition name_of :: "u8 list \<Rightarrow> u8 list" where
  "name_of cs = take DIRSIZ (takeWhile (\<lambda>c. c \<noteq> 0) cs)"

lemma strncmp_eq_iff:
  "strncmp_eq n p q \<longleftrightarrow> take n (takeWhile (\<lambda>c. c \<noteq> 0) p) = take n (takeWhile (\<lambda>c. c \<noteq> 0) q)"
proof (induction n p q rule: strncmp_eq.induct)
  case (2 n p q)
  then show ?case by (cases p; cases q) (auto simp: Let_def)
qed simp

lemma namecmp_iff: "namecmp s t \<longleftrightarrow> name_of s = name_of t"
  by (simp add: namecmp_def name_of_def strncmp_eq_iff)

section \<open>Taking a path apart\<close>

text \<open>The names that the loop of \<open>namex\<close> looks up, one after the other.\<close>

function path_elems :: "u8 list \<Rightarrow> u8 list list" where
  "path_elems path = (case skipelem path of None \<Rightarrow> [] | Some (name, rest) \<Rightarrow> name # path_elems rest)"
  by auto

termination
  by (relation "measure length") (auto dest: skipelem_shorter)

declare path_elems.simps [simp del]

text \<open>The reference: cut at every slash, drop the empty pieces, shorten the rest.\<close>

fun split_on :: "'a \<Rightarrow> 'a list \<Rightarrow> 'a list list" where
  "split_on c [] = [[]]"
| "split_on c (x # xs) = (if x = c then [] # split_on c xs
     else (x # hd (split_on c xs)) # tl (split_on c xs))"

lemma split_on_nonempty [simp]: "split_on c xs \<noteq> []"
  by (cases xs) auto

definition pieces :: "u8 list \<Rightarrow> u8 list list" where
  "pieces path = map (take DIRSIZ) (filter (\<lambda>e. e \<noteq> []) (split_on slash path))"

lemma pieces_slash: "pieces (dropWhile (\<lambda>c. c = slash) path) = pieces path"
  by (induction path) (auto simp: pieces_def)

lemma split_on_word:
  "split_on slash xs = takeWhile (\<lambda>c. c \<noteq> slash) xs #
     (case dropWhile (\<lambda>c. c \<noteq> slash) xs of [] \<Rightarrow> [] | _ # ys \<Rightarrow> split_on slash ys)"
  by (induction xs) auto

lemma pieces_word:
  assumes "xs \<noteq> []" and "hd xs \<noteq> slash"
  shows "pieces xs = take DIRSIZ (takeWhile (\<lambda>c. c \<noteq> slash) xs) # pieces (dropWhile (\<lambda>c. c \<noteq> slash) xs)"
proof -
  have w: "takeWhile (\<lambda>c. c \<noteq> slash) xs \<noteq> []" using assms by (cases xs) auto
  show ?thesis
  proof (cases "dropWhile (\<lambda>c. c \<noteq> slash) xs")
    case Nil
    have "split_on slash xs = [takeWhile (\<lambda>c. c \<noteq> slash) xs]" using split_on_word[of xs] unfolding Nil by simp
    then show ?thesis unfolding Nil using w by (simp add: pieces_def)
  next
    case (Cons y ys)
    then have "y = slash" using dropWhile_eq_Cons_conv[of "\<lambda>c. c \<noteq> slash" xs] by simp
    then show ?thesis using split_on_word[of xs] w Cons by (simp add: pieces_def)
  qed
qed

text \<open>
  C25. Paths. The loop of \<open>namex\<close>, which takes one element after the other off a path with
  \<open>skipelem\<close>, sees exactly the pieces between slashes, in order, without the empty ones, each cut
  to the 14 characters a directory entry can hold.
\<close>

theorem skipelem_splits_path:
  "path_elems path = map (take DIRSIZ) (filter (\<lambda>e. e \<noteq> []) (split_on slash path))"
  unfolding pieces_def[symmetric]
proof (induction path rule: path_elems.induct)
  case (1 path)
  let ?p = "dropWhile (\<lambda>c. c = slash) path"
  show ?case
  proof (cases "?p = []")
    case True
    then have "skipelem path = None" by (simp add: skipelem_def)
    moreover have "pieces path = []" using pieces_slash[of path] unfolding True by (simp add: pieces_def)
    ultimately show ?thesis by (subst path_elems.simps) simp
  next
    case False
    let ?r = "dropWhile (\<lambda>c. c = slash) (dropWhile (\<lambda>c. c \<noteq> slash) ?p)"
    have e: "skipelem path = Some (take DIRSIZ (takeWhile (\<lambda>c. c \<noteq> slash) ?p), ?r)"
      using False by (simp add: skipelem_def Let_def)
    have "hd ?p \<noteq> slash" using False hd_dropWhile[of "\<lambda>c. c = slash" path] by blast
    then have "pieces path = take DIRSIZ (takeWhile (\<lambda>c. c \<noteq> slash) ?p) # pieces ?r"
      using pieces_slash[of path] pieces_word[OF False] by (simp add: pieces_slash)
    then show ?thesis using 1[OF e refl] e by (subst path_elems.simps) simp
  qed
qed

end
