(* ===== verification/Fsblock.thy ===== *)
theory Fsblock
  imports Fs
begin

text \<open>
  The block allocator and the inode table of the file system: bits of the bitmap, and the fields of
  an inode on disk.
\<close>

section \<open>Bits\<close>

lemma bit_push_u8: "k < 8 \<Longrightarrow> bit (push_bit k (1::u8)) n \<longleftrightarrow> n = k"
  by (auto simp: bit_simps)

lemma tst_bit: "tst bs bi \<longleftrightarrow> bit (bs ! (bi div 8)) (bi mod 8)"
proof -
  let ?k = "bi mod 8" and ?x = "bs ! (bi div 8)"
  have k: "?k < 8" by simp
  have "?x AND push_bit ?k 1 = (if bit ?x ?k then push_bit ?k 1 else 0)"
    using bit_push_u8[OF k] by (intro bit_word_eqI) (auto simp: bit_and_iff)
  moreover have "push_bit ?k (1::u8) \<noteq> 0" using bit_push_u8[OF k, of ?k] by (metis bit_0_eq bot_apply bot_bool_def)
  ultimately show ?thesis by (simp add: tst_def)
qed

lemma bit_index: "bi div 8 = bj div 8 \<Longrightarrow> bi mod 8 = bj mod 8 \<Longrightarrow> bi = (bj::nat)"
  by (metis div_mult_mod_eq)

lemma tst_setb: "bi < BPB \<Longrightarrow> length bs = BSIZE \<Longrightarrow> tst (setb bs bi) bj \<longleftrightarrow> bj = bi \<or> tst bs bj"
proof -
  assume a: "bi < BPB" "length bs = BSIZE"
  then have l: "bi div 8 < length bs" by (simp add: BPB_def BSIZE_def)
  show ?thesis
  proof (cases "bj div 8 = bi div 8")
    case True
    then have "tst (setb bs bi) bj \<longleftrightarrow> tst bs bj \<or> bj mod 8 = bi mod 8"
      using l bit_push_u8[of "bi mod 8" "bj mod 8"] by (simp add: tst_bit setb_def bit_or_iff)
    then show ?thesis using True bit_index[of bj bi] by metis
  next
    case False
    then show ?thesis by (auto simp: tst_bit setb_def)
  qed
qed

lemma tst_clrb: "bi < BPB \<Longrightarrow> length bs = BSIZE \<Longrightarrow> tst (clrb bs bi) bj \<longleftrightarrow> bj \<noteq> bi \<and> tst bs bj"
proof -
  assume a: "bi < BPB" "length bs = BSIZE"
  then have l: "bi div 8 < length bs" by (simp add: BPB_def BSIZE_def)
  show ?thesis
  proof (cases "bj div 8 = bi div 8")
    case True
    then have "tst (clrb bs bi) bj \<longleftrightarrow> tst bs bj \<and> bj mod 8 \<noteq> bi mod 8"
      using l bit_push_u8[of "bi mod 8" "bj mod 8"] by (simp add: tst_bit clrb_def bit_and_iff bit_not_iff)
    then show ?thesis using True bit_index[of bj bi] by metis
  next
    case False
    then show ?thesis by (auto simp: tst_bit clrb_def)
  qed
qed

section \<open>The allocator\<close>

text \<open>Whether the bitmap has a block in use.\<close>

definition in_use :: "u32 \<Rightarrow> fsys \<Rightarrow> nat \<Rightarrow> bool" where
  "in_use dev s b \<longleftrightarrow> tst (blk s dev (BBLOCK b (unat (sb_ninodes (readsb dev s))))) (b mod BPB)"

text \<open>Blocks have their size, and the bitmap lies behind the superblock.\<close>

definition blocks_ok :: "fsys \<Rightarrow> bool" where
  "blocks_ok s \<longleftrightarrow> (\<forall>dev b. length (blk s dev b) = BSIZE)"

lemma blk_set: "blk (set_blk dev b bs s) d c = (if d = dev \<and> c = b then bs else blk s d c)"
  by (simp add: set_blk_def)

lemma readsb_set: "b \<noteq> 1 \<Longrightarrow> readsb dev (set_blk dev b bs s) = readsb dev s"
  by (simp add: readsb_def blk_set)

lemma BBLOCK_not_sb [simp]: "BBLOCK b n \<noteq> Suc 0"
  by (simp add: BBLOCK_def)

lemma icache_set_blk [simp]: "icache (set_blk dev b bs s) = icache s"
  by (simp add: set_blk_def)

lemma BBLOCK_group: "b mod BPB = 0 \<Longrightarrow> bi < BPB \<Longrightarrow> BBLOCK (b + bi) n = BBLOCK b n \<and> (b + bi) mod BPB = bi"
  by (auto simp: BBLOCK_def BPB_def)

lemma BBLOCK_inj: "BBLOCK b n = BBLOCK c n \<Longrightarrow> b mod BPB = c mod BPB \<Longrightarrow> b = c"
  by (simp add: BBLOCK_def) (metis div_mult_mod_eq)

lemma set_bit_in_use:
  assumes "blocks_ok s" and "n = unat (sb_ninodes (readsb dev s))"
  shows "in_use dev (set_blk dev (BBLOCK b n) (setb (blk s dev (BBLOCK b n)) (b mod BPB)) s) c \<longleftrightarrow> c = b \<or> in_use dev s c"
    and "in_use dev (set_blk dev (BBLOCK b n) (clrb (blk s dev (BBLOCK b n)) (b mod BPB)) s) c \<longleftrightarrow> c \<noteq> b \<and> in_use dev s c"
proof -
  have l: "length (blk s dev (BBLOCK b n)) = BSIZE" "b mod BPB < BPB" using assms by (auto simp: blocks_ok_def BPB_def)
  show "in_use dev (set_blk dev (BBLOCK b n) (setb (blk s dev (BBLOCK b n)) (b mod BPB)) s) c \<longleftrightarrow> c = b \<or> in_use dev s c"
    using tst_setb[OF l(2,1), of "c mod BPB"] BBLOCK_inj[of c n b] assms(2)
    by (auto simp: in_use_def readsb_set blk_set)
  show "in_use dev (set_blk dev (BBLOCK b n) (clrb (blk s dev (BBLOCK b n)) (b mod BPB)) s) c \<longleftrightarrow> c \<noteq> b \<and> in_use dev s c"
    using tst_clrb[OF l(2,1), of "c mod BPB"] BBLOCK_inj[of c n b] assms(2)
    by (auto simp: in_use_def readsb_set blk_set)
qed

text \<open>The blocks that hold the marks of the blocks of the disk.\<close>

definition is_bitmap :: "u32 \<Rightarrow> fsys \<Rightarrow> nat \<Rightarrow> bool" where
  "is_bitmap dev s c \<longleftrightarrow> (\<exists>b<unat (sb_size (readsb dev s)). c = BBLOCK b (unat (sb_ninodes (readsb dev s))))"

text \<open>
  The blocks that have a mark in a bitmap block which \<open>balloc\<close> looks at: it goes through whole bitmap blocks, so
  that these may be more than the superblock says the disk has.
\<close>

definition data_end :: "u32 \<Rightarrow> fsys \<Rightarrow> nat" where
  "data_end dev s = (unat (sb_size (readsb dev s)) + BPB - 1) div BPB * BPB"

text \<open>What \<open>balloc\<close> does when it returns.\<close>

definition allocated :: "u32 \<Rightarrow> fsys \<Rightarrow> nat \<Rightarrow> fsys \<Rightarrow> bool" where
  "allocated dev s b s' \<longleftrightarrow> \<not> in_use dev s b \<and> (\<forall>c. in_use dev s' c \<longleftrightarrow> c = b \<or> in_use dev s c) \<and>
     (\<forall>c<b. in_use dev s c) \<and> (\<forall>d c. d \<noteq> dev \<or> \<not> is_bitmap dev s c \<longrightarrow> blk s' d c = blk s d c) \<and>
     icache s' = icache s \<and> readsb dev s' = readsb dev s \<and> blocks_ok s'"

lemma round_up_le: "(n::nat) \<le> b \<Longrightarrow> b mod BPB = 0 \<Longrightarrow> (n + BPB - 1) div BPB * BPB \<le> b"
proof -
  assume a: "n \<le> b" "b mod BPB = 0"
  obtain q where q: "b = BPB * q" using a(2) by auto
  have "(n + BPB - 1) div BPB \<le> q" using a(1) unfolding q BPB_def by linarith
  then show ?thesis using q by simp
qed

lemma round_up_ge: "(n::nat) \<le> (n + BPB - 1) div BPB * BPB"
  unfolding BPB_def by linarith

lemma balloc_loop_result:
  assumes ok: "blocks_ok s" and sb: "sb = readsb dev s" and max: "unat (sb_size sb) \<le> 2147479552"
    and b: "b mod BPB = 0" and low: "\<forall>c<b. in_use dev s c"
  shows "(\<exists>r s'. balloc_loop dev sb b s = Ret (r, s') \<and> allocated dev s r s' \<and> r < (unat (sb_size sb) + BPB - 1) div BPB * BPB) \<or>
     (balloc_loop dev sb b s = Panic ''balloc: out of blocks'' \<and> (\<forall>c<unat (sb_size sb). in_use dev s c) \<and>
      (\<forall>c<data_end dev s. in_use dev s c))"
  using b low
proof (induction "unat (sb_size sb) - b" arbitrary: b rule: less_induct)
  case less
  let ?n = "unat (sb_ninodes sb)" and ?size = "unat (sb_size sb)"
  let ?bs = "blk s dev (BBLOCK b ?n)"
  show ?case
  proof (cases "b < ?size")
    case False
    then have "data_end dev s \<le> b" unfolding data_end_def sb[symmetric] using less.prems(1) by (intro round_up_le) simp_all
    then show ?thesis using less.prems(2) False by (subst balloc_loop.simps) auto
  next
    case True
    show ?thesis
    proof (cases "find_index (\<lambda>bi. \<not> tst ?bs bi) [0..<BPB]")
      case None
      have full: "tst ?bs bi" if "bi < BPB" for bi using None that by (auto simp: find_index_None_iff)
      have "in_use dev s c" if "c < b + BPB" for c
      proof (cases "c < b")
        case False
        then have "in_use dev s (b + (c - b)) \<longleftrightarrow> tst ?bs (c - b)"
          using BBLOCK_group[OF less.prems(1), of "c - b" ?n] that sb by (simp add: in_use_def)
        then show ?thesis using full[of "c - b"] that False by simp
      qed (use less.prems(2) in simp)
      moreover have "(b + BPB) mod BPB = 0" using less.prems(1) by simp
      moreover have "?size - (b + BPB) < ?size - b" using True by (simp add: BPB_def)
      moreover have "balloc_loop dev sb b s = balloc_loop dev sb (b + BPB) s"
        using True None max by (subst balloc_loop.simps) (simp add: Let_def cint_def BPB_def)
      ultimately show ?thesis using less.hyps by simp
    next
      case (Some bi)
      then have bi: "bi < BPB" "\<not> tst ?bs bi" "\<forall>j<bi. tst ?bs j" by (auto simp: find_index_Some_iff)
      note g = BBLOCK_group[OF less.prems(1) bi(1), of ?n]
      let ?s = "set_blk dev (BBLOCK b ?n) (setb ?bs bi) s"
      have run: "balloc_loop dev sb b s = Ret (b + bi, ?s)"
        using True Some by (subst balloc_loop.simps) (simp add: Let_def)
      have "in_use dev s c" if "c < b + bi" for c
      proof (cases "c < b")
        case False
        then have "in_use dev s (b + (c - b)) \<longleftrightarrow> tst ?bs (c - b)"
          using BBLOCK_group[OF less.prems(1), of "c - b" ?n] that bi(1) sb by (simp add: in_use_def)
        then show ?thesis using bi(3) that False by simp
      qed (use less.prems(2) in simp)
      moreover have "in_use dev ?s c \<longleftrightarrow> c = b + bi \<or> in_use dev s c" for c
        using set_bit_in_use(1)[OF ok, of ?n dev "b + bi" c] g sb by simp
      moreover have "\<not> in_use dev s (b + bi)" using bi(2) g sb by (simp add: in_use_def)
      moreover have "blocks_ok ?s" using ok by (simp add: blocks_ok_def blk_set setb_def)
      moreover have "blk ?s d c = blk s d c" if "d \<noteq> dev \<or> \<not> is_bitmap dev s c" for d c
        using that sb True by (auto simp: blk_set is_bitmap_def)
      ultimately have "allocated dev s (b + bi) ?s"
        by (simp add: allocated_def readsb_set)
      moreover have "b + bi < (?size + BPB - 1) div BPB * BPB"
      proof -
        have "b div BPB * BPB = b" using less.prems(1) by (simp flip: minus_mod_eq_div_mult)
        moreover have "b div BPB < (?size + BPB - 1) div BPB"
          using True calculation by (simp add: BPB_def)
        ultimately show ?thesis using bi(1) by (metis add_less_cancel_left less_le_trans mult_Suc mult_le_mono1 Suc_leI add.commute)
      qed
      ultimately show ?thesis using run by blast
    qed
  qed
qed

lemma bfree_frees:
  assumes ok: "blocks_ok s"
    and b: "in_use dev s b" "b \<noteq> 1" "\<not> is_bitmap dev s b" "b < unat (sb_size (readsb dev s))"
  shows "\<exists>s'. bfree dev b s = Ret s' \<and> (\<forall>c<unat (sb_size (readsb dev s)). in_use dev s' c \<longleftrightarrow> c \<noteq> b \<and> in_use dev s c) \<and>
      blk s' dev b = replicate BSIZE 0 \<and>
      (\<forall>d c. (d \<noteq> dev \<or> \<not> is_bitmap dev s c) \<and> (d, c) \<noteq> (dev, b) \<longrightarrow> blk s' d c = blk s d c)"
proof -
  let ?s = "bzero dev b s" and ?n = "unat (sb_ninodes (readsb dev s))"
  have sb: "readsb dev ?s = readsb dev s" using b(2) by (simp add: bzero_def readsb_set)
  have ok': "blocks_ok ?s" using ok by (simp add: blocks_ok_def bzero_def blk_set)
  have bm: "blk ?s dev (BBLOCK c ?n) = blk s dev (BBLOCK c ?n)" if "c < unat (sb_size (readsb dev s))" for c
    using b(3) that by (auto simp: bzero_def blk_set is_bitmap_def)
  then have u: "in_use dev ?s c \<longleftrightarrow> in_use dev s c" if "c < unat (sb_size (readsb dev s))" for c
    using that by (simp add: in_use_def sb)
  let ?t = "set_blk dev (BBLOCK b ?n) (clrb (blk ?s dev (BBLOCK b ?n)) (b mod BPB)) ?s"
  have "bfree dev b s = Ret ?t" using b(1) bm[OF b(4)] by (simp add: bfree_def Let_def sb in_use_def)
  moreover have "in_use dev ?t c \<longleftrightarrow> c \<noteq> b \<and> in_use dev s c" if "c < unat (sb_size (readsb dev s))" for c
    using that set_bit_in_use(2)[OF ok', of ?n dev b c] u sb by simp
  moreover have "BBLOCK b ?n \<noteq> b" using b(3,4) by (metis is_bitmap_def)
  then have "blk ?t dev b = replicate BSIZE 0" by (simp add: blk_set bzero_def)
  moreover have "blk ?t d c = blk s d c" if "(d \<noteq> dev \<or> \<not> is_bitmap dev s c) \<and> (d, c) \<noteq> (dev, b)" for d c
    using that b(4) by (auto simp: blk_set bzero_def is_bitmap_def)
  ultimately show ?thesis by blast
qed

text \<open>
  C21. Allocating and freeing disk blocks, on a disk of a size for which the \<open>int\<close> of the loop does not overflow.
  \<open>balloc\<close> looks at whole bitmap blocks. If every block that has a mark there is in use, it panics; otherwise it returns the lowest block
  that is not marked, marks exactly it and changes nothing but the bitmap. The loop does not
  compare the block with the size of the disk: once all blocks of the disk are in use, \<open>balloc\<close> never panics while there is a clear mark
  behind them in the last bitmap block, but returns a block past the end of the disk. \<open>bfree\<close> of a
  block in use, which is neither the superblock nor part of the bitmap, clears exactly its mark and its contents.
\<close>

theorem balloc_bfree:
  assumes ok: "blocks_ok s" and nblocks: "nblocks = unat (sb_size (readsb dev s))" "nblocks \<le> 2147479552"
  shows "(if \<forall>c<data_end dev s. in_use dev s c then balloc dev s = Panic ''balloc: out of blocks''
          else \<exists>b s'. balloc dev s = Ret (b, s') \<and> b < data_end dev s \<and> \<not> in_use dev s b \<and> (\<forall>c<b. in_use dev s c) \<and>
             (\<forall>c. in_use dev s' c \<longleftrightarrow> c = b \<or> in_use dev s c) \<and>
             (\<forall>d c. d \<noteq> dev \<or> \<not> is_bitmap dev s c \<longrightarrow> blk s' d c = blk s d c) \<and> icache s' = icache s) \<and>
         ((\<forall>c<nblocks. in_use dev s c) \<and> (\<exists>c<data_end dev s. \<not> in_use dev s c) \<longrightarrow>
            (\<exists>b s'. balloc dev s = Ret (b, s') \<and> nblocks \<le> b)) \<and>
         (\<forall>b<nblocks. in_use dev s b \<and> b \<noteq> 1 \<and> \<not> is_bitmap dev s b \<longrightarrow>
            (\<exists>s'. bfree dev b s = Ret s' \<and> (\<forall>c<nblocks. in_use dev s' c \<longleftrightarrow> c \<noteq> b \<and> in_use dev s c) \<and>
               blk s' dev b = replicate BSIZE 0 \<and>
               (\<forall>d c. (d \<noteq> dev \<or> \<not> is_bitmap dev s c) \<and> (d, c) \<noteq> (dev, b) \<longrightarrow> blk s' d c = blk s d c)))"
proof -
  have ba: "(\<exists>r s'. balloc dev s = Ret (r, s') \<and> allocated dev s r s' \<and> r < data_end dev s) \<or>
      balloc dev s = Panic ''balloc: out of blocks'' \<and> (\<forall>c<data_end dev s. in_use dev s c)"
    using balloc_loop_result[OF ok refl nblocks(2)[unfolded nblocks(1)], of 0] by (auto simp: balloc_def data_end_def)
  then have "if \<forall>c<data_end dev s. in_use dev s c then balloc dev s = Panic ''balloc: out of blocks''
      else \<exists>b s'. balloc dev s = Ret (b, s') \<and> allocated dev s b s' \<and> b < data_end dev s"
    unfolding allocated_def by auto
  moreover have "\<exists>b s'. balloc dev s = Ret (b, s') \<and> nblocks \<le> b"
    if "\<forall>c<nblocks. in_use dev s c" "\<exists>c<data_end dev s. \<not> in_use dev s c"
    using ba that unfolding allocated_def by (metis not_le)
  moreover have "\<exists>s'. bfree dev b s = Ret s' \<and> (\<forall>c<nblocks. in_use dev s' c \<longleftrightarrow> c \<noteq> b \<and> in_use dev s c) \<and>
      blk s' dev b = replicate BSIZE 0 \<and>
      (\<forall>d c. (d \<noteq> dev \<or> \<not> is_bitmap dev s c) \<and> (d, c) \<noteq> (dev, b) \<longrightarrow> blk s' d c = blk s d c)"
    if "b < nblocks" "in_use dev s b \<and> b \<noteq> 1 \<and> \<not> is_bitmap dev s b" for b
    using bfree_frees[OF ok, of dev b] that nblocks(1) by simp
  ultimately show ?thesis unfolding allocated_def by (simp split: if_splits) blast
qed

text \<open>A disk of ten blocks with five inodes whose bitmap, block 3, marks blocks 0 to 4.\<close>

definition demo_fs :: fsys where
  "demo_fs = \<lparr>blk = (\<lambda>dev b. if b = 1 then bytes32 10 @ bytes32 0 @ bytes32 5 @ replicate 500 0
     else if b = 3 then 31 # replicate 511 0 else replicate 512 0), icache = []\<rparr>"

lemma demo_fs_sb: "readsb dev demo_fs = \<lparr>sb_size = 10, sb_nblocks = 0, sb_ninodes = 5\<rparr>"
  by (simp add: readsb_def demo_fs_def get32_def le32_def bytes32_def nth_append upt_rec)

lemma demo_fs_in_use: "b < 8 \<Longrightarrow> in_use dev demo_fs b \<longleftrightarrow> b < 5"
proof -
  assume b: "b < 8"
  have "bit (mask 5 :: u8) b \<longleftrightarrow> b < 5" using b by (simp only: bit_mask_iff) simp
  moreover have "mask 5 = (31::u8)" by (simp add: mask_numeral)
  ultimately have "bit (31::u8) b \<longleftrightarrow> b < 5" by simp
  then show ?thesis using b
    by (simp add: in_use_def demo_fs_sb tst_bit BBLOCK_def BPB_def IPB_def) (simp add: demo_fs_def)
qed

text \<open>The same disk with its ten blocks marked: the next allocation is past its end.\<close>

definition full_fs :: fsys where
  "full_fs = demo_fs\<lparr>blk := (\<lambda>dev b. if b = 3 then 255 # 3 # replicate 510 0 else blk demo_fs dev b)\<rparr>"

lemma full_fs_in_use: "c < 10 \<Longrightarrow> in_use dev full_fs c" "\<not> in_use dev full_fs 10" "readsb dev full_fs = readsb dev demo_fs"
proof -
  show r: "readsb dev full_fs = readsb dev demo_fs" by (simp add: readsb_def full_fs_def)
  have m: "blk full_fs dev 3 = 255 # 3 # replicate 510 0" by (simp add: full_fs_def)
  have u: "in_use dev full_fs b \<longleftrightarrow> tst (255 # 3 # replicate 510 0) b" if "b < 4096" for b
    using that m by (simp add: in_use_def r demo_fs_sb BBLOCK_def BPB_def IPB_def)
  have "\<forall>b<10. tst (255 # 3 # replicate 510 0) b" by code_simp
  then show "c < 10 \<Longrightarrow> in_use dev full_fs c" for c using u by simp
  have "\<not> tst (255 # 3 # replicate 510 0) 10" by code_simp
  then show "\<not> in_use dev full_fs 10" using u[of 10] by simp
qed

theorem balloc_bfree_witness:
  "blocks_ok demo_fs \<and> (\<exists>s'. balloc 0 demo_fs = Ret (5, s') \<and> in_use 0 s' 5) \<and>
   (\<exists>s'. bfree 0 4 demo_fs = Ret s' \<and> \<not> in_use 0 s' 4) \<and> (\<exists>b s'. balloc 0 full_fs = Ret (b, s') \<and> 10 \<le> b)"
proof -
  have ok: "blocks_ok demo_fs" by (simp add: blocks_ok_def demo_fs_def bytes32_def BSIZE_def)
  then have ok': "blocks_ok full_fs" by (simp add: blocks_ok_def full_fs_def BSIZE_def)
  have sz: "10 = unat (sb_size (readsb 0 demo_fs))" "10 = unat (sb_size (readsb 0 full_fs))"
    and de: "data_end 0 demo_fs = 4096" "data_end 0 full_fs = 4096"
    by (simp_all add: full_fs_in_use(3) demo_fs_sb data_end_def BPB_def)
  have nb: "\<not> is_bitmap 0 demo_fs 4" by (simp add: is_bitmap_def demo_fs_sb BBLOCK_def BPB_def IPB_def)
  note t = balloc_bfree[OF ok sz(1)]
  have u5: "\<not> in_use 0 demo_fs 5" using demo_fs_in_use[of 5 0] by simp
  then have "\<not> (\<forall>c<data_end 0 demo_fs. in_use 0 demo_fs c)" unfolding de by (auto intro!: exI[of _ 5])
  then obtain b s' where b: "balloc 0 demo_fs = Ret (b, s')" "\<not> in_use 0 demo_fs b" "\<forall>c<b. in_use 0 demo_fs c" "in_use 0 s' b"
    using conjunct1[OF t] by (auto split: if_splits)
  have "\<not> b < 5" using b(2) demo_fs_in_use[of b 0] by auto
  moreover have "\<not> 5 < b" using b(3) u5 by auto
  ultimately have "b = 5" by simp
  moreover have "\<exists>s'. bfree 0 4 demo_fs = Ret s' \<and> \<not> in_use 0 s' 4"
    using spec[OF conjunct2[OF conjunct2[OF t]], of 4] nb demo_fs_in_use[of 4 0] by auto
  moreover have "\<exists>c<data_end 0 full_fs. \<not> in_use 0 full_fs c"
    unfolding de using full_fs_in_use(2) by (intro exI[of _ 10]) simp
  then have "\<exists>b s'. balloc 0 full_fs = Ret (b, s') \<and> 10 \<le> b"
    using conjunct1[OF conjunct2[OF balloc_bfree[OF ok' sz(2)]]] full_fs_in_use(1) by simp
  ultimately show ?thesis using ok b by auto
qed

end
