(* ===== verification/Fsinode.thy ===== *)
theory Fsinode
  imports Fsblock
begin

text \<open>
  Inodes on disk: the bytes of a \<open>struct dinode\<close> and the copies that \<open>iupdate\<close> and \<open>ilock\<close> make.
\<close>

section \<open>Numbers in blocks\<close>

lemma length_put [simp]: "k + length xs \<le> length bs \<Longrightarrow> length (put bs k xs) = length bs"
  by (simp add: put_def)

lemma nth_put: "k + length xs \<le> length bs \<Longrightarrow>
    put bs k xs ! j = (if k \<le> j \<and> j < k + length xs then xs ! (j - k) else bs ! j)"
  by (auto simp: put_def nth_append)

lemma length_put_bytes [simp]: "length (bytes16 v) = 2" "length (bytes32 w) = 4"
  by (simp_all add: bytes16_def bytes32_def)

lemma get_append_right:
  "j \<ge> length xs \<Longrightarrow> get16 (xs @ ys) j = get16 ys (j - length xs)"
  "j \<ge> length xs \<Longrightarrow> get32 (xs @ ys) j = get32 ys (j - length xs)"
  by (simp_all add: get16_def get32_def nth_append Suc_diff_le eval_nat_numeral)

lemma get_put:
  assumes "k + length xs \<le> length bs" "k \<le> j"
  shows "j + 2 \<le> k + length xs \<Longrightarrow> get16 (put bs k xs) j = get16 xs (j - k)"
    and "j + 4 \<le> k + length xs \<Longrightarrow> get32 (put bs k xs) j = get32 xs (j - k)"
  using assms by (auto simp: get16_def get32_def nth_put Suc_diff_le eval_nat_numeral)

lemma get_put_other:
  assumes "k + length xs \<le> length bs"
  shows "j + 2 \<le> k \<or> k + length xs \<le> j \<Longrightarrow> get16 (put bs k xs) j = get16 bs j"
    and "j + 4 \<le> k \<or> k + length xs \<le> j \<Longrightarrow> get32 (put bs k xs) j = get32 bs j"
  using assms by (auto simp: get16_def get32_def nth_put)

lemma get16_bytes16 [simp]: "get16 (bytes16 v @ ys) 0 = v"
proof -
  have v: "unat v < 65536" using unsigned_less[of v] by simp
  have "unat v mod 256 + 256 * (unat v div 256) = unat v" by simp
  moreover have "unat v div 256 mod 256 = unat v div 256" using v by simp
  ultimately have "get16 (bytes16 v @ ys) 0 = of_nat (unat v)"
    unfolding get16_def bytes16_def by (simp only: append.simps nth_Cons_0 nth_Cons_Suc One_nat_def add_0 unat_of_nat) simp
  then show ?thesis by simp
qed

lemma get32_bytes32 [simp]: "get32 (bytes32 v @ ys) 0 = v"
proof -
  define n where "n = unat v"
  have n: "n < 4294967296" using unat_lt_u32[of v] by (simp add: n_def)
  have "n mod 256 + 256 * (n div 256 mod 256) + 65536 * (n div 65536 mod 256) + 16777216 * (n div 16777216 mod 256) = n"
    using n by (rule digits_256)
  then have "unat (bytes32 v ! 0) + 256 * unat (bytes32 v ! 1) + 65536 * unat (bytes32 v ! 2) + 16777216 * unat (bytes32 v ! 3) = n"
    using n by (simp add: bytes32_def upt_rec unat_of_nat unsigned_ucast_eq take_bit_eq_mod flip: n_def)
  moreover have "get32 (bytes32 v @ ys) 0 = le32 (bytes32 v ! 0) (bytes32 v ! 1) (bytes32 v ! 2) (bytes32 v ! 3)"
    by (simp add: get32_def nth_append numeral_2_eq_2)
  ultimately show ?thesis by (simp only: le32_def n_def) simp
qed

lemma get32_concat: "i < length as \<Longrightarrow> get32 (concat (map bytes32 as)) (4 * i) = as ! i"
proof (induction as arbitrary: i)
  case (Cons a as)
  then show ?case by (cases i) (auto simp: get_append_right)
qed simp

lemma length_concat_bytes32 [simp]: "length (concat (map bytes32 as)) = 4 * length as"
  by (induction as) auto

section \<open>The bytes of an inode\<close>

lemma length_dinode_bytes: "length (d_addrs d) = NDIRECT + 1 \<Longrightarrow> length (dinode_bytes d) = 64"
  by (simp add: dinode_bytes_def NDIRECT_def)

lemma dinode_at_bytes: "length (d_addrs d) = NDIRECT + 1 \<Longrightarrow> dinode_at (dinode_bytes d) 0 = d"
  by (rule dinode.equality)
    (auto simp: dinode_at_def dinode_bytes_def get_append_right get32_concat intro!: nth_equalityI simp del: upt_Suc)

lemma dinode_at_put:
  assumes "length xs = 64" "k + 64 \<le> length bs"
  shows "dinode_at (put bs k xs) k = dinode_at xs 0"
  using assms by (auto simp: dinode_at_def get_put NDIRECT_def numeral_2_eq_2)

lemma dinode_at_put_other:
  assumes "length xs = 64" "k + 64 \<le> length bs" "j + 64 \<le> k \<or> k + 64 \<le> j"
  shows "dinode_at (put bs k xs) j = dinode_at bs j"
  using assms by (auto simp: dinode_at_def get_put_other NDIRECT_def)

section \<open>Copies between memory and disk\<close>

definition disk_inode :: "u32 \<Rightarrow> u32 \<Rightarrow> fsys \<Rightarrow> dinode" where
  "disk_inode dev inum s = dinode_at (blk s dev (IBLOCK (unat inum))) (64 * (unat inum mod IPB))"

definition dinode_of :: "inode \<Rightarrow> dinode" where
  "dinode_of i = \<lparr>d_type = i_type i, d_major = i_major i, d_minor = i_minor i, d_nlink = i_nlink i,
     d_size = i_size i, d_addrs = i_addrs i\<rparr>"

lemma iupdate_dinode_of:
  "iupdate ip s = (let i = icache s ! ip; bno = IBLOCK (unat (i_num i)) in
     set_blk (i_dev i) bno (put (blk s (i_dev i) bno) (64 * (unat (i_num i) mod IPB)) (dinode_bytes (dinode_of i))) s)"
  by (simp add: iupdate_def dinode_of_def Let_def)

lemma slot_fits: "blocks_ok s \<Longrightarrow> 64 * (unat (inum::u32) mod IPB) + 64 \<le> length (blk s dev b)"
  by (simp add: blocks_ok_def IPB_def BSIZE_def)

lemma slot_other:
  assumes "inum \<noteq> (jnum::u32)" "IBLOCK (unat inum) = IBLOCK (unat jnum)"
  shows "64 * (unat jnum mod IPB) + 64 \<le> 64 * (unat inum mod IPB) \<or> 64 * (unat inum mod IPB) + 64 \<le> 64 * (unat jnum mod IPB)"
proof -
  have "unat inum mod IPB \<noteq> unat jnum mod IPB"
    using assms by (metis IBLOCK_def add_right_cancel div_mult_mod_eq word_unat_eq_iff)
  then show ?thesis by linarith
qed

lemma disk_inode_iupdate:
  assumes ok: "blocks_ok s" and l: "length (i_addrs (icache s ! ip)) = NDIRECT + 1"
  shows "disk_inode dev inum (iupdate ip s) =
    (if dev = i_dev (icache s ! ip) \<and> inum = i_num (icache s ! ip) then dinode_of (icache s ! ip) else disk_inode dev inum s)"
proof -
  let ?i = "icache s ! ip"
  have b: "length (dinode_bytes (dinode_of ?i)) = 64" "dinode_at (dinode_bytes (dinode_of ?i)) 0 = dinode_of ?i"
    using l by (simp_all add: length_dinode_bytes dinode_at_bytes dinode_of_def)
  show ?thesis
    using slot_other[of "i_num ?i" inum] slot_fits[OF ok, of "i_num ?i" "i_dev ?i" "IBLOCK (unat (i_num ?i))"]
    by (auto simp: disk_inode_def iupdate_dinode_of Let_def blk_set b dinode_at_put dinode_at_put_other)
qed

lemma iupdate_frame:
  "icache (iupdate ip s) = icache s"
  "d \<noteq> i_dev (icache s ! ip) \<or> c \<noteq> IBLOCK (unat (i_num (icache s ! ip))) \<Longrightarrow> blk (iupdate ip s) d c = blk s d c"
  by (auto simp: iupdate_def Let_def blk_set)

lemma iupdate_blocks_ok:
  "blocks_ok s \<Longrightarrow> length (i_addrs (icache s ! ip)) = NDIRECT + 1 \<Longrightarrow> blocks_ok (iupdate ip s)"
  using slot_fits[of s "i_num (icache s ! ip)" "i_dev (icache s ! ip)" "IBLOCK (unat (i_num (icache s ! ip)))"]
  by (auto simp: iupdate_dinode_of Let_def blocks_ok_def blk_set length_dinode_bytes dinode_of_def)

lemma ilock_reads_disk:
  assumes "i_ref (icache s ! jp) \<ge> 1" "\<not> i_busy (icache s ! jp)" "\<not> i_valid (icache s ! jp)"
    and d: "disk_inode (i_dev (icache s ! jp)) (i_num (icache s ! jp)) s = dinode_of i" and "i_type i \<noteq> 0"
  shows "ilock jp s = Ret (set_inode jp (i\<lparr>i_dev := i_dev (icache s ! jp), i_num := i_num (icache s ! jp),
      i_ref := i_ref (icache s ! jp), i_busy := True, i_valid := True\<rparr>) s)"
proof -
  have r: "(icache s ! jp)\<lparr>i_busy := True, i_valid := True, i_type := i_type i, i_major := i_major i,
      i_minor := i_minor i, i_nlink := i_nlink i, i_size := i_size i, i_addrs := i_addrs i\<rparr> =
    i\<lparr>i_dev := i_dev (icache s ! jp), i_num := i_num (icache s ! jp), i_ref := i_ref (icache s ! jp),
      i_busy := True, i_valid := True\<rparr>"
    by (rule inode.equality) simp_all
  show ?thesis using assms by (simp add: ilock_def Let_def disk_inode_def dinode_of_def) (simp only: r)
qed

lemma iget_fresh:
  assumes "\<forall>i\<in>set (icache s). \<not> (i_ref i > 0 \<and> i_dev i = dev \<and> i_num i = inum)" "iget dev inum s = Ret (jp, s')"
  shows "jp < length (icache s) \<and> i_ref (icache s ! jp) = 0 \<and>
    s' = set_inode jp ((icache s ! jp)\<lparr>i_dev := dev, i_num := inum, i_ref := 1, i_busy := False, i_valid := False\<rparr>) s"
proof -
  have "find_index (\<lambda>i. i_ref i > 0 \<and> i_dev i = dev \<and> i_num i = inum) (icache s) = None"
    using assms(1) by (simp add: find_index_None_iff)
  then show ?thesis using assms(2)
    by (auto simp: iget_def find_index_Some_iff split: option.splits)
qed

text \<open>
  C27. An inode survives its cache entry. After \<open>iupdate\<close> has written an inode, and once no entry of
  the cache refers to it any more, \<open>iget\<close> takes a free entry for it and \<open>ilock\<close> of that entry brings
  back every field as it was; and \<open>iupdate\<close> changes no other inode of any disk.
\<close>

theorem iupdate_ilock_roundtrip:
  assumes ok: "blocks_ok s" and l: "length (i_addrs i) = NDIRECT + 1" and ty: "i_type i \<noteq> 0" and i: "icache s ! ip = i"
    and t: "blk t = blk (iupdate ip s)"
    and gone: "\<forall>j\<in>set (icache t). \<not> (i_ref j > 0 \<and> i_dev j = i_dev i \<and> i_num j = i_num i)"
    and get: "iget (i_dev i) (i_num i) t = Ret (jp, t')"
  shows "ilock jp t' = Ret (set_inode jp (i\<lparr>i_ref := 1, i_busy := True, i_valid := True\<rparr>) t') \<and>
    (\<forall>dev inum. (dev, inum) \<noteq> (i_dev i, i_num i) \<longrightarrow> disk_inode dev inum (iupdate ip s) = disk_inode dev inum s)"
proof -
  let ?j = "(icache t ! jp)\<lparr>i_dev := i_dev i, i_num := i_num i, i_ref := 1, i_busy := False, i_valid := False\<rparr>"
  have g: "jp < length (icache t)" "t' = set_inode jp ?j t" using iget_fresh[OF gone get] by auto
  then have j: "icache t' ! jp = ?j" by (simp add: set_inode_def)
  have "disk_inode (i_dev i) (i_num i) t' = dinode_of i"
    using disk_inode_iupdate[OF ok, of ip "i_dev i" "i_num i"] l i t by (simp add: disk_inode_def g(2) set_inode_def)
  then have "ilock jp t' = Ret (set_inode jp (i\<lparr>i_ref := 1, i_busy := True, i_valid := True\<rparr>) t')"
    using ilock_reads_disk[of t' jp i] ty by (simp add: j)
  then show ?thesis using disk_inode_iupdate[OF ok, of ip] l i by simp
qed

text \<open>Inode 9 of device 1, a file of 700 bytes, in the only entry of the cache.\<close>

definition demo_inode :: inode where
  "demo_inode = \<lparr>i_dev = 1, i_num = 9, i_ref = 1, i_busy = True, i_valid = True, i_type = T_FILE, i_major = 0, i_minor = 0,
     i_nlink = 1, i_size = 700, i_addrs = [30, 31, 0, 0, 0, 0, 0, 0, 0, 0, 0, 0, 0]\<rparr>"

definition demo_cache :: fsys where
  "demo_cache = \<lparr>blk = (\<lambda>dev b. replicate 512 0), icache = [demo_inode]\<rparr>"

theorem iupdate_ilock_roundtrip_witness:
  "\<exists>t'. iget 1 9 ((iupdate 0 demo_cache)\<lparr>icache := [demo_inode\<lparr>i_ref := 0\<rparr>]\<rparr>) = Ret (0, t') \<and>
     ilock 0 t' = Ret (set_inode 0 demo_inode t')"
proof -
  let ?t = "(iupdate 0 demo_cache)\<lparr>icache := [demo_inode\<lparr>i_ref := 0\<rparr>]\<rparr>"
  have i: "icache demo_cache ! 0 = demo_inode" by (simp add: demo_cache_def)
  have ok: "blocks_ok demo_cache" by (simp add: demo_cache_def blocks_ok_def BSIZE_def)
  have l: "length (i_addrs demo_inode) = NDIRECT + 1" "i_type demo_inode \<noteq> 0"
    by (simp_all add: demo_inode_def NDIRECT_def T_FILE_def)
  obtain t' where g: "iget (i_dev demo_inode) (i_num demo_inode) ?t = Ret (0, t')"
    by (simp add: iget_def demo_inode_def find_index_def)
  have "ilock 0 t' = Ret (set_inode 0 (demo_inode\<lparr>i_ref := 1, i_busy := True, i_valid := True\<rparr>) t')"
    using iupdate_ilock_roundtrip[OF ok l i _ _ g] by simp
  then show ?thesis using g by (simp add: demo_inode_def)
qed

end
