(* ===== verification/Fsfile.thy ===== *)
theory Fsfile
  imports Fsinode
begin

text \<open>
  The contents of files: \<open>bmap\<close>, \<open>readi\<close> and \<open>writei\<close> of \<open>src/P5/xv6/kernel/fs.c\<close> against the abstract
  view of a file as the function from offsets to bytes, a byte of a block that is not there being 0.
\<close>

section \<open>The disk\<close>

definition data_start :: "u32 \<Rightarrow> fsys \<Rightarrow> nat" where
  "data_start dev s = unat (sb_ninodes (readsb dev s)) div IPB + 3 + (unat (sb_size (readsb dev s)) + BPB - 1) div BPB"

definition is_data :: "u32 \<Rightarrow> fsys \<Rightarrow> nat \<Rightarrow> bool" where
  "is_data dev s c \<longleftrightarrow> data_start dev s \<le> c \<and> c < data_end dev s"

text \<open>
  A disk is in order when the blocks before the data are marked in use and every free block is zero,
  which is what \<open>bfree\<close> leaves and what \<open>bmap\<close> relies on for a new indirect block. The bound on the
  size keeps block numbers within an \<open>int\<close>, as \<open>balloc\<close> counts them.
\<close>

definition fs_ok :: "u32 \<Rightarrow> fsys \<Rightarrow> bool" where
  "fs_ok dev s \<longleftrightarrow> blocks_ok s \<and> unat (sb_size (readsb dev s)) \<le> 2147479552 \<and> data_start dev s \<le> data_end dev s \<and>
     (\<forall>c<data_start dev s. in_use dev s c) \<and>
     (\<forall>c<data_end dev s. \<not> in_use dev s c \<longrightarrow> blk s dev c = replicate BSIZE 0)"

lemma fs_okD:
  assumes "fs_ok dev s"
  shows "blocks_ok s" "unat (sb_size (readsb dev s)) \<le> 2147479552" "data_start dev s \<le> data_end dev s"
    "c < data_start dev s \<Longrightarrow> in_use dev s c"
    "c < data_end dev s \<Longrightarrow> \<not> in_use dev s c \<Longrightarrow> blk s dev c = replicate BSIZE 0"
  using assms by (auto simp: fs_ok_def)

lemma data_end_u32: "fs_ok dev s \<Longrightarrow> data_end dev s < 4294967296"
proof -
  assume "fs_ok dev s"
  then have "unat (sb_size (readsb dev s)) \<le> 2147479552" by (rule fs_okD)
  moreover have "data_end dev s \<le> unat (sb_size (readsb dev s)) + 4096 - 1" by (simp add: data_end_def BPB_def)
  ultimately show ?thesis by linarith
qed

lemma bitmap_before_data: "c < data_end dev s \<Longrightarrow> BBLOCK c (unat (sb_ninodes (readsb dev s))) < data_start dev s"
  by (simp add: BBLOCK_def data_start_def data_end_def less_mult_imp_div_less)

lemma is_bitmap_before_data: "is_bitmap dev s c \<Longrightarrow> c < data_start dev s \<and> c \<ge> 3"
proof -
  have "b < data_end dev s" if "b < unat (sb_size (readsb dev s))" for b
  proof -
    let ?n = "unat (sb_size (readsb dev s))"
    have "?n \<le> (?n + BPB - 1) div BPB * BPB" using roundup_nat(1)[of ?n] by (simp add: BPB_def)
    then show ?thesis using that by (simp add: data_end_def)
  qed
  then show "is_bitmap dev s c \<Longrightarrow> ?thesis"
    using bitmap_before_data by (auto simp: is_bitmap_def BBLOCK_def)
qed

lemma data_start_3: "3 \<le> data_start dev s"
  by (simp add: data_start_def)

text \<open>What depends only on the superblock.\<close>

lemma same_sb:
  assumes "readsb dev s' = readsb dev s"
  shows "data_start dev s' = data_start dev s" "data_end dev s' = data_end dev s"
    "is_data dev s' c = is_data dev s c" "is_bitmap dev s' c = is_bitmap dev s c"
  using assms by (simp_all add: data_start_def data_end_def is_data_def is_bitmap_def)

lemma set_data_block:
  assumes "is_data dev s b"
  shows "readsb dev (set_blk dev b bs s) = readsb dev s"
    and "c < data_end dev s \<Longrightarrow> in_use dev (set_blk dev b bs s) c = in_use dev s c"
proof -
  have b: "3 \<le> b" "data_start dev s \<le> b" using assms data_start_3[of dev s] by (auto simp: is_data_def)
  then show r: "readsb dev (set_blk dev b bs s) = readsb dev s" by (simp add: readsb_set)
  show "c < data_end dev s \<Longrightarrow> in_use dev (set_blk dev b bs s) c = in_use dev s c"
    using bitmap_before_data[of c dev s] b by (simp add: in_use_def r blk_set)
qed

lemma balloc_fs_ok:
  assumes ok: "fs_ok dev s"
  shows "balloc dev s = Panic ''balloc: out of blocks'' \<or> (\<exists>b s'. balloc dev s = Ret (b, s') \<and> is_data dev s b \<and>
    \<not> in_use dev s b \<and> (\<forall>c. in_use dev s' c \<longleftrightarrow> c = b \<or> in_use dev s c) \<and>
    (\<forall>d c. d \<noteq> dev \<or> \<not> is_bitmap dev s c \<longrightarrow> blk s' d c = blk s d c) \<and>
    icache s' = icache s \<and> readsb dev s' = readsb dev s \<and> blocks_ok s')"
proof -
  have "is_data dev s b" if "\<not> in_use dev s b" "b < data_end dev s" for b
    using that fs_okD(4)[OF ok, of b] by (force simp: is_data_def)
  then show ?thesis
    using balloc_loop_result[OF fs_okD(1)[OF ok] refl fs_okD(2)[OF ok], of 0]
    by (auto simp: balloc_def allocated_def data_end_def)
qed

section \<open>Files\<close>

text \<open>The address of a block of a file, 0 when there is none; number \<open>MAXFILE\<close> is the indirect block.\<close>

definition baddr :: "fsys \<Rightarrow> inode \<Rightarrow> nat \<Rightarrow> nat" where
  "baddr s i bn =
     (if bn < NDIRECT then unat (i_addrs i ! bn)
      else if i_addrs i ! NDIRECT = 0 then 0
      else unat (get32 (blk s (i_dev i) (unat (i_addrs i ! NDIRECT))) (4 * (bn - NDIRECT))))"

definition faddr :: "fsys \<Rightarrow> inode \<Rightarrow> nat \<Rightarrow> nat" where
  "faddr s i k = (if k = MAXFILE then unat (i_addrs i ! NDIRECT) else baddr s i k)"

definition fbyte :: "fsys \<Rightarrow> inode \<Rightarrow> nat \<Rightarrow> u8" where
  "fbyte s i n = (if baddr s i (n div BSIZE) = 0 then 0 else blk s (i_dev i) (baddr s i (n div BSIZE)) ! (n mod BSIZE))"

text \<open>The blocks of a file are data blocks in use, all different.\<close>

definition file_ok :: "fsys \<Rightarrow> inode \<Rightarrow> bool" where
  "file_ok s i \<longleftrightarrow> length (i_addrs i) = NDIRECT + 1 \<and>
     (\<forall>k\<le>MAXFILE. faddr s i k \<noteq> 0 \<longrightarrow> is_data (i_dev i) s (faddr s i k) \<and> in_use (i_dev i) s (faddr s i k)) \<and>
     (\<forall>j\<le>MAXFILE. \<forall>k\<le>MAXFILE. faddr s i j \<noteq> 0 \<and> faddr s i j = faddr s i k \<longrightarrow> j = k)"

text \<open>What writing to a file may change: the bitmap, free blocks, and its own blocks.\<close>

definition touch :: "fsys \<Rightarrow> inode \<Rightarrow> nat set" where
  "touch s i = {c. is_bitmap (i_dev i) s c \<or> is_data (i_dev i) s c \<and> \<not> in_use (i_dev i) s c \<or>
     c \<noteq> 0 \<and> (\<exists>k\<le>MAXFILE. faddr s i k = c)}"

lemma file_okD:
  assumes "file_ok s i"
  shows "length (i_addrs i) = NDIRECT + 1"
    "k \<le> MAXFILE \<Longrightarrow> faddr s i k \<noteq> 0 \<Longrightarrow> is_data (i_dev i) s (faddr s i k) \<and> in_use (i_dev i) s (faddr s i k)"
    "j \<le> MAXFILE \<Longrightarrow> k \<le> MAXFILE \<Longrightarrow> faddr s i j \<noteq> 0 \<Longrightarrow> faddr s i j = faddr s i k \<Longrightarrow> j = k"
  using assms by (auto simp: file_ok_def)

lemma faddr_block [simp]: "bn < MAXFILE \<Longrightarrow> faddr s i bn = baddr s i bn" "faddr s i MAXFILE = unat (i_addrs i ! NDIRECT)"
  by (auto simp: faddr_def)

text \<open>A file that gains one block, the indirect block included.\<close>

lemma file_grows:
  assumes fs: "fs_ok dev s" and fo: "file_ok s i" and dev: "i_dev i = dev" "i_dev i' = dev" "length (i_addrs i') = NDIRECT + 1"
    and k: "k \<le> MAXFILE" "faddr s i k = 0" and b: "is_data dev s b" "\<not> in_use dev s b"
    and sb: "readsb dev s' = readsb dev s" and bo: "blocks_ok s'"
    and use: "\<And>c. c < data_end dev s \<Longrightarrow> in_use dev s' c \<longleftrightarrow> c = b \<or> in_use dev s c"
    and addr: "\<And>j. j \<le> MAXFILE \<Longrightarrow> faddr s' i' j = (if j = k then b else faddr s i j)"
    and frame: "\<And>c. \<not> is_bitmap dev s c \<Longrightarrow> c = 0 \<or> c \<noteq> unat (i_addrs i ! NDIRECT) \<Longrightarrow> blk s' dev c = blk s dev c"
  shows "fs_ok dev s'" "file_ok s' i'" "\<And>n. n < MAXFILE * BSIZE \<Longrightarrow> fbyte s' i' n = fbyte s i n" "touch s' i' \<subseteq> touch s i"
proof -
  note sd = same_sb[OF sb]
  have b0: "b \<noteq> 0" using b(1) data_start_3[of dev s] by (auto simp: is_data_def)
  have fresh: "faddr s i j \<noteq> b" if "j \<le> MAXFILE" for j
    using file_okD(2)[OF fo that] b b0 dev by auto
  have keep: "blk s' dev c = blk s dev c" if "data_start dev s \<le> c" "c \<noteq> unat (i_addrs i ! NDIRECT)" for c
    using frame is_bitmap_before_data[of dev s c] that by fastforce
  have ind: "unat (i_addrs i ! NDIRECT) = 0 \<or> is_data dev s (unat (i_addrs i ! NDIRECT)) \<and> in_use dev s (unat (i_addrs i ! NDIRECT))"
    using file_okD(2)[OF fo, of MAXFILE] dev by auto
  have zero: "blk s' dev c = replicate BSIZE 0" if "c < data_end dev s" "\<not> in_use dev s' c \<or> c = b" for c
  proof -
    have c: "\<not> in_use dev s c" using that use[of c] b(2) by auto
    then have "data_start dev s \<le> c" using fs_okD(4)[OF fs, of c] by (meson not_le)
    moreover have "c \<noteq> unat (i_addrs i ! NDIRECT)" using ind c calculation data_start_3[of dev s] by auto
    ultimately show ?thesis using keep fs_okD(5)[OF fs that(1) c] by simp
  qed
  show "fs_ok dev s'"
    unfolding fs_ok_def sd sb using fs_okD[OF fs] bo zero use by (metis order.strict_trans2)
  show "file_ok s' i'"
    unfolding file_ok_def dev(2) sd
  proof (intro conjI allI impI)
    show "length (i_addrs i') = NDIRECT + 1" by (rule dev(3))
  next
    fix j assume j: "j \<le> MAXFILE" "faddr s' i' j \<noteq> 0"
    then show "is_data dev s (faddr s' i' j)" "in_use dev s' (faddr s' i' j)"
      using addr[OF j(1)] file_okD(2)[OF fo, of j] b use[of "faddr s' i' j"] dev by (auto simp: is_data_def split: if_splits)
  next
    fix j l assume "j \<le> MAXFILE" "l \<le> MAXFILE" "faddr s' i' j \<noteq> 0 \<and> faddr s' i' j = faddr s' i' l"
    then show "j = l"
      using addr[of j] addr[of l] file_okD(3)[OF fo, of j l] fresh[of j] fresh[of l] k by (auto split: if_splits)
  qed
  show "touch s' i' \<subseteq> touch s i"
  proof
    fix c assume "c \<in> touch s' i'"
    then consider "is_bitmap dev s c" | "is_data dev s c" "\<not> in_use dev s' c" | j where "c \<noteq> 0" "j \<le> MAXFILE" "faddr s' i' j = c"
      using sd dev by (auto simp: touch_def)
    then show "c \<in> touch s i"
    proof cases
      case 2
      then show ?thesis using use[of c] dev by (auto simp: touch_def is_data_def)
    next
      case 3
      then show ?thesis using addr[of j] b dev by (auto simp: touch_def split: if_splits)
    qed (use dev in \<open>simp add: touch_def\<close>)
  qed
  show "fbyte s' i' n = fbyte s i n" if "n < MAXFILE * BSIZE" for n
  proof -
    let ?bn = "n div BSIZE"
    have bn: "?bn < MAXFILE" using that by (simp add: less_mult_imp_div_less)
    then have a: "baddr s' i' ?bn = (if ?bn = k then b else baddr s i ?bn)" using addr[of ?bn] by simp
    show ?thesis
    proof (cases "?bn = k")
      case True
      then have "baddr s i ?bn = 0" using k bn by auto
      then show ?thesis using True a zero[of b] b by (simp add: fbyte_def dev is_data_def BSIZE_def)
    next
      case False
      have "blk s' dev (baddr s i ?bn) = blk s dev (baddr s i ?bn)" if "baddr s i ?bn \<noteq> 0"
      proof (rule keep)
        show "data_start dev s \<le> baddr s i ?bn" using file_okD(2)[OF fo, of ?bn] bn that dev by (auto simp: is_data_def)
        show "baddr s i ?bn \<noteq> unat (i_addrs i ! NDIRECT)"
          using file_okD(3)[OF fo, of ?bn MAXFILE] bn that by auto
      qed
      then show ?thesis using False a by (simp add: fbyte_def dev)
    qed
  qed
qed

section \<open>Finding and allocating blocks\<close>

text \<open>What the operations on a file do besides changing its bytes.\<close>

definition advanced :: "nat \<Rightarrow> fsys \<Rightarrow> fsys \<Rightarrow> bool" where
  "advanced ip s s' \<longleftrightarrow> (let i = icache s ! ip; i' = icache s' ! ip; dev = i_dev i in
     fs_ok dev s' \<and> file_ok s' i' \<and> readsb dev s' = readsb dev s \<and>
     icache s' = (icache s)[ip := i\<lparr>i_addrs := i_addrs i'\<rparr>] \<and> touch s' i' \<subseteq> touch s i \<and>
     (\<forall>k\<le>MAXFILE. faddr s i k \<noteq> 0 \<longrightarrow> faddr s' i' k = faddr s i k) \<and>
     (\<forall>d c. d \<noteq> dev \<or> c \<notin> touch s i \<longrightarrow> blk s' d c = blk s d c))"

lemma advancedD:
  assumes "advanced ip s s'"
  shows "fs_ok (i_dev (icache s ! ip)) s'" "file_ok s' (icache s' ! ip)"
    "readsb (i_dev (icache s ! ip)) s' = readsb (i_dev (icache s ! ip)) s"
    "icache s' = (icache s)[ip := (icache s ! ip)\<lparr>i_addrs := i_addrs (icache s' ! ip)\<rparr>]"
    "touch s' (icache s' ! ip) \<subseteq> touch s (icache s ! ip)"
    "d \<noteq> i_dev (icache s ! ip) \<or> c \<notin> touch s (icache s ! ip) \<Longrightarrow> blk s' d c = blk s d c"
    "k \<le> MAXFILE \<Longrightarrow> faddr s (icache s ! ip) k \<noteq> 0 \<Longrightarrow> faddr s' (icache s' ! ip) k = faddr s (icache s ! ip) k"
  using assms by (auto simp: advanced_def Let_def)

lemma advanced_refl: "fs_ok (i_dev (icache s ! ip)) s \<Longrightarrow> file_ok s (icache s ! ip) \<Longrightarrow> advanced ip s s"
  by (simp add: advanced_def Let_def)

lemma advanced_inode:
  assumes "advanced ip s s'" "ip < length (icache s)"
  shows "icache s' ! ip = (icache s ! ip)\<lparr>i_addrs := i_addrs (icache s' ! ip)\<rparr>" "length (icache s') = length (icache s)"
  using advancedD(4)[OF assms(1)] assms(2) by (metis nth_list_update_eq, metis length_list_update)

lemma advanced_trans:
  assumes a: "advanced ip s s1" and b: "advanced ip s1 s2" and l: "ip < length (icache s)"
  shows "advanced ip s s2"
proof -
  have d: "i_dev (icache s1 ! ip) = i_dev (icache s ! ip)" by (subst advanced_inode(1)[OF a l]) simp
  have "icache s2 = (icache s)[ip := (icache s ! ip)\<lparr>i_addrs := i_addrs (icache s2 ! ip)\<rparr>]"
  proof -
    have "(icache s1 ! ip)\<lparr>i_addrs := x\<rparr> = (icache s ! ip)\<lparr>i_addrs := x\<rparr>" for x
      by (subst advanced_inode(1)[OF a l]) simp
    then show ?thesis using advancedD(4)[OF b] advancedD(4)[OF a] by (metis list_update_overwrite)
  qed
  moreover have "blk s2 e c = blk s e c" if "e \<noteq> i_dev (icache s ! ip) \<or> c \<notin> touch s (icache s ! ip)" for e c
    using advancedD(6)[OF a that] advancedD(6)[OF b, of e c] advancedD(5)[OF a] that d by auto
  moreover have "faddr s2 (icache s2 ! ip) k = faddr s (icache s ! ip) k" if "k \<le> MAXFILE" "faddr s (icache s ! ip) k \<noteq> 0" for k
    using advancedD(7)[OF a that] advancedD(7)[OF b, of k] that by simp
  ultimately show ?thesis
    unfolding advanced_def Let_def using advancedD(1-5)[OF a] advancedD(1-5)[OF b] d by auto
qed

lemma advancedI:
  assumes "i = icache s ! ip" "dev = i_dev i" "ip < length (icache s)" "fs_ok dev s'" "file_ok s' i'"
    "readsb dev s' = readsb dev s" "icache s' = (icache s)[ip := i']" "i' = i\<lparr>i_addrs := i_addrs i'\<rparr>"
    "touch s' i' \<subseteq> touch s i" "\<And>d c. d \<noteq> dev \<or> c \<notin> touch s i \<Longrightarrow> blk s' d c = blk s d c"
    "\<And>k. k \<le> MAXFILE \<Longrightarrow> faddr s i k \<noteq> 0 \<Longrightarrow> faddr s' i' k = faddr s i k"
  shows "advanced ip s s'"
proof -
  have "icache s' ! ip = i'" using assms by simp
  then show ?thesis unfolding advanced_def Let_def using assms by auto
qed

lemma blk_set_addr [simp]: "blk (set_addr ip k b s) = blk s" "readsb dev (set_addr ip k b s) = readsb dev s"
  "in_use dev (set_addr ip k b s) c = in_use dev s c" "blocks_ok (set_addr ip k b s) = blocks_ok s"
  by (simp_all add: set_addr_def set_inode_def readsb_def in_use_def blocks_ok_def)

text \<open>A new direct block, or a new indirect block.\<close>

lemma set_addr_grows:
  assumes fs: "fs_ok dev s" and fo: "file_ok s i" and i: "i = icache s ! ip" "dev = i_dev i" and l: "ip < length (icache s)"
    and j: "j \<le> NDIRECT" "i_addrs i ! j = 0" and al: "balloc dev s = Ret (b, s1)"
  defines "s' \<equiv> set_addr ip j b s1"
  shows "advanced ip s s'" "icache s' ! ip = i\<lparr>i_addrs := (i_addrs i)[j := of_nat b]\<rparr>"
    "unat (i_addrs (icache s' ! ip) ! j) = b" "b \<noteq> 0" "\<And>n. n < MAXFILE * BSIZE \<Longrightarrow> fbyte s' (icache s' ! ip) n = fbyte s i n"
proof -
  have A: "is_data dev s b" "\<not> in_use dev s b" "\<And>c. in_use dev s1 c \<longleftrightarrow> c = b \<or> in_use dev s c"
    "\<And>d c. d \<noteq> dev \<or> \<not> is_bitmap dev s c \<Longrightarrow> blk s1 d c = blk s d c" "icache s1 = icache s"
    "readsb dev s1 = readsb dev s" "blocks_ok s1"
    using balloc_fs_ok[OF fs] al by auto
  let ?i = "i\<lparr>i_addrs := (i_addrs i)[j := of_nat b]\<rparr>"
  have ic: "icache s' = (icache s)[ip := ?i]" by (simp add: s'_def set_addr_def set_inode_def A(5) i)
  then show i': "icache s' ! ip = ?i" using l by simp
  have len: "length (i_addrs i) = NDIRECT + 1" using file_okD(1)[OF fo] .
  have b: "unat (of_nat b :: u32) = b" "3 \<le> b"
    using A(1) data_end_u32[OF fs] data_start_3[of dev s] by (auto simp: is_data_def)
  then show "unat (i_addrs (icache s' ! ip) ! j) = b" "b \<noteq> 0" using len j(1) by (auto simp: i')
  define k where "k = (if j = NDIRECT then MAXFILE else j)"
  have zero: "blk s dev b = replicate BSIZE 0" using fs_okD(5)[OF fs, of b] A by (simp add: is_data_def)
  have nb: "\<not> is_bitmap dev s b" using is_bitmap_before_data[of dev s b] A(1) by (auto simp: is_data_def)
  have ni: "\<not> is_bitmap dev s (unat (i_addrs i ! NDIRECT))" if "i_addrs i ! NDIRECT \<noteq> 0"
    using is_bitmap_before_data[of dev s "unat (i_addrs i ! NDIRECT)"] file_okD(2)[OF fo, of MAXFILE] that i
    by (auto simp: is_data_def unat_eq_0)
  have addr: "faddr s' ?i m = (if m = k then b else faddr s i m)" if "m \<le> MAXFILE" for m
  proof -
    have "get32 (replicate BSIZE 0) (4 * (m - NDIRECT)) = 0" if "m < MAXFILE"
      using that by (auto simp: get32_def le32_def BSIZE_def MAXFILE_def NDIRECT_def)
    moreover have "(of_nat b :: u32) \<noteq> 0" using b by (metis unat_0 not_numeral_le_zero)
    ultimately show ?thesis
      using that j len b A(4) zero nb ni
      by (auto simp: faddr_def baddr_def k_def s'_def i nth_list_update MAXFILE_def NDIRECT_def)
  qed
  have kM: "k \<le> MAXFILE" "faddr s i k = 0" using j by (auto simp: k_def MAXFILE_def NDIRECT_def faddr_def baddr_def)
  have hd: "i_dev ?i = dev" "length (i_addrs ?i) = NDIRECT + 1" using i(2) len by simp_all
  have sb: "readsb dev s' = readsb dev s" "blocks_ok s'" using A by (simp_all add: s'_def)
  note g = file_grows[OF fs fo i(2)[symmetric] hd kM A(1,2) sb _ addr]
  have fr: "blk s' d c = blk s d c" if "d \<noteq> dev \<or> \<not> is_bitmap dev s c" for d c using A(4)[OF that] by (simp add: s'_def)
  show "fbyte s' (icache s' ! ip) n = fbyte s i n" if "n < MAXFILE * BSIZE" for n
    unfolding i' by (rule g(3)) (use A(3) fr that in \<open>auto simp: s'_def\<close>)
  have "fs_ok dev s'" by (rule g(1)) (use A(3) fr in \<open>auto simp: s'_def\<close>)
  moreover have "file_ok s' ?i" by (rule g(2)) (use A(3) fr in \<open>auto simp: s'_def\<close>)
  moreover have "touch s' ?i \<subseteq> touch s i" by (rule g(4)) (use A(3) fr in \<open>auto simp: s'_def\<close>)
  moreover have "faddr s' ?i m = faddr s i m" if "m \<le> MAXFILE" "faddr s i m \<noteq> 0" for m using addr[of m] kM that by auto
  ultimately show "advanced ip s s'"
    using advancedI[OF i l _ _ sb(1) ic] fr i(2) by (simp add: touch_def)
qed

text \<open>A new entry of the indirect block.\<close>

lemma entry_grows:
  assumes fs: "fs_ok dev s" and fo: "file_ok s i" and i: "i = icache s ! ip" "dev = i_dev i" and l: "ip < length (icache s)"
    and bn: "NDIRECT \<le> bn" "bn < MAXFILE" and ind: "ind = unat (i_addrs i ! NDIRECT)" "ind \<noteq> 0"
    and e: "get32 (blk s dev ind) (4 * (bn - NDIRECT)) = 0" and al: "balloc dev s = Ret (b, s1)"
  defines "s' \<equiv> set_blk dev ind (put (blk s dev ind) (4 * (bn - NDIRECT)) (bytes32 (of_nat b))) s1"
  shows "advanced ip s s'" "icache s' = icache s" "baddr s' i bn = b" "b \<noteq> 0"
    "\<And>n. n < MAXFILE * BSIZE \<Longrightarrow> fbyte s' i n = fbyte s i n"
proof -
  have A: "is_data dev s b" "\<not> in_use dev s b" "\<And>c. in_use dev s1 c \<longleftrightarrow> c = b \<or> in_use dev s c"
    "\<And>d c. d \<noteq> dev \<or> \<not> is_bitmap dev s c \<Longrightarrow> blk s1 d c = blk s d c" "icache s1 = icache s"
    "readsb dev s1 = readsb dev s" "blocks_ok s1"
    using balloc_fs_ok[OF fs] al by auto
  show ic: "icache s' = icache s" by (simp add: s'_def A(5))
  have b: "unat (of_nat b :: u32) = b" "3 \<le> b"
    using A(1) data_end_u32[OF fs] data_start_3[of dev s] by (auto simp: is_data_def)
  then show "b \<noteq> 0" by simp
  have id: "is_data dev s ind" using file_okD(2)[OF fo, of MAXFILE] ind i by auto
  have len: "length (blk s dev ind) = BSIZE" using fs_okD(1)[OF fs] by (simp add: blocks_ok_def)
  have fit: "4 * (bn - NDIRECT) + 4 \<le> BSIZE" using bn by (simp add: MAXFILE_def NDIRECT_def BSIZE_def)
  have id1: "is_data dev s1 ind" "data_end dev s1 = data_end dev s" using id same_sb[OF A(6)] by simp_all
  have entry: "get32 (put (blk s dev ind) (4 * (bn - NDIRECT)) (bytes32 (of_nat b))) (4 * (m - NDIRECT)) =
     (if m = bn then of_nat b else get32 (blk s dev ind) (4 * (m - NDIRECT)))" if "NDIRECT \<le> m" for m
  proof (cases "m = bn")
    case False
    then have "4 * (m - NDIRECT) + 4 \<le> 4 * (bn - NDIRECT) \<or> 4 * (bn - NDIRECT) + 4 \<le> 4 * (m - NDIRECT)"
      using that bn by linarith
    then show ?thesis using False fit len by (simp add: get_put_other)
  qed (use bn fit len get32_bytes32[of "of_nat b" "[]"] in \<open>simp add: get_put\<close>)
  have addr: "faddr s' i m = (if m = bn then b else faddr s i m)" if "m \<le> MAXFILE" for m
    using entry[of m] that bn ind b i(2) by (auto simp: faddr_def baddr_def s'_def blk_set)
  then show "baddr s' i bn = b" using bn by (metis faddr_block(1) less_imp_le)
  have kM: "bn \<le> MAXFILE" "faddr s i bn = 0" using bn e ind i by (auto simp: faddr_def baddr_def)
  have sb: "readsb dev s' = readsb dev s" using set_data_block(1)[OF id1(1)] A(6) by (simp add: s'_def)
  have bo: "blocks_ok s'" using A(7) fit len by (simp add: s'_def blocks_ok_def blk_set)
  have use: "in_use dev s' c \<longleftrightarrow> c = b \<or> in_use dev s c" if "c < data_end dev s" for c
    using set_data_block(2)[OF id1(1)] that A(3) id1(2) by (simp add: s'_def)
  have fr: "blk s' d c = blk s d c" if "d \<noteq> dev \<or> \<not> is_bitmap dev s c \<and> c \<noteq> ind" for d c
    using A(4) that by (auto simp: s'_def blk_set)
  note g = file_grows[OF fs fo i(2)[symmetric] i(2)[symmetric] file_okD(1)[OF fo] kM A(1,2) sb bo use addr]
  have fr': "blk s' dev c = blk s dev c" if "\<not> is_bitmap dev s c" "c = 0 \<or> c \<noteq> unat (i_addrs i ! NDIRECT)" for c
    using fr that ind by auto
  show "fbyte s' i n = fbyte s i n" if "n < MAXFILE * BSIZE" for n using g(3) fr' that by blast
  have "fs_ok dev s'" "file_ok s' i" "touch s' i \<subseteq> touch s i" using g fr' by blast+
  moreover have "ind \<in> touch s i" using ind by (auto simp: touch_def)
  then have "blk s' d c = blk s d c" if "d \<noteq> dev \<or> c \<notin> touch s i" for d c
    using fr[of d c] that i(2) by (auto simp: touch_def)
  moreover have "icache s' = (icache s)[ip := i]" using ic i(1) by simp
  moreover have "faddr s' i m = faddr s i m" if "m \<le> MAXFILE" "faddr s i m \<noteq> 0" for m using addr[of m] kM that by auto
  ultimately show "advanced ip s s'"
    using advancedI[OF i l _ _ sb, of i] by simp
qed

text \<open>\<open>bmap\<close> gives the address of the block, after allocating what is missing.\<close>

definition full :: "'a outcome \<Rightarrow> bool" where
  "full m \<longleftrightarrow> m = Panic ''balloc: out of blocks''"

lemma full_bind [simp]: "full m \<Longrightarrow> full (bindO m f)"
  by (simp add: full_def)

definition same_bytes :: "nat \<Rightarrow> fsys \<Rightarrow> fsys \<Rightarrow> bool" where
  "same_bytes ip s s' \<longleftrightarrow> (\<forall>n<MAXFILE * BSIZE. fbyte s' (icache s' ! ip) n = fbyte s (icache s ! ip) n)"

text \<open>The indirect block, found or allocated.\<close>

definition indirect :: "nat \<Rightarrow> fsys \<Rightarrow> (nat \<times> fsys) outcome" where
  "indirect ip s = (let i = icache s ! ip in
     if i_addrs i ! NDIRECT = 0
     then bindO (balloc (i_dev i) s) (\<lambda>(b, s1). Ret (b, set_addr ip NDIRECT b s1))
     else Ret (unat (i_addrs i ! NDIRECT), s))"

lemma bmap_indirect:
  assumes "NDIRECT \<le> bn" "bn < MAXFILE"
  shows "bmap ip bn s = bindO (indirect ip s) (\<lambda>(ind, s1).
     let dev = i_dev (icache s ! ip); a = blk s1 dev ind; k = 4 * (bn - NDIRECT) in
     if get32 a k = 0
     then bindO (balloc dev s1) (\<lambda>(b, s2). Ret (b, set_blk dev ind (put a k (bytes32 (of_nat b))) s2))
     else Ret (unat (get32 a k), s1))"
proof -
  have "bn - NDIRECT < NINDIRECT" "\<not> bn < NDIRECT" using assms by (simp_all add: MAXFILE_def NDIRECT_def NINDIRECT_def)
  then show ?thesis by (simp add: bmap_def indirect_def Let_def)
qed

lemma indirect_result:
  assumes fs: "fs_ok (i_dev (icache s ! ip)) s" and fo: "file_ok s (icache s ! ip)" and l: "ip < length (icache s)"
  shows "full (indirect ip s) \<or> (\<exists>ind s1. indirect ip s = Ret (ind, s1) \<and> advanced ip s s1 \<and>
    ind = unat (i_addrs (icache s1 ! ip) ! NDIRECT) \<and> ind \<noteq> 0 \<and> same_bytes ip s s1)"
proof (cases "i_addrs (icache s ! ip) ! NDIRECT = 0")
  case a: True
  show ?thesis
  proof (cases "balloc (i_dev (icache s ! ip)) s")
    case (Ret x)
    obtain b s1 where x: "x = (b, s1)" by (cases x)
    show ?thesis using set_addr_grows[OF fs fo refl refl l _ a, of b s1] Ret x a
      by (simp add: indirect_def Let_def same_bytes_def)
  qed (use balloc_fs_ok[OF fs] a in \<open>auto simp: indirect_def Let_def full_def\<close>)
qed (use advanced_refl[OF fs fo] in \<open>auto simp: indirect_def Let_def unat_eq_0 same_bytes_def\<close>)

lemma bmap_direct_result:
  assumes fs: "fs_ok (i_dev (icache s ! ip)) s" and fo: "file_ok s (icache s ! ip)" and l: "ip < length (icache s)" and bn: "bn < NDIRECT"
  shows "full (bmap ip bn s) \<or> (\<exists>b s'. bmap ip bn s = Ret (b, s') \<and> advanced ip s s' \<and>
    baddr s' (icache s' ! ip) bn = b \<and> b \<noteq> 0 \<and> same_bytes ip s s')"
proof (cases "i_addrs (icache s ! ip) ! bn = 0")
  case a: True
  show ?thesis
  proof (cases "balloc (i_dev (icache s ! ip)) s")
    case (Ret x)
    obtain b s1 where x: "x = (b, s1)" by (cases x)
    show ?thesis using set_addr_grows[OF fs fo refl refl l _ a, of b s1] Ret x a bn
      by (simp add: bmap_def Let_def same_bytes_def baddr_def)
  qed (use balloc_fs_ok[OF fs] a bn in \<open>auto simp: bmap_def Let_def full_def\<close>)
qed (use advanced_refl[OF fs fo] bn in \<open>auto simp: bmap_def Let_def baddr_def unat_eq_0 same_bytes_def\<close>)

lemma bmap_result:
  assumes fs: "fs_ok (i_dev (icache s ! ip)) s" and fo: "file_ok s (icache s ! ip)" and l: "ip < length (icache s)" and bn: "bn < MAXFILE"
  shows "full (bmap ip bn s) \<or> (\<exists>b s'. bmap ip bn s = Ret (b, s') \<and> advanced ip s s' \<and>
    baddr s' (icache s' ! ip) bn = b \<and> b \<noteq> 0 \<and> same_bytes ip s s')"
proof -
  let ?dev = "i_dev (icache s ! ip)" and ?k = "4 * (bn - NDIRECT)"
  consider "bn < NDIRECT" | "full (indirect ip s)" "NDIRECT \<le> bn" | ind s1 where "NDIRECT \<le> bn" "indirect ip s = Ret (ind, s1)" "advanced ip s s1"
      "ind = unat (i_addrs (icache s1 ! ip) ! NDIRECT)" "ind \<noteq> 0" "same_bytes ip s s1"
    using indirect_result[OF fs fo l] not_le[of NDIRECT bn] by blast
  then show ?thesis
  proof cases
    case 1 then show ?thesis by (rule bmap_direct_result[OF fs fo l])
  next
    case 2 then show ?thesis by (simp add: bmap_indirect bn)
  next
    case (3 ind s1)
    note run = bmap_indirect[OF 3(1) bn, of ip s, unfolded 3(2), simplified, unfolded Let_def]
    have d: "?dev = i_dev (icache s1 ! ip)" by (subst advanced_inode(1)[OF 3(3) l]) simp
    have l1: "ip < length (icache s1)" using advanced_inode(2)[OF 3(3) l] l by simp
    have fs1: "fs_ok ?dev s1" and fo1: "file_ok s1 (icache s1 ! ip)" using advancedD(1,2)[OF 3(3)] .
    show ?thesis
    proof (cases "get32 (blk s1 ?dev ind) ?k = 0")
      case e: True
      show ?thesis
      proof (cases "balloc ?dev s1")
        case (Ret x)
        obtain b s2 where x: "x = (b, s2)" by (cases x)
        note g = entry_grows[OF fs1 fo1 refl d l1 3(1) bn 3(4,5) e, of b s2]
        let ?s = "set_blk ?dev ind (put (blk s1 ?dev ind) ?k (bytes32 (of_nat b))) s2"
        have "advanced ip s ?s" using advanced_trans[OF 3(3) _ l] g(1) Ret x by blast
        moreover have "baddr ?s (icache ?s ! ip) bn = b \<and> b \<noteq> 0 \<and> same_bytes ip s ?s"
          using g 3(6) Ret x by (simp add: same_bytes_def)
        ultimately show ?thesis using run e Ret x by simp
      qed (use balloc_fs_ok[OF fs1] run e in \<open>auto simp: full_def\<close>)
    next
      case e: False
      then show ?thesis using 3 d run by (auto simp: baddr_def unat_eq_0)
    qed
  qed
qed

section \<open>Reading and writing\<close>

text \<open>One block of a file replaced.\<close>

lemma write_block:
  assumes fs: "fs_ok dev s" and fo: "file_ok s i" and i: "i = icache s ! ip" "dev = i_dev i" and l: "ip < length (icache s)"
    and bn: "bn < MAXFILE" and b: "b = baddr s i bn" "b \<noteq> 0" and bs: "length bs = BSIZE"
  defines "s' \<equiv> set_blk dev b bs s"
  shows "advanced ip s s'" "icache s' = icache s"
    "n < MAXFILE * BSIZE \<Longrightarrow> fbyte s' i n = (if n div BSIZE = bn then bs ! (n mod BSIZE) else fbyte s i n)"
proof -
  have f: "faddr s i bn = b" using bn b by simp
  have d: "is_data dev s b" "in_use dev s b" using file_okD(2)[OF fo, of bn] f b bn i by auto
  have sb: "readsb dev s' = readsb dev s" and use: "c < data_end dev s \<Longrightarrow> in_use dev s' c = in_use dev s c" for c
    using set_data_block[OF d(1)] by (simp_all add: s'_def)
  note sd = same_sb[OF sb]
  have other: "faddr s i k \<noteq> b" if "k \<le> MAXFILE" "k \<noteq> bn" for k
    using file_okD(3)[OF fo, of bn k] that f b bn by auto
  then have ba: "baddr s' i k = baddr s i k" for k
    using other[of MAXFILE] bn i(2) by (auto simp: baddr_def s'_def blk_set)
  then have fa: "faddr s' i k = faddr s i k" for k by (simp add: faddr_def)
  show ic: "icache s' = icache s" by (simp add: s'_def)
  show "fbyte s' i n = (if n div BSIZE = bn then bs ! (n mod BSIZE) else fbyte s i n)" if "n < MAXFILE * BSIZE"
  proof -
    have "n div BSIZE < MAXFILE" using that by (rule less_mult_imp_div_less)
    then have "n div BSIZE \<noteq> bn \<Longrightarrow> baddr s i (n div BSIZE) \<noteq> b" using other[of "n div BSIZE"] by simp
    moreover have "blk s' (i_dev i) c = (if c = b then bs else blk s (i_dev i) c)" for c by (simp add: s'_def blk_set i(2))
    ultimately show ?thesis unfolding fbyte_def ba using b by auto
  qed
  have u: "in_use dev s' c = in_use dev s c" if "is_data dev s c" for c using use that by (simp add: is_data_def)
  then have t: "touch s' i = touch s i" unfolding touch_def i(2)[symmetric] sd fa by blast
  have "blk s' dev c = replicate BSIZE 0" if "c < data_end dev s" "\<not> in_use dev s c" for c
    using fs_okD(5)[OF fs that] d(2) that by (auto simp: s'_def blk_set)
  moreover have "blocks_ok s'" using fs_okD(1)[OF fs] bs by (simp add: s'_def blocks_ok_def blk_set)
  ultimately have "fs_ok dev s'"
    unfolding fs_ok_def sd sb using fs_okD[OF fs] use by (metis order.strict_trans2)
  moreover have "file_ok s' i"
    using fo u unfolding file_ok_def i(2)[symmetric] sd fa by blast
  moreover have "\<exists>k\<le>MAXFILE. faddr s i k = b" using f bn less_imp_le by blast
  then have "b \<in> touch s i" using b(2) by (simp add: touch_def)
  then have "blk s' e c = blk s e c" if "e \<noteq> dev \<or> c \<notin> touch s i" for e c
    using that by (auto simp: s'_def blk_set)
  moreover have "icache s' = (icache s)[ip := i]" using ic i(1) by simp
  ultimately show "advanced ip s s'" using advancedI[OF i l _ _ sb, of i] t fa by simp
qed

lemma same_block: "(n::nat) div B = off div B \<longleftrightarrow> off - off mod B \<le> n \<and> n < off - off mod B + B" if "0 < B"
proof -
  have "off - off mod B = off div B * B" by (simp add: minus_mod_eq_div_mult)
  then show ?thesis using that by (metis div_nat_eqI dividend_less_div_times div_times_less_eq_dividend mult.commute mult_Suc_right add.commute)
qed

text \<open>What a block of the file holds after the piece of \<open>writei\<close> that falls into it.\<close>

lemma put_overwrite:
  assumes "length old = BSIZE" and m: "length xs \<le> BSIZE - off mod BSIZE" and n: "n div BSIZE = off div BSIZE"
    and f: "f n = old ! (n mod BSIZE)"
  shows "put old (off mod BSIZE) xs ! (n mod BSIZE) = overwrite f off xs n"
proof -
  have o: "off mod BSIZE < BSIZE" by (simp add: BSIZE_def)
  have e: "n = off div BSIZE * BSIZE + n mod BSIZE" "off = off div BSIZE * BSIZE + off mod BSIZE"
    using n by (metis div_mult_mod_eq, metis div_mult_mod_eq)
  have "off \<le> n \<longleftrightarrow> off mod BSIZE \<le> n mod BSIZE" "n < off + length xs \<longleftrightarrow> n mod BSIZE < off mod BSIZE + length xs"
    "n - off = n mod BSIZE - off mod BSIZE" using e by linarith+
  then show ?thesis using assms o by (auto simp: nth_put overwrite_def)
qed

lemma writei_loop_result:
  assumes "fs_ok (i_dev (icache s ! ip)) s" "file_ok s (icache s ! ip)" "ip < length (icache s)" "off + length src \<le> MAXFILE * BSIZE"
  shows "full (writei_loop ip off src s) \<or> (\<exists>s'. writei_loop ip off src s = Ret s' \<and> advanced ip s s' \<and>
    (\<forall>n<MAXFILE * BSIZE. fbyte s' (icache s' ! ip) n = overwrite (fbyte s (icache s ! ip)) off src n) \<and>
    (\<forall>n. off \<le> n \<and> n < off + length src \<longrightarrow> baddr s' (icache s' ! ip) (n div BSIZE) \<noteq> 0))"
  using assms
proof (induction ip off src s rule: writei_loop.induct)
  case (1 ip off src s)
  let ?m = "min (length src) (BSIZE - off mod BSIZE)" and ?bn = "off div BSIZE"
  show ?case
  proof (cases "src = []")
    case True
    then show ?thesis using advanced_refl[OF "1.prems"(1,2)] by (subst (2) writei_loop.simps) (auto simp: overwrite_def)
  next
    case False
    then have "off < MAXFILE * BSIZE" using "1.prems"(4) by (cases src) auto
    then have bn: "?bn < MAXFILE" by (rule less_mult_imp_div_less)
    from bmap_result[OF "1.prems"(1-3) bn] show ?thesis
    proof
      assume "full (bmap ip ?bn s)"
      then show ?thesis using False by (subst writei_loop.simps) simp
    next
      assume "\<exists>b s'. bmap ip ?bn s = Ret (b, s') \<and> advanced ip s s' \<and> baddr s' (icache s' ! ip) ?bn = b \<and> b \<noteq> 0 \<and> same_bytes ip s s'"
      then obtain b s1 where b: "bmap ip ?bn s = Ret (b, s1)" "advanced ip s s1" "b = baddr s1 (icache s1 ! ip) ?bn" "b \<noteq> 0" "same_bytes ip s s1"
        by blast
      let ?i = "icache s1 ! ip" and ?dev = "i_dev (icache s1 ! ip)"
      let ?bs = "put (blk s1 ?dev b) (off mod BSIZE) (take ?m src)"
      let ?s2 = "set_blk ?dev b ?bs s1"
      have d: "?dev = i_dev (icache s ! ip)" by (subst advanced_inode(1)[OF b(2) "1.prems"(3)]) simp
      have l1: "ip < length (icache s1)" using advanced_inode(2)[OF b(2) "1.prems"(3)] "1.prems"(3) by simp
      have fs1: "fs_ok ?dev s1" "file_ok s1 ?i" using advancedD(1,2)[OF b(2)] d by simp_all
      have len: "length (blk s1 ?dev b) = BSIZE" using fs_okD(1)[OF fs1(1)] by (simp add: blocks_ok_def)
      then have bl: "length ?bs = BSIZE" by (simp add: BSIZE_def min_def)
      note w = write_block[OF fs1 refl refl l1 bn b(3,4) bl]
      have a2: "advanced ip s ?s2" by (rule advanced_trans[OF b(2) w(1) "1.prems"(3)])
      have f2: "fbyte ?s2 ?i n = overwrite (fbyte s (icache s ! ip)) off (take ?m src) n" if n: "n < MAXFILE * BSIZE" for n
      proof (cases "n div BSIZE = ?bn")
        case True
        then have "fbyte s1 ?i n = blk s1 ?dev b ! (n mod BSIZE)" using b(3,4) by (simp add: fbyte_def)
        then have "fbyte s (icache s ! ip) n = blk s1 ?dev b ! (n mod BSIZE)" using b(5) n by (simp add: same_bytes_def)
        then show ?thesis using w(3)[OF n] True put_overwrite[OF len, of "take ?m src" off n "fbyte s (icache s ! ip)"] by simp
      next
        case False
        then have "\<not> (off \<le> n \<and> n < off + ?m)" using same_block[of BSIZE n off] by (auto simp: BSIZE_def)
        then show ?thesis using w(3)[OF n] False b(5) n by (auto simp: overwrite_def same_bytes_def)
      qed
      have run: "writei_loop ip off src s = writei_loop ip (off + ?m) (drop ?m src) ?s2"
        using False b(1) by (subst writei_loop.simps) (simp add: Let_def)
      have ih: "full (writei_loop ip (off + ?m) (drop ?m src) ?s2) \<or> (\<exists>s'. writei_loop ip (off + ?m) (drop ?m src) ?s2 = Ret s' \<and>
          advanced ip ?s2 s' \<and> (\<forall>n<MAXFILE * BSIZE. fbyte s' (icache s' ! ip) n = overwrite (fbyte ?s2 (icache ?s2 ! ip)) (off + ?m) (drop ?m src) n) \<and>
          (\<forall>n. off + ?m \<le> n \<and> n < off + ?m + length (drop ?m src) \<longrightarrow> baddr s' (icache s' ! ip) (n div BSIZE) \<noteq> 0))"
        using "1.IH"[OF False b(1) refl refl refl] advancedD(1,2)[OF w(1)] w(2) l1 "1.prems"(4) by (simp add: w(2))
      show ?thesis unfolding run
      proof (rule disj_forward[OF ih], assumption, elim exE conjE)
        fix s' assume s': "writei_loop ip (off + ?m) (drop ?m src) ?s2 = Ret s'" "advanced ip ?s2 s'"
          "\<forall>n<MAXFILE * BSIZE. fbyte s' (icache s' ! ip) n = overwrite (fbyte ?s2 (icache ?s2 ! ip)) (off + ?m) (drop ?m src) n"
          "\<forall>n. off + ?m \<le> n \<and> n < off + ?m + length (drop ?m src) \<longrightarrow> baddr s' (icache s' ! ip) (n div BSIZE) \<noteq> 0"
        have "overwrite (fbyte ?s2 ?i) (off + ?m) (drop ?m src) n = overwrite (fbyte s (icache s ! ip)) off src n" if "n < MAXFILE * BSIZE" for n
        proof -
          have "overwrite (fbyte s (icache s ! ip)) off (take ?m src @ drop ?m src) n =
              overwrite (overwrite (fbyte s (icache s ! ip)) off (take ?m src)) (off + ?m) (drop ?m src) n"
            by (subst overwrite_append) simp
          also have "\<dots> = overwrite (fbyte ?s2 ?i) (off + ?m) (drop ?m src) n" using f2[OF that] by (simp add: overwrite_def)
          finally show ?thesis by simp
        qed
        moreover have "baddr s' (icache s' ! ip) (n div BSIZE) \<noteq> 0" if "off \<le> n" "n < off + length src" for n
        proof (cases "n < off + ?m")
          case True
          then have "n div BSIZE = ?bn" using same_block[of BSIZE n off] that by (auto simp: BSIZE_def)
          moreover have "baddr s' (icache s' ! ip) ?bn = b"
            using advancedD(7)[OF advanced_trans[OF w(1) s'(2) l1], of ?bn] b(3,4) bn by simp
          ultimately show ?thesis using b(4) by simp
        qed (use s'(4) that in auto)
        ultimately show "\<exists>s'. writei_loop ip (off + ?m) (drop ?m src) ?s2 = Ret s' \<and> advanced ip s s' \<and>
            (\<forall>n<MAXFILE * BSIZE. fbyte s' (icache s' ! ip) n = overwrite (fbyte s (icache s ! ip)) off src n) \<and>
            (\<forall>n. off \<le> n \<and> n < off + length src \<longrightarrow> baddr s' (icache s' ! ip) (n div BSIZE) \<noteq> 0)"
          using s' advanced_trans[OF a2 s'(2) "1.prems"(3)] w(2) by auto
      qed
    qed
  qed
qed

lemma block_split: "r < (B::nat) \<Longrightarrow> (q * B + r) div B = q \<and> (q * B + r) mod B = r"
  by simp

lemma fbyte_block:
  assumes "length (blk s (i_dev i) (baddr s i (off div BSIZE))) = BSIZE" "baddr s i (off div BSIZE) \<noteq> 0" "m \<le> BSIZE - off mod BSIZE"
  shows "take m (drop (off mod BSIZE) (blk s (i_dev i) (baddr s i (off div BSIZE)))) = map (fbyte s i) [off..<off + m]"
proof (rule nth_equalityI)
  show "length (take m (drop (off mod BSIZE) (blk s (i_dev i) (baddr s i (off div BSIZE))))) = length (map (fbyte s i) [off..<off + m])"
    using assms by simp
next
  fix j assume "j < length (take m (drop (off mod BSIZE) (blk s (i_dev i) (baddr s i (off div BSIZE)))))"
  then have j: "j < m" "off mod BSIZE + j < BSIZE" using assms by auto
  have e: "off + j = off div BSIZE * BSIZE + (off mod BSIZE + j)" by simp
  have "(off + j) div BSIZE = off div BSIZE" "(off + j) mod BSIZE = off mod BSIZE + j"
    using block_split[OF j(2), of "off div BSIZE"] unfolding e[symmetric] by blast+
  then show "take m (drop (off mod BSIZE) (blk s (i_dev i) (baddr s i (off div BSIZE)))) ! j = map (fbyte s i) [off..<off + m] ! j"
    using j assms by (simp add: fbyte_def)
qed

lemma same_bytes_trans: "same_bytes ip s s1 \<Longrightarrow> same_bytes ip s1 s2 \<Longrightarrow> same_bytes ip s s2"
  by (simp add: same_bytes_def)

lemma same_bytes_map: "same_bytes ip s s1 \<Longrightarrow> off + n \<le> MAXFILE * BSIZE \<Longrightarrow>
    map (fbyte s1 (icache s1 ! ip)) [off..<off + n] = map (fbyte s (icache s ! ip)) [off..<off + n]"
  by (auto simp: same_bytes_def)

lemma readi_loop_result:
  assumes "fs_ok (i_dev (icache s ! ip)) s" "file_ok s (icache s ! ip)" "ip < length (icache s)" "off + n \<le> MAXFILE * BSIZE"
  shows "full (readi_loop ip off n s) \<or> (\<exists>s'. readi_loop ip off n s = Ret (map (fbyte s (icache s ! ip)) [off..<off + n], s') \<and>
    advanced ip s s' \<and> same_bytes ip s s')"
  using assms
proof (induction ip off n s rule: readi_loop.induct)
  case (1 ip off n s)
  let ?m = "min n (BSIZE - off mod BSIZE)" and ?bn = "off div BSIZE"
  show ?case
  proof (cases "n = 0")
    case True
    then show ?thesis using advanced_refl[OF "1.prems"(1,2)] by (subst (2) readi_loop.simps) (auto simp: same_bytes_def)
  next
    case False
    then have "off < MAXFILE * BSIZE" using "1.prems"(4) by auto
    then have bn: "?bn < MAXFILE" by (rule less_mult_imp_div_less)
    from bmap_result[OF "1.prems"(1-3) bn] show ?thesis
    proof
      assume "full (bmap ip ?bn s)"
      then show ?thesis using False by (subst readi_loop.simps) simp
    next
      assume "\<exists>b s'. bmap ip ?bn s = Ret (b, s') \<and> advanced ip s s' \<and> baddr s' (icache s' ! ip) ?bn = b \<and> b \<noteq> 0 \<and> same_bytes ip s s'"
      then obtain b s1 where b: "bmap ip ?bn s = Ret (b, s1)" "advanced ip s s1" "b = baddr s1 (icache s1 ! ip) ?bn" "b \<noteq> 0" "same_bytes ip s s1"
        by blast
      let ?i = "icache s1 ! ip" and ?dev = "i_dev (icache s1 ! ip)"
      have d: "?dev = i_dev (icache s ! ip)" by (subst advanced_inode(1)[OF b(2) "1.prems"(3)]) simp
      have l1: "ip < length (icache s1)" using advanced_inode(2)[OF b(2) "1.prems"(3)] "1.prems"(3) by simp
      have fs1: "fs_ok ?dev s1" "file_ok s1 ?i" using advancedD(1,2)[OF b(2)] d by simp_all
      have len: "length (blk s1 ?dev (baddr s1 ?i ?bn)) = BSIZE" using fs_okD(1)[OF fs1(1)] by (simp add: blocks_ok_def)
      have "take ?m (drop (off mod BSIZE) (blk s1 ?dev b)) = map (fbyte s1 ?i) [off..<off + ?m]"
        unfolding b(3) by (rule fbyte_block[OF len]) (use b in auto)
      also have "\<dots> = map (fbyte s (icache s ! ip)) [off..<off + ?m]"
        by (rule same_bytes_map[OF b(5)]) (use "1.prems"(4) in simp)
      finally have run: "readi_loop ip off n s = bindO (readi_loop ip (off + ?m) (n - ?m) s1)
          (\<lambda>(ys, s2). Ret (map (fbyte s (icache s ! ip)) [off..<off + ?m] @ ys, s2))"
        using False b(1) by (subst readi_loop.simps) (simp add: Let_def)
      have "off + ?m + (n - ?m) = off + n" by simp
      then have ih: "full (readi_loop ip (off + ?m) (n - ?m) s1) \<or> (\<exists>s'. readi_loop ip (off + ?m) (n - ?m) s1 =
          Ret (map (fbyte s1 ?i) [off + ?m..<off + n], s') \<and> advanced ip s1 s' \<and> same_bytes ip s1 s')"
        using "1.IH"[OF False b(1) refl refl refl fs1 l1] "1.prems"(4) by simp
      have "map (fbyte s1 ?i) [off + ?m..<off + n] = map (fbyte s (icache s ! ip)) [off + ?m..<off + n]"
        using b(5) "1.prems"(4) by (auto simp: same_bytes_def)
      moreover have "[off..<off + n] = [off..<off + ?m] @ [off + ?m..<off + n]"
        using upt_add_eq_append[of off "off + ?m" "n - ?m"] by simp
      ultimately show ?thesis
        using ih run advanced_trans[OF b(2) _ "1.prems"(3)] same_bytes_trans[OF b(5)] by auto
    qed
  qed
qed

text \<open>\<open>iupdate\<close> writes into the inode blocks, which hold neither marks nor data.\<close>

lemma meta_change:
  assumes fs: "fs_ok dev s" and fo: "file_ok s i" and dev: "dev = i_dev i" and sb: "readsb dev s' = readsb dev s"
    and use: "\<And>c. in_use dev s' c = in_use dev s c" and bo: "blocks_ok s'"
    and data: "\<And>c. data_start dev s \<le> c \<Longrightarrow> blk s' dev c = blk s dev c"
  shows "fs_ok dev s'" "file_ok s' i" "\<And>n. n < MAXFILE * BSIZE \<Longrightarrow> fbyte s' i n = fbyte s i n"
    "\<And>k. baddr s' i k = baddr s i k"
proof -
  note sd = same_sb[OF sb]
  have "blk s' dev c = replicate BSIZE 0" if "c < data_end dev s" "\<not> in_use dev s c" for c
  proof -
    have "data_start dev s \<le> c" using fs_okD(4)[OF fs, of c] that(2) not_le by blast
    then show ?thesis using fs_okD(5)[OF fs that] data by simp
  qed
  then show "fs_ok dev s'" unfolding fs_ok_def sd sb use using fs_okD[OF fs] bo by auto
  have own: "blk s' dev (faddr s i k) = blk s dev (faddr s i k)" if "k \<le> MAXFILE" "faddr s i k \<noteq> 0" for k
    using file_okD(2)[OF fo that] data dev by (auto simp: is_data_def)
  show ba: "baddr s' i k = baddr s i k" for k
    using own[of MAXFILE] dev by (auto simp: baddr_def unat_eq_0)
  then have fa: "faddr s' i k = faddr s i k" for k by (simp add: faddr_def)
  show "file_ok s' i" using fo unfolding file_ok_def dev[symmetric] sd fa use .
  show "fbyte s' i n = fbyte s i n" if "n < MAXFILE * BSIZE" for n
    using own[of "n div BSIZE"] less_mult_imp_div_less[OF that] unfolding fbyte_def ba by (simp flip: dev)
qed

lemma iupdate_keeps:
  assumes fs: "fs_ok dev s" and fo: "file_ok s i" and i: "i = icache s ! ip" "dev = i_dev i"
    and num: "unat (i_num i) < unat (sb_ninodes (readsb dev s))"
  shows "fs_ok dev (iupdate ip s)" "file_ok (iupdate ip s) i" "\<And>n. n < MAXFILE * BSIZE \<Longrightarrow> fbyte (iupdate ip s) i n = fbyte s i n"
    "\<And>k. baddr (iupdate ip s) i k = baddr s i k" "readsb dev (iupdate ip s) = readsb dev s"
proof -
  let ?b = "IBLOCK (unat (i_num i))" and ?n = "unat (sb_ninodes (readsb dev s))"
  have "unat (i_num i) div IPB \<le> ?n div IPB" using num by (simp add: div_le_mono)
  then have b: "2 \<le> ?b" "?b < ?n div IPB + 3" by (simp_all add: IBLOCK_def)
  have k: "blk (iupdate ip s) dev c = blk s dev c" if "c \<noteq> ?b" for c using iupdate_frame(2)[of dev s ip c] that i by simp
  show sb: "readsb dev (iupdate ip s) = readsb dev s" using k[of 1] b by (simp add: readsb_def)
  have use: "in_use dev (iupdate ip s) c = in_use dev s c" for c
    using k[of "BBLOCK c ?n"] b by (simp add: in_use_def sb BBLOCK_def)
  have bo: "blocks_ok (iupdate ip s)" using iupdate_blocks_ok[of s ip] fs_okD(1)[OF fs] file_okD(1)[OF fo] i by simp
  have data: "blk (iupdate ip s) dev c = blk s dev c" if "data_start dev s \<le> c" for c
    using k[of c] b that by (simp add: data_start_def)
  show "fs_ok dev (iupdate ip s)" "file_ok (iupdate ip s) i" "\<And>n. n < MAXFILE * BSIZE \<Longrightarrow> fbyte (iupdate ip s) i n = fbyte s i n"
    "\<And>k. baddr (iupdate ip s) i k = baddr s i k"
    using meta_change[OF fs fo i(2) sb use bo data] by blast+
qed

text \<open>A block that is there is found without a change.\<close>

lemma bmap_present: "bn < MAXFILE \<Longrightarrow> baddr s (icache s ! ip) bn \<noteq> 0 \<Longrightarrow> bmap ip bn s = Ret (baddr s (icache s ! ip) bn, s)"
  by (auto simp: bmap_def baddr_def Let_def MAXFILE_def NDIRECT_def NINDIRECT_def split: if_splits)

lemma readi_loop_present:
  assumes "blocks_ok s" "off + n \<le> MAXFILE * BSIZE" "\<And>m. off \<le> m \<Longrightarrow> m < off + n \<Longrightarrow> baddr s (icache s ! ip) (m div BSIZE) \<noteq> 0"
  shows "readi_loop ip off n s = Ret (map (fbyte s (icache s ! ip)) [off..<off + n], s)"
  using assms
proof (induction ip off n s rule: readi_loop.induct)
  case (1 ip off n s)
  let ?m = "min n (BSIZE - off mod BSIZE)" and ?i = "icache s ! ip"
  show ?case
  proof (cases "n = 0")
    case False
    then have b: "baddr s ?i (off div BSIZE) \<noteq> 0" "off div BSIZE < MAXFILE"
      using "1.prems"(2) "1.prems"(3)[of off] less_mult_imp_div_less[of off MAXFILE BSIZE] by auto
    note bm = bmap_present[OF b(2,1)]
    have x: "take ?m (drop (off mod BSIZE) (blk s (i_dev ?i) (baddr s ?i (off div BSIZE)))) = map (fbyte s ?i) [off..<off + ?m]"
      using b "1.prems"(1) by (intro fbyte_block) (auto simp: blocks_ok_def)
    have "readi_loop ip (off + ?m) (n - ?m) s = Ret (map (fbyte s ?i) [off + ?m..<off + n], s)"
      using "1.IH"[OF False bm refl refl refl "1.prems"(1)] "1.prems"(2,3) by simp
    moreover have "[off..<off + n] = [off..<off + ?m] @ [off + ?m..<off + n]"
      using upt_add_eq_append[of off "off + ?m" "n - ?m"] by simp
    ultimately show ?thesis using False bm x by (subst readi_loop.simps) (simp add: Let_def)
  qed (simp add: readi_loop.simps)
qed

section \<open>The whole operations\<close>

lemma size_change [simp]:
  "fs_ok dev (set_inode ip j s) = fs_ok dev s" "blk (set_inode ip j s) = blk s" "readsb dev (set_inode ip j s) = readsb dev s"
  "file_ok s (i\<lparr>i_size := n\<rparr>) = file_ok s i" "fbyte s (i\<lparr>i_size := n\<rparr>) = fbyte s i" "baddr s (i\<lparr>i_size := n\<rparr>) = baddr s i"
proof -
  have a: "blk (set_inode ip j s) = blk s" "readsb dev (set_inode ip j s) = readsb dev s" for dev
    by (simp_all add: set_inode_def readsb_def)
  then show "blk (set_inode ip j s) = blk s" "readsb dev (set_inode ip j s) = readsb dev s" by blast+
  show "fs_ok dev (set_inode ip j s) = fs_ok dev s"
    by (simp add: fs_ok_def blocks_ok_def data_start_def data_end_def in_use_def a)
  show b: "baddr s (i\<lparr>i_size := n\<rparr>) = baddr s i" for s by (simp add: baddr_def fun_eq_iff)
  then have "faddr s (i\<lparr>i_size := n\<rparr>) = faddr s i" for s by (simp add: faddr_def fun_eq_iff)
  then show "file_ok s (i\<lparr>i_size := n\<rparr>) = file_ok s i" by (simp add: file_ok_def)
  show "fbyte s (i\<lparr>i_size := n\<rparr>) = fbyte s i" using b by (simp add: fbyte_def fun_eq_iff)
qed

lemma set_inode_file [simp]:
  "file_ok (set_inode ip j s) i = file_ok s i" "fbyte (set_inode ip j s) i = fbyte s i" "baddr (set_inode ip j s) i = baddr s i"
proof -
  have b: "baddr (set_inode ip j s) i k = baddr s i k" for k by (simp add: baddr_def)
  then show "baddr (set_inode ip j s) i = baddr s i" "fbyte (set_inode ip j s) i = fbyte s i" by (simp_all add: fbyte_def fun_eq_iff)
  then show "file_ok (set_inode ip j s) i = file_ok s i"
    by (simp add: file_ok_def faddr_def is_data_def data_start_def data_end_def in_use_def)
qed

text \<open>
  What writing \<open>src\<close> at \<open>off\<close> does: the bytes are replaced, the size grows to their end, their blocks
  are there, and nothing outside the file, the free blocks, the bitmap and the inode changes.
\<close>

definition written :: "nat \<Rightarrow> nat \<Rightarrow> u8 list \<Rightarrow> fsys \<Rightarrow> fsys \<Rightarrow> bool" where
  "written ip off src s s' \<longleftrightarrow> (let i = icache s ! ip; i' = icache s' ! ip; dev = i_dev i in
     fs_ok dev s' \<and> file_ok s' i' \<and> i' = i\<lparr>i_addrs := i_addrs i', i_size := i_size i'\<rparr> \<and> icache s' = (icache s)[ip := i'] \<and>
     unat (i_size i') = (if src = [] then unat (i_size i) else max (unat (i_size i)) (off + length src)) \<and>
     (\<forall>m<MAXFILE * BSIZE. fbyte s' i' m = overwrite (fbyte s i) off src m) \<and>
     (\<forall>m. off \<le> m \<and> m < off + length src \<longrightarrow> baddr s' i' (m div BSIZE) \<noteq> 0) \<and>
     (\<forall>d c. d \<noteq> dev \<or> c \<notin> touch s i \<and> c \<noteq> IBLOCK (unat (i_num i)) \<longrightarrow> blk s' d c = blk s d c))"

lemma writtenI:
  assumes "i = icache s ! ip" "dev = i_dev i" "i' = icache s' ! ip" "fs_ok dev s'" "file_ok s' i'"
    "i' = i\<lparr>i_addrs := i_addrs i', i_size := i_size i'\<rparr>" "icache s' = (icache s)[ip := i']"
    "unat (i_size i') = (if src = [] then unat (i_size i) else max (unat (i_size i)) (off + length src))"
    "\<And>m. m < MAXFILE * BSIZE \<Longrightarrow> fbyte s' i' m = overwrite (fbyte s i) off src m"
    "\<And>m. off \<le> m \<Longrightarrow> m < off + length src \<Longrightarrow> baddr s' i' (m div BSIZE) \<noteq> 0"
    "\<And>d c. d \<noteq> dev \<or> c \<notin> touch s i \<and> c \<noteq> IBLOCK (unat (i_num i)) \<Longrightarrow> blk s' d c = blk s d c"
  shows "written ip off src s s'"
  unfolding written_def Let_def assms(1,3)[symmetric] assms(2)[symmetric] using assms(4-11) by blast

text \<open>The end of \<open>writei\<close>, which sets the size.\<close>

definition set_size :: "nat \<Rightarrow> u32 \<Rightarrow> u32 \<Rightarrow> fsys \<Rightarrow> fsys" where
  "set_size ip off n s = (let j = icache s ! ip in
     if n > 0 \<and> off + n > i_size j then iupdate ip (set_inode ip (j\<lparr>i_size := off + n\<rparr>) s) else s)"

lemma set_size_written:
  assumes i: "i = icache s ! ip" "dev = i_dev i" and l: "ip < length (icache s)" and a: "advanced ip s s1"
    and num: "unat (i_num i) < unat (sb_ninodes (readsb dev s))"
    and src: "off' = unat off" "off' + length src \<le> MAXFILE * BSIZE" "unat n = length src"
    and bytes: "\<forall>m<MAXFILE * BSIZE. fbyte s1 (icache s1 ! ip) m = overwrite (fbyte s i) off' src m"
    and there: "\<forall>m. off' \<le> m \<and> m < off' + length src \<longrightarrow> baddr s1 (icache s1 ! ip) (m div BSIZE) \<noteq> 0"
  shows "written ip off' src s (set_size ip off n s1)"
proof -
  let ?j = "icache s1 ! ip" and ?z = "off + n"
  have j: "?j = i\<lparr>i_addrs := i_addrs ?j\<rparr>" using advanced_inode(1)[OF a l] i by simp
  have l1: "ip < length (icache s1)" using advanced_inode(2)[OF a l] l by simp
  have fj: "i_size ?j = i_size i" "i_dev ?j = dev" "i_num ?j = i_num i" by (subst j, simp add: i(2))+
  have ok: "fs_ok dev s1" "file_ok s1 ?j" "readsb dev s1 = readsb dev s" using advancedD(1-3)[OF a] i by simp_all
  have ic: "icache s1 = (icache s)[ip := ?j]" using advancedD(4)[OF a] j i by metis
  have fr: "blk s1 d c = blk s d c" if "d \<noteq> dev \<or> c \<notin> touch s i" for d c using advancedD(6)[OF a] that i by simp
  have z: "unat ?z = off' + length src" using src by (simp add: unat_word_ariths MAXFILE_def BSIZE_def)
  have n0: "n > 0 \<longleftrightarrow> src \<noteq> []" using src(3) by (simp add: word_less_nat_alt)
  show ?thesis
  proof (cases "src \<noteq> [] \<and> ?z > i_size ?j")
    case True
    let ?k = "?j\<lparr>i_size := ?z\<rparr>"
    let ?s = "set_inode ip ?k s1"
    have "(icache s1)[ip := x] = (icache s)[ip := x]" for x by (subst ic) simp
    then have k: "icache ?s ! ip = ?k" "icache ?s = (icache s)[ip := ?k]" using l l1 by (simp_all add: set_inode_def)
    have num': "unat (i_num ?k) < unat (sb_ninodes (readsb dev ?s))" using num ok(3) fj(3) by simp
    have kd: "dev = i_dev ?k" "fs_ok dev ?s" "file_ok ?s ?k" using fj(2) ok by simp_all
    note u = iupdate_keeps[OF kd(2,3) k(1)[symmetric] kd(1) num']
    have f: "blk (iupdate ip ?s) d c = blk s d c" if "d \<noteq> dev \<or> c \<notin> touch s i \<and> c \<noteq> IBLOCK (unat (i_num i))" for d c
      using iupdate_frame(2)[of d ?s ip c] fr[of d c] that k(1) fj by auto
    have kk: "?k = i\<lparr>i_addrs := i_addrs ?k, i_size := i_size ?k\<rparr>" by (subst j) simp
    have "unat (i_size i) < off' + length src" using True z fj(1) by (simp add: word_less_nat_alt)
    then have sz: "unat (i_size ?k) = (if src = [] then unat (i_size i) else max (unat (i_size i)) (off' + length src))"
      using True z by simp
    have "set_size ip off n s1 = iupdate ip ?s" using True n0 by (simp add: set_size_def Let_def)
    moreover have "written ip off' src s (iupdate ip ?s)"
      by (rule writtenI[OF i _ u(1,2) kk _ sz _ _ f]) (use k u(3,4) bytes there in \<open>simp_all add: iupdate_frame(1)\<close>)
    ultimately show ?thesis by simp
  next
    case False
    then have "src \<noteq> [] \<Longrightarrow> off' + length src \<le> unat (i_size i)" using z fj(1) by (simp add: word_less_nat_alt)
    moreover have "set_size ip off n s1 = s1" using False n0 by (auto simp: set_size_def Let_def)
    moreover have jj: "?j = i\<lparr>i_addrs := i_addrs ?j, i_size := i_size ?j\<rparr>" by (subst j) (simp add: fj)
    have "written ip off' src s s1"
      by (rule writtenI[OF i refl ok(1,2) jj ic]) (use calculation bytes there fr fj(1) in \<open>auto simp: max_def\<close>)
    ultimately show ?thesis by simp
  qed
qed

lemma cut_bytes:
  assumes "unat (off::u32) + unat n < 4294967296" "unat off \<le> M" "M < 4294967296"
  shows "unat (if off + n > of_nat M then of_nat M - off else n) = min (unat n) (M - unat off)"
proof -
  have "unat (off + n) = unat off + unat n" using assms(1) by (simp add: unat_word_ariths)
  then show ?thesis using assms unat_minus_u32[of off "of_nat M"] by (auto simp: word_less_nat_alt word_le_nat_alt min_def)
qed

lemma no_wrap: "unat (off::u32) + unat n < 4294967296 \<Longrightarrow> \<not> off + n < off"
  by (simp add: word_less_nat_alt unat_word_ariths)

lemma uint_unat_k: "unat (x::u32) = k \<Longrightarrow> uint x = int k"
  by auto

text \<open>The operations behind their checks.\<close>

lemma writei_run:
  assumes "i_type (icache s ! ip) \<noteq> T_DEV" "off \<le> i_size (icache s ! ip)" "\<not> off + n < off"
    and "n' = (if off + n > of_nat (MAXFILE * BSIZE) then of_nat (MAXFILE * BSIZE) - off else n)"
  shows "writei dv ip src off n s = bindO (writei_loop ip (unat off) (take (unat n') src) s) (\<lambda>s1. Ret (uint n', set_size ip off n' s1))"
  unfolding writei_def Let_def set_size_def assms(4)[symmetric] using assms(1-3) by (simp only: if_False not_less[symmetric] simp_thms)

lemma readi_run:
  assumes "i_type (icache s ! ip) \<noteq> T_DEV" "off \<le> i_size (icache s ! ip)" "\<not> off + n < off"
    and "n' = (if off + n > i_size (icache s ! ip) then i_size (icache s ! ip) - off else n)"
  shows "readi dv ip off n s = bindO (readi_loop ip (unat off) (unat n') s) (\<lambda>(xs, s1). Ret (uint n', xs, s1))"
  unfolding readi_def Let_def assms(4)[symmetric] using assms(1-3) by (simp only: if_False not_less[symmetric] simp_thms)

lemma readi_written:
  assumes w: "written ip (unat off) src s s'" and i: "i = icache s ! ip" and ty: "i_type i \<noteq> T_DEV"
    and sz: "unat off \<le> unat (i_size i)" and b: "unat off + length src \<le> MAXFILE * BSIZE"
  shows "readi dv ip off (of_nat (length src)) s' = Ret (int (length src), src, s')"
proof -
  let ?i = "icache s' ! ip" and ?n = "of_nat (length src) :: u32"
  have W: "fs_ok (i_dev i) s'" "?i = i\<lparr>i_addrs := i_addrs ?i, i_size := i_size ?i\<rparr>"
    "unat (i_size ?i) = (if src = [] then unat (i_size i) else max (unat (i_size i)) (unat off + length src))"
    "\<And>m. m < MAXFILE * BSIZE \<Longrightarrow> fbyte s' ?i m = overwrite (fbyte s i) (unat off) src m"
    "\<And>m. unat off \<le> m \<Longrightarrow> m < unat off + length src \<Longrightarrow> baddr s' ?i (m div BSIZE) \<noteq> 0"
    using w i by (auto simp: written_def Let_def)
  have n: "unat ?n = length src" using b by (simp add: MAXFILE_def BSIZE_def)
  then have on: "unat off + unat ?n < 4294967296" using b by (simp add: MAXFILE_def BSIZE_def)
  then have z: "unat (off + ?n) = unat off + length src" using n by (simp add: unat_word_ariths)
  have le: "unat off + length src \<le> unat (i_size ?i)" "off \<le> i_size ?i" using W(3) sz by (auto simp: word_le_nat_alt)
  then have "?n = (if off + ?n > i_size ?i then i_size ?i - off else ?n)" using z by (simp add: word_less_nat_alt)
  moreover have "i_type ?i \<noteq> T_DEV" using ty by (subst W(2)) simp
  ultimately have "readi dv ip off ?n s' = bindO (readi_loop ip (unat off) (length src) s') (\<lambda>(xs, s1). Ret (int (length src), xs, s1))"
    using readi_run[of s' ip off ?n ?n dv] le(2) no_wrap[OF on] n uint_unat_k[OF n] by simp
  moreover have "readi_loop ip (unat off) (length src) s' = Ret (map (fbyte s' ?i) [unat off..<unat off + length src], s')"
    using readi_loop_present[OF fs_okD(1)[OF W(1)] b W(5)] by blast
  moreover have "map (fbyte s' ?i) [unat off..<unat off + length src] = src"
    using W(4) b by (intro nth_equalityI) (auto simp: overwrite_def)
  ultimately show ?thesis by simp
qed

text \<open>
  C1. \<open>writei\<close> refines overwriting a range of bytes. On a disk in order, writing \<open>n\<close> bytes at an offset
  within a regular file either finds the disk full, or writes all of them up to the largest size of a
  file and returns their number: exactly the bytes of that range change, to the new ones, the size
  grows to their end if they pass it, the disk is in order and the file's blocks are its own as before,
  no block outside this file, the free blocks, the bitmap and the block of its inode changes, and
  \<open>readi\<close> of the same range gives the bytes back.
\<close>

theorem writei_overwrites:
  assumes fs: "fs_ok dev s" and fo: "file_ok s i" and i: "i = icache s ! ip" "dev = i_dev i" and l: "ip < length (icache s)"
    and num: "unat (i_num i) < unat (sb_ninodes (readsb dev s))" and ty: "i_type i \<noteq> T_DEV"
    and sz: "unat (i_size i) \<le> MAXFILE * BSIZE" and off: "off \<le> i_size i"
    and n: "unat n = length src" "unat off + length src < 4294967296" and k: "k = min (length src) (MAXFILE * BSIZE - unat off)"
  shows "writei dv ip src off n s = Panic ''balloc: out of blocks'' \<or>
    (\<exists>s' i'. writei dv ip src off n s = Ret (int k, s') \<and> icache s' = (icache s)[ip := i'] \<and>
      i' = i\<lparr>i_addrs := i_addrs i', i_size := i_size i'\<rparr> \<and>
      unat (i_size i') = (if k = 0 then unat (i_size i) else max (unat (i_size i)) (unat off + k)) \<and>
      (\<forall>m<MAXFILE * BSIZE. fbyte s' i' m = (if unat off \<le> m \<and> m < unat off + k then src ! (m - unat off) else fbyte s i m)) \<and>
      fs_ok dev s' \<and> file_ok s' i' \<and>
      (\<forall>d c. d \<noteq> dev \<or> c \<notin> touch s i \<and> c \<noteq> IBLOCK (unat (i_num i)) \<longrightarrow> blk s' d c = blk s d c) \<and>
      readi dv ip off (of_nat k) s' = Ret (int k, take k src, s'))"
proof -
  let ?n = "if off + n > of_nat (MAXFILE * BSIZE) then of_nat (MAXFILE * BSIZE) - off else n" and ?src = "take k src"
  have M: "MAXFILE * BSIZE < 4294967296" by (simp add: MAXFILE_def BSIZE_def)
  have o: "unat off \<le> MAXFILE * BSIZE" using off sz by (simp add: word_le_nat_alt)
  have nk: "unat ?n = k" using cut_bytes[of off n, OF _ o M] n k by simp
  have kl: "length ?src = k" "unat off + k \<le> MAXFILE * BSIZE" using k o by auto
  have wr: "\<not> off + n < off" using no_wrap[of off n] n by simp
  have run: "writei dv ip src off n s = bindO (writei_loop ip (unat off) ?src s) (\<lambda>s1. Ret (int k, set_size ip off ?n s1))"
    using writei_run[OF _ _ wr refl, of s ip dv src] ty off i(1) unfolding nk uint_unat_k[OF nk] by blast
  have nk': "unat ?n = length ?src" "off' + length ?src \<le> MAXFILE * BSIZE" if "off' = unat off" for off' using nk kl that by simp_all
  from writei_loop_result[of s ip "unat off" ?src] fs fo i l kl(2) nk'(2)
  consider "full (writei_loop ip (unat off) ?src s)" | s1 where "writei_loop ip (unat off) ?src s = Ret s1" "advanced ip s s1"
    "\<forall>m<MAXFILE * BSIZE. fbyte s1 (icache s1 ! ip) m = overwrite (fbyte s i) (unat off) ?src m"
    "\<forall>m. unat off \<le> m \<and> m < unat off + length ?src \<longrightarrow> baddr s1 (icache s1 ! ip) (m div BSIZE) \<noteq> 0"
    by auto
  then show ?thesis
  proof cases
    case 1
    then show ?thesis by (simp add: run full_def)
  next
    case (2 s1)
    define s' where "s' = set_size ip off ?n s1"
    let ?i' = "icache s' ! ip"
    have w: "written ip (unat off) ?src s s'" unfolding s'_def
      by (rule set_size_written[OF i l 2(2) num refl nk'(2)[OF refl] nk'(1)[OF refl] 2(3,4)])
    note W = w[unfolded written_def Let_def i(1)[symmetric] i(2)[symmetric] kl(1)]
    have e: "?src = [] \<longleftrightarrow> k = 0" using kl(1) by force
    have "fbyte s' ?i' m = (if unat off \<le> m \<and> m < unat off + k then src ! (m - unat off) else fbyte s i m)" if "m < MAXFILE * BSIZE" for m
      using W that kl(1) by (auto simp: overwrite_def)
    moreover have "writei dv ip src off n s = Ret (int k, s')" using run 2(1) by (simp add: s'_def)
    moreover have "readi dv ip off (of_nat k) s' = Ret (int k, ?src, s')"
      using readi_written[OF w i(1) ty] off o kl by (simp add: word_le_nat_alt)
    ultimately show ?thesis using W[unfolded e] by blast
  qed
qed

text \<open>An empty file, inode 1, on the disk \<open>demo_fs\<close>.\<close>

definition demo_file :: inode where
  "demo_file = \<lparr>i_dev = 1, i_num = 1, i_ref = 1, i_busy = True, i_valid = True, i_type = T_FILE, i_major = 0, i_minor = 0,
     i_nlink = 1, i_size = 0, i_addrs = replicate 13 0\<rparr>"

definition demo_disk :: fsys where
  "demo_disk = demo_fs\<lparr>icache := [demo_file]\<rparr>"

lemma demo_disk_simps: "readsb dev demo_disk = \<lparr>sb_size = 10, sb_nblocks = 0, sb_ninodes = 5\<rparr>" "blk demo_disk = blk demo_fs"
  "b < 8 \<Longrightarrow> in_use dev demo_disk b \<longleftrightarrow> b < 5" "icache demo_disk = [demo_file]"
proof -
  have r: "readsb dev demo_disk = readsb dev demo_fs" for dev by (simp add: demo_disk_def readsb_def)
  then show "readsb dev demo_disk = \<lparr>sb_size = 10, sb_nblocks = 0, sb_ninodes = 5\<rparr>" using demo_fs_sb by simp
  show "blk demo_disk = blk demo_fs" "icache demo_disk = [demo_file]" by (simp_all add: demo_disk_def)
  have "in_use dev demo_disk b = in_use dev demo_fs b" by (simp add: in_use_def r) (simp add: demo_disk_def)
  then show "b < 8 \<Longrightarrow> in_use dev demo_disk b \<longleftrightarrow> b < 5" using demo_fs_in_use by simp
qed

lemma demo_disk_ok: "fs_ok dev demo_disk" "blocks_ok demo_disk"
proof -
  have d: "data_start dev demo_disk = 4" "data_end dev demo_disk = 4096"
    by (simp_all add: data_start_def data_end_def demo_disk_simps IPB_def BPB_def)
  show b: "blocks_ok demo_disk" by (simp add: blocks_ok_def demo_disk_simps) (simp add: demo_fs_def bytes32_def BSIZE_def)
  have "blk demo_disk dev c = replicate BSIZE 0" if "\<not> in_use dev demo_disk c" for c
  proof -
    have "c \<noteq> 1" "c \<noteq> 3" using that demo_disk_simps(3)[of c dev] by auto
    then show ?thesis by (simp add: demo_disk_simps) (simp add: demo_fs_def BSIZE_def)
  qed
  moreover have "in_use dev demo_disk c" if "c < 4" for c using demo_disk_simps(3)[of c dev] that by simp
  ultimately show "fs_ok dev demo_disk" using b by (simp add: fs_ok_def d demo_disk_simps(1))
qed

lemma demo_file_ok: "file_ok demo_disk demo_file"
proof -
  have "faddr demo_disk demo_file k = 0" if "k \<le> MAXFILE" for k
    using that by (simp add: faddr_def baddr_def demo_file_def MAXFILE_def NDIRECT_def del: replicate.simps)
  then show ?thesis by (simp add: file_ok_def demo_file_def NDIRECT_def)
qed

lemma demo_balloc: "\<exists>b s1. balloc 1 demo_disk = Ret (b, s1) \<and> icache s1 = [demo_file]"
proof -
  have "\<not> in_use 1 demo_disk 5" using demo_disk_simps(3)[of 5 1] by simp
  then show ?thesis
    using balloc_loop_result[OF demo_disk_ok(2) refl, of 1 0] by (auto simp: balloc_def demo_disk_simps allocated_def dest: spec[of _ 5])
qed

theorem writei_overwrites_witness:
  "\<exists>s'. writei \<lparr>dread = (\<lambda>_ _. None), dwrite = (\<lambda>_ _. None)\<rparr> 0 [7, 8, 9] 0 3 demo_disk = Ret (3, s') \<and>
     readi \<lparr>dread = (\<lambda>_ _. None), dwrite = (\<lambda>_ _. None)\<rparr> 0 0 3 s' = Ret (3, [7, 8, 9], s') \<and> unat (i_size (icache s' ! 0)) = 3"
proof -
  let ?dv = "\<lparr>dread = (\<lambda>_ _. None), dwrite = (\<lambda>_ _. None)\<rparr>"
  have h: "demo_file = icache demo_disk ! 0" "1 = i_dev demo_file" "0 < length (icache demo_disk)"
    "unat (i_num demo_file) < unat (sb_ninodes (readsb 1 demo_disk))" "i_type demo_file \<noteq> T_DEV"
    "unat (i_size demo_file) \<le> MAXFILE * BSIZE" "0 \<le> i_size demo_file" "unat (3::u32) = length [7::u8, 8, 9]"
    "unat (0::u32) + length [7::u8, 8, 9] < 4294967296" "3 = min (length [7::u8, 8, 9]) (MAXFILE * BSIZE - unat (0::u32))"
    by (simp_all add: demo_disk_simps) (simp_all add: demo_file_def T_FILE_def T_DEV_def MAXFILE_def BSIZE_def)
  obtain b s1 where "balloc 1 demo_disk = Ret (b, s1)" using demo_balloc by blast
  then have "bmap 0 0 demo_disk = Ret (b, set_addr 0 0 b s1)"
    by (simp add: bmap_def NDIRECT_def demo_disk_simps) (simp add: demo_file_def)
  then have "writei_loop 0 0 [7, 8, 9] demo_disk \<noteq> Panic ''balloc: out of blocks''"
    by (simp add: writei_loop.simps Let_def BSIZE_def)
  then have "writei ?dv 0 [7, 8, 9] 0 3 demo_disk \<noteq> Panic ''balloc: out of blocks''"
    by (auto simp: writei_def Let_def demo_disk_simps demo_file_def T_FILE_def T_DEV_def MAXFILE_def BSIZE_def bindO_def split: outcome.splits)
  moreover have "unat (i_size demo_file) = 0" by (simp add: demo_file_def)
  ultimately show ?thesis using writei_overwrites[OF demo_disk_ok(1) demo_file_ok h, of ?dv] by (auto simp: demo_disk_simps)
qed

lemma readi_count:
  assumes ty: "i_type (icache s ! ip) \<noteq> T_DEV" and a: "\<not> (off > i_size (icache s ! ip) \<or> off + n < off)"
    and k: "k = min (unat n) (unat (i_size (icache s ! ip)) - unat off)"
  shows "readi dv ip off n s = bindO (readi_loop ip (unat off) k s) (\<lambda>(xs, s1). Ret (int k, xs, s1))"
proof -
  let ?i = "icache s ! ip"
  define n' where "n' = (if off + n > i_size ?i then i_size ?i - off else n)"
  have le: "unat off \<le> unat (i_size ?i)" using a by (simp add: word_less_nat_alt)
  have "unat (off + n) = unat off + unat n" using a unat_lt_u32[of n] unat_lt_u32[of off]
    by (simp add: word_less_nat_alt unat_word_ariths mod_if split: if_splits) linarith
  then have nk: "unat n' = k" using k le unat_minus_u32[of off "i_size ?i"]
    by (auto simp: n'_def word_less_nat_alt word_le_nat_alt)
  have "readi dv ip off n s = bindO (readi_loop ip (unat off) (unat n') s) (\<lambda>(xs, s1). Ret (uint n', xs, s1))"
    by (rule readi_run) (use a ty in \<open>auto simp: n'_def not_less\<close>)
  then show ?thesis unfolding nk uint_unat_k[OF nk] .
qed

lemma readi_no_hole:
  assumes fs: "fs_ok dev s" and i: "i = icache s ! ip" "dev = i_dev i" and ty: "i_type i \<noteq> T_DEV"
    and sz: "unat (i_size i) \<le> MAXFILE * BSIZE" and k: "k = min (unat n) (unat (i_size i) - unat off)"
    and r: "\<not> (off > i_size i \<or> off + n < off)"
    and hole: "\<forall>m. unat off \<le> m \<and> m < unat off + k \<longrightarrow> baddr s i (m div BSIZE) \<noteq> 0"
  shows "readi dv ip off n s = Ret (int k, map (fbyte s i) [unat off..<unat off + k], s)"
proof -
  note run = readi_count[OF ty[unfolded i(1)] r[unfolded i(1)] k[unfolded i(1)], of dv]
  have "unat off + k \<le> MAXFILE * BSIZE" using k r sz by (auto simp: word_less_nat_alt)
  then have "readi_loop ip (unat off) k s = Ret (map (fbyte s i) [unat off..<unat off + k], s)"
    unfolding i(1) using hole fs_okD(1)[OF fs] i(1) by (intro readi_loop_present) auto
  then show ?thesis using run by simp
qed

lemma readi_result:
  assumes fs: "fs_ok dev s" and fo: "file_ok s i" and i: "i = icache s ! ip" "dev = i_dev i" and l: "ip < length (icache s)"
    and ty: "i_type i \<noteq> T_DEV" and sz: "unat (i_size i) \<le> MAXFILE * BSIZE"
    and k: "k = min (unat n) (unat (i_size i) - unat off)"
  shows "(off > i_size i \<or> off + n < off \<longrightarrow> readi dv ip off n s = Ret (-1, [], s)) \<and>
    (\<not> (off > i_size i \<or> off + n < off) \<longrightarrow> readi dv ip off n s = Panic ''balloc: out of blocks'' \<or>
      (\<exists>s'. readi dv ip off n s = Ret (int k, map (fbyte s i) [unat off..<unat off + k], s') \<and>
        (\<forall>m<MAXFILE * BSIZE. fbyte s' (icache s' ! ip) m = fbyte s i m) \<and> fs_ok dev s' \<and> file_ok s' (icache s' ! ip) \<and>
        icache s' = (icache s)[ip := i\<lparr>i_addrs := i_addrs (icache s' ! ip)\<rparr>] \<and>
        (\<forall>d c. d \<noteq> dev \<or> c \<notin> touch s i \<longrightarrow> blk s' d c = blk s d c)))"
proof (intro conjI impI)
  assume "off > i_size i \<or> off + n < off"
  then show "readi dv ip off n s = Ret (-1, [], s)" using ty i by (simp add: readi_def Let_def)
next
  assume a: "\<not> (off > i_size i \<or> off + n < off)"
  have le: "unat off \<le> unat (i_size i)" using a by (simp add: word_less_nat_alt)
  have "unat off + k \<le> MAXFILE * BSIZE" using k le sz by simp
  then have "full (readi_loop ip (unat off) k s) \<or> (\<exists>s'. readi_loop ip (unat off) k s = Ret (map (fbyte s i) [unat off..<unat off + k], s') \<and>
      advanced ip s s' \<and> same_bytes ip s s')"
    using readi_loop_result[of s ip "unat off" k] fs fo i l by simp
  moreover have "readi dv ip off n s = bindO (readi_loop ip (unat off) k s) (\<lambda>(xs, s1). Ret (int k, xs, s1))"
    using readi_count[of s ip off n k dv] ty a k i by simp
  ultimately show "readi dv ip off n s = Panic ''balloc: out of blocks'' \<or>
      (\<exists>s'. readi dv ip off n s = Ret (int k, map (fbyte s i) [unat off..<unat off + k], s') \<and>
        (\<forall>m<MAXFILE * BSIZE. fbyte s' (icache s' ! ip) m = fbyte s i m) \<and> fs_ok dev s' \<and> file_ok s' (icache s' ! ip) \<and>
        icache s' = (icache s)[ip := i\<lparr>i_addrs := i_addrs (icache s' ! ip)\<rparr>] \<and>
        (\<forall>d c. d \<noteq> dev \<or> c \<notin> touch s i \<longrightarrow> blk s' d c = blk s d c))"
    using advancedD[of ip s] i by (auto simp: full_def same_bytes_def)
qed

text \<open>A disk whose block 4 holds the three bytes of a program.\<close>

definition prog_file :: inode where
  "prog_file = demo_file\<lparr>i_size := 3, i_addrs := 4 # replicate 12 0\<rparr>"

definition prog_disk :: fsys where
  "prog_disk = set_blk 1 4 ([7, 8, 9] @ replicate 509 0) (demo_disk\<lparr>icache := [prog_file]\<rparr>)"

lemma prog_disk_simps: "readsb dev prog_disk = \<lparr>sb_size = 10, sb_nblocks = 0, sb_ninodes = 5\<rparr>"
  "b < 4096 \<Longrightarrow> in_use dev prog_disk b \<longleftrightarrow> in_use dev demo_disk b"
  "icache prog_disk = [prog_file]" "b \<noteq> 4 \<Longrightarrow> blk prog_disk dev b = blk demo_disk dev b"
  "blk prog_disk 1 4 = [7, 8, 9] @ replicate 509 0"
proof -
  show c: "b \<noteq> 4 \<Longrightarrow> blk prog_disk dev b = blk demo_disk dev b" for dev b by (simp add: prog_disk_def blk_set)
  have r: "readsb dev prog_disk = readsb dev demo_disk" for dev by (simp add: readsb_def c)
  then show "readsb dev prog_disk = \<lparr>sb_size = 10, sb_nblocks = 0, sb_ninodes = 5\<rparr>" by (simp add: demo_disk_simps)
  show "icache prog_disk = [prog_file]" "blk prog_disk 1 4 = [7, 8, 9] @ replicate 509 0"
    by (simp_all add: prog_disk_def set_blk_def)
  show "b < 4096 \<Longrightarrow> in_use dev prog_disk b \<longleftrightarrow> in_use dev demo_disk b"
    by (simp add: in_use_def r demo_disk_simps BBLOCK_def BPB_def IPB_def c)
qed

lemma prog_disk_ok: "fs_ok 1 prog_disk" "file_ok prog_disk prog_file"
proof -
  have d: "data_start 1 prog_disk = 4" "data_end 1 prog_disk = 4096"
    "data_start 1 demo_disk = 4" "data_end 1 demo_disk = 4096"
    by (simp_all add: data_start_def data_end_def prog_disk_simps demo_disk_simps IPB_def BPB_def)
  have u: "b < 8 \<Longrightarrow> in_use 1 prog_disk b \<longleftrightarrow> b < 5" for b by (simp add: prog_disk_simps(2) demo_disk_simps(3))
  have "length (blk demo_disk dev b) = BSIZE" for dev b using demo_disk_ok(2) by (simp add: blocks_ok_def)
  then have bl: "blocks_ok prog_disk" by (auto simp: blocks_ok_def prog_disk_def blk_set BSIZE_def)
  have "blk prog_disk 1 c = replicate BSIZE 0" if "c < 4096" "\<not> in_use 1 prog_disk c" for c
  proof -
    have "c \<noteq> 4" using that u[of c] by auto
    then show ?thesis using that fs_okD(5)[OF demo_disk_ok(1), of c 1] d by (simp add: prog_disk_simps)
  qed
  then show "fs_ok 1 prog_disk" using bl u by (simp add: fs_ok_def d prog_disk_simps(1))
  have "faddr prog_disk prog_file k = (if k = 0 then 4 else 0)" if "k \<le> MAXFILE" for k
    using that by (auto simp: faddr_def baddr_def prog_file_def MAXFILE_def NDIRECT_def nth_Cons' simp del: replicate.simps)
  then show "file_ok prog_disk prog_file"
    using u d by (auto simp: file_ok_def is_data_def prog_file_def demo_file_def NDIRECT_def)
qed

lemma prog_file_byte: "baddr prog_disk prog_file 0 = 4" "map (fbyte prog_disk prog_file) [0..<3] = [7, 8, 9]"
proof -
  show a: "baddr prog_disk prog_file 0 = 4" by (simp add: baddr_def prog_file_def NDIRECT_def)
  have "i_dev prog_file = 1" by (simp add: prog_file_def demo_file_def)
  then show "map (fbyte prog_disk prog_file) [0..<3] = [7, 8, 9]"
    using a by (simp add: upt_rec fbyte_def BSIZE_def prog_disk_simps)
qed

text \<open>
  C28. \<open>readi\<close> returns the bytes of the file. An offset past the end, or a range that wraps around,
  gives -1. Otherwise, if the file has all blocks of the part of the range before its end, \<open>readi\<close> returns
  exactly these bytes and changes nothing. If it has a hole there, \<open>bmap\<close> allocates a block for it: either that panics for want
  of a block, or \<open>readi\<close> returns the bytes too, the hole as zeros, changes no byte of the file and nothing
  outside the bitmap, the free blocks and the file's own blocks.
\<close>

theorem readi_returns_bytes:
  assumes fs: "fs_ok dev s" and fo: "file_ok s i" and i: "i = icache s ! ip" "dev = i_dev i" and l: "ip < length (icache s)"
    and ty: "i_type i \<noteq> T_DEV" and sz: "unat (i_size i) \<le> MAXFILE * BSIZE"
    and k: "k = min (unat n) (unat (i_size i) - unat off)"
  shows "(off > i_size i \<or> off + n < off \<longrightarrow> readi dv ip off n s = Ret (-1, [], s)) \<and>
    (\<not> (off > i_size i \<or> off + n < off) \<longrightarrow>
      (if \<forall>m. unat off \<le> m \<and> m < unat off + k \<longrightarrow> baddr s i (m div BSIZE) \<noteq> 0
       then readi dv ip off n s = Ret (int k, map (fbyte s i) [unat off..<unat off + k], s)
       else readi dv ip off n s = Panic ''balloc: out of blocks'' \<or>
        (\<exists>s'. readi dv ip off n s = Ret (int k, map (fbyte s i) [unat off..<unat off + k], s') \<and>
          (\<forall>m<MAXFILE * BSIZE. fbyte s' (icache s' ! ip) m = fbyte s i m) \<and> fs_ok dev s' \<and> file_ok s' (icache s' ! ip) \<and>
          icache s' = (icache s)[ip := i\<lparr>i_addrs := i_addrs (icache s' ! ip)\<rparr>] \<and>
          (\<forall>d c. d \<noteq> dev \<or> c \<notin> touch s i \<longrightarrow> blk s' d c = blk s d c))))"
  using readi_result[OF fs fo i l ty sz k, of dv] readi_no_hole[OF fs i ty sz k, of dv] by simp

theorem readi_returns_bytes_witness:
  "readi \<lparr>dread = (\<lambda>_ _. None), dwrite = (\<lambda>_ _. None)\<rparr> 0 0 5 prog_disk = Ret (3, [7, 8, 9], prog_disk) \<and>
   readi \<lparr>dread = (\<lambda>_ _. None), dwrite = (\<lambda>_ _. None)\<rparr> 0 4 5 prog_disk = Ret (-1, [], prog_disk)"
proof -
  let ?dv = "\<lparr>dread = (\<lambda>_ _. None), dwrite = (\<lambda>_ _. None)\<rparr> :: devsw"
  have h: "prog_file = icache prog_disk ! 0" "1 = i_dev prog_file" "0 < length (icache prog_disk)"
    "i_type prog_file \<noteq> T_DEV" "unat (i_size prog_file) \<le> MAXFILE * BSIZE"
    by (simp_all add: prog_disk_simps) (simp_all add: prog_file_def demo_file_def T_FILE_def T_DEV_def MAXFILE_def BSIZE_def)
  have z: "i_size prog_file = 3" by (simp add: prog_file_def)
  have "baddr prog_disk prog_file (m div BSIZE) \<noteq> 0" if "m < 3" for m
    using that prog_file_byte(1) by (simp add: BSIZE_def)
  then have "readi ?dv 0 0 5 prog_disk = Ret (int 3, map (fbyte prog_disk prog_file) [unat (0::u32)..<unat (0::u32) + 3], prog_disk)"
    using readi_returns_bytes[OF prog_disk_ok h, of 3 5 0 ?dv] by (simp add: z)
  moreover have "readi ?dv 0 4 5 prog_disk = Ret (-1, [], prog_disk)"
    using readi_returns_bytes[OF prog_disk_ok h refl, of 4 5 ?dv] by (simp add: z)
  ultimately show ?thesis using prog_file_byte(2) by simp
qed

end
