(* ===== verification/Filetable.thy ===== *)
theory Filetable
  imports Fsfile Pipe Kalloc
begin

text \<open>
  The table of open files (\<open>src/P5/xv6/kernel/file.c\<close>) and \<open>pipealloc\<close> of \<open>pipe.c\<close>: entries with
  reference counts that stand for a pipe or for an inode with an offset.

  The state puts the file system, the pipes and the page allocator together. A pipe is kept under the
  address of its page. As in \<open>Fs\<close> the model is sequential: a read or write of a pipe that has to sleep is
  the outcome \<open>Undef ''waits''\<close>.
\<close>

section \<open>State\<close>

definition NFILE :: nat where "NFILE = 100"

datatype ftype = FD_NONE | FD_PIPE | FD_INODE

record kfile =
  f_type :: ftype
  f_ref :: int
  f_readable :: bool
  f_writable :: bool
  f_pipe :: u32
  f_ip :: nat
  f_off :: u32

record kfs =
  ftable :: "kfile list"
  fsy :: fsys
  pipe_at :: "u32 \<Rightarrow> pipe"
  pgs :: kstate

definition set_file :: "nat \<Rightarrow> kfile \<Rightarrow> kfs \<Rightarrow> kfs" where
  "set_file f x s = s\<lparr>ftable := (ftable s)[f := x]\<rparr>"

section \<open>Operations\<close>

definition filealloc :: "kfs \<Rightarrow> nat option \<times> kfs" where
  "filealloc s =
     (case find_index (\<lambda>f. f_ref f = 0) (ftable s) of
        Some f \<Rightarrow> (Some f, set_file f ((ftable s ! f)\<lparr>f_ref := 1\<rparr>) s)
      | None \<Rightarrow> (None, s))"

definition filedup :: "nat \<Rightarrow> kfs \<Rightarrow> kfs outcome" where
  "filedup f s =
     (let x = ftable s ! f in
      if f_ref x < 1 then Panic ''filedup'' else Ret (set_file f (x\<lparr>f_ref := f_ref x + 1\<rparr>) s))"

text \<open>Closing one end of the pipe at an address; the page goes when both are closed.\<close>

definition close_pipe :: "u32 \<Rightarrow> u32 \<Rightarrow> bool \<Rightarrow> kfs \<Rightarrow> kfs outcome" where
  "close_pipe kend p writable s =
     (let (q, _, free) = pipeclose writable (pipe_at s p); s1 = s\<lparr>pipe_at := (pipe_at s)(p := q)\<rparr> in
      if free then bindO (kfree kend p (pgs s)) (\<lambda>k. Ret (s1\<lparr>pgs := k\<rparr>)) else Ret s1)"

definition fileclose :: "u32 \<Rightarrow> nat \<Rightarrow> kfs \<Rightarrow> kfs outcome" where
  "fileclose kend f s =
     (let x = ftable s ! f in
      if f_ref x < 1 then Panic ''fileclose''
      else if f_ref x - 1 > 0 then Ret (set_file f (x\<lparr>f_ref := f_ref x - 1\<rparr>) s)
      else
        let s1 = set_file f (x\<lparr>f_ref := 0, f_type := FD_NONE\<rparr>) s in
        case f_type x of
          FD_PIPE \<Rightarrow> close_pipe kend (f_pipe x) (f_writable x) s1
        | FD_INODE \<Rightarrow> bindO (iput (f_ip x) (fsy s1)) (\<lambda>t. Ret (s1\<lparr>fsy := t\<rparr>))
        | FD_NONE \<Rightarrow> Ret s1)"

definition filestat :: "nat \<Rightarrow> kfs \<Rightarrow> (fstat option \<times> kfs) outcome" where
  "filestat f s =
     (let x = ftable s ! f in
      if f_type x = FD_INODE then
        bindO (ilock (f_ip x) (fsy s)) (\<lambda>t.
        let st = stati (f_ip x) t in
        bindO (iunlock (f_ip x) t) (\<lambda>t1. Ret (Some st, s\<lparr>fsy := t1\<rparr>)))
      else Ret (None, s))"

text \<open>\<open>n\<close> is an \<open>int\<close>, which \<open>readi\<close> and \<open>writei\<close> take as a \<open>uint\<close>.\<close>

definition fileread :: "devsw \<Rightarrow> bool \<Rightarrow> nat \<Rightarrow> int \<Rightarrow> kfs \<Rightarrow> (int \<times> u8 list \<times> kfs) outcome" where
  "fileread dv killed f n s =
     (let x = ftable s ! f in
      if \<not> f_readable x then Ret (-1, [], s)
      else case f_type x of
        FD_PIPE \<Rightarrow>
          (let (q, bs, e, _) = piperead killed n (pipe_at s (f_pipe x)); s1 = s\<lparr>pipe_at := (pipe_at s)(f_pipe x := q)\<rparr> in
           case e of Returns r \<Rightarrow> Ret (r, bs, s1) | Sleeps \<Rightarrow> Undef ''waits'')
      | FD_INODE \<Rightarrow>
          bindO (ilock (f_ip x) (fsy s)) (\<lambda>t.
          bindO (readi dv (f_ip x) (f_off x) (of_int n) t) (\<lambda>(r, bs, t1).
          bindO (iunlock (f_ip x) t1) (\<lambda>t2.
          Ret (r, bs, set_file f (if r > 0 then x\<lparr>f_off := f_off x + of_int r\<rparr> else x) (s\<lparr>fsy := t2\<rparr>)))))
      | FD_NONE \<Rightarrow> Panic ''fileread'')"

text \<open>\<open>addr\<close> gives the bytes to write.\<close>

definition filewrite :: "devsw \<Rightarrow> bool \<Rightarrow> nat \<Rightarrow> (nat \<Rightarrow> u8) \<Rightarrow> int \<Rightarrow> kfs \<Rightarrow> (int \<times> kfs) outcome" where
  "filewrite dv killed f addr n s =
     (let x = ftable s ! f in
      if \<not> f_writable x then Ret (-1, s)
      else case f_type x of
        FD_PIPE \<Rightarrow>
          (let (q, _, e, _) = pipewrite killed addr n (pipe_at s (f_pipe x)) 0 (nat n);
               s1 = s\<lparr>pipe_at := (pipe_at s)(f_pipe x := q)\<rparr> in
           case e of Returns r \<Rightarrow> Ret (r, s1) | Sleeps \<Rightarrow> Undef ''waits'')
      | FD_INODE \<Rightarrow>
          bindO (ilock (f_ip x) (fsy s)) (\<lambda>t.
          bindO (writei dv (f_ip x) (map addr [0..<unat (of_int n :: u32)]) (f_off x) (of_int n) t) (\<lambda>(r, t1).
          bindO (iunlock (f_ip x) t1) (\<lambda>t2.
          Ret (r, set_file f (if r > 0 then x\<lparr>f_off := f_off x + of_int r\<rparr> else x) (s\<lparr>fsy := t2\<rparr>)))))
      | FD_NONE \<Rightarrow> Panic ''filewrite'')"

text \<open>
  \<open>pipealloc\<close> gives the read end and the write end. The ring starts behind the lock of 52 bytes and holds what
  the page held. On failure the entries taken are closed again.
\<close>

definition pipe_file :: "bool \<Rightarrow> u32 \<Rightarrow> kfile \<Rightarrow> kfile" where
  "pipe_file writable p x = x\<lparr>f_type := FD_PIPE, f_readable := \<not> writable, f_writable := writable, f_pipe := p\<rparr>"

definition pipealloc :: "u32 \<Rightarrow> kfs \<Rightarrow> ((nat \<times> nat) option \<times> kfs) outcome" where
  "pipealloc kend s =
     (case filealloc s of
        (None, s1) \<Rightarrow> Ret (None, s1)
      | (Some f0, s1) \<Rightarrow>
          (case filealloc s1 of
             (None, s2) \<Rightarrow> bindO (fileclose kend f0 s2) (\<lambda>s3. Ret (None, s3))
           | (Some f1, s2) \<Rightarrow>
               bindO (kalloc (pgs s2)) (\<lambda>(p, k).
               let s3 = s2\<lparr>pgs := k\<rparr> in
               if p = 0 then bindO (fileclose kend f0 s3) (\<lambda>s4. bindO (fileclose kend f1 s4) (\<lambda>s5. Ret (None, s5)))
               else
                 let s4 = s3\<lparr>pipe_at := (pipe_at s3)(p := pipe_init (bytes (kmem k) (p + 52) PIPESIZE))\<rparr>;
                     s5 = set_file f0 (pipe_file False p (ftable s4 ! f0)) s4
                 in Ret (Some (f0, f1), set_file f1 (pipe_file True p (ftable s5 ! f1)) s5))))"

end
