(* ===== verification/Sysfile.thy ===== *)
theory Sysfile
  imports Filetable Fdtab
begin

text \<open>
  The file system calls (\<open>src/P5/xv6/kernel/sysfile.c\<close>) and the fetching of their arguments from the
  memory of the calling process (\<open>syscall.c\<close>).

  The state holds what the calls use of the process: its size, its stack pointer in the trap frame, its
  memory by virtual address, its open files and its directory. Strings that the kernel reads in place
  are the bytes of that memory. A call gives the value it returns and the new state.
\<close>

section \<open>State\<close>

record ksys =
  p_sz :: u32
  p_esp :: u32
  umem :: mem
  ofiles :: "nat option list"
  cwd :: nat
  kf :: kfs

definition set_fs :: "fsys \<Rightarrow> ksys \<Rightarrow> ksys" where
  "set_fs t s = s\<lparr>kf := (kf s)\<lparr>fsy := t\<rparr>\<rparr>"

section \<open>Arguments\<close>

definition fetchint :: "u32 \<Rightarrow> ksys \<Rightarrow> i32 option" where
  "fetchint addr s = (if addr \<ge> p_sz s \<or> addr + 4 > p_sz s then None else Some (load32 (umem s) addr))"

text \<open>The address and the length of the string.\<close>

definition fetchstr :: "u32 \<Rightarrow> ksys \<Rightarrow> (u32 \<times> nat) option" where
  "fetchstr addr s =
     (if addr \<ge> p_sz s then None
      else map_option (\<lambda>i. (addr, i)) (find_index (\<lambda>i. umem s (addr + of_nat i) = 0) [0..<unat (p_sz s) - unat addr]))"

definition argint :: "nat \<Rightarrow> ksys \<Rightarrow> i32 option" where
  "argint n s = fetchint (p_esp s + 4 + 4 * of_nat n) s"

definition argptr :: "nat \<Rightarrow> i32 \<Rightarrow> ksys \<Rightarrow> u32 option" where
  "argptr n len s =
     (case argint n s of None \<Rightarrow> None
      | Some i \<Rightarrow> if i \<ge> p_sz s \<or> i + len > p_sz s then None else Some i)"

definition argstr :: "nat \<Rightarrow> ksys \<Rightarrow> (u32 \<times> nat) option" where
  "argstr n s = (case argint n s of None \<Rightarrow> None | Some addr \<Rightarrow> fetchstr addr s)"

text \<open>The bytes of a string argument.\<close>

definition argpath :: "nat \<Rightarrow> ksys \<Rightarrow> u8 list option" where
  "argpath n s = map_option (\<lambda>(p, l). bytes (umem s) p l) (argstr n s)"

definition argfd :: "nat \<Rightarrow> ksys \<Rightarrow> (nat \<times> nat) option" where
  "argfd n s =
     (case argint n s of None \<Rightarrow> None
      | Some fd \<Rightarrow> map_option (\<lambda>f. (nat (sint fd), f)) (fdlookup (sint fd) (ofiles s)))"

section \<open>Calls on descriptors\<close>

definition sys_dup :: "ksys \<Rightarrow> (int \<times> ksys) outcome" where
  "sys_dup s =
     (case argfd 0 s of None \<Rightarrow> Ret (-1, s)
      | Some (_, f) \<Rightarrow>
          (case fdalloc f (ofiles s) of None \<Rightarrow> Ret (-1, s)
           | Some (fd, t) \<Rightarrow> bindO (filedup f (kf s)) (\<lambda>k. Ret (int fd, s\<lparr>ofiles := t, kf := k\<rparr>))))"

definition sys_read :: "devsw \<Rightarrow> bool \<Rightarrow> ksys \<Rightarrow> (int \<times> ksys) outcome" where
  "sys_read dv killed s =
     (case argfd 0 s of None \<Rightarrow> Ret (-1, s)
      | Some (_, f) \<Rightarrow>
          (case argint 2 s of None \<Rightarrow> Ret (-1, s)
           | Some n \<Rightarrow>
               (case argptr 1 n s of None \<Rightarrow> Ret (-1, s)
                | Some p \<Rightarrow> bindO (fileread dv killed f (sint n) (kf s)) (\<lambda>(r, bs, k).
                    Ret (r, s\<lparr>umem := write_bytes (umem s) p bs, kf := k\<rparr>)))))"

definition sys_write :: "devsw \<Rightarrow> bool \<Rightarrow> ksys \<Rightarrow> (int \<times> ksys) outcome" where
  "sys_write dv killed s =
     (case argfd 0 s of None \<Rightarrow> Ret (-1, s)
      | Some (_, f) \<Rightarrow>
          (case argint 2 s of None \<Rightarrow> Ret (-1, s)
           | Some n \<Rightarrow>
               (case argptr 1 n s of None \<Rightarrow> Ret (-1, s)
                | Some p \<Rightarrow> bindO (filewrite dv killed f (\<lambda>i. umem s (p + of_nat i)) (sint n) (kf s)) (\<lambda>(r, k).
                    Ret (r, s\<lparr>kf := k\<rparr>)))))"

definition sys_close :: "u32 \<Rightarrow> ksys \<Rightarrow> (int \<times> ksys) outcome" where
  "sys_close kend s =
     (case argfd 0 s of None \<Rightarrow> Ret (-1, s)
      | Some (fd, f) \<Rightarrow> bindO (fileclose kend f (kf s)) (\<lambda>k. Ret (0, s\<lparr>ofiles := (ofiles s)[fd := None], kf := k\<rparr>)))"

text \<open>The fields of a \<open>struct stat\<close> of 20 bytes; the gaps between them keep what they held.\<close>

definition write_stat :: "u32 \<Rightarrow> fstat \<Rightarrow> mem \<Rightarrow> mem" where
  "write_stat a st m =
     write_bytes (write_bytes (write_bytes (write_bytes (write_bytes m (a + 4) (bytes32 (st_dev st)))
       (a + 8) (bytes32 (st_ino st))) a (bytes16 (st_type st))) (a + 12) (bytes16 (st_nlink st))) (a + 16) (bytes32 (st_size st))"

definition sys_fstat :: "ksys \<Rightarrow> (int \<times> ksys) outcome" where
  "sys_fstat s =
     (case argfd 0 s of None \<Rightarrow> Ret (-1, s)
      | Some (_, f) \<Rightarrow>
          (case argptr 1 20 s of None \<Rightarrow> Ret (-1, s)
           | Some p \<Rightarrow> bindO (filestat f (kf s)) (\<lambda>(r, k).
               case r of None \<Rightarrow> Ret (-1, s\<lparr>kf := k\<rparr>)
               | Some st \<Rightarrow> Ret (0, s\<lparr>umem := write_stat p st (umem s), kf := k\<rparr>))))"

definition sys_pipe :: "u32 \<Rightarrow> ksys \<Rightarrow> (int \<times> ksys) outcome" where
  "sys_pipe kend s =
     (case argptr 0 8 s of None \<Rightarrow> Ret (-1, s)
      | Some p \<Rightarrow> bindO (pipealloc kend (kf s)) (\<lambda>(r, k).
          case r of None \<Rightarrow> Ret (-1, s\<lparr>kf := k\<rparr>)
          | Some (rd, wr) \<Rightarrow>
              (case (case fdalloc rd (ofiles s) of None \<Rightarrow> None
                     | Some (fd0, t) \<Rightarrow> map_option (\<lambda>(fd1, t1). (fd0, fd1, t1)) (fdalloc wr t)) of
                 None \<Rightarrow> bindO (fileclose kend rd k) (\<lambda>k1. bindO (fileclose kend wr k1) (\<lambda>k2. Ret (-1, s\<lparr>kf := k2\<rparr>)))
               | Some (fd0, fd1, t1) \<Rightarrow>
                   Ret (0, s\<lparr>ofiles := t1, kf := k, umem := store32 (store32 (umem s) p (of_nat fd0)) (p + 4) (of_nat fd1)\<rparr>))))"

section \<open>Calls on paths\<close>

definition add_link :: "nat \<Rightarrow> u16 \<Rightarrow> fsys \<Rightarrow> fsys" where
  "add_link ip d s = iupdate ip (set_inode ip ((icache s ! ip)\<lparr>i_nlink := i_nlink (icache s ! ip) + d\<rparr>) s)"

text \<open>The label \<open>bad\<close> of \<open>sys_link\<close>.\<close>

definition link_bad :: "nat \<Rightarrow> fsys \<Rightarrow> (int \<times> fsys) outcome" where
  "link_bad ip s = bindO (ilock ip s) (\<lambda>s1. bindO (iunlockput ip (add_link ip (-1) s1)) (\<lambda>s2. Ret (-1, s2)))"

definition link_paths :: "devsw \<Rightarrow> nat \<Rightarrow> u8 list \<Rightarrow> u8 list \<Rightarrow> fsys \<Rightarrow> (int \<times> fsys) outcome" where
  "link_paths dv dir old new s =
     bindO (namei dir old s) (\<lambda>(r, s1).
     case r of None \<Rightarrow> Ret (-1, s1)
     | Some ip \<Rightarrow>
         bindO (ilock ip s1) (\<lambda>s2.
         if i_type (icache s2 ! ip) = T_DIR then bindO (iunlockput ip s2) (\<lambda>s3. Ret (-1, s3))
         else bindO (iunlock ip (add_link ip 1 s2)) (\<lambda>s3.
           bindO (nameiparent dir new s3) (\<lambda>(q, s4).
           case q of None \<Rightarrow> link_bad ip s4
           | Some (dp, name) \<Rightarrow>
               bindO (ilock dp s4) (\<lambda>s5.
               bindO (if i_dev (icache s5 ! dp) \<noteq> i_dev (icache s5 ! ip) then Ret (-1, s5)
                      else dirlink dv dp name (i_num (icache s5 ! ip)) s5) (\<lambda>(d, s6).
               bindO (iunlockput dp s6) (\<lambda>s7.
               if d < 0 then link_bad ip s7 else bindO (iput ip s7) (\<lambda>s8. Ret (0, s8)))))))))"

definition sys_link :: "devsw \<Rightarrow> ksys \<Rightarrow> (int \<times> ksys) outcome" where
  "sys_link dv s =
     (case (argpath 0 s, argpath 1 s) of
        (Some old, Some new) \<Rightarrow>
          bindO (link_paths dv (cwd s) old new (fsy (kf s))) (\<lambda>(r, t). Ret (r, set_fs t s))
      | _ \<Rightarrow> Ret (-1, s))"

text \<open>
  \<open>isdirempty\<close> from offset \<open>off\<close>; the bound on the rounds is one more than the directory has entries, so
  that the test of \<open>off\<close> ends the loop.
\<close>

fun dirempty_loop :: "nat \<Rightarrow> devsw \<Rightarrow> nat \<Rightarrow> nat \<Rightarrow> fsys \<Rightarrow> (bool \<times> fsys) outcome" where
  "dirempty_loop 0 dv dp off s = Ret (True, s)"
| "dirempty_loop (Suc k) dv dp off s =
     (if off < unat (i_size (icache s ! dp)) then
        bindO (readi dv dp (of_nat off) 16 s) (\<lambda>(r, xs, s1).
        if r \<noteq> 16 then Panic ''isdirempty: readi''
        else if get16 xs 0 \<noteq> 0 then Ret (False, s1) else dirempty_loop k dv dp (off + 16) s1)
      else Ret (True, s))"

definition isdirempty :: "devsw \<Rightarrow> nat \<Rightarrow> fsys \<Rightarrow> (bool \<times> fsys) outcome" where
  "isdirempty dv dp s = dirempty_loop (Suc (unat (i_size (icache s ! dp)) div 16)) dv dp 32 s"

definition dot :: "u8 list" where "dot = [46]"
definition dotdot :: "u8 list" where "dotdot = [46, 46]"

definition unlink_path :: "devsw \<Rightarrow> nat \<Rightarrow> u8 list \<Rightarrow> fsys \<Rightarrow> (int \<times> fsys) outcome" where
  "unlink_path dv dir path s =
     bindO (nameiparent dir path s) (\<lambda>(q, s1).
     case q of None \<Rightarrow> Ret (-1, s1)
     | Some (dp, name) \<Rightarrow>
         bindO (ilock dp s1) (\<lambda>s2.
         if namecmp name dot \<or> namecmp name dotdot then bindO (iunlockput dp s2) (\<lambda>s3. Ret (-1, s3))
         else bindO (dirlookup dp name s2) (\<lambda>(r, s3).
           case r of None \<Rightarrow> bindO (iunlockput dp s3) (\<lambda>s4. Ret (-1, s4))
           | Some (ip, off) \<Rightarrow>
               bindO (ilock ip s3) (\<lambda>s4.
               if sint (i_nlink (icache s4 ! ip)) < 1 then Panic ''unlink: nlink < 1''
               else bindO (if i_type (icache s4 ! ip) = T_DIR then isdirempty dv ip s4 else Ret (True, s4)) (\<lambda>(e, s5).
                 if \<not> e then bindO (iunlockput ip s5) (\<lambda>s6. bindO (iunlockput dp s6) (\<lambda>s7. Ret (-1, s7)))
                 else bindO (writei dv dp (replicate 16 0) (of_nat off) 16 s5) (\<lambda>(w, s6).
                   if w \<noteq> 16 then Panic ''unlink: writei''
                   else
                     let s7 = (if i_type (icache s6 ! ip) = T_DIR then add_link dp (-1) s6 else s6) in
                     bindO (iunlockput dp s7) (\<lambda>s8.
                     bindO (iunlockput ip (add_link ip (-1) s8)) (\<lambda>s9. Ret (0, s9)))))))))"

definition sys_unlink :: "devsw \<Rightarrow> ksys \<Rightarrow> (int \<times> ksys) outcome" where
  "sys_unlink dv s =
     (case argpath 0 s of None \<Rightarrow> Ret (-1, s)
      | Some path \<Rightarrow> bindO (unlink_path dv (cwd s) path (fsy (kf s))) (\<lambda>(r, t). Ret (r, set_fs t s)))"

text \<open>\<open>create\<close> returns a locked inode.\<close>

definition create :: "devsw \<Rightarrow> nat \<Rightarrow> u8 list \<Rightarrow> u16 \<Rightarrow> u16 \<Rightarrow> u16 \<Rightarrow> fsys \<Rightarrow> (nat option \<times> fsys) outcome" where
  "create dv dir path type major minor s =
     bindO (nameiparent dir path s) (\<lambda>(q, s1).
     case q of None \<Rightarrow> Ret (None, s1)
     | Some (dp, name) \<Rightarrow>
         bindO (ilock dp s1) (\<lambda>s2.
         bindO (dirlookup dp name s2) (\<lambda>(r, s3).
         case r of
           Some (ip, _) \<Rightarrow>
             bindO (iunlockput dp s3) (\<lambda>s4.
             bindO (ilock ip s4) (\<lambda>s5.
             if type = T_FILE \<and> i_type (icache s5 ! ip) = T_FILE then Ret (Some ip, s5)
             else bindO (iunlockput ip s5) (\<lambda>s6. Ret (None, s6))))
         | None \<Rightarrow>
             bindO (ialloc (i_dev (icache s3 ! dp)) type s3) (\<lambda>(ip, s4).
             bindO (ilock ip s4) (\<lambda>s5.
             let s6 = iupdate ip (set_inode ip ((icache s5 ! ip)\<lparr>i_major := major, i_minor := minor, i_nlink := 1\<rparr>) s5) in
             bindO (if type = T_DIR then
                      bindO (dirlink dv ip dot (i_num (icache s6 ! ip)) (add_link dp 1 s6)) (\<lambda>(d, s7).
                      if d < 0 then Panic ''create dots''
                      else bindO (dirlink dv ip dotdot (i_num (icache s7 ! dp)) s7) (\<lambda>(e, s8).
                        if e < 0 then Panic ''create dots'' else Ret s8))
                    else Ret s6) (\<lambda>s9.
             bindO (dirlink dv dp name (i_num (icache s9 ! ip)) s9) (\<lambda>(d, s10).
             if d < 0 then Panic ''create: dirlink''
             else bindO (iunlockput dp s10) (\<lambda>s11. Ret (Some ip, s11)))))))))"

text \<open>The modes are those of \<open>fcntl.h\<close>: 1 is \<open>O_WRONLY\<close>, 2 is \<open>O_RDWR\<close> and 512 is \<open>O_CREATE\<close>.\<close>

definition open_inode :: "devsw \<Rightarrow> nat \<Rightarrow> u8 list \<Rightarrow> i32 \<Rightarrow> fsys \<Rightarrow> (nat option \<times> fsys) outcome" where
  "open_inode dv dir path omode s =
     (if omode AND 512 \<noteq> 0 then create dv dir path T_FILE 0 0 s
      else bindO (namei dir path s) (\<lambda>(r, s1).
        case r of None \<Rightarrow> Ret (None, s1)
        | Some ip \<Rightarrow>
            bindO (ilock ip s1) (\<lambda>s2.
            if i_type (icache s2 ! ip) = T_DIR \<and> omode \<noteq> 0 then bindO (iunlockput ip s2) (\<lambda>s3. Ret (None, s3))
            else Ret (Some ip, s2))))"

text \<open>A descriptor for the locked inode.\<close>

definition open_fd :: "u32 \<Rightarrow> i32 \<Rightarrow> nat \<Rightarrow> ksys \<Rightarrow> (int \<times> ksys) outcome" where
  "open_fd kend omode ip s =
     (case filealloc (kf s) of
        (None, k) \<Rightarrow> bindO (iunlockput ip (fsy k)) (\<lambda>t. Ret (-1, set_fs t s))
      | (Some f, k) \<Rightarrow>
          (case fdalloc f (ofiles s) of
             None \<Rightarrow> bindO (fileclose kend f k) (\<lambda>k1.
                     bindO (iunlockput ip (fsy k1)) (\<lambda>t. Ret (-1, set_fs t (s\<lparr>kf := k1\<rparr>))))
           | Some (fd, tab) \<Rightarrow>
               bindO (iunlock ip (fsy k)) (\<lambda>t.
               let x = (ftable k ! f)\<lparr>f_type := FD_INODE, f_ip := ip, f_off := 0, f_readable := omode AND 1 = 0,
                         f_writable := omode AND 1 \<noteq> 0 \<or> omode AND 2 \<noteq> 0\<rparr>
               in Ret (int fd, s\<lparr>ofiles := tab, kf := set_file f x (k\<lparr>fsy := t\<rparr>)\<rparr>))))"

definition sys_open :: "devsw \<Rightarrow> u32 \<Rightarrow> ksys \<Rightarrow> (int \<times> ksys) outcome" where
  "sys_open dv kend s =
     (case (argpath 0 s, argint 1 s) of
        (Some path, Some omode) \<Rightarrow>
          bindO (open_inode dv (cwd s) path omode (fsy (kf s))) (\<lambda>(r, t).
          case r of None \<Rightarrow> Ret (-1, set_fs t s) | Some ip \<Rightarrow> open_fd kend omode ip (set_fs t s))
      | _ \<Rightarrow> Ret (-1, s))"

text \<open>What \<open>sys_mkdir\<close> and \<open>sys_mknod\<close> do with the path.\<close>

definition make_node :: "devsw \<Rightarrow> u8 list \<Rightarrow> u16 \<Rightarrow> u16 \<Rightarrow> u16 \<Rightarrow> ksys \<Rightarrow> (int \<times> ksys) outcome" where
  "make_node dv path type major minor s =
     bindO (create dv (cwd s) path type major minor (fsy (kf s))) (\<lambda>(r, t).
     case r of None \<Rightarrow> Ret (-1, set_fs t s)
     | Some ip \<Rightarrow> bindO (iunlockput ip t) (\<lambda>t1. Ret (0, set_fs t1 s)))"

definition sys_mkdir :: "devsw \<Rightarrow> ksys \<Rightarrow> (int \<times> ksys) outcome" where
  "sys_mkdir dv s = (case argpath 0 s of None \<Rightarrow> Ret (-1, s) | Some path \<Rightarrow> make_node dv path T_DIR 0 0 s)"

definition sys_mknod :: "devsw \<Rightarrow> ksys \<Rightarrow> (int \<times> ksys) outcome" where
  "sys_mknod dv s =
     (case (argpath 0 s, argint 1 s, argint 2 s) of
        (Some path, Some major, Some minor) \<Rightarrow> make_node dv path T_DEV (ucast major) (ucast minor) s
      | _ \<Rightarrow> Ret (-1, s))"

definition sys_chdir :: "ksys \<Rightarrow> (int \<times> ksys) outcome" where
  "sys_chdir s =
     (case argpath 0 s of None \<Rightarrow> Ret (-1, s)
      | Some path \<Rightarrow>
          bindO (namei (cwd s) path (fsy (kf s))) (\<lambda>(r, t).
          case r of None \<Rightarrow> Ret (-1, set_fs t s)
          | Some ip \<Rightarrow>
              bindO (ilock ip t) (\<lambda>t1.
              if i_type (icache t1 ! ip) \<noteq> T_DIR then bindO (iunlockput ip t1) (\<lambda>t2. Ret (-1, set_fs t2 s))
              else bindO (iunlock ip t1) (\<lambda>t2. bindO (iput (cwd s) t2) (\<lambda>t3. Ret (0, (set_fs t3 s)\<lparr>cwd := ip\<rparr>))))))"

end
