(* ===== verification/Sysrefs.thy ===== *)
theory Sysrefs
  imports Sysfile
begin

text \<open>
  Reference counts of open files under the system calls: the count of a file is the number of descriptors
  that name it.
\<close>

section \<open>Counts and types in the file table\<close>

definition tab :: "kfs \<Rightarrow> (int \<times> ftype) list" where
  "tab s = map (\<lambda>x. (f_ref x, f_type x)) (ftable s)"

lemma tab_set_file [simp]: "tab (set_file f x s) = (tab s)[f := (f_ref x, f_type x)]"
  by (simp add: tab_def set_file_def map_update)

lemma length_tab [simp]: "length (tab s) = length (ftable s)"
  by (simp add: tab_def)

lemma tab_other [simp]:
  "tab (s\<lparr>fsy := t\<rparr>) = tab s" "tab (s\<lparr>pipe_at := q\<rparr>) = tab s" "tab (s\<lparr>pgs := k\<rparr>) = tab s"
  "ftable (s\<lparr>fsy := t\<rparr>) = ftable s"
  by (simp_all add: tab_def)

lemma tab_nth: "f < length (ftable s) \<Longrightarrow> tab s ! f = (f_ref (ftable s ! f), f_type (ftable s ! f))"
  by (simp add: tab_def)

lemma tab_same: "f_ref x = f_ref (ftable s ! f) \<Longrightarrow> f_type x = f_type (ftable s ! f) \<Longrightarrow> (tab s)[f := (f_ref x, f_type x)] = tab s"
  by (cases "f < length (ftable s)") (simp_all add: tab_nth list_update_same_conv list_update_beyond)

text \<open>No entry has a negative count, and a free one is of type \<open>FD_NONE\<close>.\<close>

definition tab_ok :: "(int \<times> ftype) list \<Rightarrow> bool" where
  "tab_ok t \<longleftrightarrow> (\<forall>(r, y)\<in>set t. 0 \<le> r \<and> (r = 0 \<longrightarrow> y = FD_NONE))"

lemma filealloc_Some:
  assumes "filealloc s = (Some f, s')"
  shows "f < length (ftable s)" "fst (tab s ! f) = 0" "tab s' = (tab s)[f := (1, snd (tab s ! f))]" "fsy s' = fsy s"
  using assms by (auto simp: filealloc_def find_index_Some_iff tab_nth set_file_def split: option.splits)
    (auto simp: tab_def map_update)

lemma filealloc_None: "filealloc s = (None, s') \<Longrightarrow> s' = s"
  by (auto simp: filealloc_def split: option.splits)

lemma filedup_tab: "filedup f s = Ret s' \<Longrightarrow> tab s' = (tab s)[f := (f_ref (ftable s ! f) + 1, f_type (ftable s ! f))]"
  by (auto simp: filedup_def Let_def split: if_splits)

lemma filedup_ret: "1 \<le> f_ref (ftable s ! f) \<Longrightarrow> \<exists>s'. filedup f s = Ret s'"
  by (auto simp: filedup_def Let_def)

lemma close_pipe_tab: "close_pipe kend p w s = Ret s' \<Longrightarrow> tab s' = tab s"
  by (auto simp: close_pipe_def Let_def split: prod.splits if_splits)

lemma fileclose_tab:
  assumes "fileclose kend f s = Ret s'"
  shows "tab s' = (tab s)[f := if f_ref (ftable s ! f) = 1 then (0, FD_NONE)
    else (f_ref (ftable s ! f) - 1, f_type (ftable s ! f))]"
  using assms by (auto simp: fileclose_def Let_def split: if_splits ftype.splits dest!: close_pipe_tab)

lemma fileclose_tab_nth:
  assumes "fileclose kend f s = Ret s'" "f < length (ftable s)"
  shows "tab s' = (tab s)[f := if fst (tab s ! f) = 1 then (0, FD_NONE) else (fst (tab s ! f) - 1, snd (tab s ! f))]"
  using fileclose_tab[OF assms(1)] assms(2) by (simp add: tab_nth)

lemma fileclose_none:
  "f_ref (ftable s ! f) = 1 \<Longrightarrow> f_type (ftable s ! f) = FD_NONE \<Longrightarrow>
   fileclose kend f s = Ret (set_file f ((ftable s ! f)\<lparr>f_ref := 0, f_type := FD_NONE\<rparr>) s)"
  by (simp add: fileclose_def Let_def)

lemma fileread_tab: "fileread dv killed f n s = Ret (r, bs, s') \<Longrightarrow> tab s' = tab s"
  by (auto simp: fileread_def Let_def tab_same split: if_splits ftype.splits prod.splits pipe_end.splits)

lemma filewrite_tab: "filewrite dv killed f addr n s = Ret (r, s') \<Longrightarrow> tab s' = tab s"
  by (auto simp: filewrite_def Let_def tab_same split: if_splits ftype.splits prod.splits pipe_end.splits)

lemma filestat_tab: "filestat f s = Ret (r, s') \<Longrightarrow> tab s' = tab s"
  by (auto simp: filestat_def Let_def split: if_splits)

section \<open>Accounts\<close>

text \<open>
  The count of an entry is the number of descriptors of this process that name it, and \<open>b\<close> more that
  other processes hold.
\<close>

definition accounts :: "(nat \<Rightarrow> nat) \<Rightarrow> (int \<times> ftype) list \<Rightarrow> nat option list \<Rightarrow> bool" where
  "accounts b t fds \<longleftrightarrow> length fds = NOFILE \<and> (\<forall>f. Some f \<in> set fds \<longrightarrow> f < length t) \<and>
     (\<forall>f<length t. fst (t ! f) = int (count_list fds (Some f) + b f) \<and> (fst (t ! f) = 0 \<longrightarrow> snd (t ! f) = FD_NONE))"

lemma accountsD:
  assumes "accounts b t fds"
  shows "length fds = NOFILE" "Some f \<in> set fds \<Longrightarrow> f < length t"
    "f < length t \<Longrightarrow> fst (t ! f) = int (count_list fds (Some f) + b f)"
    "f < length t \<Longrightarrow> fst (t ! f) = 0 \<Longrightarrow> snd (t ! f) = FD_NONE"
  using assms by (auto simp: accounts_def)

lemma count_list_update:
  "i < length xs \<Longrightarrow> count_list (xs[i := x]) y + (if xs ! i = y then 1 else 0) = count_list xs y + (if x = y then 1 else 0)"
proof (induction xs arbitrary: i)
  case (Cons a xs)
  show ?case
  proof (cases i)
    case (Suc j)
    then have "count_list (xs[j := x]) y + (if xs ! j = y then 1 else 0) = count_list xs y + (if x = y then 1 else 0)"
      using Cons by simp
    then show ?thesis using Suc by (auto split: if_splits)
  qed simp
qed simp

lemma accounts_held: "accounts b t fds \<Longrightarrow> Some f \<in> set fds \<Longrightarrow> f < length t \<and> 1 \<le> fst (t ! f)"
  using accountsD(2,3)[of b t fds f] count_list_0_iff[of fds "Some f"] by (auto simp: Suc_le_eq)

text \<open>A descriptor is taken for an entry whose count goes up, and given back with one that goes down.\<close>

lemma accounts_take:
  assumes a: "accounts b t fds" and fd: "fd < length fds" "fds ! fd = None" and f: "f < length t"
  shows "accounts b (t[f := (fst (t ! f) + 1, y)]) (fds[fd := Some f])"
proof -
  have c: "count_list (fds[fd := Some f]) (Some g) = count_list fds (Some g) + (if g = f then 1 else 0)" for g
    using count_list_update[OF fd(1), of "Some f" "Some g"] fd(2) by auto
  have "g = f \<or> Some g \<in> set fds" if "Some g \<in> set (fds[fd := Some f])" for g
    using set_update_subset_insert[of fds fd "Some f"] that by auto
  then show ?thesis using a f by (auto simp: accounts_def c nth_list_update)
qed

lemma accounts_give:
  assumes a: "accounts b t fds" and fd: "fd < length fds" "fds ! fd = Some f"
  shows "accounts b (t[f := if fst (t ! f) = 1 then (0, FD_NONE) else (fst (t ! f) - 1, snd (t ! f))]) (fds[fd := None])"
proof -
  have m: "Some f \<in> set fds" using fd by (metis nth_mem)
  have f: "f < length t" "1 \<le> fst (t ! f)" using accounts_held[OF a m] by auto
  have c: "count_list fds (Some g) = count_list (fds[fd := None]) (Some g) + (if g = f then 1 else 0)" for g
    using count_list_update[OF fd(1), of None "Some g"] fd(2) by auto
  have "Some g \<in> set fds" if "Some g \<in> set (fds[fd := None])" for g
    using set_update_subset_insert[of fds fd None] that by auto
  then show ?thesis using a f by (auto simp: accounts_def c nth_list_update)
qed

text \<open>An entry that is taken and closed again leaves no trace in the table.\<close>

lemma alloc_close:
  assumes a: "filealloc s = (Some f, s1)" and n: "snd (tab s ! f) = FD_NONE" and c: "fileclose kend f s1' = Ret s2" and t: "tab s1' = tab s1"
  shows "tab s2 = tab s"
proof -
  note A = filealloc_Some[OF a]
  have l: "f < length (ftable s1')" using A(1,3) t by (metis length_list_update length_tab)
  have "tab s1' ! f = (1, FD_NONE)" using A t n by simp
  then have "tab s2 = (tab s1)[f := (0, FD_NONE)]" using fileclose_tab_nth[OF c l] t by simp
  moreover have "tab s ! f = (0, FD_NONE)" using A(2) n by (metis prod.collapse)
  ultimately show ?thesis using A(3) by (simp add: list_update_same_conv A(1))
qed

lemma pipealloc_tab:
  assumes n: "\<And>f. f < length (tab s) \<Longrightarrow> fst (tab s ! f) = 0 \<Longrightarrow> snd (tab s ! f) = FD_NONE" and r: "pipealloc kend s = Ret (r, s')"
  shows "case r of None \<Rightarrow> tab s' = tab s
    | Some (f0, f1) \<Rightarrow> f0 \<noteq> f1 \<and> f0 < length (tab s) \<and> f1 < length (tab s) \<and> fst (tab s ! f0) = 0 \<and> fst (tab s ! f1) = 0 \<and>
        tab s' = (tab s)[f0 := (1, FD_PIPE), f1 := (1, FD_PIPE)]"
proof (cases "fst (filealloc s)")
  case None
  then have "filealloc s = (None, s)" using filealloc_None by (metis prod.collapse)
  then show ?thesis using r by (auto simp: pipealloc_def)
next
  case (Some f0)
  then obtain s1 where s1: "filealloc s = (Some f0, s1)" by (metis prod.collapse)
  note A = filealloc_Some[OF s1]
  have n0: "snd (tab s ! f0) = FD_NONE" using n A by simp
  show ?thesis
  proof (cases "fst (filealloc s1)")
    case None
    then have "filealloc s1 = (None, s1)" using filealloc_None by (metis prod.collapse)
    then show ?thesis using r s1 alloc_close[OF s1 n0 _ refl] by (auto simp: pipealloc_def)
  next
    case (Some f1)
    then obtain s2 where s2: "filealloc s1 = (Some f1, s2)" by (metis prod.collapse)
    note B = filealloc_Some[OF s2]
    have l1: "length (ftable s1) = length (ftable s)" using A(3) by (metis length_list_update length_tab)
    have ne: "f0 \<noteq> f1" using A B(2) by auto
    have n1: "snd (tab s1 ! f1) = FD_NONE" "fst (tab s ! f1) = 0" using n[of f1] A B ne l1 by simp_all
    have l: "length (ftable s2) = length (ftable s)" using B(3) l1 by (metis length_list_update length_tab)
    obtain p k where k: "kalloc (pgs s2) = Ret (p, k)" using r s1 s2 by (auto simp: pipealloc_def)
    show ?thesis
    proof (cases "p = 0")
      case True
      then obtain s4 where c: "fileclose kend f0 (s2\<lparr>pgs := k\<rparr>) = Ret s4" "fileclose kend f1 s4 = Ret s'" "r = None"
        using r s1 s2 k by (auto simp: pipealloc_def Let_def)
      have t2: "tab s2 ! f0 = (1, FD_NONE)" "tab s2 = (tab s)[f0 := (1, FD_NONE), f1 := (1, FD_NONE)]" using A B ne n0 n1 by simp_all
      then have t4: "tab s4 = (tab s)[f0 := (0, FD_NONE), f1 := (1, FD_NONE)]"
        using fileclose_tab_nth[OF c(1)] A(1) l ne by (simp add: list_update_swap)
      then have l4: "f1 < length (ftable s4)" "tab s4 ! f1 = (1, FD_NONE)"
        using B(1) l1 ne A(1) by (metis length_list_update length_tab, simp)
      then have "tab s' = (tab s)[f0 := (0, FD_NONE), f1 := (0, FD_NONE)]"
        using fileclose_tab_nth[OF c(2) l4(1)] t4 by simp
      moreover have "tab s ! f0 = (0, FD_NONE)" "tab s ! f1 = (0, FD_NONE)" using A n0 n1 ne B by (metis prod.collapse, metis prod.collapse A(3) nth_list_update_neq)
      ultimately have "tab s' = tab s" by (metis list_update_id)
      then show ?thesis using c(3) by simp
    next
      case False
      have t2: "tab s2 = (tab s)[f0 := (1, FD_NONE), f1 := (1, FD_NONE)]" using A B ne n0 n1 by simp
      then have one: "f_ref (ftable s2 ! f0) = 1" "f_ref (ftable s2 ! f1) = 1"
        using tab_nth[of f0 s2] tab_nth[of f1 s2] A(1) B(1) l l1 ne by simp_all
      have "r = Some (f0, f1) \<and> tab s' = (tab s2)[f0 := (1, FD_PIPE), f1 := (1, FD_PIPE)]"
        using False r s1 s2 k ne one by (auto simp: pipealloc_def Let_def pipe_file_def set_file_def tab_def map_update)
      then have "r = Some (f0, f1)" "tab s' = (tab s)[f0 := (1, FD_PIPE), f1 := (1, FD_PIPE)]"
        using t2 ne by (simp_all add: list_update_swap)
      then show ?thesis using ne A(1,2) B(1) l1 n1 by simp
    qed
  qed
qed

section \<open>System calls\<close>

definition refs_ok :: "(nat \<Rightarrow> nat) \<Rightarrow> ksys \<Rightarrow> bool" where
  "refs_ok b s \<longleftrightarrow> accounts b (tab (kf s)) (ofiles s)"

lemma set_fs_refs [simp]: "refs_ok b (set_fs t s) = refs_ok b s" "refs_ok b (s\<lparr>umem := m\<rparr>) = refs_ok b s"
  "refs_ok b (s\<lparr>p_esp := e\<rparr>) = refs_ok b s" "refs_ok b (s\<lparr>cwd := d\<rparr>) = refs_ok b s"
  "kf (set_fs t s) = (kf s)\<lparr>fsy := t\<rparr>" "ofiles (set_fs t s) = ofiles s"
  by (simp_all add: refs_ok_def set_fs_def)

lemma refs_kf: "refs_ok b s \<Longrightarrow> tab k = tab (kf s) \<Longrightarrow> refs_ok b (s\<lparr>kf := k\<rparr>)"
  by (simp add: refs_ok_def)

lemma argfd_Some:
  assumes "argfd n s = Some (fd, f)" "length (ofiles s) = NOFILE"
  shows "fd < length (ofiles s)" "ofiles s ! fd = Some f"
  using assms by (auto simp: argfd_def fdlookup_def NOFILE_def split: option.splits if_splits)

lemma refs_len: "refs_ok b s \<Longrightarrow> length (ofiles s) = NOFILE"
  by (auto simp: refs_ok_def accounts_def)

lemma argfd_held:
  assumes ok: "refs_ok b s" and a: "argfd n s = Some (fd, f)"
  shows "f < length (ftable (kf s))" "1 \<le> f_ref (ftable (kf s) ! f)"
proof -
  have "Some f \<in> set (ofiles s)" using argfd_Some[OF a refs_len[OF ok]] by (metis nth_mem)
  then show l: "f < length (ftable (kf s))" and "1 \<le> f_ref (ftable (kf s) ! f)"
    using accounts_held[of b "tab (kf s)" "ofiles s" f] ok by (auto simp: refs_ok_def tab_nth)
qed

lemma sys_dup_refs:
  assumes ok: "refs_ok b s"
  shows "\<exists>r s'. sys_dup s = Ret (r, s') \<and> refs_ok b s'"
proof (cases "argfd 0 s")
  case (Some x)
  obtain fd f where x: "argfd 0 s = Some (fd, f)" using Some by (cases x) auto
  note h = argfd_held[OF ok x]
  show ?thesis
  proof (cases "fdalloc f (ofiles s)")
    case (Some y)
    obtain e t where y: "fdalloc f (ofiles s) = Some (e, t)" using Some by (cases y) auto
    obtain k where k: "filedup f (kf s) = Ret k" using filedup_ret[OF h(2)] by blast
    have "tab k = (tab (kf s))[f := (fst (tab (kf s) ! f) + 1, snd (tab (kf s) ! f))]"
      using filedup_tab[OF k] h(1) by (simp add: tab_nth)
    then have "refs_ok b (s\<lparr>ofiles := t, kf := k\<rparr>)"
      using accounts_take[of b "tab (kf s)" "ofiles s" e f] ok fdalloc_SomeD[OF y] h(1) by (simp add: refs_ok_def)
    then show ?thesis using x y k by (simp add: sys_dup_def)
  qed (use x ok in \<open>simp add: sys_dup_def\<close>)
qed (use ok in \<open>simp add: sys_dup_def\<close>)

lemma sys_close_refs:
  assumes ok: "refs_ok b s" and r: "sys_close kend s = Ret (r, s')"
  shows "refs_ok b s'"
proof (cases "argfd 0 s")
  case (Some x)
  obtain fd f where x: "argfd 0 s = Some (fd, f)" using Some by (cases x) auto
  obtain k where k: "fileclose kend f (kf s) = Ret k" "s' = s\<lparr>ofiles := (ofiles s)[fd := None], kf := k\<rparr>"
    using r x by (auto simp: sys_close_def)
  show ?thesis
    using accounts_give[of b "tab (kf s)" "ofiles s" fd f] ok argfd_Some[OF x refs_len[OF ok]]
      fileclose_tab_nth[OF k(1) argfd_held(1)[OF ok x]] k(2) by (simp add: refs_ok_def)
qed (use ok r in \<open>auto simp: sys_close_def\<close>)

lemma sys_rw_refs:
  assumes ok: "refs_ok b s"
  shows "sys_read dv killed s = Ret (r, s') \<Longrightarrow> refs_ok b s'" "sys_write dv killed s = Ret (r, s') \<Longrightarrow> refs_ok b s'"
    "sys_fstat s = Ret (r, s') \<Longrightarrow> refs_ok b s'"
proof -
  show "sys_read dv killed s = Ret (r, s') \<Longrightarrow> refs_ok b s'"
    using ok by (auto simp: sys_read_def refs_ok_def split: option.splits prod.splits dest!: fileread_tab)
  show "sys_write dv killed s = Ret (r, s') \<Longrightarrow> refs_ok b s'"
    using ok by (auto simp: sys_write_def refs_ok_def split: option.splits prod.splits dest!: filewrite_tab)
  show "sys_fstat s = Ret (r, s') \<Longrightarrow> refs_ok b s'"
    using ok by (auto simp: sys_fstat_def refs_ok_def split: option.splits prod.splits dest!: filestat_tab)
qed

lemma sys_paths_refs:
  assumes ok: "refs_ok b s"
  shows "sys_link dv s = Ret (r, s') \<Longrightarrow> refs_ok b s'" "sys_unlink dv s = Ret (r, s') \<Longrightarrow> refs_ok b s'"
    "sys_mkdir dv s = Ret (r, s') \<Longrightarrow> refs_ok b s'" "sys_mknod dv s = Ret (r, s') \<Longrightarrow> refs_ok b s'"
    "sys_chdir s = Ret (r, s') \<Longrightarrow> refs_ok b s'"
  using ok by (auto simp: sys_link_def sys_unlink_def sys_mkdir_def sys_mknod_def make_node_def sys_chdir_def
      split: option.splits prod.splits if_splits)

lemma sys_pipe_refs:
  assumes ok: "refs_ok b s" and r: "sys_pipe kend s = Ret (r, s')"
  shows "refs_ok b s'"
proof (cases "argptr 0 8 s")
  case (Some p)
  obtain x k where k: "pipealloc kend (kf s) = Ret (x, k)" using r Some by (auto simp: sys_pipe_def)
  have free: "f < length (tab (kf s)) \<Longrightarrow> fst (tab (kf s) ! f) = 0 \<Longrightarrow> snd (tab (kf s) ! f) = FD_NONE" for f
    using accountsD(4) ok unfolding refs_ok_def by blast
  note T = pipealloc_tab[OF free k]
  show ?thesis
  proof (cases x)
    case None
    then show ?thesis using T r Some k ok by (auto simp: sys_pipe_def refs_ok_def)
  next
    case x: (Some y)
    obtain f0 f1 where y: "y = (f0, f1)" by (cases y)
    have F: "f0 \<noteq> f1" "f0 < length (tab (kf s))" "f1 < length (tab (kf s))" "fst (tab (kf s) ! f0) = 0" "fst (tab (kf s) ! f1) = 0"
      "tab k = (tab (kf s))[f0 := (1, FD_PIPE), f1 := (1, FD_PIPE)]" using T x y by auto
    define fds where "fds = (case fdalloc f0 (ofiles s) of None \<Rightarrow> None
        | Some (fd0, t) \<Rightarrow> map_option (\<lambda>(fd1, t1). (fd0, fd1, t1)) (fdalloc f1 t))"
    note run = r[unfolded sys_pipe_def, simplified Some k x y, simplified, folded fds_def]
    show ?thesis
    proof (cases fds)
      case None
      then obtain k1 k2 where c: "fileclose kend f0 k = Ret k1" "fileclose kend f1 k1 = Ret k2" "s' = s\<lparr>kf := k2\<rparr>"
        using run by auto
      have "length (ftable k) = length (ftable (kf s))" using F(6) by (metis length_list_update length_tab)
      then have t1: "tab k1 = (tab (kf s))[f0 := (0, FD_NONE), f1 := (1, FD_PIPE)]"
        using fileclose_tab_nth[OF c(1)] F by (simp add: list_update_swap)
      have l1: "f1 < length (ftable k1)" using t1 F(3) by (metis length_list_update length_tab)
      have "tab k2 = (tab (kf s))[f0 := (0, FD_NONE), f1 := (0, FD_NONE)]"
        using fileclose_tab_nth[OF c(2) l1] t1 F by simp
      moreover have "tab (kf s) ! f0 = (0, FD_NONE)" "tab (kf s) ! f1 = (0, FD_NONE)" using F free by (metis prod.collapse)+
      ultimately have "tab k2 = tab (kf s)" by (metis list_update_id)
      then show ?thesis using c(3) ok by (simp add: refs_ok_def)
    next
      case S: (Some z)
      then obtain fd0 t fd1 t1 where fd: "fdalloc f0 (ofiles s) = Some (fd0, t)" "fdalloc f1 t = Some (fd1, t1)" "z = (fd0, fd1, t1)"
        by (auto simp: fds_def split: option.splits)
      have s': "ofiles s' = t1" "kf s' = k" using run S fd(3) by auto
      have "accounts b ((tab (kf s))[f0 := (1, FD_PIPE)]) t"
        using accounts_take[of b "tab (kf s)" "ofiles s" fd0 f0 FD_PIPE] ok fdalloc_SomeD[OF fd(1)] F by (simp add: refs_ok_def)
      then have "accounts b (tab k) t1"
        using accounts_take[of b _ t fd1 f1 FD_PIPE] fdalloc_SomeD[OF fd(2)] F by fastforce
      then show ?thesis using s' by (simp add: refs_ok_def)
    qed
  qed
qed (use ok r in \<open>auto simp: sys_pipe_def\<close>)

lemma open_fd_refs:
  assumes ok: "refs_ok b s" and r: "open_fd kend m ip s = Ret (r, s')"
  shows "refs_ok b s'"
proof (cases "fst (filealloc (kf s))")
  case None
  then have "filealloc (kf s) = (None, kf s)" using filealloc_None by (metis prod.collapse)
  then show ?thesis using r ok by (auto simp: open_fd_def)
next
  case (Some f)
  then obtain k where k: "filealloc (kf s) = (Some f, k)" by (metis prod.collapse)
  note A = filealloc_Some[OF k]
  have n: "snd (tab (kf s) ! f) = FD_NONE" using accountsD(4)[of b "tab (kf s)" "ofiles s" f] A ok by (simp add: refs_ok_def)
  show ?thesis
  proof (cases "fdalloc f (ofiles s)")
    case None
    then obtain k1 where c: "fileclose kend f k = Ret k1" "\<exists>t. s' = set_fs t (s\<lparr>kf := k1\<rparr>)" using r k by (auto simp: open_fd_def)
    then show ?thesis using refs_kf[OF ok alloc_close[OF k n c(1) refl]] by auto
  next
    case S: (Some y)
    then obtain fd t where fd: "fdalloc f (ofiles s) = Some (fd, t)" by (cases y) auto
    have "length (ftable k) = length (ftable (kf s))" using A(3) by (metis length_list_update length_tab)
    then have "f_ref (ftable k ! f) = 1" using A tab_nth[of f k] by simp
    then have "ofiles s' = t" "tab (kf s') = (tab (kf s))[f := (1, FD_INODE)]"
      using r k fd A(3) by (auto simp: open_fd_def Let_def)
    then show ?thesis
      using accounts_take[of b "tab (kf s)" "ofiles s" fd f FD_INODE] ok fdalloc_SomeD[OF fd] A by (simp add: refs_ok_def)
  qed
qed

lemma open_fd_set_fs: "refs_ok b s \<Longrightarrow> open_fd kend m ip (set_fs t s) = Ret (r, s') \<Longrightarrow> refs_ok b s'"
  by (rule open_fd_refs[of b "set_fs t s"]) simp_all

lemma sys_open_refs: "refs_ok b s \<Longrightarrow> sys_open dv kend s = Ret (r, s') \<Longrightarrow> refs_ok b s'"
  by (auto simp: sys_open_def split: option.splits prod.splits) (erule (1) open_fd_set_fs)

text \<open>A process between and in its calls: user code changes its memory and its stack pointer.\<close>

inductive calls :: "devsw \<Rightarrow> u32 \<Rightarrow> ksys \<Rightarrow> ksys \<Rightarrow> bool" for dv kend where
  User: "calls dv kend s (s\<lparr>umem := m, p_esp := e\<rparr>)"
| Dup: "sys_dup s = Ret (r, s') \<Longrightarrow> calls dv kend s s'"
| Read: "sys_read dv killed s = Ret (r, s') \<Longrightarrow> calls dv kend s s'"
| Write: "sys_write dv killed s = Ret (r, s') \<Longrightarrow> calls dv kend s s'"
| Close: "sys_close kend s = Ret (r, s') \<Longrightarrow> calls dv kend s s'"
| Fstat: "sys_fstat s = Ret (r, s') \<Longrightarrow> calls dv kend s s'"
| Pipe: "sys_pipe kend s = Ret (r, s') \<Longrightarrow> calls dv kend s s'"
| Open: "sys_open dv kend s = Ret (r, s') \<Longrightarrow> calls dv kend s s'"
| Link: "sys_link dv s = Ret (r, s') \<Longrightarrow> calls dv kend s s'"
| Unlink: "sys_unlink dv s = Ret (r, s') \<Longrightarrow> calls dv kend s s'"
| Mkdir: "sys_mkdir dv s = Ret (r, s') \<Longrightarrow> calls dv kend s s'"
| Mknod: "sys_mknod dv s = Ret (r, s') \<Longrightarrow> calls dv kend s s'"
| Chdir: "sys_chdir s = Ret (r, s') \<Longrightarrow> calls dv kend s s'"

lemma calls_refs: "calls dv kend s s' \<Longrightarrow> refs_ok b s \<Longrightarrow> refs_ok b s'"
proof (induction rule: calls.induct)
  case (Dup s r s')
  then show ?case using sys_dup_refs by fastforce
qed (auto intro: sys_rw_refs sys_close_refs sys_pipe_refs sys_open_refs sys_paths_refs)

text \<open>
  C22. Reference counts of open files. Along every sequence of system calls of a process, in which user
  code does what it likes with its memory and its stack pointer, the count of every entry of the file
  table is the number of its descriptors that name the entry plus those that other processes hold, every
  descriptor names a live entry, and an entry with count 0 is of type \<open>FD_NONE\<close>, so that one taken by
  \<open>filealloc\<close> can be closed without closing a pipe or an inode. So \<open>dup\<close> always returns, and \<open>close\<close> never
  runs into the panic of \<open>fileclose\<close> for a free entry.
\<close>

theorem descriptors_counted:
  assumes "(calls dv kend)\<^sup>*\<^sup>* s0 s" and "refs_ok b s0"
  shows "(\<forall>f<length (ftable (kf s)). f_ref (ftable (kf s) ! f) = int (count_list (ofiles s) (Some f) + b f) \<and>
      (f_ref (ftable (kf s) ! f) = 0 \<longrightarrow> f_type (ftable (kf s) ! f) = FD_NONE)) \<and>
    (\<forall>f. Some f \<in> set (ofiles s) \<longrightarrow> f < length (ftable (kf s)) \<and> f_ref (ftable (kf s) ! f) \<ge> 1) \<and>
    (\<exists>r s'. sys_dup s = Ret (r, s')) \<and>
    (\<forall>fd f. argfd 0 s = Some (fd, f) \<longrightarrow> \<not> f_ref (ftable (kf s) ! f) < 1)"
proof -
  have ok: "refs_ok b s" using assms by (induction rule: rtranclp_induct) (auto intro: calls_refs)
  then have a: "accounts b (tab (kf s)) (ofiles s)" by (simp add: refs_ok_def)
  have "f_ref (ftable (kf s) ! f) = int (count_list (ofiles s) (Some f) + b f) \<and>
      (f_ref (ftable (kf s) ! f) = 0 \<longrightarrow> f_type (ftable (kf s) ! f) = FD_NONE)" if "f < length (ftable (kf s))" for f
    using accountsD(3,4)[OF a, of f] that by (simp add: tab_nth)
  moreover have "f < length (ftable (kf s)) \<and> f_ref (ftable (kf s) ! f) \<ge> 1" if "Some f \<in> set (ofiles s)" for f
    using accounts_held[OF a that] by (auto simp: tab_nth)
  moreover have "\<not> f_ref (ftable (kf s) ! f) < 1" if "argfd 0 s = Some (fd, f)" for fd f
    using argfd_held(2)[OF ok that] by simp
  ultimately show ?thesis using sys_dup_refs[OF ok] by blast
qed

text \<open>A process with one open file, whose stack holds zeros.\<close>

definition demo_proc :: ksys where
  "demo_proc = \<lparr>p_sz = 4096, p_esp = 0, umem = (\<lambda>_. 0), ofiles = Some 0 # replicate 15 None, cwd = 0,
     kf = \<lparr>ftable = [\<lparr>f_type = FD_INODE, f_ref = 1, f_readable = True, f_writable = False, f_pipe = 0, f_ip = 0, f_off = 0\<rparr>],
       fsy = demo_disk, pipe_at = (\<lambda>_. pipe_init []),
       pgs = \<lparr>kmem = (\<lambda>_. 0), freelist = 0, free_pages = 0, ref_cnt = []\<rparr>\<rparr>\<rparr>"

lemma demo_proc_refs: "refs_ok (\<lambda>_. 0) demo_proc"
  by (auto simp: refs_ok_def accounts_def demo_proc_def tab_def NOFILE_def count_list_0_iff)

lemma demo_proc_dup: "\<exists>s1. sys_dup demo_proc = Ret (1, s1) \<and> ofiles s1 = Some 0 # Some 0 # replicate 14 None \<and> length (ftable (kf s1)) = 1"
proof -
  have "argint 0 demo_proc = Some 0" by (simp add: argint_def fetchint_def demo_proc_def load32_def le32_def)
  then have "argfd 0 demo_proc = Some (0, 0)" by (simp add: argfd_def fdlookup_def NOFILE_def demo_proc_def)
  moreover have "fdalloc 0 (ofiles demo_proc) = Some (1, Some 0 # Some 0 # replicate 14 None)"
    by (simp add: demo_proc_def fdalloc_def find_index_def eval_nat_numeral)
  moreover have "\<exists>k. filedup 0 (kf demo_proc) = Ret k \<and> length (ftable k) = 1" by (simp add: filedup_def demo_proc_def set_file_def)
  ultimately show ?thesis by (auto simp: sys_dup_def)
qed

theorem descriptors_counted_witness:
  "\<exists>s1. sys_dup demo_proc = Ret (1, s1) \<and> f_ref (ftable (kf s1) ! 0) = 2"
proof -
  obtain s1 where s1: "sys_dup demo_proc = Ret (1, s1)" "ofiles s1 = Some 0 # Some 0 # replicate 14 None" "length (ftable (kf s1)) = 1"
    using demo_proc_dup by blast
  have "(calls \<lparr>dread = (\<lambda>_ _. None), dwrite = (\<lambda>_ _. None)\<rparr> 0)\<^sup>*\<^sup>* demo_proc s1" using calls.Dup[OF s1(1)] by blast
  then have "f_ref (ftable (kf s1) ! 0) = 2"
    using descriptors_counted[OF _ demo_proc_refs] s1 by (auto simp: count_list_0_iff)
  then show ?thesis using s1(1) by blast
qed

end
