(* ===== verification/Sysargs.thy ===== *)
theory Sysargs
  imports Sysrefs
begin

text \<open>
  Arguments of system calls (\<open>src/P5/xv6/kernel/syscall.c\<close>): what the checks guarantee, and the case they
  miss.
\<close>

lemma fetchint_in:
  assumes "unat (p_sz s) \<le> 2147483648" "fetchint a s = Some v"
  shows "unat a + 4 \<le> unat (p_sz s)"
proof -
  have a: "a < p_sz s" "a + 4 \<le> p_sz s" using assms(2) by (auto simp: fetchint_def not_le not_less split: if_splits)
  then have "unat a < unat (p_sz s)" by (simp add: word_less_nat_alt)
  then have "unat (a + 4) = unat a + 4" using assms(1) by (simp add: unat_word_ariths)
  then show ?thesis using a(2) by (simp add: word_le_nat_alt)
qed

lemma argptr_in:
  assumes sz: "unat (p_sz s) \<le> 2147483648" and len: "0 \<le> sint len" and a: "argptr n len s = Some p"
  shows "unat p + unat len \<le> unat (p_sz s)"
proof -
  have p: "p < p_sz s" "p + len \<le> p_sz s" using a by (auto simp: argptr_def not_le not_less split: option.splits if_splits)
  have l: "unat len < 2147483648" by (rule nonneg_small[OF len])
  have "unat p < unat (p_sz s)" using p(1) by (simp add: word_less_nat_alt)
  then have "unat (p + len) = unat p + unat len" using sz l by (simp add: unat_word_ariths)
  then show ?thesis using p(2) by (simp add: word_le_nat_alt)
qed

lemma fetchstr_in:
  assumes "fetchstr a s = Some (p, l)"
  shows "unat p + l < unat (p_sz s) \<and> cstring (umem s) p (bytes (umem s) p l)"
proof -
  have f: "p = a" "find_index (\<lambda>i. umem s (a + of_nat i) = 0) [0..<unat (p_sz s) - unat a] = Some l" "a < p_sz s"
    using assms by (auto simp: fetchstr_def not_le split: if_splits)
  then have "l < unat (p_sz s) - unat a" "umem s (a + of_nat l) = 0" "\<forall>j<l. umem s (a + of_nat j) \<noteq> 0"
    by (auto simp: find_index_Some_iff)
  then show ?thesis using f(1) by (auto simp: cstring_def bytes_def)
qed

text \<open>
  C29. What the checks of arguments guarantee. For a process that ends below the upper half of the address
  space, every argument word the kernel loads, every block that \<open>argptr\<close> accepts for a size that is not
  negative, and every string that \<open>argstr\<close> accepts with its terminating NUL, lies within the memory of the
  process.
\<close>

theorem arguments_in_bounds:
  assumes sz: "unat (p_sz s) \<le> 2147483648"
  shows "(\<forall>n v. argint n s = Some v \<longrightarrow> unat (p_esp s + 4 + 4 * of_nat n) + 4 \<le> unat (p_sz s)) \<and>
    (\<forall>n len p. argptr n len s = Some p \<and> 0 \<le> sint len \<longrightarrow> unat p + unat len \<le> unat (p_sz s)) \<and>
    (\<forall>n p l. argstr n s = Some (p, l) \<longrightarrow> unat p + l < unat (p_sz s) \<and> cstring (umem s) p (bytes (umem s) p l))"
proof (intro conjI allI impI)
  show "argint n s = Some v \<Longrightarrow> unat (p_esp s + 4 + 4 * of_nat n) + 4 \<le> unat (p_sz s)" for n v
    using fetchint_in[OF sz] by (simp add: argint_def)
  show "argptr n len s = Some p \<and> 0 \<le> sint len \<Longrightarrow> unat p + unat len \<le> unat (p_sz s)" for n len p
    using argptr_in[OF sz] by blast
  show "unat p + l < unat (p_sz s)" "cstring (umem s) p (bytes (umem s) p l)" if "argstr n s = Some (p, l)" for n p l
    using that fetchstr_in[of _ s p l] by (auto simp: argstr_def split: option.splits)
qed

theorem arguments_in_bounds_witness:
  "argptr 0 100 demo_proc = Some 0 \<and> unat (0::u32) + unat (100::i32) \<le> unat (p_sz demo_proc)"
proof -
  have z: "unat (p_sz demo_proc) \<le> 2147483648" by (simp add: demo_proc_def)
  have "argptr 0 100 demo_proc = Some 0" by (simp add: argptr_def argint_def fetchint_def demo_proc_def load32_def le32_def)
  moreover have "0 \<le> sint (100::i32)" by simp
  ultimately show ?thesis using arguments_in_bounds[OF z] by blast
qed

section \<open>A negative count\<close>

lemma file_same:
  assumes "i_dev i' = i_dev i" "i_addrs i' = i_addrs i"
  shows "file_ok s i' = file_ok s i" "fbyte s i' = fbyte s i"
proof -
  have b: "baddr s i' = baddr s i" using assms by (simp add: baddr_def fun_eq_iff)
  then have "faddr s i' = faddr s i" using assms by (simp add: faddr_def fun_eq_iff)
  then show "file_ok s i' = file_ok s i" "fbyte s i' = fbyte s i" using assms b by (simp_all add: file_ok_def fbyte_def fun_eq_iff)
qed

text \<open>Reading an unlocked inode through a descriptor.\<close>

lemma fileread_inode:
  assumes x: "x = ftable k ! f" "f_readable x" "f_type x = FD_INODE" "ip = f_ip x"
    and i: "i = icache (fsy k) ! ip" "ip < length (icache (fsy k))" "i_ref i \<ge> 1" "\<not> i_busy i" "i_valid i"
    and fs: "fs_ok (i_dev i) (fsy k)" "file_ok (fsy k) i" "i_type i \<noteq> T_DEV" "unat (i_size i) \<le> MAXFILE * BSIZE"
    and off: "\<not> (f_off x > i_size i \<or> f_off x + of_int n < f_off x)"
    and m: "m = min (unat (of_int n :: u32)) (unat (i_size i) - unat (f_off x))"
  shows "fileread dv killed f n k = Panic ''balloc: out of blocks'' \<or>
    (\<exists>k'. fileread dv killed f n k = Ret (int m, map (fbyte (fsy k) i) [unat (f_off x)..<unat (f_off x) + m], k'))"
proof -
  let ?i = "i\<lparr>i_busy := True\<rparr>" and ?t = "set_inode ip (i\<lparr>i_busy := True\<rparr>) (fsy k)"
  have lock: "ilock ip (fsy k) = Ret ?t" using i by (simp add: ilock_def Let_def)
  have ti: "?i = icache ?t ! ip" "ip < length (icache ?t)" using i by (simp_all add: set_inode_def)
  have fs': "fs_ok (i_dev i) ?t" "file_ok ?t ?i" "fbyte ?t ?i = fbyte (fsy k) i"
    using fs file_same[of ?i i] by simp_all
  have r: "readi dv ip (f_off x) (of_int n) ?t = Panic ''balloc: out of blocks'' \<or>
      (\<exists>t'. readi dv ip (f_off x) (of_int n) ?t = Ret (int m, map (fbyte (fsy k) i) [unat (f_off x)..<unat (f_off x) + m], t') \<and>
        icache t' = (icache ?t)[ip := ?i\<lparr>i_addrs := i_addrs (icache t' ! ip)\<rparr>])"
    using readi_result[OF fs'(1,2) ti(1) _ ti(2), of m "of_int n" "f_off x" dv] fs(3,4) off m fs'(3) by auto
  have un: "\<exists>t2. iunlock ip t' = Ret t2" if "icache t' = (icache ?t)[ip := ?i\<lparr>i_addrs := a\<rparr>]" for t' a
    using that ti(2) i by (simp add: iunlock_def Let_def)
  from r show ?thesis
  proof (elim disjE exE conjE)
    assume "readi dv ip (f_off x) (of_int n) ?t = Panic ''balloc: out of blocks''"
    then show ?thesis using x lock by (simp add: fileread_def Let_def)
  next
    fix t' assume t': "readi dv ip (f_off x) (of_int n) ?t = Ret (int m, map (fbyte (fsy k) i) [unat (f_off x)..<unat (f_off x) + m], t')"
      "icache t' = (icache ?t)[ip := ?i\<lparr>i_addrs := i_addrs (icache t' ! ip)\<rparr>]"
    obtain t2 where "iunlock ip t' = Ret t2" using un[OF t'(2)] by blast
    then show ?thesis using x lock t'(1) by (simp add: fileread_def Let_def)
  qed
qed

text \<open>
  A negative count passes the check of \<open>argptr\<close>, which adds it to the address as an unsigned number. So
  a \<open>read\<close> of -1 bytes into a buffer at any address above 0 of the process, at the start of a regular file,
  copies the whole file to that address, whether or not it fits into the memory of the process (unless the
  disk is too full to fill a hole of the file).
\<close>

theorem read_negative_count_copies_all:
  assumes fd: "argfd 0 s = Some (fd, f)" and n: "argint 2 s = Some (-1)" and p: "argint 1 s = Some p" "0 < p" "p < p_sz s"
    and x: "x = ftable (kf s) ! f" "f_readable x" "f_type x = FD_INODE" "ip = f_ip x" "f_off x = 0"
    and i: "i = icache (fsy (kf s)) ! ip" "ip < length (icache (fsy (kf s)))" "i_ref i \<ge> 1" "\<not> i_busy i" "i_valid i"
    and fs: "fs_ok (i_dev i) (fsy (kf s))" "file_ok (fsy (kf s)) i" "i_type i \<noteq> T_DEV" "unat (i_size i) \<le> MAXFILE * BSIZE"
  shows "sys_read dv killed s = Panic ''balloc: out of blocks'' \<or>
    (\<exists>s'. sys_read dv killed s = Ret (int (unat (i_size i)), s') \<and>
      umem s' = write_bytes (umem s) p (map (fbyte (fsy (kf s)) i) [0..<unat (i_size i)]))"
proof -
  have "p + (-1) \<le> p_sz s"
  proof -
    have "unat (p - 1) = unat p - 1" using p(2) by (intro unat_minus_one) auto
    then show ?thesis using p(3) by (simp add: word_le_nat_alt word_less_nat_alt)
  qed
  then have ptr: "argptr 1 (-1) s = Some p" using p by (simp add: argptr_def not_le not_less)
  have "unat (-1 :: u32) = 4294967295" by (simp add: unsigned_minus_1_eq_mask mask_eq_exp_minus_1)
  then have m: "unat (i_size i) = min (unat (of_int (-1) :: u32)) (unat (i_size i) - unat (f_off x))"
    using unat_lt_u32[of "i_size i"] x(5) by simp
  have off: "\<not> (f_off x > i_size i \<or> f_off x + of_int (-1) < f_off x)" using x(5) by simp
  have s1: "sint (-1 :: i32) = -1" by simp
  show ?thesis
    using fileread_inode[OF x(1-4) i fs off m, of dv killed] fd n ptr x(5)
    by (auto simp: sys_read_def s1)
qed

text \<open>
  A process of 4096 bytes calls \<open>read(0, 4000, -1)\<close> on a file of 200 bytes, a hole; behind its memory there are
  bytes of value 7.
\<close>

definition demo_hole :: inode where
  "demo_hole = demo_file\<lparr>i_size := 200, i_busy := False\<rparr>"

definition demo_read :: ksys where
  "demo_read = demo_proc\<lparr>umem := (\<lambda>a. if a = 8 then 160 else if a = 9 then 15 else if 12 \<le> a \<and> a < 16 then 255 else if a < 4096 then 0 else 7),
     kf := (kf demo_proc)\<lparr>fsy := set_inode 0 demo_hole demo_disk\<rparr>\<rparr>"

lemma demo_hole_disk:
  "fs_ok 1 (set_inode 0 j demo_disk)" "file_ok (set_inode 0 j demo_disk) demo_hole"
  "icache (set_inode 0 j demo_disk) = [j]" "\<exists>b t. balloc 1 (set_inode 0 j demo_disk) = Ret (b, t)"
proof -
  show fs: "fs_ok 1 (set_inode 0 j demo_disk)" using demo_disk_ok(1) by simp
  show "file_ok (set_inode 0 j demo_disk) demo_hole"
    using demo_file_ok file_same(1)[of demo_hole demo_file] by (simp add: demo_hole_def)
  show "icache (set_inode 0 j demo_disk) = [j]" by (simp add: set_inode_def demo_disk_simps)
  have "\<not> in_use 1 (set_inode 0 j demo_disk) 5" using demo_disk_simps(3)[of 5 1] by (simp add: in_use_def)
  then show "\<exists>b t. balloc 1 (set_inode 0 j demo_disk) = Ret (b, t)"
    using balloc_loop_result[OF fs_okD(1)[OF fs] refl fs_okD(2)[OF fs], of 0]
    by (auto simp: balloc_def demo_disk_simps dest: spec[of _ 5])
qed

lemma demo_read_args: "argfd 0 demo_read = Some (0, 0)" "argint 1 demo_read = Some 4000" "argint 2 demo_read = Some (-1)"
proof -
  have "argint 0 demo_read = Some 0" by (simp add: argint_def fetchint_def demo_read_def demo_proc_def load32_def le32_def)
  then show "argfd 0 demo_read = Some (0, 0)" by (simp add: argfd_def fdlookup_def NOFILE_def demo_read_def demo_proc_def)
  show "argint 1 demo_read = Some 4000" "argint 2 demo_read = Some (-1)"
    by (simp_all add: argint_def fetchint_def demo_read_def demo_proc_def load32_def le32_def)
qed

lemma demo_hole_simps: "i_dev demo_hole = 1" "i_ref demo_hole = 1" "\<not> i_busy demo_hole" "i_valid demo_hole" "i_type demo_hole \<noteq> T_DEV"
    "i_size demo_hole = 200" "i_addrs demo_hole = replicate 13 0"
  by (simp_all add: demo_hole_def demo_file_def T_FILE_def T_DEV_def)

lemma demo_hole_zero: "fbyte s demo_hole n = 0"
proof -
  have "i_addrs demo_hole ! k = 0" if "k < 13" for k using that by (simp add: demo_hole_simps(7) del: replicate.simps)
  then have "baddr s demo_hole k = 0" for k by (simp add: baddr_def NDIRECT_def)
  then show ?thesis by (simp add: fbyte_def)
qed

text \<open>There is a free block for the hole.\<close>

lemma demo_read_not_full:
  "sys_read \<lparr>dread = (\<lambda>_ _. None), dwrite = (\<lambda>_ _. None)\<rparr> False demo_read \<noteq> Panic ''balloc: out of blocks''"
proof -
  let ?dv = "\<lparr>dread = (\<lambda>_ _. None), dwrite = (\<lambda>_ _. None)\<rparr>"
  let ?j = "demo_hole\<lparr>i_busy := True\<rparr>"
  let ?t = "set_inode 0 ?j demo_disk"
  have ic: "icache ?t ! 0 = ?j" "icache (set_inode 0 demo_hole demo_disk) ! 0 = demo_hole" by (simp_all add: demo_hole_disk(3))
  have "set_inode 0 ?j (set_inode 0 demo_hole demo_disk) = ?t" by (simp add: set_inode_def)
  then have lock: "ilock 0 (set_inode 0 demo_hole demo_disk) = Ret ?t"
    using ic demo_hole_simps by (simp add: ilock_def Let_def)
  obtain b u where "balloc 1 ?t = Ret (b, u)" using demo_hole_disk(4) by blast
  then have "bmap 0 0 ?t = Ret (b, set_addr 0 0 b u)"
    using demo_hole_simps(1,7) by (simp add: bmap_def Let_def ic NDIRECT_def)
  then have "\<exists>y. readi_loop 0 0 200 ?t = Ret y"
    by (simp add: readi_loop.simps[of 0 0] BSIZE_def Let_def) (simp add: readi_loop.simps)
  moreover have "readi ?dv 0 0 (-1) ?t = bindO (readi_loop 0 (unat (0::u32)) (unat (200::u32)) ?t) (\<lambda>(xs, s1). Ret (uint (200::u32), xs, s1))"
    by (rule readi_run) (use demo_hole_simps in \<open>simp_all add: ic\<close>)
  ultimately have "\<exists>r bs t1. readi ?dv 0 0 (-1) ?t = Ret (r, bs, t1)" by auto
  moreover have "iunlock 0 t1 \<noteq> Panic ''balloc: out of blocks''" for t1 by (simp add: iunlock_def Let_def)
  ultimately have "fileread ?dv False 0 (-1) (kf demo_read) \<noteq> Panic ''balloc: out of blocks''"
    using lock by (auto simp: fileread_def Let_def demo_read_def demo_proc_def bindO_def split: outcome.splits)
  moreover have "argptr 1 (-1) demo_read = Some 4000" using demo_read_args(2) by (simp add: argptr_def demo_read_def demo_proc_def)
  ultimately show ?thesis using demo_read_args by (auto simp: sys_read_def bindO_def split: outcome.splits)
qed

theorem read_negative_count_copies_all_witness:
  "\<exists>s'. sys_read \<lparr>dread = (\<lambda>_ _. None), dwrite = (\<lambda>_ _. None)\<rparr> False demo_read = Ret (200, s') \<and>
     p_sz demo_read \<le> 4100 \<and> umem demo_read 4100 = 7 \<and> umem s' 4100 = 0"
proof -
  let ?dv = "\<lparr>dread = (\<lambda>_ _. None), dwrite = (\<lambda>_ _. None)\<rparr>" and ?x = "ftable (kf demo_read) ! 0"
  have k: "fsy (kf demo_read) = set_inode 0 demo_hole demo_disk" "f_readable ?x" "f_type ?x = FD_INODE" "0 = f_ip ?x" "f_off ?x = 0"
    "(4000::u32) < p_sz demo_read" "umem demo_read 4100 = 7" "p_sz demo_read \<le> 4100"
    by (simp_all add: demo_read_def demo_proc_def)
  have i: "demo_hole = icache (fsy (kf demo_read)) ! 0" "0 < length (icache (fsy (kf demo_read)))" "i_ref demo_hole \<ge> 1"
    "fs_ok (i_dev demo_hole) (fsy (kf demo_read))" "file_ok (fsy (kf demo_read)) demo_hole" "unat (i_size demo_hole) \<le> MAXFILE * BSIZE"
    using demo_hole_disk demo_hole_simps by (simp_all add: k(1) MAXFILE_def BSIZE_def)
  have "(0::u32) < 4000" by simp
  then have "\<exists>s'. sys_read ?dv False demo_read = Ret (int (unat (i_size demo_hole)), s') \<and>
      umem s' = write_bytes (umem demo_read) 4000 (map (fbyte (fsy (kf demo_read)) demo_hole) [0..<unat (i_size demo_hole)])"
    using read_negative_count_copies_all[OF demo_read_args(1,3,2) _ k(6) refl k(2-5) i(1-3) demo_hole_simps(3,4) i(4,5) demo_hole_simps(5) i(6), of ?dv False]
      demo_read_not_full by blast
  then show ?thesis using k(7,8) by (auto simp: demo_hole_simps(6) demo_hole_zero write_bytes_def)
qed

end
