(* ===== verification/Exec.thy ===== *)
theory Exec
  imports Cow Sysfile
begin

text \<open>
  Replacing the image of a process (\<open>src/P5/xv6/kernel/exec.c\<close>, \<open>elf.h\<close>, \<open>loaduvm\<close> of \<open>vm.c\<close> and \<open>sys_exec\<close> of
  \<open>sysfile.c\<close>), which puts the page tables of \<open>Vm\<close> and the file system of \<open>Fs\<close> together.

  The state is the memory with its allocator, the file system, and what \<open>exec\<close> sets of the process. \<open>junk\<close> is what
  the header on the kernel's stack held before it was read. Switching to the new page table has no effect on
  this state.
\<close>

section \<open>ELF files\<close>

definition ELF_MAGIC :: u32 where
  "ELF_MAGIC = 0x464C457F"

definition ELF_PROG_LOAD :: u32 where
  "ELF_PROG_LOAD = 1"

definition MAXARG :: nat where
  "MAXARG = 32"

record elfhdr =
  e_magic :: u32
  e_entry :: u32
  e_phoff :: u32
  e_phnum :: u16

definition elfhdr_at :: "u8 list \<Rightarrow> elfhdr" where
  "elfhdr_at b = \<lparr> e_magic = get32 b 0, e_entry = get32 b 24, e_phoff = get32 b 28, e_phnum = get16 b 44 \<rparr>"

record proghdr =
  ph_type :: u32
  ph_offset :: u32
  ph_va :: u32
  ph_filesz :: u32
  ph_memsz :: u32

definition proghdr_at :: "u8 list \<Rightarrow> proghdr" where
  "proghdr_at b =
     \<lparr> ph_type = get32 b 0, ph_offset = get32 b 4, ph_va = get32 b 8, ph_filesz = get32 b 16, ph_memsz = get32 b 20 \<rparr>"

section \<open>Loading\<close>

function load_loop ::
  "devsw \<Rightarrow> u32 \<Rightarrow> u32 \<Rightarrow> nat \<Rightarrow> u32 \<Rightarrow> u32 \<Rightarrow> u32 \<Rightarrow> kstate \<Rightarrow> fsys \<Rightarrow> (int \<times> kstate \<times> fsys) outcome"
where
  "load_loop dv pgdir addr ip offset sz i k f =
     (if i < sz then
        bindO (walkpgdir pgdir (addr + i) False k) (\<lambda>(pte, k1).
        if pte = 0 then Panic ''loaduvm: address should exist''
        else
          let pa = PTE_ADDR (load32 (kmem k1) pte); n = (if sz - i < PGSIZE then sz - i else PGSIZE) in
          bindO (readi dv ip (offset + i) n f) (\<lambda>(r, xs, f1).
          let k2 = k1\<lparr>kmem := write_bytes (kmem k1) pa xs\<rparr> in
          if of_int r \<noteq> n then Ret (-1, k2, f1)
          else if i + PGSIZE < i then Undef ''loaduvm does not end''
          else load_loop dv pgdir addr ip offset sz (i + PGSIZE) k2 f1))
      else Ret (0, k, f))"
  by auto

termination
  by (relation "measure (\<lambda>(_, _, _, _, _, _, i, _, _). 4294967296 - unat i)") (simp_all add: page_step_decreases)

declare load_loop.simps [simp del]

definition loaduvm ::
  "devsw \<Rightarrow> u32 \<Rightarrow> u32 \<Rightarrow> nat \<Rightarrow> u32 \<Rightarrow> u32 \<Rightarrow> kstate \<Rightarrow> fsys \<Rightarrow> (int \<times> kstate \<times> fsys) outcome"
where
  "loaduvm dv pgdir addr ip offset sz k f =
     (if addr mod PGSIZE \<noteq> 0 then Panic ''loaduvm: addr must be page aligned''
      else load_loop dv pgdir addr ip offset sz 0 k f)"

text \<open>The loop over the program headers: whether it came to its end, the size reached, and the state.\<close>

fun load_segments ::
  "u32 \<Rightarrow> devsw \<Rightarrow> u32 \<Rightarrow> nat \<Rightarrow> nat \<Rightarrow> u32 \<Rightarrow> u32 \<Rightarrow> kstate \<Rightarrow> fsys \<Rightarrow> (bool \<times> u32 \<times> kstate \<times> fsys) outcome"
where
  "load_segments kend dv pgdir ip 0 off sz k f = Ret (True, sz, k, f)"
| "load_segments kend dv pgdir ip (Suc n) off sz k f =
     bindO (readi dv ip off 32 f) (\<lambda>(r, xs, f1).
     let ph = proghdr_at xs in
     if of_int r \<noteq> (32 :: u32) then Ret (False, sz, k, f1)
     else if length xs < 32 then Undef ''short device read''
     else if ph_type ph \<noteq> ELF_PROG_LOAD then load_segments kend dv pgdir ip n (off + 32) sz k f1
     else if ph_memsz ph < ph_filesz ph then Ret (False, sz, k, f1)
     else bindO (allocuvm kend pgdir sz (ph_va ph + ph_memsz ph) k) (\<lambda>(sz1, k1).
       if sz1 = 0 then Ret (False, sz1, k1, f1)
       else bindO (loaduvm dv pgdir (ph_va ph) ip (ph_offset ph) (ph_filesz ph) k1 f1) (\<lambda>(r1, k2, f2).
         if r1 < 0 then Ret (False, sz1, k2, f2)
         else load_segments kend dv pgdir ip n (off + 32) sz1 k2 f2)))"

section \<open>The stack\<close>

text \<open>The argument strings are pushed one by one, each at a multiple of four.\<close>

fun push_args :: "u32 \<Rightarrow> u32 \<Rightarrow> u32 list \<Rightarrow> u8 list list \<Rightarrow> kstate \<Rightarrow> (int \<times> u32 \<times> u32 list \<times> kstate) outcome" where
  "push_args pgdir sp ptrs [] k = Ret (0, sp, ptrs, k)"
| "push_args pgdir sp ptrs (a # as) k =
     (if MAXARG \<le> length ptrs then Ret (-1, sp, ptrs, k)
      else
        let sp1 = (sp - (of_nat (length a) + 1)) AND NOT 3 in
        bindO (copyout pgdir sp1 (a @ [0]) k) (\<lambda>(r, k1).
        if r < 0 then Ret (-1, sp1, ptrs, k1) else push_args pgdir sp1 (ptrs @ [sp1]) as k1))"

definition exec_stack :: "u32 \<Rightarrow> u32 \<Rightarrow> u8 list list \<Rightarrow> kstate \<Rightarrow> (int \<times> u32 \<times> kstate) outcome" where
  "exec_stack pgdir sz args k =
     bindO (push_args pgdir sz [] args k) (\<lambda>(r, sp, ptrs, k1).
     if r < 0 then Ret (-1, sp, k1)
     else
       let argc = length ptrs;
           ustack = [0xFFFFFFFF, of_nat argc, sp - of_nat ((argc + 1) * 4)] @ ptrs @ [0];
           sp1 = sp - of_nat ((3 + argc + 1) * 4) in
       bindO (copyout pgdir sp1 (concat (map word_bytes ustack)) k1) (\<lambda>(r1, k2).
       Ret (if r1 < 0 then -1 else 0, sp1, k2)))"

section \<open>exec\<close>

record exec_image =
  x_mem :: kstate
  x_fs :: fsys
  x_pgdir :: u32
  x_sz :: u32
  x_eip :: u32
  x_esp :: u32
  x_name :: "u8 list"

text \<open>The jump to \<open>bad\<close>, with the page directory or 0 and the inode if it is still locked.\<close>

definition exec_bad :: "u32 \<Rightarrow> u32 \<Rightarrow> nat option \<Rightarrow> kstate \<Rightarrow> fsys \<Rightarrow> exec_image \<Rightarrow> (int \<times> exec_image) outcome" where
  "exec_bad kend pgdir ip k f x =
     bindO (if pgdir \<noteq> 0 then freevm kend pgdir k else Ret k) (\<lambda>k1.
     bindO (case ip of None \<Rightarrow> Ret f | Some i \<Rightarrow> iunlockput i f) (\<lambda>f1.
     Ret (-1, x\<lparr>x_mem := k1, x_fs := f1\<rparr>)))"

text \<open>
  The part of the path after its last slash, as \<open>safestrcpy\<close> puts it into the sixteen bytes of the name: at most
  fifteen bytes, the end of the string among them, and one more zero.
\<close>

definition program_name :: "u8 list \<Rightarrow> u8 list \<Rightarrow> u8 list" where
  "program_name path old =
     (let w = take 15 (rev (takeWhile (\<lambda>c. c \<noteq> 47) (rev path)) @ [0]) @ [0] in w @ drop (length w) old)"

definition exec ::
  "u32 \<Rightarrow> u32 \<Rightarrow> devsw \<Rightarrow> u8 list \<Rightarrow> nat \<Rightarrow> u8 list \<Rightarrow> u8 list list \<Rightarrow> exec_image \<Rightarrow> (int \<times> exec_image) outcome"
where
  "exec kend data dv junk dir path args x =
     bindO (namei dir path (x_fs x)) (\<lambda>(r, f1).
     case r of
       None \<Rightarrow> Ret (-1, x\<lparr>x_fs := f1\<rparr>)
     | Some ip \<Rightarrow>
         bindO (ilock ip f1) (\<lambda>f2.
         bindO (readi dv ip 0 52 f2) (\<lambda>(r0, xs, f3).
         let elf = elfhdr_at (xs @ drop (length xs) junk) in
         if (of_int r0 :: u32) < 52 \<or> e_magic elf \<noteq> ELF_MAGIC then exec_bad kend 0 (Some ip) (x_mem x) f3 x
         else bindO (setupkvm data (x_mem x)) (\<lambda>(pgdir, k1).
           if pgdir = 0 then exec_bad kend 0 (Some ip) k1 f3 x
           else bindO (load_segments kend dv pgdir ip (unat (e_phnum elf)) (e_phoff elf) 0 k1 f3) (\<lambda>(ok, sz, k2, f4).
             if \<not> ok then exec_bad kend pgdir (Some ip) k2 f4 x
             else bindO (iunlockput ip f4) (\<lambda>f5.
               bindO (allocuvm kend pgdir (PGROUNDUP sz) (PGROUNDUP sz + PGSIZE) k2) (\<lambda>(sz1, k3).
               if sz1 = 0 then exec_bad kend pgdir None k3 f5 x
               else bindO (exec_stack pgdir sz1 args k3) (\<lambda>(r1, sp, k4).
                 if r1 < 0 then exec_bad kend pgdir None k4 f5 x
                 else bindO (freevm kend (x_pgdir x) k4) (\<lambda>k5.
                   Ret (0, x\<lparr>x_mem := k5, x_fs := f5, x_pgdir := pgdir, x_sz := sz1, x_eip := e_entry elf,
                              x_esp := sp, x_name := program_name path (x_name x)\<rparr>))))))))))"

text \<open>The system call fetches the arguments from the memory of the calling process; the array has \<open>MAXARG\<close> places.\<close>

fun fetch_argv :: "nat \<Rightarrow> u32 \<Rightarrow> ksys \<Rightarrow> u8 list list option" where
  "fetch_argv 0 ua s = None"
| "fetch_argv (Suc n) ua s =
     (case fetchint ua s of
        None \<Rightarrow> None
      | Some uarg \<Rightarrow>
          if uarg = 0 then Some []
          else (case fetchstr uarg s of
                  None \<Rightarrow> None
                | Some (p, l) \<Rightarrow> map_option (\<lambda>as. bytes (umem s) p l # as) (fetch_argv n (ua + 4) s)))"

definition sys_exec :: "u32 \<Rightarrow> u32 \<Rightarrow> devsw \<Rightarrow> u8 list \<Rightarrow> ksys \<Rightarrow> exec_image \<Rightarrow> (int \<times> exec_image) outcome" where
  "sys_exec kend data dv junk s x =
     (case (argpath 0 s, argint 1 s) of
        (Some path, Some uargv) \<Rightarrow>
          (case fetch_argv MAXARG uargv s of
             None \<Rightarrow> Ret (-1, x)
           | Some args \<Rightarrow> exec kend data dv junk (cwd s) path args x)
      | _ \<Rightarrow> Ret (-1, x))"

end
