(* ===== verification/Usermem.thy ===== *)
theory Usermem
  imports Cow
begin

text \<open>
  The memory of a process as its page table shows it, and what the kernel writes there: \<open>copyout\<close> refines the
  replacement of a range of bytes, and the stack that \<open>exec\<close> builds holds the arguments where \<open>main\<close> looks for them.
\<close>

section \<open>User memory\<close>

definition frame_of :: "mem \<Rightarrow> u32 \<Rightarrow> u32 \<Rightarrow> u32" where
  "frame_of m pgdir va = PTE_ADDR (the (mapping m pgdir va))"

text \<open>The byte at a virtual address, and several of them.\<close>

definition ubyte :: "mem \<Rightarrow> u32 \<Rightarrow> nat \<Rightarrow> u8" where
  "ubyte m pgdir a = m (frame_of m pgdir (of_nat a) + of_nat (a mod 4096))"

definition ubytes :: "mem \<Rightarrow> u32 \<Rightarrow> nat \<Rightarrow> nat \<Rightarrow> u8 list" where
  "ubytes m pgdir a n = map (\<lambda>i. ubyte m pgdir (a + i)) [0..<n]"

text \<open>
  A range of addresses the process may use: mapped for it, to frames that hold no page table, different pages to
  different frames.
\<close>

definition user_range :: "u32 \<Rightarrow> mem \<Rightarrow> u32 \<Rightarrow> nat \<Rightarrow> nat \<Rightarrow> bool" where
  "user_range kend m pgdir a n \<longleftrightarrow>
     0 < kend \<and> pgdir_wf m pgdir \<and> (\<forall>p\<in>owned m pgdir. page_ok kend p) \<and> a + n < 4294967296 \<and>
     (\<forall>i. a \<le> i \<and> i < a + n \<longrightarrow>
        (\<exists>e. mapping m pgdir (of_nat i) = Some e \<and> e AND PTE_U \<noteq> 0 \<and> PTE_ADDR e \<noteq> 0 \<and> PTE_ADDR e \<notin> owned m pgdir)) \<and>
     (\<forall>i j. a \<le> i \<and> i < a + n \<and> a \<le> j \<and> j < a + n \<and> frame_of m pgdir (of_nat i) = frame_of m pgdir (of_nat j) \<longrightarrow>
        i div 4096 = j div 4096)"

lemma user_range_mapping:
  assumes "mapping m' pgdir = mapping m pgdir" and "owned m' pgdir = owned m pgdir" and "pgdir_wf m' pgdir = pgdir_wf m pgdir"
  shows "user_range kend m' pgdir a n = user_range kend m pgdir a n"
  unfolding user_range_def frame_of_def using assms by simp

lemma walk_user:
  assumes "pgdir_wf (kmem s) pgdir" and "\<forall>p\<in>owned (kmem s) pgdir. page_ok kend p" and "0 < kend"
    and e: "mapping (kmem s) pgdir va = Some e"
  shows "\<exists>pte. walkpgdir pgdir va False s = Ret (pte, s) \<and> pte \<noteq> 0 \<and> load32 (kmem s) pte = e \<and> present e"
proof -
  have p: "present (ent (kmem s) pgdir (pdx va))" and e': "ent (kmem s) (table_of (kmem s) pgdir va) (ptx va) = e" "present e"
    using e by (auto simp: mapping_def table_of_def Let_def split: if_splits)
  have "table_of (kmem s) pgdir va \<in> owned (kmem s) pgdir"
    using p by (auto simp: table_of_def owned_def tables_def)
  then have "ent_addr (table_of (kmem s) pgdir va) (ptx va) \<noteq> 0"
    using assms(2,3) by (intro ent_addr_nonzero) auto
  then show ?thesis using walk_found[OF p, of False] e' by (simp add: ent_def)
qed

lemma uva2ka_user:
  assumes "pgdir_wf (kmem s) pgdir" and "\<forall>p\<in>owned (kmem s) pgdir. page_ok kend p" and "0 < kend"
    and e: "mapping (kmem s) pgdir va = Some e" "e AND PTE_U \<noteq> 0"
  shows "uva2ka pgdir va s = Ret (PTE_ADDR e)"
  using walk_user[OF assms(1-4)] e(2) by (auto simp: uva2ka_def Let_def)

lemma same_page_of_nat:
  "i < 4294967296 \<Longrightarrow> j < 4294967296 \<Longrightarrow> same_page (of_nat i) (of_nat j) \<longleftrightarrow> i div 4096 = j div 4096"
  by (simp add: same_page_def)

lemma region_shift:
  assumes "unat (x - (p + of_nat k)) + k < 4294967296"
  shows "unat (x - (p :: u32)) = unat (x - (p + of_nat k)) + k"
proof -
  let ?y = "x - (p + of_nat k)"
  have "x - p = of_nat (unat ?y + k)" by simp
  then have "unat (x - p) = unat (of_nat (unat ?y + k) :: u32)" by (rule arg_cong)
  then show ?thesis using assms by (simp only: unat_of_nat_u32)
qed

lemma unat_of_nat_minus:
  assumes "i < 4096" and "k < 4096"
  shows "unat ((of_nat i :: u32) - of_nat k) = (if k \<le> i then i - k else 4294967296 + i - k)"
proof -
  have "(of_nat i :: u32) - of_nat k = of_nat (if k \<le> i then i - k else 4294967296 + i - k)"
    using assms by (simp add: of_nat_diff)
  then have "unat ((of_nat i :: u32) - of_nat k) = unat (of_nat (if k \<le> i then i - k else 4294967296 + i - k) :: u32)"
    by (rule arg_cong)
  also have "\<dots> = (if k \<le> i then i - k else 4294967296 + i - k)"
    using assms by (intro unat_of_nat_u32) auto
  finally show ?thesis .
qed

lemma frame_of_page: "i < 4294967296 \<Longrightarrow> j < 4294967296 \<Longrightarrow> i div 4096 = j div 4096 \<Longrightarrow>
    frame_of m pgdir (of_nat i) = frame_of m pgdir (of_nat j)"
  using mapping_same_page[of "of_nat i" "of_nat j"] same_page_of_nat[of i j] by (simp add: frame_of_def)

text \<open>Bytes written into one page of the range.\<close>

lemma write_in_page:
  assumes ur: "user_range kend m pgdir a n" and va: "a \<le> va" "va + length bs \<le> a + n" "va mod 4096 + length bs \<le> 4096" "bs \<noteq> []"
  defines "m' \<equiv> write_bytes m (frame_of m pgdir (of_nat va) + of_nat (va mod 4096)) bs"
  shows "mapping m' pgdir = mapping m pgdir" and "user_range kend m' pgdir a n"
    and "same_outside {frame_of m pgdir (of_nat va)} m m'"
    and "\<And>x. a \<le> x \<Longrightarrow> x < a + n \<Longrightarrow> ubyte m' pgdir x = overwrite (ubyte m pgdir) va bs x"
proof -
  let ?P = "frame_of m pgdir (of_nat va)" and ?k = "va mod 4096"
  have lt: "va < a + n" using va by (cases bs) auto
  have al: "aligned ?P" by (simp add: frame_of_def)
  have "?P \<notin> owned m pgdir" using ur va(1) lt by (force simp: user_range_def frame_of_def)
  have out: "m' x = m x" if "\<not> in_page ?P x" for x
  proof -
    have "\<not> unat (x - (?P + of_nat ?k)) < length bs"
      using that region_shift[of x ?P ?k] va(3) by (auto simp: in_page_def)
    then show ?thesis unfolding m'_def by (intro write_bytes_outside) simp
  qed
  then show "same_outside {?P} m m'" by (simp add: same_outside_def)
  have "m' x = m x" if "p \<in> owned m pgdir" "in_page p x" for p x
    using that al \<open>?P \<notin> owned m pgdir\<close> ur owned_aligned[of m pgdir p] by (intro out aligned_distinct[of p]) (auto simp: user_range_def)
  note fr = space_frame[OF this]
  show "mapping m' pgdir = mapping m pgdir" by (rule fr)
  show "user_range kend m' pgdir a n" using fr ur by (subst user_range_mapping) auto
  have fo: "frame_of m' pgdir = frame_of m pgdir" unfolding frame_of_def by (subst fr) simp_all
  have b: "a + n < 4294967296" using ur by (simp add: user_range_def)
  show "ubyte m' pgdir x = overwrite (ubyte m pgdir) va bs x" if x: "a \<le> x" "x < a + n" for x
  proof (cases "x div 4096 = va div 4096")
    case True
    then have fx: "frame_of m pgdir (of_nat x) = ?P" using x lt b by (intro frame_of_page) auto
    have d: "va \<le> x \<longleftrightarrow> ?k \<le> x mod 4096" "va \<le> x \<Longrightarrow> x - va = x mod 4096 - ?k"
      using True div_mult_mod_eq[of x 4096] div_mult_mod_eq[of va 4096] by linarith+
    have "ubyte m' pgdir x = write_bytes m (?P + of_nat ?k) bs (?P + of_nat (x mod 4096))"
      unfolding ubyte_def fo fx by (simp only: m'_def)
    also have "\<dots> = overwrite (ubyte m pgdir) va bs x"
    proof (cases "?k \<le> x mod 4096")
      case True
      then have "unat ((of_nat (x mod 4096) :: u32) - of_nat ?k) = x - va"
        by (subst unat_of_nat_minus) (simp_all add: d)
      then show ?thesis using True d(1) fx by (auto simp: write_bytes_def overwrite_def ubyte_def)
    next
      case False
      then have "length bs \<le> unat ((of_nat (x mod 4096) :: u32) - of_nat ?k)"
        using va(3) by (subst unat_of_nat_minus) simp_all
      then show ?thesis using False d(1) fx by (simp add: write_bytes_def overwrite_def ubyte_def)
    qed
    finally show ?thesis .
  next
    case False
    have "frame_of m pgdir (of_nat x) \<noteq> ?P" using ur x lt va(1) False unfolding user_range_def by blast
    then have "\<not> in_page ?P (frame_of m pgdir (of_nat x) + of_nat (x mod 4096))"
      using al by (intro aligned_distinct[of "frame_of m pgdir (of_nat x)"]) (auto simp: frame_of_def in_page_def)
    moreover have "\<not> (va \<le> x \<and> x < va + length bs)"
    proof
      assume v: "va \<le> x \<and> x < va + length bs"
      then have "va div 4096 * 4096 \<le> x" "x < va div 4096 * 4096 + 4096"
        using va(3) div_mult_mod_eq[of va 4096] by linarith+
      then have "x div 4096 = va div 4096" by (intro div_nat_eqI) simp_all
      then show False using False by simp
    qed
    ultimately show ?thesis using out by (auto simp: ubyte_def fo overwrite_def)
  qed
qed

text \<open>\<open>copyout\<close> replaces a range of the bytes of the process, whatever pages it crosses.\<close>

definition written :: "u32 \<Rightarrow> u32 \<Rightarrow> nat \<Rightarrow> nat \<Rightarrow> nat \<Rightarrow> u8 list \<Rightarrow> kstate \<Rightarrow> kstate \<Rightarrow> bool" where
  "written kend pgdir a n va bs s s' \<longleftrightarrow>
     user_range kend (kmem s') pgdir a n \<and> mapping (kmem s') pgdir = mapping (kmem s) pgdir \<and>
     (\<forall>x. a \<le> x \<and> x < a + n \<longrightarrow> ubyte (kmem s') pgdir x = overwrite (ubyte (kmem s) pgdir) va bs x) \<and>
     same_outside {frame_of (kmem s) pgdir (of_nat i) |i. a \<le> i \<and> i < a + n} (kmem s) (kmem s') \<and>
     (\<exists>m. s' = s\<lparr>kmem := m\<rparr>)"

lemma written_Nil: "user_range kend (kmem s) pgdir a n \<Longrightarrow> written kend pgdir a n va [] s s"
  by (auto simp: written_def overwrite_def same_outside_def intro: exI[of _ "kmem s"])

lemma written_append:
  assumes w: "written kend pgdir a n va bs s s1" "written kend pgdir a n (va + length bs) cs s1 s2"
  shows "written kend pgdir a n va (bs @ cs) s s2"
proof -
  have f: "frame_of (kmem s1) pgdir = frame_of (kmem s) pgdir"
    using w(1) by (simp add: written_def frame_of_def fun_eq_iff)
  show ?thesis
    unfolding written_def
  proof (intro conjI allI impI)
    show "user_range kend (kmem s2) pgdir a n" "mapping (kmem s2) pgdir = mapping (kmem s) pgdir"
      using w by (simp_all add: written_def)
    show "\<exists>m. s2 = s\<lparr>kmem := m\<rparr>" using w by (auto simp: written_def)
    show "same_outside {frame_of (kmem s) pgdir (of_nat i) |i. a \<le> i \<and> i < a + n} (kmem s) (kmem s2)"
      using w f by (simp add: written_def same_outside_def)
    show "ubyte (kmem s2) pgdir x = overwrite (ubyte (kmem s) pgdir) va (bs @ cs) x" if "a \<le> x \<and> x < a + n" for x
      using w that by (simp add: written_def overwrite_append overwrite_def)
  qed
qed

lemma written_page:
  assumes ur: "user_range kend (kmem s) pgdir a n" and va: "a \<le> va" "va + length bs \<le> a + n" "va mod 4096 + length bs \<le> 4096"
      "bs \<noteq> []"
  shows "written kend pgdir a n va bs s
      (s\<lparr>kmem := write_bytes (kmem s) (frame_of (kmem s) pgdir (of_nat va) + of_nat (va mod 4096)) bs\<rparr>)"
proof -
  note w = write_in_page[OF ur va]
  have "va < a + n" using va by (cases bs) auto
  then show ?thesis using w va(1) by (auto simp: written_def same_outside_def)
qed

lemma PGROUNDDOWN_of_nat:
  assumes "va < 4294967296"
  shows "PGROUNDDOWN (of_nat va) = of_nat (va - va mod 4096)"
    and "(of_nat va :: u32) - PGROUNDDOWN (of_nat va) = of_nat (va mod 4096)"
proof -
  have "unat (PGROUNDDOWN (of_nat va)) = va div 4096 * 4096" using assms by (simp add: PGROUNDDOWN_nat)
  then have "PGROUNDDOWN (of_nat va) = of_nat (va div 4096 * 4096)" by (metis of_nat_unat ucast_id)
  then show d: "PGROUNDDOWN (of_nat va) = of_nat (va - va mod 4096)" by (simp add: minus_mod_eq_div_mult)
  show "(of_nat va :: u32) - PGROUNDDOWN (of_nat va) = of_nat (va mod 4096)"
    unfolding d by (simp flip: of_nat_diff)
qed

lemma page_end: "(k :: nat) \<le> v \<Longrightarrow> k \<le> 4096 \<Longrightarrow> v - k + 4096 = v + (4096 - k)"
  by linarith

lemma copyout_user:
  assumes "user_range kend (kmem s) pgdir a n" and "a \<le> va" and "va + length buf \<le> a + n"
  shows "\<exists>s'. copyout pgdir (of_nat va) buf s = Ret (0, s') \<and> written kend pgdir a n va buf s s'"
  using assms
proof (induction buf arbitrary: va s rule: length_induct)
  case (1 buf)
  note ur = "1.prems"(1) and va = "1.prems"(2,3)
  show ?case
  proof (cases "buf = []")
    case True
    then show ?thesis using written_Nil[OF ur] by (subst copyout.simps) simp
  next
    case False
    let ?k = "va mod 4096"
    let ?n = "min (4096 - ?k) (length buf)" and ?va0 = "PGROUNDDOWN (of_nat va)"
    have b: "va < a + n" "a + n < 4294967296" using False va ur by (cases buf; auto simp: user_range_def)+
    then obtain e where e: "mapping (kmem s) pgdir (of_nat va) = Some e" "e AND PTE_U \<noteq> 0" "PTE_ADDR e \<noteq> 0"
      using ur va(1) by (auto simp: user_range_def)
    have "mapping (kmem s) pgdir ?va0 = Some e" using e(1) mapping_same_page[OF PGROUNDDOWN_page] by simp
    then have u: "uva2ka pgdir ?va0 s = Ret (PTE_ADDR e)"
      using ur e(2) by (intro uva2ka_user) (auto simp: user_range_def)
    have "va < 4294967296" using b by linarith
    note pg = PGROUNDDOWN_of_nat[OF this]
    let ?s = "s\<lparr>kmem := write_bytes (kmem s) (frame_of (kmem s) pgdir (of_nat va) + of_nat ?k) (take ?n buf)\<rparr>"
    have n: "0 < ?n" "?k < 4096" using False by simp_all
    then have n0: "(?n = 0) = False" using gr_implies_not0[of 0 ?n] by blast
    have step: "copyout pgdir (of_nat va) buf s = copyout pgdir (?va0 + PGSIZE) (drop ?n buf) ?s"
      using False u e(1,3) pg(2) b by (subst copyout.simps) (simp add: Let_def frame_of_def n0)
    have w: "written kend pgdir a n va (take ?n buf) s ?s"
      using va n by (intro written_page[OF ur]) auto
    show ?thesis
    proof (cases "?n = length buf")
      case True
      then show ?thesis using step w by (simp add: copyout.simps)
    next
      case more: False
      then have n4: "?n = 4096 - ?k" "?n < length buf" by linarith+
      have "?va0 + PGSIZE = of_nat (va - ?k + 4096)" unfolding pg(1) PGSIZE_def by (simp only: of_nat_add of_nat_numeral)
      also have "va - ?k + 4096 = va + ?n"
        unfolding n4(1) by (rule page_end) (use n(2) mod_less_eq_dividend[of va 4096] in simp_all)
      finally have next_va: "?va0 + PGSIZE = of_nat (va + ?n)" .
      have ur1: "user_range kend (kmem ?s) pgdir a n" using w unfolding written_def by blast
      have len: "length (take ?n buf) = ?n" "length (drop ?n buf) = length buf - ?n" by simp_all
      have lt: "length (drop ?n buf) < length buf" "va + ?n + length (drop ?n buf) \<le> a + n"
        using len(2) n(1) n4(2) va(2) by linarith+
      obtain s' where s': "copyout pgdir (of_nat (va + ?n)) (drop ?n buf) ?s = Ret (0, s')"
          "written kend pgdir a n (va + ?n) (drop ?n buf) ?s s'"
        using "1.IH"[rule_format, OF lt(1) ur1 trans_le_add1[OF va(1)] lt(2)] by blast
      have "written kend pgdir a n va (take ?n buf @ drop ?n buf) s s'"
        using s'(2) by (intro written_append[OF w]) (simp only: len(1))
      then show ?thesis using s'(1) unfolding step next_va append_take_drop_id by blast
    qed
  qed
qed

section \<open>What a piece of the kernel changes of a process\<close>

lemma length_ubytes [simp]: "length (ubytes m pgdir x k) = k"
  by (simp add: ubytes_def)

lemma written_ubytes:
  assumes "written kend pgdir a n va bs s s'" and "a \<le> va" and "va + length bs \<le> a + n"
  shows "ubytes (kmem s') pgdir va (length bs) = bs"
  using assms by (intro nth_equalityI) (auto simp: ubytes_def written_def overwrite_def)

text \<open>Only bytes between \<open>lo\<close> and \<open>hi\<close> change, nothing of the page table and no frame outside the range.\<close>

definition altered :: "u32 \<Rightarrow> u32 \<Rightarrow> nat \<Rightarrow> nat \<Rightarrow> nat \<Rightarrow> nat \<Rightarrow> kstate \<Rightarrow> kstate \<Rightarrow> bool" where
  "altered kend pgdir a n lo hi s s' \<longleftrightarrow>
     user_range kend (kmem s') pgdir a n \<and> mapping (kmem s') pgdir = mapping (kmem s) pgdir \<and>
     (\<forall>x. a \<le> x \<and> x < a + n \<and> (x < lo \<or> hi \<le> x) \<longrightarrow> ubyte (kmem s') pgdir x = ubyte (kmem s) pgdir x) \<and>
     same_outside {frame_of (kmem s) pgdir (of_nat i) |i. a \<le> i \<and> i < a + n} (kmem s) (kmem s') \<and>
     (\<exists>m. s' = s\<lparr>kmem := m\<rparr>)"

lemma altered_refl: "user_range kend (kmem s) pgdir a n \<Longrightarrow> altered kend pgdir a n lo hi s s"
  by (auto simp: altered_def same_outside_def intro: exI[of _ "kmem s"])

lemma written_altered:
  assumes "written kend pgdir a n va bs s s'" and "lo \<le> va" and "va + length bs \<le> hi"
  shows "altered kend pgdir a n lo hi s s'"
  using assms by (auto simp: written_def altered_def overwrite_def)

lemma altered_trans:
  assumes s: "altered kend pgdir a n lo1 hi1 s s1" "altered kend pgdir a n lo2 hi2 s1 s2"
    and r: "lo \<le> lo1" "lo \<le> lo2" "hi1 \<le> hi" "hi2 \<le> hi"
  shows "altered kend pgdir a n lo hi s s2"
proof -
  have f: "frame_of (kmem s1) pgdir = frame_of (kmem s) pgdir"
    using s(1) by (simp add: altered_def frame_of_def fun_eq_iff)
  show ?thesis
    unfolding altered_def
  proof (intro conjI allI impI)
    show "user_range kend (kmem s2) pgdir a n" "mapping (kmem s2) pgdir = mapping (kmem s) pgdir"
      "\<exists>m. s2 = s\<lparr>kmem := m\<rparr>" using s by (auto simp: altered_def)
    show "same_outside {frame_of (kmem s) pgdir (of_nat i) |i. a \<le> i \<and> i < a + n} (kmem s) (kmem s2)"
      using s f by (simp add: altered_def same_outside_def)
    show "ubyte (kmem s2) pgdir x = ubyte (kmem s) pgdir x" if "a \<le> x \<and> x < a + n \<and> (x < lo \<or> hi \<le> x)" for x
      using s r that by (auto simp: altered_def)
  qed
qed

lemma altered_ubytes:
  assumes "altered kend pgdir a n lo hi s s'" and "a \<le> x" and "x + k \<le> a + n" and "x + k \<le> lo \<or> hi \<le> x"
  shows "ubytes (kmem s') pgdir x k = ubytes (kmem s) pgdir x k"
  using assms by (intro nth_equalityI) (auto simp: ubytes_def altered_def)

text \<open>The word at a virtual address.\<close>

definition uword :: "mem \<Rightarrow> u32 \<Rightarrow> nat \<Rightarrow> u32" where
  "uword m pgdir x = (let b = ubytes m pgdir x 4 in le32 (b ! 0) (b ! 1) (b ! 2) (b ! 3))"

lemma ubytes_append: "ubytes m pgdir x (j + k) = ubytes m pgdir x j @ ubytes m pgdir (x + j) k"
  by (rule nth_equalityI) (auto simp: ubytes_def nth_append add.assoc)

lemma uword_nth:
  assumes "ubytes m pgdir x (4 * length ws) = concat (map word_bytes ws)" and "i < length ws"
  shows "uword m pgdir (x + 4 * i) = ws ! i"
  using assms
proof (induction ws arbitrary: x i)
  case (Cons w ws)
  have "ubytes m pgdir x (4 + 4 * length ws) = word_bytes w @ concat (map word_bytes ws)" using Cons.prems(1) by simp
  then have h: "ubytes m pgdir x 4 = word_bytes w" "ubytes m pgdir (x + 4) (4 * length ws) = concat (map word_bytes ws)"
    unfolding ubytes_append by (simp_all add: append_eq_append_conv)
  show ?case
  proof (cases i)
    case 0
    then show ?thesis using h(1) le32_word_bytes[of w] by (simp add: uword_def)
  next
    case (Suc j)
    then show ?thesis using Cons.IH[OF h(2), of j] Cons.prems(2) by (simp add: add.assoc)
  qed
qed simp

section \<open>An example\<close>

text \<open>One page of user memory at address 0, on the frame \<open>0x202000\<close>.\<close>

lemma demo_user_range:
  assumes "pair_ok 0x200000 s rs 0x200000 0x201000" and "mapping (kmem s) 0x200000 = set_page (\<lambda>_. None) 0 demo_pte"
    and "owned (kmem s) 0x200000 = {0x200000, 0x203000}"
  shows "user_range 0x200000 (kmem s) 0x200000 0 4096"
proof -
  have m: "mapping (kmem s) 0x200000 (of_nat i) = Some demo_pte" if "i < 4096" for i
    using assms(2) demo_pte(2) that by (simp add: set_page_def same_page_def)
  have "pgdir_wf (kmem s) 0x200000" using assms(1) by (simp add: pair_ok_def space_ok_def)
  then show ?thesis
    unfolding user_range_def assms(3) using m demo_pte demo_page_ok by simp
qed

end
