(* ===== verification/Execspec.thy ===== *)
theory Execspec
  imports Exec Usermem
begin

text \<open>
  The stack that \<open>exec\<close> builds, in the memory of the new process as its page table shows it: the words and the
  strings are where the start of the program looks for them.
\<close>

section \<open>The argument strings\<close>

lemma clear_low_two: "unat ((x::u32) AND NOT 3) = unat x div 4 * 4"
proof -
  have m: "(3::u32) = mask 2" by (simp add: mask_eq_exp_minus_1)
  have s: "2 \<le> k \<Longrightarrow> Suc (Suc (k - 2)) = k" for k :: nat by simp
  have "(x AND NOT (mask 2)) = push_bit 2 (drop_bit 2 x)"
    by (rule bit_word_eqI) (auto simp: bit_simps not_less s)
  then have "x AND NOT 3 = (x div 4) * 4"
    unfolding m by (simp add: push_bit_eq_mult drop_bit_eq_div)
  moreover have "unat x div 4 * 4 < 4294967296"
    using unat_lt_u32[of x] div_times_less_eq_dividend[of "unat x" 4] by linarith
  ultimately show ?thesis by (simp add: unat_word_ariths unat_div)
qed

text \<open>Room for a string below \<open>sp\<close>, rounded down to a multiple of four.\<close>

definition below :: "nat \<Rightarrow> nat \<Rightarrow> nat" where
  "below sp l = (sp - (l + 1)) div 4 * 4"

lemma below_bounds:
  assumes "l + 4 \<le> sp" and "sp mod 4 = 0"
  shows "sp \<le> below sp l + (l + 4)" and "below sp l + l < sp" and "below sp l mod 4 = 0"
proof -
  obtain q where q: "sp = 4 * q" using assms(2) by auto
  show "sp \<le> below sp l + (l + 4)" "below sp l + l < sp" using assms(1) q unfolding below_def by linarith+
  show "below sp l mod 4 = 0" by (simp add: below_def)
qed

lemma below_word:
  assumes "l + 1 \<le> sp" and "sp < 4294967296"
  shows "((of_nat sp :: u32) - (of_nat l + 1)) AND NOT 3 = of_nat (below sp l)"
proof -
  have e: "(of_nat sp :: u32) - (of_nat l + 1) = of_nat (sp - (l + 1))" using assms(1) by (simp add: of_nat_diff)
  have "unat (of_nat (sp - (l + 1)) :: u32) = sp - (l + 1)" using assms(2) by (intro unat_of_nat_u32) simp
  then have u: "unat (((of_nat sp :: u32) - (of_nat l + 1)) AND NOT 3) = below sp l"
    unfolding e clear_low_two by (simp only: below_def)
  have "below sp l < 4294967296"
    using assms(2) div_times_less_eq_dividend[of "sp - (l + 1)" 4] unfolding below_def by linarith
  then show ?thesis by (simp only: word_unat_eq_iff u unat_of_nat_u32)
qed

text \<open>Where the strings go, from the end of the stack downwards.\<close>

fun arg_ptrs :: "nat \<Rightarrow> u8 list list \<Rightarrow> nat list" where
  "arg_ptrs sp [] = []"
| "arg_ptrs sp (a # as) = below sp (length a) # arg_ptrs (below sp (length a)) as"

definition args_bottom :: "nat \<Rightarrow> u8 list list \<Rightarrow> nat" where
  "args_bottom sp args = last (sp # arg_ptrs sp args)"

text \<open>How much the strings may take.\<close>

definition args_size :: "u8 list list \<Rightarrow> nat" where
  "args_size args = sum_list (map (\<lambda>a. length a + 4) args)"

lemma args_bottom_simps [simp]:
  "args_bottom sp [] = sp" "args_bottom sp (a # as) = args_bottom (below sp (length a)) as"
  by (simp_all add: args_bottom_def)

lemma args_size_simps [simp]: "args_size [] = 0" "args_size (a # as) = length a + 4 + args_size as"
  by (simp_all add: args_size_def)

lemma length_arg_ptrs [simp]: "length (arg_ptrs sp args) = length args"
  by (induction args arbitrary: sp) simp_all

lemma args_bottom_bounds:
  assumes "args_size args \<le> sp" and "sp mod 4 = 0"
  shows "sp \<le> args_bottom sp args + args_size args \<and> args_bottom sp args \<le> sp \<and> args_bottom sp args mod 4 = 0"
  using assms
proof (induction args arbitrary: sp)
  case (Cons a as)
  have "length a + 4 \<le> sp" using Cons.prems(1) by simp
  note b = below_bounds[OF this Cons.prems(2)]
  then show ?case using Cons.IH[of "below sp (length a)"] Cons.prems(1) by simp
qed simp

lemma arg_ptrs_bounds:
  assumes "args_size args \<le> sp" and "sp mod 4 = 0" and "i < length args"
  shows "args_bottom sp args \<le> arg_ptrs sp args ! i \<and> arg_ptrs sp args ! i + length (args ! i) < sp \<and>
     arg_ptrs sp args ! i mod 4 = 0"
  using assms
proof (induction args arbitrary: sp i)
  case (Cons a as)
  have "length a + 4 \<le> sp" using Cons.prems(1) by simp
  note b = below_bounds[OF this Cons.prems(2)]
  have as: "args_size as \<le> below sp (length a)" using b(1) Cons.prems(1) by simp
  show ?case
  proof (cases i)
    case 0
    then show ?thesis using b args_bottom_bounds[OF as b(3)] by simp
  next
    case (Suc j)
    then show ?thesis using Cons.IH[OF as b(3), of j] Cons.prems(3) b(2) by simp
  qed
qed simp

lemma push_args_user:
  assumes "user_range kend (kmem s) pgdir a n" and "sp \<le> a + n" and "a + args_size args \<le> sp" and "sp mod 4 = 0"
    and "length ptrs + length args \<le> MAXARG"
  shows "\<exists>s'. push_args pgdir (of_nat sp) ptrs args s =
      Ret (0, of_nat (args_bottom sp args), ptrs @ map of_nat (arg_ptrs sp args), s') \<and>
    altered kend pgdir a n (args_bottom sp args) sp s s' \<and>
    (\<forall>i<length args. ubytes (kmem s') pgdir (arg_ptrs sp args ! i) (length (args ! i) + 1) = args ! i @ [0])"
  using assms
proof (induction args arbitrary: sp ptrs s)
  case Nil
  then show ?case using altered_refl by simp
next
  case (Cons b bs)
  let ?p = "below sp (length b)"
  have sz: "length b + 4 \<le> sp" "sp < 4294967296" using Cons.prems by (auto simp: user_range_def)
  note p = below_bounds[OF sz(1) Cons.prems(4)]
  have pa: "a + args_size bs \<le> ?p" "?p \<le> a + n" using p(1,2) Cons.prems(2,3) by simp_all
  have w: "(of_nat sp :: u32) - (of_nat (length b) + 1) AND - 4 = of_nat ?p"
    using below_word[of "length b" sp] sz by simp
  obtain s1 where s1: "copyout pgdir (of_nat ?p) (b @ [0]) s = Ret (0, s1)" "written kend pgdir a n ?p (b @ [0]) s s1"
    using copyout_user[OF Cons.prems(1), of ?p "b @ [0]"] pa p(2) Cons.prems(2) by auto
  have ur: "user_range kend (kmem s1) pgdir a n" using s1(2) by (simp add: written_def)
  obtain s2 where s2: "push_args pgdir (of_nat ?p) (ptrs @ [of_nat ?p]) bs s1 =
        Ret (0, of_nat (args_bottom ?p bs), (ptrs @ [of_nat ?p]) @ map of_nat (arg_ptrs ?p bs), s2)"
      "altered kend pgdir a n (args_bottom ?p bs) ?p s1 s2"
      "\<forall>i<length bs. ubytes (kmem s2) pgdir (arg_ptrs ?p bs ! i) (length (bs ! i) + 1) = bs ! i @ [0]"
    using Cons.IH[OF ur pa(2,1) p(3), of "ptrs @ [of_nat ?p]"] Cons.prems(5) by auto
  have bot: "args_bottom ?p bs \<le> ?p" using args_bottom_bounds[of bs ?p] pa p(3) by simp
  have "ubytes (kmem s2) pgdir ?p (length (b @ [0])) = ubytes (kmem s1) pgdir ?p (length (b @ [0]))"
    using pa p(2) Cons.prems(2) by (intro altered_ubytes[OF s2(2)]) auto
  also have "\<dots> = b @ [0]" using pa p(2) Cons.prems(2) by (intro written_ubytes[OF s1(2)]) auto
  finally have first: "ubytes (kmem s2) pgdir ?p (length b + 1) = b @ [0]" by simp
  have "altered kend pgdir a n ?p sp s s1" using p(2) by (intro written_altered[OF s1(2)]) auto
  then have "altered kend pgdir a n (args_bottom ?p bs) sp s s2"
    using bot p(2) by (intro altered_trans[OF _ s2(2)]) auto
  moreover have "push_args pgdir (of_nat sp) ptrs (b # bs) s =
      Ret (0, of_nat (args_bottom ?p bs), ptrs @ of_nat ?p # map of_nat (arg_ptrs ?p bs), s2)"
    using Cons.prems(5) s1(1) s2(1) by (simp add: w)
  moreover have "ubytes (kmem s2) pgdir ((?p # arg_ptrs ?p bs) ! i) (length ((b # bs) ! i) + 1) = (b # bs) ! i @ [0]"
    if "i < Suc (length bs)" for i
    using that first s2(3) by (cases i) simp_all
  ultimately show ?case by simp
qed

section \<open>The whole stack\<close>

lemma length_words [simp]: "length (concat (map word_bytes ws)) = 4 * length ws"
  by (induction ws) simp_all

lemma exec_stack_user:
  fixes args :: "u8 list list"
  defines "argc \<equiv> length args"
  assumes ur: "user_range kend (kmem s) pgdir a n" and al: "(a + n) mod 4 = 0" and arg: "argc \<le> MAXARG"
    and fit: "args_size args + 4 * (argc + 4) \<le> n"
  shows "\<exists>s' sp. exec_stack pgdir (of_nat (a + n)) args s = Ret (0, of_nat sp, s') \<and>
     args_bottom (a + n) args = sp + 4 * (argc + 4) \<and> a \<le> sp \<and> altered kend pgdir a n sp (a + n) s s' \<and>
     ubytes (kmem s') pgdir sp (4 * (argc + 4)) =
       concat (map word_bytes ([0xFFFFFFFF, of_nat argc, of_nat (sp + 12)] @ map of_nat (arg_ptrs (a + n) args) @ [0])) \<and>
     (\<forall>i<argc. ubytes (kmem s') pgdir (arg_ptrs (a + n) args ! i) (length (args ! i) + 1) = args ! i @ [0])"
proof -
  let ?b = "args_bottom (a + n) args" and ?ps = "arg_ptrs (a + n) args"
  have as: "args_size args \<le> a + n" "a + args_size args \<le> a + n" using fit by simp_all
  note b = args_bottom_bounds[OF as(1) al]
  obtain s1 where s1: "push_args pgdir (of_nat (a + n)) [] args s = Ret (0, of_nat ?b, map of_nat ?ps, s1)"
      "altered kend pgdir a n ?b (a + n) s s1"
      "\<forall>i<argc. ubytes (kmem s1) pgdir (?ps ! i) (length (args ! i) + 1) = args ! i @ [0]"
    using push_args_user[OF ur le_refl as(2) al, of "[]"] arg by (auto simp: argc_def)
  define sp where "sp = ?b - 4 * (argc + 4)"
  have sp: "?b = sp + 4 * (argc + 4)" "a \<le> sp" using b fit by (auto simp: sp_def)
  let ?ws = "[0xFFFFFFFF, of_nat argc, of_nat (sp + 12)] @ map of_nat ?ps @ [0] :: u32 list"
  have ur1: "user_range kend (kmem s1) pgdir a n" using s1(2) by (simp add: altered_def)
  have ws: "length (concat (map word_bytes ?ws)) = 4 * (argc + 4)" by (subst length_words) (simp add: argc_def)
  then have "sp + length (concat (map word_bytes ?ws)) \<le> a + n" using sp(1) b by linarith
  then obtain s2 where s2: "copyout pgdir (of_nat sp) (concat (map word_bytes ?ws)) s1 = Ret (0, s2)"
      "written kend pgdir a n sp (concat (map word_bytes ?ws)) s1 s2"
    using copyout_user[OF ur1 sp(2)] by blast
  have w: "(of_nat ?b :: u32) - of_nat ((argc + 1) * 4) = of_nat (sp + 12)"
      "(of_nat ?b :: u32) - of_nat ((3 + argc + 1) * 4) = of_nat sp"
    unfolding sp(1) by (simp_all add: algebra_simps)
  have run: "exec_stack pgdir (of_nat (a + n)) args s = Ret (0, of_nat sp, s2)"
    unfolding exec_stack_def s1(1)
    by (simp only: bindO_simps prod.case Let_def length_map length_arg_ptrs w s2(1) less_irrefl if_False flip: argc_def)
  have al2: "altered kend pgdir a n sp ?b s1 s2" using ws sp(1) by (intro written_altered[OF s2(2)]) simp_all
  have "altered kend pgdir a n sp (a + n) s s2" using sp(1) b by (intro altered_trans[OF s1(2) al2]) simp_all
  moreover have "ubytes (kmem s2) pgdir sp (4 * (argc + 4)) = concat (map word_bytes ?ws)"
    using written_ubytes[OF s2(2) sp(2), unfolded ws] sp(1) b by linarith
  moreover have "ubytes (kmem s2) pgdir (?ps ! i) (length (args ! i) + 1) = args ! i @ [0]" if "i < argc" for i
  proof -
    have "?b \<le> ?ps ! i" "?ps ! i + length (args ! i) < a + n"
      using arg_ptrs_bounds[OF as(1) al, of i] that by (simp_all add: argc_def)
    then show ?thesis using s1(3) that sp by (subst altered_ubytes[OF al2]) simp_all
  qed
  ultimately show ?thesis using run sp by blast
qed

text \<open>
  C6. The stack of a new program. When the arguments and the words below them fit into the range of user memory
  that ends at \<open>sz\<close>, \<open>exec\<close> leaves the stack pointer at a word \<open>0xFFFFFFFF\<close>, above it the number of arguments and a
  pointer to the vector, then the vector, ended by 0. Each entry points to the argument, ended by a
  zero byte, above the vector and below \<open>sz\<close>. No byte below the stack pointer and no byte of any other
  frame changes, and the address space is as before.
\<close>

theorem exec_stack_layout:
  assumes "user_range kend (kmem s) pgdir a n" and "(a + n) mod 4 = 0" and "length args \<le> MAXARG"
    and "args_size args + 4 * (length args + 4) \<le> n"
  shows "\<exists>s' sp argv. exec_stack pgdir (of_nat (a + n)) args s = Ret (0, of_nat sp, s') \<and>
     a \<le> sp \<and> sp mod 4 = 0 \<and> altered kend pgdir a n sp (a + n) s s' \<and> length argv = length args \<and>
     uword (kmem s') pgdir sp = 0xFFFFFFFF \<and> uword (kmem s') pgdir (sp + 4) = of_nat (length args) \<and>
     uword (kmem s') pgdir (sp + 8) = of_nat (sp + 12) \<and>
     (\<forall>i<length args. uword (kmem s') pgdir (sp + 12 + 4 * i) = of_nat (argv ! i) \<and>
        sp + 4 * (length args + 4) \<le> argv ! i \<and> argv ! i + length (args ! i) < a + n \<and>
        ubytes (kmem s') pgdir (argv ! i) (length (args ! i) + 1) = args ! i @ [0]) \<and>
     uword (kmem s') pgdir (sp + 12 + 4 * length args) = 0"
proof -
  let ?argc = "length args" and ?ps = "arg_ptrs (a + n) args"
  obtain s' sp where s': "exec_stack pgdir (of_nat (a + n)) args s = Ret (0, of_nat sp, s')"
      "args_bottom (a + n) args = sp + 4 * (?argc + 4)" "a \<le> sp" "altered kend pgdir a n sp (a + n) s s'"
      "ubytes (kmem s') pgdir sp (4 * (?argc + 4)) =
         concat (map word_bytes ([0xFFFFFFFF, of_nat ?argc, of_nat (sp + 12)] @ map of_nat ?ps @ [0]))"
      "\<forall>i<?argc. ubytes (kmem s') pgdir (?ps ! i) (length (args ! i) + 1) = args ! i @ [0]"
    using exec_stack_user[OF assms] by blast
  have as: "args_size args \<le> a + n" using assms(4) by simp
  define ws where "ws = [0xFFFFFFFF, of_nat ?argc, of_nat (sp + 12)] @ map of_nat ?ps @ [0 :: u32]"
  have lw: "length ws = ?argc + 4" by (simp add: ws_def)
  have word: "uword (kmem s') pgdir (sp + 4 * i) = ws ! i" if "i < ?argc + 4" for i
    using s'(5) that by (intro uword_nth) (simp_all only: lw flip: ws_def)
  have v: "uword (kmem s') pgdir (sp + 12 + 4 * i) = ws ! (3 + i)" if "i \<le> ?argc" for i
    using word[of "3 + i"] that by (simp add: algebra_simps)
  have nth: "ws ! 0 = 0xFFFFFFFF" "ws ! 1 = of_nat ?argc" "ws ! 2 = of_nat (sp + 12)" "ws ! (3 + ?argc) = 0"
    "i < ?argc \<Longrightarrow> ws ! (3 + i) = of_nat (?ps ! i)" for i
    by (simp_all add: ws_def nth_append numeral_3_eq_3)
  have "sp mod 4 = 0" using args_bottom_bounds[OF as assms(2)] s'(2) by presburger
  moreover have "sp + 4 * (?argc + 4) \<le> ?ps ! i" "?ps ! i + length (args ! i) < a + n" if "i < ?argc" for i
    using arg_ptrs_bounds[OF as assms(2) that] s'(2) by simp_all
  ultimately show ?thesis
    using s'(1,3,4,6) word[of 0] word[of 1] word[of 2] v nth
    by (intro exI[of _ s'] exI[of _ sp] exI[of _ ?ps]) simp
qed

section \<open>An example\<close>

theorem exec_stack_layout_witness:
  "\<exists>s s' sp argv. mapping (kmem s) 0x200000 = set_page (\<lambda>_. None) 0 demo_pte \<and>
     exec_stack 0x200000 4096 [[99, 97, 116], [120]] s = Ret (0, of_nat sp, s') \<and>
     uword (kmem s') 0x200000 (sp + 4) = 2 \<and> uword (kmem s') 0x200000 (sp + 12 + 4 * 1) = of_nat (argv ! 1) \<and>
     ubytes (kmem s') 0x200000 (argv ! 1) 2 = [120, 0]"
proof -
  let ?args = "[[99, 97, 116], [120]] :: u8 list list"
  obtain s where s: "pair_ok 0x200000 s [0x204000] 0x200000 0x201000"
      "mapping (kmem s) 0x200000 = set_page (\<lambda>_. None) 0 demo_pte"
      "owned (kmem s) 0x200000 = {0x200000, 0x203000}"
    using demo_mapped[OF demo_kalloc(2) _ demo_aligned(4)] by auto
  have h: "(0 + 4096 :: nat) mod 4 = 0" "length ?args \<le> MAXARG" "args_size ?args + 4 * (length ?args + 4) \<le> 4096"
    by (simp_all add: MAXARG_def)
  obtain s' sp argv where e: "exec_stack 0x200000 (of_nat (0 + 4096)) ?args s = Ret (0, of_nat sp, s')"
      "uword (kmem s') 0x200000 (sp + 4) = of_nat (length ?args)"
      "\<forall>i<length ?args. uword (kmem s') 0x200000 (sp + 12 + 4 * i) = of_nat (argv ! i) \<and>
        ubytes (kmem s') 0x200000 (argv ! i) (length (?args ! i) + 1) = ?args ! i @ [0]"
    using exec_stack_layout[OF demo_user_range[OF s] h] by blast
  have "uword (kmem s') 0x200000 (sp + 12 + 4 * 1) = of_nat (argv ! 1)"
      "ubytes (kmem s') 0x200000 (argv ! 1) 2 = [120, 0]"
    using e(3)[rule_format, of 1] by (simp_all add: numeral_2_eq_2)
  then show ?thesis using s(2) e(1,2)
    by (intro exI[of _ s] exI[of _ s'] exI[of _ sp] exI[of _ argv]) simp
qed

end
