(* ===== verification/Loadspec.thy ===== *)
theory Loadspec
  imports Exec Usermem
begin

text \<open>
  \<open>loaduvm\<close> of \<open>vm.c\<close> puts the bytes of the program file into the memory of the process: the contract of \<open>readi\<close>
  from \<open>Fsfile\<close> meets the view of user memory from \<open>Usermem\<close>.
\<close>

section \<open>Files that can be loaded\<close>


definition same_file :: "nat \<Rightarrow> fsys \<Rightarrow> fsys \<Rightarrow> bool" where
  "same_file ip f f' \<longleftrightarrow> i_size (icache f' ! ip) = i_size (icache f ! ip) \<and>
     (\<forall>m<MAXFILE * BSIZE. fbyte f' (icache f' ! ip) m = fbyte f (icache f ! ip) m)"

lemma same_file_refl [simp]: "same_file ip f f"
  by (simp add: same_file_def)




section \<open>Loading a segment\<close>











section \<open>An example\<close>




end
