(* ===== verification/Ulib.thy ===== *)
theory Ulib
  imports Kstring
begin

text \<open>
  The user library (\<open>P5/xv6/user/ulib.c\<close>, \<open>P5/xv6/user/printf.c\<close>): string routines over the memory of the
  process, \<open>atoi\<close>, \<open>printint\<close> and \<open>printf\<close>. Loops over a string that may have no end are partial
  functions. What \<open>printf\<close> writes is a list of bytes; its arguments are the words on the stack after the format.
\<close>

section \<open>Strings in memory\<close>

partial_function (option) ustrcpy :: "mem \<Rightarrow> u32 \<Rightarrow> u32 \<Rightarrow> mem option" where
  "ustrcpy m s t =
     (let m' = m(s := m t) in if m t \<noteq> 0 then ustrcpy m' (s + 1) (t + 1) else Some m')"

partial_function (option) ustrcmp :: "mem \<Rightarrow> u32 \<Rightarrow> u32 \<Rightarrow> int option" where
  "ustrcmp m p q =
     (if m p \<noteq> 0 \<and> m p = m q then ustrcmp m (p + 1) (q + 1) else Some (uint (m p) - uint (m q)))"

partial_function (option) ustrchr :: "mem \<Rightarrow> u32 \<Rightarrow> u8 \<Rightarrow> u32 option" where
  "ustrchr m s c =
     (if m s = 0 then Some 0 else if m s = c then Some s else ustrchr m (s + 1) c)"

text \<open>\<open>memmove\<close> of the user library copies upwards whatever the overlap; a negative count copies nothing.\<close>

definition umemmove :: "mem \<Rightarrow> u32 \<Rightarrow> u32 \<Rightarrow> int \<Rightarrow> mem" where
  "umemmove m dst src n = copy_up (nat n) m dst src"

text \<open>
  \<open>atoi\<close> on the bytes of a string. The sum is evaluated from left to right in \<open>int\<close>, so each of its steps
  has to fit.
\<close>

fun atoi_from :: "int \<Rightarrow> u8 list \<Rightarrow> int outcome" where
  "atoi_from n [] = Ret n"
| "atoi_from n (c # cs) =
     (if 48 \<le> c \<and> c \<le> 57
      then bindO (cint (n * 10)) (\<lambda>a. bindO (cint (a + uint c)) (\<lambda>b. bindO (cint (b - 48)) (\<lambda>d. atoi_from d cs)))
      else Ret n)"

definition atoi :: "u8 list \<Rightarrow> int outcome" where
  "atoi s = atoi_from 0 s"

section \<open>Formatted output\<close>

definition cstr :: "string \<Rightarrow> u8 list" where
  "cstr s = map of_char s"

text \<open>
  The digits of a number, least significant first, into the array \<open>buf\<close> of 16 bytes; the loop is shared by the
  \<open>printint\<close> of the library and that of the kernel, which differ in the letters of the digits.
\<close>

function digit_loop :: "u8 list \<Rightarrow> u8 list \<Rightarrow> nat \<Rightarrow> u32 \<Rightarrow> u32 \<Rightarrow> (u8 list \<times> nat) outcome" where
  "digit_loop digits buf i x base =
     (if base = 0 then Undef ''division by zero''
      else bindO (aget digits (uint (x mod base))) (\<lambda>d.
        bindO (aset buf (int i) d) (\<lambda>buf'.
        if x div base \<noteq> 0 then digit_loop digits buf' (Suc i) (x div base) base else Ret (buf', Suc i))))"
  by pat_completeness auto
termination
  by (relation "measure (\<lambda>(digits, buf, i, x, base). length buf - i)") (auto dest!: aset_RetD)

declare digit_loop.simps [simp del]

definition print_digits :: "u8 list \<Rightarrow> i32 \<Rightarrow> u32 \<Rightarrow> bool \<Rightarrow> u8 list outcome" where
  "print_digits digits xx base sg =
     (let neg = (sg \<and> sint xx < 0) in
      bindO (if neg then bindO (cint (- sint xx)) (\<lambda>v. Ret (of_int v)) else Ret xx) (\<lambda>x.
      bindO (digit_loop digits (replicate 16 0) 0 x base) (\<lambda>(buf, i).
      bindO (if neg then bindO (aset buf (int i) 45) (\<lambda>b. Ret (b, Suc i)) else Ret (buf, i)) (\<lambda>(buf', k).
      Ret (rev (take k buf'))))))"

definition printint :: "i32 \<Rightarrow> u32 \<Rightarrow> bool \<Rightarrow> u8 list outcome" where
  "printint xx base sg = print_digits (cstr ''0123456789ABCDEF'') xx base sg"

text \<open>The bytes a \<open>%s\<close> argument stands for.\<close>

definition string_arg :: "mem \<Rightarrow> u32 \<Rightarrow> u8 list outcome" where
  "string_arg m s =
     (if s = 0 then Ret (cstr ''(null)'')
      else case strlen m s of None \<Rightarrow> Undef ''string without end'' | Some k \<Rightarrow> Ret (bytes m s k))"

definition next_arg :: "u32 list \<Rightarrow> (u32 \<times> u32 list) outcome" where
  "next_arg ap = (case ap of [] \<Rightarrow> Undef ''missing argument'' | a # as \<Rightarrow> Ret (a, as))"

text \<open>The format is read with the state \<open>pc\<close>: whether the last character was a percent sign to interpret.\<close>

fun printf_from :: "mem \<Rightarrow> bool \<Rightarrow> u8 list \<Rightarrow> u32 list \<Rightarrow> u8 list outcome" where
  "printf_from m pc [] ap = Ret []"
| "printf_from m pc (c # fmt) ap =
     (if \<not> pc then
        (if c = 37 then printf_from m True fmt ap
         else bindO (printf_from m False fmt ap) (\<lambda>out. Ret (c # out)))
      else
        bindO
          (if c = 100 then bindO (next_arg ap) (\<lambda>(a, as). bindO (printint a 10 True) (\<lambda>s. Ret (s, as)))
           else if c = 120 \<or> c = 112 then bindO (next_arg ap) (\<lambda>(a, as). bindO (printint a 16 False) (\<lambda>s. Ret (s, as)))
           else if c = 115 then bindO (next_arg ap) (\<lambda>(a, as). bindO (string_arg m a) (\<lambda>s. Ret (s, as)))
           else if c = 99 then bindO (next_arg ap) (\<lambda>(a, as). Ret ([ucast a], as))
           else if c = 37 then Ret ([c], ap)
           else Ret ([37, c], ap))
          (\<lambda>(s, ap'). bindO (printf_from m False fmt ap') (\<lambda>out. Ret (s @ out))))"

definition printf :: "mem \<Rightarrow> u8 list \<Rightarrow> u32 list \<Rightarrow> u8 list outcome" where
  "printf m fmt ap = printf_from m False fmt ap"

section \<open>The string routines\<close>

lemma cstring_Cons:
  "cstring m a (c # cs) \<longleftrightarrow> m a = c \<and> c \<noteq> 0 \<and> cstring m (a + 1) cs"
  by (auto simp: cstring_def bytes_Suc[of _ _ "Suc _"])

lemma cstring_Nil: "cstring m a [] \<longleftrightarrow> m a = 0"
  by (simp add: cstring_def bytes_Suc)

text \<open>\<open>strcpy\<close> of a string to a place that does not overlap its tail writes the string and its NUL.\<close>

lemma ustrcpy_cstring:
  assumes "cstring m t cs" and "above_free s t (Suc (length cs))" and "length cs < 4294967295"
  shows "ustrcpy m s t = Some (write_bytes m s (cs @ [0]))"
  using assms
proof (induction cs arbitrary: m s t)
  case Nil
  then show ?case by (subst ustrcpy.simps) (simp add: cstring_Nil write_bytes_Cons)
next
  case (Cons c cs)
  have "bytes (m(s := m t)) (t + 1) (Suc (length cs)) = bytes m (t + 1) (Suc (length cs))"
    using Cons.prems by (intro bytes_update_free) auto
  then have "cstring (m(s := m t)) (t + 1) cs" 
    using Cons.prems(1)[unfolded cstring_Cons] unfolding cstring_def by metis
  then have "ustrcpy (m(s := m t)) (s + 1) (t + 1) = Some (write_bytes (m(s := m t)) (s + 1) (cs @ [0]))"
    using Cons.prems above_free_step[of s t "Suc (length cs)"] by (intro Cons.IH) (simp_all del: fun_upd_apply)
  then show ?case
    using Cons.prems by (subst ustrcpy.simps) (simp add: cstring_Cons write_bytes_Cons)
qed

text \<open>\<open>strcmp\<close> is zero exactly for equal strings, and it returns for all strings.\<close>

lemma ustrcmp_cstring:
  assumes "cstring m p cs" and "cstring m q ds"
  shows "\<exists>r. ustrcmp m p q = Some r \<and> (r = 0 \<longleftrightarrow> cs = ds)"
  using assms
proof (induction cs arbitrary: p q ds)
  case Nil
  then show ?case
    by (subst ustrcmp.simps, cases ds) (auto simp: cstring_Nil cstring_Cons uint_0_iff)
next
  case (Cons c cs)
  show ?case
  proof (cases "m q = c")
    case True
    then obtain ds' where "ds = c # ds'" "cstring m (q + 1) ds'"
      using Cons.prems by (cases ds) (auto simp: cstring_Nil cstring_Cons)
    then show ?thesis
      using Cons.IH[of "p + 1" "q + 1" ds'] Cons.prems True
      by (subst ustrcmp.simps) (auto simp: cstring_Cons)
  next
    case False
    then have "uint c \<noteq> uint (m q)" by (metis word_uint_eqI)
    then show ?thesis
      using Cons.prems False by (subst ustrcmp.simps, cases ds) (auto simp: cstring_Cons cstring_Nil)
  qed
qed

text \<open>
  \<open>memmove\<close> of the library is right when the destination does not lie inside the source above its start;
  otherwise it repeats the first bytes, unlike the kernel's.
\<close>

lemma umemmove_write:
  assumes "above_free dst src (nat n)" and "n \<le> 4294967296"
  shows "umemmove m dst src n = write_bytes m dst (bytes m src (nat n))"
  using copy_up_write[OF assms(1)] assms(2) by (simp add: umemmove_def nat_le_iff)

lemma umemmove_overlap: "bytes (umemmove m (a + 1) a 2) a 3 = [m a, m a, m a]"
  by (simp add: umemmove_def numeral_eq_Suc bytes_Suc add_ac)

section \<open>Digits\<close>

text \<open>The digits of a number, least significant first, and the number a list of digits stands for.\<close>

function digits_of :: "nat \<Rightarrow> nat \<Rightarrow> nat list" where
  "digits_of b n = n mod b # (if n div b = 0 \<or> b < 2 then [] else digits_of b (n div b))"
  by pat_completeness auto
termination by (relation "measure snd") (auto intro!: div_less_dividend gr0I)

declare digits_of.simps [simp del]

fun value_of :: "nat \<Rightarrow> nat list \<Rightarrow> nat" where
  "value_of b [] = 0"
| "value_of b (d # ds) = d + b * value_of b ds"

lemma digits_of_value: "2 \<le> b \<Longrightarrow> value_of b (digits_of b n) = n"
  by (induction b n rule: digits_of.induct) (subst digits_of.simps, auto simp: div_eq_0_iff)

lemma digits_of_less: "2 \<le> b \<Longrightarrow> d \<in> set (digits_of b n) \<Longrightarrow> d < b"
  by (induction b n rule: digits_of.induct) (subst (asm) (2) digits_of.simps, auto split: if_splits)

lemma digits_of_last: "2 \<le> b \<Longrightarrow> n \<noteq> 0 \<Longrightarrow> last (digits_of b n) \<noteq> 0"
proof (induction b n rule: digits_of.induct)
  case (1 b n)
  have "digits_of b (n div b) \<noteq> []" by (subst digits_of.simps) simp
  then show ?case using 1 by (subst digits_of.simps) (auto simp: div_eq_0_iff)
qed

lemma digits_of_length: "n < b ^ Suc k \<Longrightarrow> 2 \<le> b \<Longrightarrow> length (digits_of b n) \<le> Suc k"
proof (induction k arbitrary: n)
  case 0
  then show ?case by (subst digits_of.simps) simp
next
  case (Suc k)
  have "n div b < b ^ Suc k" using Suc.prems by (simp add: less_mult_imp_div_less mult.commute)
  then show ?case using Suc.IH[of "n div b"] Suc.prems by (subst digits_of.simps) auto
qed

lemma digit_loop_digits:
  assumes "i + length (digits_of (unat base) (unat x)) \<le> length buf" and "2 \<le> unat base" and "unat base \<le> length digits"
  shows "digit_loop digits buf i x base =
     Ret (take i buf @ map ((!) digits) (digits_of (unat base) (unat x)) @ drop (i + length (digits_of (unat base) (unat x))) buf,
       i + length (digits_of (unat base) (unat x)))"
  using assms
proof (induction digits buf i x base rule: digit_loop.induct)
  case (1 digits buf i x base)
  let ?b = "unat base" and ?n = "unat x"
  have base: "base \<noteq> 0" "?b \<noteq> 0" using 1(3) by auto
  have m: "unat (x mod base) = ?n mod ?b" "unat (x div base) = ?n div ?b" by (simp_all add: unat_mod unat_div)
  have lt: "?n mod ?b < length digits" using 1(4) base by (meson le_trans less_le_trans mod_less_divisor neq0_conv)
  have get: "aget digits (uint (x mod base)) = Ret (digits ! (?n mod ?b))"
    using aget_uint[of "x mod base" digits] lt by (simp add: m)
  have i: "i < length buf" using 1(2) by (subst (asm) digits_of.simps) simp
  have set: "aset buf (int i) (digits ! (?n mod ?b)) = Ret (buf[i := digits ! (?n mod ?b)])" (is "_ = Ret ?buf")
    using i by (rule aset_in)
  have upd: "take (Suc i) ?buf = take i buf @ [digits ! (?n mod ?b)]" "drop (Suc i) ?buf = drop (Suc i) buf"
    using i by (simp_all add: take_Suc_conv_app_nth)
  have z: "x div base = 0 \<longleftrightarrow> ?n div ?b = 0" using m(2) by (metis unsigned_0 unsigned_eq_0_iff)
  show ?case
  proof (cases "?n div ?b = 0")
    case True
    then show ?thesis using base get set z i
      by (subst digit_loop.simps, subst (1 2 3) digits_of.simps) (simp add: upd_conv_take_nth_drop)
  next
    case False
    have d: "digits_of ?b ?n = ?n mod ?b # digits_of ?b (?n div ?b)"
      using False 1(3) by (subst digits_of.simps) simp
    have "digit_loop digits ?buf (Suc i) (x div base) base =
        Ret (take (Suc i) ?buf @ map ((!) digits) (digits_of ?b (?n div ?b)) @
             drop (Suc i + length (digits_of ?b (?n div ?b))) ?buf, Suc i + length (digits_of ?b (?n div ?b)))"
      using 1(1)[OF base(1) get set] False z 1(2-4) d by (simp add: m(2))
    moreover have "drop (Suc i + k) ?buf = drop (Suc i + k) buf" for k by simp
    ultimately show ?thesis
      using base get set z False upd(1) by (subst digit_loop.simps) (simp add: d)
  qed
qed

text \<open>How many digits a 32-bit number has.\<close>

lemma digits_of_u32: "length (digits_of 10 (unat (x::u32))) \<le> 10" "length (digits_of 16 (unat x)) \<le> 8"
  using unat_lt_u32[of x] digits_of_length[of "unat x" 10 9] digits_of_length[of "unat x" 16 7] by simp_all

lemma print_digits_result:
  assumes base: "base = 10 \<or> base = 16" and digits: "length digits = 16" and sg: "\<not> (sg \<and> xx = 0x80000000)"
  defines "ds \<equiv> digits_of (unat base) (if sg \<and> sint xx < 0 then nat (- sint xx) else unat xx)"
  shows "print_digits digits xx base sg = Ret ((if sg \<and> sint xx < 0 then [45] else []) @ map ((!) digits) (rev ds))"
    and "length ds \<le> 10"
proof -
  show le: "length ds \<le> 10"
  proof -
    have "nat (- sint xx) < 4294967296" using sint_ge[of xx] by simp
    then have "nat (- sint xx) = unat (of_nat (nat (- sint xx)) :: u32)" by simp
    then obtain y :: u32 where "(if sg \<and> sint xx < 0 then nat (- sint xx) else unat xx) = unat y" by metis
    then show ?thesis using base digits_of_u32[of y] by (auto simp: ds_def)
  qed
  have b: "2 \<le> unat base" "unat base \<le> length digits" using base digits by auto
  show "print_digits digits xx base sg = Ret ((if sg \<and> sint xx < 0 then [45] else []) @ map ((!) digits) (rev ds))"
  proof (cases "sg \<and> sint xx < 0")
    case True
    have "sint xx \<noteq> sint (0x80000000 :: i32)" using sg True signed_word_eqI[of xx "0x80000000"] by blast
    then have "sint xx \<noteq> -2147483648" by simp
    then have c: "cint (- sint xx) = Ret (- sint xx)" using sint_ge[of xx] True by (simp add: cint_def)
    have u: "unat (of_int (- sint xx) :: u32) = nat (- sint xx)"
    proof -
      have "of_int (- sint xx) = (of_nat (nat (- sint xx)) :: u32)" using True by (simp add: of_nat_nat)
      moreover have "nat (- sint xx) < 4294967296" using sint_ge[of xx] by simp
      ultimately show ?thesis by (simp only: unat_of_nat_u32)
    qed
    have "digit_loop digits (replicate 16 0) 0 (of_int (- sint xx)) base =
        Ret (map ((!) digits) ds @ replicate (16 - length ds) 0, length ds)"
      using digit_loop_digits[of 0 base "of_int (- sint xx)" "replicate 16 0" digits] b le True u by (simp add: ds_def)
    moreover have "aset (map ((!) digits) ds @ replicate (16 - length ds) 0) (int (length ds)) 45 =
        Ret (map ((!) digits) ds @ 45 # replicate (15 - length ds) 0)"
    proof -
      have "16 - length ds = Suc (15 - length ds)" using le by simp
      then show ?thesis
        using aset_in[of "length ds" "map ((!) digits) ds @ 0 # replicate (15 - length ds) 0" 45]
        by (simp add: list_update_append)
    qed
    ultimately show ?thesis using True c by (simp add: print_digits_def rev_map)
  next
    case False
    then have "digit_loop digits (replicate 16 0) 0 xx base =
        Ret (map ((!) digits) ds @ replicate (16 - length ds) 0, length ds)"
      using digit_loop_digits[of 0 base xx "replicate 16 0" digits] b le by (auto simp: ds_def)
    then show ?thesis using False by (auto simp: print_digits_def rev_map)
  qed
qed

text \<open>Reading decimal digits back.\<close>

definition read_digits :: "nat \<Rightarrow> nat list \<Rightarrow> nat" where
  "read_digits n ds = foldl (\<lambda>n d. n * 10 + d) n ds"

lemma read_digits_rev: "read_digits 0 (rev ds) = value_of 10 ds"
  by (induction ds) (simp_all add: read_digits_def)

lemma read_digits_ge: "n \<le> read_digits n ds"
proof (induction ds arbitrary: n)
  case (Cons d ds)
  have "n \<le> n * 10 + d" by simp
  also have "\<dots> \<le> read_digits (n * 10 + d) ds" by (rule Cons.IH)
  finally show ?case by (simp add: read_digits_def)
qed (simp add: read_digits_def)

lemma nth_decimal: "d < 10 \<Longrightarrow> cstr ''0123456789ABCDEF'' ! d = of_nat (48 + d)"
  by (simp add: cstr_def of_char_def less_Suc_eq numeral_eq_Suc) (elim disjE; simp)

text \<open>Every intermediate sum of \<open>atoi\<close> fits as long as the number is below 2147483600.\<close>

lemma atoi_from_digits:
  assumes "\<forall>d\<in>set ds. d < 10" and "read_digits n ds < 2147483600"
  shows "atoi_from (int n) (map ((!) (cstr ''0123456789ABCDEF'')) ds) = Ret (int (read_digits n ds))"
  using assms
proof (induction ds arbitrary: n)
  case Nil
  then show ?case by (simp add: read_digits_def)
next
  case (Cons d ds)
  have d: "d < 10" using Cons.prems by simp
  have r: "read_digits n (d # ds) = read_digits (n * 10 + d) ds" by (simp add: read_digits_def)
  have le: "n * 10 + d < 2147483600" using read_digits_ge[of "n * 10 + d" ds] Cons.prems r by simp
  have c: "cstr ''0123456789ABCDEF'' ! d = of_nat (48 + d)" using d by (rule nth_decimal)
  have u: "uint (of_nat (48 + d) :: u8) = 48 + int d" 
  proof -
    have "unat (of_nat (48 + d) :: u8) = 48 + d" using d by (simp only: unat_of_nat) simp
    then show ?thesis unfolding uint_nat by simp
  qed
  have "n * 10 + d + 48 < 2147483648" using le d by presburger
  then have "cint (int n * 10) = Ret (int n * 10)" "cint (int n * 10 + (48 + int d)) = Ret (int n * 10 + (48 + int d))"
      "cint (int n * 10 + (48 + int d) - 48) = Ret (int (n * 10 + d))"
    by (simp_all add: cint_def)
  moreover have "48 \<le> (of_nat (48 + d) :: u8)" "(of_nat (48 + d) :: u8) \<le> 57"
    using u d by (simp_all add: word_le_def)
  ultimately show ?case using Cons.IH[of "n * 10 + d"] Cons.prems r c u by simp
qed

text \<open>
  \<open>printint\<close> in base 10 or 16 writes the digits of the number: a minus sign if it is signed and negative,
  then digits below the base whose value is the magnitude, with no leading zero unless the number is zero. They
  are at most ten, so the array of 16 bytes is never overrun. (The smallest signed number is excluded: its
  negation overflows.)
\<close>

theorem printint_prints_number:
  assumes "base = 10 \<or> base = 16" and "\<not> (sg \<and> xx = 0x80000000)"
  shows "\<exists>ds. printint xx base sg =
       Ret ((if sg \<and> sint xx < 0 then [45] else []) @ map ((!) (cstr ''0123456789ABCDEF'')) (rev ds)) \<and>
     int (value_of (unat base) ds) = (if sg then \<bar>sint xx\<bar> else uint xx) \<and>
     (\<forall>d\<in>set ds. d < unat base) \<and> 1 \<le> length ds \<and> length ds \<le> 10 \<and> (1 < length ds \<longrightarrow> last ds \<noteq> 0)"
proof -
  let ?n = "if sg \<and> sint xx < 0 then nat (- sint xx) else unat xx"
  let ?ds = "digits_of (unat base) ?n"
  have b: "2 \<le> unat base" using assms(1) by auto
  have l: "length (cstr ''0123456789ABCDEF'') = 16" by (simp add: cstr_def)
  note pr = print_digits_result[OF assms(1) l assms(2)]
  have "sint xx = uint xx" if "\<not> sint xx < 0"
    using that nonneg_small[of xx] by (intro sint_small) simp
  then have "int ?n = (if sg then \<bar>sint xx\<bar> else uint xx)" by auto
  moreover have "1 < length ?ds \<longrightarrow> last ?ds \<noteq> 0"
    using digits_of_last[OF b, of ?n] by (cases "?n = 0") (auto simp: digits_of.simps[of _ 0])
  moreover have "1 \<le> length ?ds" by (subst digits_of.simps) simp
  ultimately show ?thesis
    using pr digits_of_value[OF b, of ?n] digits_of_less[OF b, of _ ?n]
    unfolding printint_def by (intro exI[of _ ?ds]) auto
qed

text \<open>
  A number below 2147483600 printed with \<open>%d\<close> is read back by \<open>atoi\<close>.
\<close>

theorem printf_atoi_roundtrip:
  assumes "unat x < 2147483600"
  shows "\<exists>s. printf m (cstr ''%d'') [x] = Ret s \<and> atoi s = Ret (int (unat x))"
proof -
  have pos: "\<not> sint x < 0" "x \<noteq> 0x80000000" using sint_small[of x] assms by auto
  have l: "length (cstr ''0123456789ABCDEF'') = 16" by (simp add: cstr_def)
  have "printint x 10 True = Ret (map ((!) (cstr ''0123456789ABCDEF'')) (rev (digits_of 10 (unat x))))"
    using print_digits_result(1)[of 10 _ True x, OF _ l] pos by (simp add: printint_def)
  moreover have "atoi (map ((!) (cstr ''0123456789ABCDEF'')) (rev (digits_of 10 (unat x)))) = Ret (int (unat x))"
    using atoi_from_digits[of "rev (digits_of 10 (unat x))" 0] digits_of_less[of 10 _ "unat x"] assms
      digits_of_value[of 10 "unat x"] by (simp add: atoi_def read_digits_rev)
  ultimately show ?thesis by (simp add: printf_def next_arg_def cstr_def of_char_def)
qed

section \<open>Witnesses\<close>

theorem printint_prints_number_witness:
  "printint (- 42) 10 True = Ret (cstr ''-42'') \<and>
   (\<exists>ds. printint (- 42) 10 True = Ret ([45] @ map ((!) (cstr ''0123456789ABCDEF'')) (rev ds)) \<and>
      value_of 10 ds = 42)"
proof -
  have "printint (- 42) 10 True = Ret (cstr ''-42'')" by code_simp
  then show ?thesis using printint_prints_number[of 10 True "- 42"] by auto
qed

theorem printf_atoi_roundtrip_witness:
  "\<exists>s. printf (\<lambda>_. 0) (cstr ''%d'') [537] = Ret s \<and> atoi s = Ret 537 \<and> s = cstr ''537''"
proof -
  have "printf (\<lambda>_. 0) (cstr ''%d'') [537] = Ret (cstr ''537'')" by code_simp
  then show ?thesis using printf_atoi_roundtrip[of 537 "\<lambda>_. 0"] by auto
qed

end
