(* ===== verification/Grep.thy ===== *)
theory Grep
  imports Ulib
begin

text \<open>
  The user program \<open>grep\<close> (\<open>P5/xv6/user/grep.c\<close>): the regular expression matcher and the loop that cuts
  the input into lines. A C string is the list of its bytes before the NUL. The input is the list of the
  pieces that successive calls of \<open>read\<close> can deliver; the buffer is the static array of the program, and
  reading it past its end is undefined.
\<close>

section \<open>The matcher\<close>

function (sequential) matchhere :: "u8 list \<Rightarrow> u8 list \<Rightarrow> bool"
  and matchstar :: "u8 \<Rightarrow> u8 list \<Rightarrow> u8 list \<Rightarrow> bool"
where
  "matchhere [] ts = True"
| "matchhere (r # re) ts =
     (if re \<noteq> [] \<and> hd re = 42 then matchstar r (tl re) ts
      else if r = 36 \<and> re = [] then ts = []
      else if ts \<noteq> [] \<and> (r = 46 \<or> r = hd ts) then matchhere re (tl ts)
      else False)"
| "matchstar c re ts =
     (if matchhere re ts then True
      else if ts \<noteq> [] \<and> (hd ts = c \<or> c = 46) then matchstar c re (tl ts)
      else False)"
  by pat_completeness auto
termination
  by (relation "measures [\<lambda>x. case x of Inl (re, t) \<Rightarrow> length re | Inr (c, re, t) \<Rightarrow> Suc (length re),
        \<lambda>x. case x of Inl (re, t) \<Rightarrow> 0 | Inr (c, re, t) \<Rightarrow> Suc (length t)]")
    (auto simp: neq_Nil_conv)

declare matchhere.simps [simp del] matchstar.simps [simp del]

fun match_from :: "u8 list \<Rightarrow> u8 list \<Rightarrow> bool" where
  "match_from re ts =
     (if matchhere re ts then True else case ts of [] \<Rightarrow> False | _ # ts1 \<Rightarrow> match_from re ts1)"

declare match_from.simps [simp del]

definition match_re :: "u8 list \<Rightarrow> u8 list \<Rightarrow> bool" where
  "match_re re ts = (if re \<noteq> [] \<and> hd re = 94 then matchhere (tl re) ts else match_from re ts)"

section \<open>What a pattern means\<close>

text \<open>
  A pattern is a sequence of single characters and starred characters, possibly tied to the end of the
  text by a final dollar sign.
\<close>

datatype atom = One u8 | Many u8

fun parse_re :: "u8 list \<Rightarrow> atom list \<times> bool" where
  "parse_re [] = ([], False)"
| "parse_re [r] = (if r = 36 then ([], True) else ([One r], False))"
| "parse_re (r # s # re) =
     (if s = 42 then (Many r # fst (parse_re re), snd (parse_re re))
      else (One r # fst (parse_re (s # re)), snd (parse_re (s # re))))"

definition fits :: "u8 \<Rightarrow> u8 \<Rightarrow> bool" where
  "fits r x \<longleftrightarrow> r = 46 \<or> x = r"

text \<open>The language of a sequence of atoms.\<close>

fun in_atoms :: "atom list \<Rightarrow> u8 list \<Rightarrow> bool" where
  "in_atoms [] w \<longleftrightarrow> w = []"
| "in_atoms (One r # as) w \<longleftrightarrow> (\<exists>x v. w = x # v \<and> fits r x \<and> in_atoms as v)"
| "in_atoms (Many r # as) w \<longleftrightarrow> (\<exists>u v. w = u @ v \<and> list_all (fits r) u \<and> in_atoms as v)"

text \<open>A text starts with a match: a prefix is in the language, and it is all of the text if the end is tied.\<close>

definition starts :: "atom list \<times> bool \<Rightarrow> u8 list \<Rightarrow> bool" where
  "starts r ts \<longleftrightarrow> (\<exists>v w. ts = v @ w \<and> in_atoms (fst r) v \<and> (snd r \<longrightarrow> w = []))"

lemma starts_Nil: "starts ([], b) ts \<longleftrightarrow> \<not> b \<or> ts = []"
  by (auto simp: starts_def)

lemma startsI: "ts = v @ w \<Longrightarrow> in_atoms as v \<Longrightarrow> (b \<Longrightarrow> w = []) \<Longrightarrow> starts (as, b) ts"
  by (auto simp: starts_def)

lemma startsE:
  assumes "starts (as, b) ts"
  obtains v w where "ts = v @ w" and "in_atoms as v" and "b \<longrightarrow> w = []"
  using assms by (auto simp: starts_def)

lemma starts_One: "starts (One r # as, b) ts \<longleftrightarrow> (\<exists>x t. ts = x # t \<and> fits r x \<and> starts (as, b) t)"
proof
  assume "starts (One r # as, b) ts"
  then obtain v w where v: "ts = v @ w" "in_atoms (One r # as) v" "b \<longrightarrow> w = []" by (rule startsE)
  then obtain x v' where "v = x # v'" "fits r x" "in_atoms as v'" by auto
  then show "\<exists>x t. ts = x # t \<and> fits r x \<and> starts (as, b) t"
    using v startsI[of "v' @ w" v' w as b] by auto
next
  assume "\<exists>x t. ts = x # t \<and> fits r x \<and> starts (as, b) t"
  then obtain x t where x: "ts = x # t" "fits r x" "starts (as, b) t" by blast
  obtain v w where "t = v @ w" "in_atoms as v" "b \<longrightarrow> w = []" using x(3) by (rule startsE)
  then show "starts (One r # as, b) ts" using x by (intro startsI[of _ "x # v" w]) auto
qed

lemma starts_Many:
  "starts (Many r # as, b) ts \<longleftrightarrow> (\<exists>u t. ts = u @ t \<and> list_all (fits r) u \<and> starts (as, b) t)"
proof
  assume "starts (Many r # as, b) ts"
  then obtain v w where v: "ts = v @ w" "in_atoms (Many r # as) v" "b \<longrightarrow> w = []" by (rule startsE)
  then obtain u v' where "v = u @ v'" "list_all (fits r) u" "in_atoms as v'" by auto
  then show "\<exists>u t. ts = u @ t \<and> list_all (fits r) u \<and> starts (as, b) t"
    using v startsI[of "v' @ w" v' w as b] by (intro exI[of _ u] exI[of _ "v' @ w"]) auto
next
  assume "\<exists>u t. ts = u @ t \<and> list_all (fits r) u \<and> starts (as, b) t"
  then obtain u t where u: "ts = u @ t" "list_all (fits r) u" "starts (as, b) t" by blast
  obtain v w where "t = v @ w" "in_atoms as v" "b \<longrightarrow> w = []" using u(3) by (rule startsE)
  then show "starts (Many r # as, b) ts" using u by (intro startsI[of _ "u @ v" w]) auto
qed

lemma starts_Many_unfold:
  "starts (Many r # as, b) ts \<longleftrightarrow>
     starts (as, b) ts \<or> (\<exists>x t. ts = x # t \<and> fits r x \<and> starts (Many r # as, b) t)"
proof
  assume "starts (Many r # as, b) ts"
  then obtain u t where u: "ts = u @ t" "list_all (fits r) u" "starts (as, b) t" by (auto simp: starts_Many)
  then show "starts (as, b) ts \<or> (\<exists>x t. ts = x # t \<and> fits r x \<and> starts (Many r # as, b) t)"
    by (cases u) (auto simp: starts_Many)
next
  assume "starts (as, b) ts \<or> (\<exists>x t. ts = x # t \<and> fits r x \<and> starts (Many r # as, b) t)"
  then show "starts (Many r # as, b) ts"
    unfolding starts_Many by (metis append_Cons append_Nil list.pred_inject)
qed

lemma matchhere_starts:
  "matchhere re ts \<longleftrightarrow> starts (parse_re re) ts"
  "matchstar c re ts \<longleftrightarrow> starts (Many c # fst (parse_re re), snd (parse_re re)) ts"
proof (induction re ts and c re ts rule: matchhere_matchstar.induct)
  case (1 ts)
  then show ?case by (simp add: matchhere.simps starts_Nil)
next
  case (2 r re ts)
  then show ?case
    by (cases re; cases ts)
      (auto simp: matchhere.simps(2) starts_Nil starts_One fits_def)
next
  case (3 c re ts)
  then show ?case
    using starts_Many_unfold[of c "fst (parse_re re)" "snd (parse_re re)" ts]
    by (cases ts) (auto simp: matchstar.simps[of c re] fits_def)
qed

lemma match_from_starts: "match_from re ts \<longleftrightarrow> (\<exists>u v. ts = u @ v \<and> starts (parse_re re) v)"
proof (induction ts)
  case Nil
  then show ?case by (simp add: match_from.simps matchhere_starts)
next
  case (Cons x ts)
  have "(\<exists>u v. x # ts = u @ v \<and> starts (parse_re re) v) \<longleftrightarrow>
      starts (parse_re re) (x # ts) \<or> (\<exists>u v. ts = u @ v \<and> starts (parse_re re) v)"
    by (metis append_Cons append_Nil list.inject neq_Nil_conv)
  then show ?case using Cons by (simp add: match_from.simps[of re "x # ts"] matchhere_starts)
qed

text \<open>
  C19. The matcher of \<open>grep\<close> accepts a ts exactly if some part of it is in the language of the pattern:
  the part starts the ts if the pattern begins with a caret and ends it if the pattern ends with an
  unstarred dollar sign; a dot stands for any character and a star for any number of the character before it.
\<close>

theorem match_is_search:
  "match_re re ts \<longleftrightarrow>
     (let tied = (re \<noteq> [] \<and> hd re = 94); (as, fin) = parse_re (if tied then tl re else re)
      in \<exists>u v w. ts = u @ v @ w \<and> (tied \<longrightarrow> u = []) \<and> in_atoms as v \<and> (fin \<longrightarrow> w = []))"
  by (simp add: match_re_def matchhere_starts match_from_starts starts_def split_def Let_def) blast

section \<open>The loop over the lines\<close>

definition BUFSZ :: nat where
  "BUFSZ = 1024"

text \<open>What \<open>read\<close> delivers when it is asked for \<open>k\<close> bytes, and what is left. An empty piece is the end.\<close>

fun read_piece :: "nat \<Rightarrow> u8 list list \<Rightarrow> u8 list \<times> u8 list list" where
  "read_piece k [] = ([], [])"
| "read_piece k (c # cs) = (take k c, if length c \<le> k then cs else drop k c # cs)"

text \<open>\<open>strchr (p, c)\<close> on the buffer: the first \<open>c\<close> before a NUL, or none; the end of the array stops nothing.\<close>

function strchr_buf :: "u8 list \<Rightarrow> nat \<Rightarrow> u8 \<Rightarrow> nat option outcome" where
  "strchr_buf b p c =
     (if length b \<le> p then Undef ''read past the buffer''
      else if b ! p = 0 then Ret None
      else if b ! p = c then Ret (Some p)
      else strchr_buf b (Suc p) c)"
  by pat_completeness auto
termination by (relation "measure (\<lambda>(b, p, c). length b - p)") auto

declare strchr_buf.simps [simp del]

lemma strchr_buf_ge: "strchr_buf b p c = Ret (Some q) \<Longrightarrow> p \<le> q \<and> q < length b"
  by (induction b p c rule: strchr_buf.induct)
    (subst (asm) (2) strchr_buf.simps, fastforce split: if_splits)

definition slice :: "u8 list \<Rightarrow> nat \<Rightarrow> nat \<Rightarrow> u8 list" where
  "slice b p q = take (q - p) (drop p b)"

text \<open>
  The inner loop. It returns the position of the first byte after the last line, the buffer, in which the
  newline of every line that does not match has become a NUL, and the bytes written.
\<close>

function grep_lines :: "u8 list \<Rightarrow> u8 list \<Rightarrow> nat \<Rightarrow> (nat \<times> u8 list \<times> u8 list) outcome" where
  "grep_lines re b p =
     bindO (strchr_buf b p 10) (\<lambda>r. case r of None \<Rightarrow> Ret (p, b, [])
     | Some q \<Rightarrow>
         let hit = match_re re (slice b p q);
             b' = b[q := 0];
             b'' = if hit then b'[q := 10] else b' in
         bindO (grep_lines re b'' (Suc q)) (\<lambda>(p', b3, out).
         Ret (p', b3, (if hit then slice b'' p (Suc q) else []) @ out)))"
  by pat_completeness auto
termination
  by (relation "measure (\<lambda>(re, b, p). length b - p)") (auto dest!: strchr_buf_ge simp: Let_def)

declare grep_lines.simps [simp del]

text \<open>
  The outer loop; \<open>m\<close> is the number of bytes kept from the last piece. Every turn consumes input, so it
  ends: the pieces of \<open>read\<close> are used up in the end.
\<close>

definition input_left :: "u8 list list \<Rightarrow> nat" where
  "input_left cs = sum_list (map (\<lambda>c. Suc (length c)) cs)"

lemma read_piece_less: "read_piece k cs = (d, cs') \<Longrightarrow> d \<noteq> [] \<Longrightarrow> input_left cs' < input_left cs"
  by (cases cs) (auto simp: input_left_def split: if_splits)

function grep_loop :: "u8 list \<Rightarrow> u8 list \<Rightarrow> int \<Rightarrow> u8 list list \<Rightarrow> (u8 list \<times> u8 list) outcome" where
  "grep_loop re b m inp =
     (let (d, inp') = read_piece (nat (int BUFSZ - m)) inp in
      if d = [] then Ret (b, [])
      else if m < 0 then Undef ''write before the buffer''
      else let b1 = take (nat m) b @ d @ drop (nat m + length d) b; m1 = m + int (length d) in
        bindO (grep_lines re b1 0) (\<lambda>(p, b2, out).
        let m2 = if p = 0 then 0 else m1;
            m3 = if m2 > 0 then m2 - int p else m2;
            b3 = if m2 > 0 then slice b2 p (p + nat m3) @ drop (nat m3) b2 else b2 in
        bindO (grep_loop re b3 m3 inp') (\<lambda>(b4, out').
        Ret (b4, out @ out'))))"
  by pat_completeness auto
termination
  by (relation "measure (\<lambda>(re, b, m, inp). input_left inp)") (use read_piece_less in \<open>force+\<close>)

declare grep_loop.simps [simp del]

definition grep :: "u8 list \<Rightarrow> u8 list \<Rightarrow> u8 list list \<Rightarrow> (u8 list \<times> u8 list) outcome" where
  "grep re b inp = grep_loop re b 0 inp"

text \<open>
  \<open>main\<close> on the arguments after the program's name: the buffer passes from one file to the next.
  \<open>files\<close> says what opening a file gives. The result is what is written to the standard output and to
  the standard error output.
\<close>

fun grep_files :: "u8 list \<Rightarrow> (u8 list \<rightharpoonup> u8 list list) \<Rightarrow> u8 list \<Rightarrow> u8 list list \<Rightarrow> u8 list outcome" where
  "grep_files re files b [] = Ret []"
| "grep_files re files b (f # fs) =
     (case files f of None \<Rightarrow> Ret (cstr ''grep: cannot open '' @ f @ [10])
      | Some inp \<Rightarrow> bindO (grep re b inp) (\<lambda>(b', out).
          bindO (grep_files re files b' fs) (\<lambda>out'. Ret (out @ out'))))"

definition grep_main :: "u8 list list \<Rightarrow> (u8 list \<rightharpoonup> u8 list list) \<Rightarrow> u8 list list \<Rightarrow> (u8 list \<times> u8 list) outcome" where
  "grep_main args files stdin =
     (case args of [] \<Rightarrow> Ret ([], cstr ''usage: grep pattern [file ...]'' @ [10])
      | [re] \<Rightarrow> bindO (grep re (replicate BUFSZ 0) stdin) (\<lambda>(b, out). Ret (out, []))
      | re # fs \<Rightarrow> bindO (grep_files re files (replicate BUFSZ 0) fs) (\<lambda>out. Ret (out, [])))"

section \<open>What is written\<close>

text \<open>Lines with their newlines, and the same lines as the inner loop leaves them.\<close>

definition unlines :: "u8 list list \<Rightarrow> u8 list" where
  "unlines ls = concat (map (\<lambda>l. l @ [10]) ls)"

definition marked :: "u8 list \<Rightarrow> u8 list list \<Rightarrow> u8 list" where
  "marked re ls = concat (map (\<lambda>l. l @ [if match_re re l then 10 else 0]) ls)"

lemma unlines_simps [simp]:
  "unlines [] = []" "unlines (l # ls) = l @ 10 # unlines ls" "unlines (ls @ ls') = unlines ls @ unlines ls'"
  by (simp_all add: unlines_def)

lemma marked_simps [simp]:
  "marked re [] = []" "marked re (l # ls) = l @ (if match_re re l then 10 else 0) # marked re ls"
  "marked re (ls @ ls') = marked re ls @ marked re ls'"
  by (simp_all add: marked_def)

lemma length_marked [simp]: "length (marked re ls) = length (unlines ls)"
  by (induction ls) simp_all

lemma marked_all: "list_all (match_re re) ls \<Longrightarrow> marked re ls = unlines ls"
  by (induction ls) simp_all

definition plain :: "u8 list \<Rightarrow> bool" where
  "plain l \<longleftrightarrow> 0 \<notin> set l \<and> 10 \<notin> set l"

lemma strchr_buf_found:
  "plain l \<Longrightarrow> strchr_buf (pre @ l @ 10 # more) (length pre) 10 = Ret (Some (length pre + length l))"
proof (induction l arbitrary: pre)
  case Nil
  then show ?case by (simp add: strchr_buf.simps)
next
  case (Cons x l)
  then show ?case using Cons.IH[of "pre @ [x]"] by (subst strchr_buf.simps) (auto simp: plain_def)
qed

lemma strchr_buf_none:
  "plain l \<Longrightarrow> strchr_buf (pre @ l @ 0 # more) (length pre) 10 = Ret None"
proof (induction l arbitrary: pre)
  case Nil
  then show ?case by (simp add: strchr_buf.simps)
next
  case (Cons x l)
  then show ?case using Cons.IH[of "pre @ [x]"] by (subst strchr_buf.simps) (auto simp: plain_def)
qed

lemma grep_lines_result:
  assumes "list_all plain ls" and "plain rest"
  shows "grep_lines re (pre @ unlines ls @ rest @ 0 # more) (length pre) =
     Ret (length pre + length (unlines ls), pre @ marked re ls @ rest @ 0 # more, unlines (filter (match_re re) ls))"
  using assms(1)
proof (induction ls arbitrary: pre)
  case Nil
  then show ?case using strchr_buf_none[OF assms(2), of pre more] by (subst grep_lines.simps) simp
next
  case (Cons l ls)
  let ?more = "unlines ls @ rest @ 0 # more" and ?e = "if match_re re l then 10 else 0 :: u8"
  have "strchr_buf (pre @ l @ 10 # ?more) (length pre) 10 = Ret (Some (length pre + length l))"
    using Cons.prems by (intro strchr_buf_found) simp
  moreover have "grep_lines re (pre @ l @ ?e # ?more) (Suc (length pre + length l)) =
      Ret (length pre + length l + Suc (length (unlines ls)),
        pre @ l @ ?e # marked re ls @ rest @ 0 # more, unlines (filter (match_re re) ls))"
    using Cons.IH[of "pre @ l @ [?e]"] Cons.prems by simp
  ultimately show ?case
    by (subst grep_lines.simps) (cases "match_re re l"; simp add: slice_def list_update_append)
qed

text \<open>One file that \<open>read\<close> delivers in one piece, into a buffer with anything after it.\<close>

lemma grep_one_piece:
  assumes "list_all plain ls" and "plain rest" and "unlines ls @ rest \<noteq> []"
    and "drop (length (unlines ls @ rest)) b = unlines os @ 0 # more" and "list_all plain os" and "rest = [] \<or> os = []"
    and "length b = BUFSZ"
  shows "\<exists>b'. grep re b [unlines ls @ rest] = Ret (b', unlines (filter (match_re re) (ls @ os))) \<and>
     (rest = [] \<longrightarrow> b' = marked re (ls @ os) @ 0 # more)"
proof -
  let ?d = "unlines ls @ rest"
  have len: "length ?d \<le> BUFSZ"
    using assms(4,7) by (metis drop_all length_0_conv append_is_Nil_conv linorder_linear list.distinct(1))
  have "grep_lines re (unlines (ls @ os) @ rest @ 0 # more) 0 =
      Ret (length (unlines (ls @ os)), marked re (ls @ os) @ rest @ 0 # more, unlines (filter (match_re re) (ls @ os)))"
    using grep_lines_result[of "ls @ os" rest re "[]" more] assms(1,2,5) by simp
  moreover have "?d @ unlines os @ 0 # more = unlines (ls @ os) @ rest @ 0 # more"
    using assms(6) by auto
  ultimately show ?thesis
    using assms(3,4,6) len unfolding grep_def
    by (subst grep_loop.simps) (auto simp: grep_loop.simps[of _ _ _ "[]"] Let_def slice_def)
qed

lemma drop_zeros: "n < k \<Longrightarrow> drop n (replicate k (0::u8)) = 0 # replicate (k - Suc n) 0"
  by (simp add: Suc_diff_Suc flip: replicate_Suc)

lemma grep_fresh:
  assumes "list_all plain ls" and "plain rest" and "length (unlines ls @ rest) < 1024"
  shows "\<exists>b'. grep re (replicate BUFSZ 0) [unlines ls @ rest] = Ret (b', unlines (filter (match_re re) ls)) \<and>
     (rest = [] \<longrightarrow> ls \<noteq> [] \<longrightarrow> b' = marked re ls @ 0 # replicate (BUFSZ - Suc (length (unlines ls))) 0)"
proof (cases "unlines ls @ rest = []")
  case True
  then show ?thesis by (cases ls) (simp_all add: grep_def grep_loop.simps)
next
  case False
  have z: "drop (length (unlines ls @ rest)) (replicate BUFSZ 0) =
      unlines [] @ 0 # replicate (BUFSZ - Suc (length (unlines ls @ rest))) 0"
    using assms(3) drop_zeros[of "length (unlines ls @ rest)" BUFSZ] by (simp add: BUFSZ_def)
  obtain b' where "grep re (replicate BUFSZ 0) [unlines ls @ rest] = Ret (b', unlines (filter (match_re re) (ls @ [])))"
      "rest = [] \<longrightarrow> b' = marked re (ls @ []) @ 0 # replicate (BUFSZ - Suc (length (unlines ls @ rest))) 0"
    using grep_one_piece[OF assms(1,2) False z, of re] by auto
  then show ?thesis by auto
qed

text \<open>
  C35. On an input of fewer than 1024 bytes that \<open>read\<close> delivers at once and that has no NUL byte, \<open>grep\<close>
  writes exactly the lines that match, each with its newline and in order; a last line without a newline is
  not looked at.
\<close>

theorem grep_prints_matching_lines:
  assumes "list_all plain ls" and "plain rest" and "length (unlines ls @ rest) < 1024"
  shows "grep_main [re] files [unlines ls @ rest] = Ret (unlines (filter (match_re re) ls), [])"
  using grep_fresh[OF assms, of re] by (auto simp: grep_main_def)

text \<open>
  The buffer is not cleared between files: when the second file ends where a line of the first file
  begins, the rest of the first file is searched once more and its lines that match are printed again.
\<close>

theorem grep_reprints_first_file:
  assumes "list_all plain (as @ bs)" and "list_all plain ls" and "list_all (match_re re) bs"
    and "length (unlines ls) = length (unlines as)" and "ls \<noteq> []" and "length (unlines (as @ bs)) < 1024"
    and "files f1 = Some [unlines (as @ bs)]" and "files f2 = Some [unlines ls]"
  shows "grep_main [re, f1, f2] files stdin =
     Ret (unlines (filter (match_re re) (as @ bs)) @ unlines (filter (match_re re) ls) @ unlines bs, [])"
proof -
  let ?z = "replicate (BUFSZ - Suc (length (unlines (as @ bs)))) 0"
  have "as \<noteq> []" using assms(4,5) by (cases ls) auto
  then obtain b where b: "grep re (replicate BUFSZ 0) [unlines (as @ bs)] = Ret (b, unlines (filter (match_re re) (as @ bs)))"
      "b = marked re (as @ bs) @ 0 # ?z"
    using grep_fresh[OF assms(1), of "[]" re] assms(6) by (auto simp: plain_def)
  have "drop (length (unlines ls @ [])) b = unlines bs @ 0 # ?z"
    using b(2) assms(4) marked_all[OF assms(3)] by simp
  moreover have "unlines ls @ [] \<noteq> []" using assms(5) by (cases ls) auto
  moreover have "length b = BUFSZ" using b(2) assms(6) by (simp add: BUFSZ_def)
  ultimately obtain b' where "grep re b [unlines ls @ []] = Ret (b', unlines (filter (match_re re) (ls @ bs)))"
    using grep_one_piece[OF assms(2), of "[]" b bs ?z re] assms(1) by (auto simp: plain_def)
  then show ?thesis
    using b(1) assms(3,7,8) by (simp add: grep_main_def filter_id_conv list_all_iff)
qed

section \<open>Witnesses\<close>

theorem match_is_search_witness:
  "match_re (cstr ''^a.*c$'') (cstr ''abbc'') \<and> \<not> match_re (cstr ''^a.*c$'') (cstr ''xabbc'') \<and>
   (\<exists>u v w. cstr ''abbc'' = u @ v @ w \<and> u = [] \<and> in_atoms [One 97, Many 46, One 99] v \<and> w = [])"
proof -
  have "match_re (cstr ''^a.*c$'') (cstr ''abbc'')" "\<not> match_re (cstr ''^a.*c$'') (cstr ''xabbc'')"
    by (simp_all add: cstr_def of_char_def match_re_def matchhere.simps matchstar.simps)
  then show ?thesis
    using match_is_search[of "cstr ''^a.*c$''" "cstr ''abbc''"] by (simp add: cstr_def of_char_def)
qed

theorem grep_prints_matching_lines_witness:
  "grep_main [cstr ''b''] Map.empty [cstr ''ab'' @ [10] @ cstr ''c'' @ [10] @ cstr ''b''] = Ret (cstr ''ab'' @ [10], [])"
  using grep_prints_matching_lines[of "[cstr ''ab'', cstr ''c'']" "cstr ''b''" "cstr ''b''" Map.empty]
  by (simp add: cstr_def of_char_def plain_def match_re_def match_from.simps matchhere.simps)

theorem grep_reprints_first_file_witness:
  "grep_main [cstr ''x'', cstr ''a'', cstr ''b'']
     [cstr ''a'' \<mapsto> [unlines [cstr ''xy'', cstr ''xz'']], cstr ''b'' \<mapsto> [unlines [cstr ''no'']]] [] =
   Ret (unlines [cstr ''xy'', cstr ''xz'', cstr ''xz''], [])"
  using grep_reprints_first_file[of "[cstr ''xy'']" "[cstr ''xz'']" "[cstr ''no'']" "cstr ''x''"
      "[cstr ''a'' \<mapsto> [unlines [cstr ''xy'', cstr ''xz'']], cstr ''b'' \<mapsto> [unlines [cstr ''no'']]]"
      "cstr ''a''" "cstr ''b''" "[]"]
  by (simp add: cstr_def of_char_def plain_def match_re_def match_from.simps matchhere.simps)

end
