(* ===== verification/Umalloc.thy ===== *)
theory Umalloc
  imports Kstring
begin

text \<open>
  The memory allocator of user programs (\<open>P5/xv6/user/umalloc.c\<close>): a circular free list in address order,
  kept in headers of eight bytes in front of every block. The memory is the bytes of the process, so that
  headers and the data of the program share one store. \<open>base\<close> is the address of the static header and
  \<open>brk\<close> the end of the memory of the process; \<open>grow n st\<close> says whether the kernel grants \<open>sbrk (n)\<close>. A loop
  along the list ends only if the list is well formed, so the operations are partial functions.
\<close>

section \<open>State and headers\<close>

record ustate =
  umem :: mem
  freep :: u32
  brk :: u32

definition hptr :: "ustate \<Rightarrow> u32 \<Rightarrow> u32" where
  "hptr st a = load32 (umem st) a"

definition hsize :: "ustate \<Rightarrow> u32 \<Rightarrow> u32" where
  "hsize st a = load32 (umem st) (a + 4)"

definition set_ptr :: "u32 \<Rightarrow> u32 \<Rightarrow> ustate \<Rightarrow> ustate" where
  "set_ptr a v st = st\<lparr>umem := store32 (umem st) a v\<rparr>"

definition set_size :: "u32 \<Rightarrow> u32 \<Rightarrow> ustate \<Rightarrow> ustate" where
  "set_size a v st = st\<lparr>umem := store32 (umem st) (a + 4) v\<rparr>"

section \<open>free\<close>

text \<open>The loop that looks for the free block before \<open>bp\<close>; the list may go round the end once.\<close>

definition stops :: "u32 \<Rightarrow> u32 \<Rightarrow> u32 \<Rightarrow> bool" where
  "stops bp p n \<longleftrightarrow> (bp > p \<and> bp < n) \<or> (p \<ge> n \<and> (bp > p \<or> bp < n))"

partial_function (option) free_find :: "ustate \<Rightarrow> u32 \<Rightarrow> u32 \<Rightarrow> u32 option" where
  "free_find st bp p = (if stops bp p (hptr st p) then Some p else free_find st bp (hptr st p))"

text \<open>Joining the freed block with the free block after it, then with the one before it.\<close>

definition join_next :: "u32 \<Rightarrow> u32 \<Rightarrow> ustate \<Rightarrow> ustate" where
  "join_next bp p st =
     (if bp + 8 * hsize st bp = hptr st p
      then let st' = set_size bp (hsize st bp + hsize st (hptr st p)) st
           in set_ptr bp (hptr st' (hptr st' p)) st'
      else set_ptr bp (hptr st p) st)"

definition join_prev :: "u32 \<Rightarrow> u32 \<Rightarrow> ustate \<Rightarrow> ustate" where
  "join_prev bp p st =
     (if p + 8 * hsize st p = bp
      then let st' = set_size p (hsize st p + hsize st bp) st in set_ptr p (hptr st' bp) st'
      else set_ptr p bp st)"

definition mfree :: "u32 \<Rightarrow> ustate \<Rightarrow> ustate option" where
  "mfree ap st =
     (let bp = ap - 8 in
      case free_find st bp (freep st) of None \<Rightarrow> None
      | Some p \<Rightarrow> Some ((join_prev bp p (join_next bp p st))\<lparr>freep := p\<rparr>))"

section \<open>malloc\<close>

definition morecore :: "(u32 \<Rightarrow> ustate \<Rightarrow> bool) \<Rightarrow> u32 \<Rightarrow> ustate \<Rightarrow> (u32 \<times> ustate) option" where
  "morecore grow nu st =
     (let nu = (if nu < 4096 then 4096 else nu) in
      if \<not> grow (nu * 8) st then Some (0, st)
      else let hp = brk st; st1 = set_size hp nu (st\<lparr>brk := brk st + nu * 8\<rparr>) in
        case mfree (hp + 8) st1 of None \<Rightarrow> None | Some st2 \<Rightarrow> Some (freep st2, st2))"

definition take_block :: "u32 \<Rightarrow> u32 \<Rightarrow> u32 \<Rightarrow> ustate \<Rightarrow> u32 \<times> ustate" where
  "take_block nunits prevp p st =
     (if hsize st p = nunits then (p + 8, (set_ptr prevp (hptr st p) st)\<lparr>freep := prevp\<rparr>)
      else let st1 = set_size p (hsize st p - nunits) st; p' = p + 8 * hsize st1 p
           in (p' + 8, (set_size p' nunits st1)\<lparr>freep := prevp\<rparr>))"

partial_function (option) malloc_loop ::
  "(u32 \<Rightarrow> ustate \<Rightarrow> bool) \<Rightarrow> u32 \<Rightarrow> u32 \<Rightarrow> u32 \<Rightarrow> ustate \<Rightarrow> (u32 \<times> ustate) option" where
  "malloc_loop grow nunits prevp p st =
     (if hsize st p \<ge> nunits then Some (take_block nunits prevp p st)
      else if p = freep st
      then (case morecore grow nunits st of None \<Rightarrow> None
            | Some (q, st1) \<Rightarrow> if q = 0 then Some (0, st1) else malloc_loop grow nunits q (hptr st1 q) st1)
      else malloc_loop grow nunits p (hptr st p) st)"

definition units :: "u32 \<Rightarrow> u32" where
  "units nbytes = (nbytes + 8 - 1) div 8 + 1"

definition malloc :: "(u32 \<Rightarrow> ustate \<Rightarrow> bool) \<Rightarrow> u32 \<Rightarrow> u32 \<Rightarrow> ustate \<Rightarrow> (u32 \<times> ustate) option" where
  "malloc grow base nbytes st =
     (let st1 = (if freep st = 0 then set_size base 0 ((set_ptr base base st)\<lparr>freep := base\<rparr>) else st)
      in malloc_loop grow (units nbytes) (freep st1) (hptr st1 (freep st1)) st1)"

section \<open>Headers in memory\<close>

text \<open>The bytes of the header at an address, and states that agree outside some headers.\<close>

definition in_hdr :: "u32 \<Rightarrow> u32 \<Rightarrow> bool" where
  "in_hdr a x \<longleftrightarrow> unat a \<le> unat x \<and> unat x < unat a + 8"

definition hfit :: "u32 \<Rightarrow> bool" where
  "hfit a \<longleftrightarrow> unat a + 8 \<le> 4294967296"

definition only_at :: "u32 set \<Rightarrow> ustate \<Rightarrow> ustate \<Rightarrow> bool" where
  "only_at A st st' \<longleftrightarrow> (\<forall>x. (\<forall>a\<in>A. \<not> in_hdr a x) \<longrightarrow> umem st' x = umem st x)"

definition apart :: "u32 \<Rightarrow> u32 \<Rightarrow> bool" where
  "apart a b \<longleftrightarrow> unat a + 8 \<le> unat b \<or> unat b + 8 \<le> unat a"

lemma only_at_refl [simp]: "only_at A st st"
  by (simp add: only_at_def)

lemma only_at_trans: "only_at A s t \<Longrightarrow> only_at B t u \<Longrightarrow> A \<union> B \<subseteq> C \<Longrightarrow> only_at C s u"
  unfolding only_at_def by (metis UnCI subsetD)

lemma store_outside:
  assumes "unat (a::u32) + 4 \<le> 4294967296" and "\<not> (unat a \<le> unat x \<and> unat x < unat a + 4)"
  shows "store32 m a v x = m x"
proof (cases "unat x < unat a")
  case True
  then show ?thesis using no_wrap_above[of x a 4] assms(1) by (intro store32_outside) (simp add: word_less_nat_alt)
next
  case False
  then have "unat (x - a) = unat x - unat a" by (simp add: unat_sub word_le_nat_alt)
  then show ?thesis using False assms(2) by (intro store32_outside) simp
qed

lemma hfit_4: "hfit a \<Longrightarrow> unat (a + 4) = unat a + 4"
  using unat_plus_of_nat[of a 4] by (simp add: hfit_def)

lemma only_at_set_ptr [simp]: "hfit a \<Longrightarrow> only_at {a} st (set_ptr a v st)"
  by (auto simp: only_at_def set_ptr_def hfit_def in_hdr_def intro!: store_outside)

lemma only_at_set_size [simp]: "hfit a \<Longrightarrow> only_at {a} st (set_size a v st)"
  using hfit_4[of a] by (auto simp: only_at_def set_size_def hfit_def in_hdr_def intro!: store_outside)

lemma load32_region:
  assumes "unat a + 4 \<le> 4294967296" and "\<And>x. unat a \<le> unat x \<Longrightarrow> unat x < unat a + 4 \<Longrightarrow> m' x = m x"
  shows "load32 m' a = load32 m a"
proof (rule load32_cong)
  fix x :: u32
  assume k: "unat (x - a) < 4"
  have "x = a + of_nat (unat (x - a))" by simp
  then have "unat x = unat a + unat (x - a)"
    using unat_plus_of_nat[of a "unat (x - a)"] k assms(1) by simp
  then show "m' x = m x" using assms(2)[of x] k by simp
qed

lemma only_at_hdr:
  assumes "only_at A st st'" and "hfit b" and "\<And>a. a \<in> A \<Longrightarrow> apart a b"
  shows "hptr st' b = hptr st b" and "hsize st' b = hsize st b"
proof -
  have same: "umem st' x = umem st x" if "in_hdr b x" for x
  proof -
    have "\<not> in_hdr a x" if "a \<in> A" for a
      using assms(3)[OF that] \<open>in_hdr b x\<close> by (auto simp: apart_def in_hdr_def)
    then show ?thesis using assms(1) by (simp add: only_at_def)
  qed
  show "hptr st' b = hptr st b" unfolding hptr_def
    by (rule load32_region) (use assms(2) same in \<open>auto simp: hfit_def in_hdr_def\<close>)
  show "hsize st' b = hsize st b" unfolding hsize_def
    by (rule load32_region) (use assms(2) same hfit_4[OF assms(2)] in \<open>auto simp: hfit_def in_hdr_def\<close>)
qed

text \<open>Reading a header after writing one.\<close>

lemma hdr_same [simp]:
  "hptr (set_ptr a v st) a = v" "hsize (set_size a v st) a = v"
  "hsize (set_ptr a v st) a = hsize st a" "hptr (set_size a v st) a = hptr st a"
  by (simp_all add: hptr_def hsize_def set_ptr_def set_size_def load32_store32_other)

lemma hdr_other:
  assumes "hfit a" and "hfit b" and "apart a b"
  shows "hptr (set_ptr a v st) b = hptr st b" "hsize (set_size a v st) b = hsize st b"
    "hsize (set_ptr a v st) b = hsize st b" "hptr (set_size a v st) b = hptr st b"
  using only_at_hdr[OF only_at_set_ptr[OF assms(1)] assms(2)] only_at_hdr[OF only_at_set_size[OF assms(1)] assms(2)]
    assms(3) by blast+

lemma apart_sym: "apart a b \<Longrightarrow> apart b a"
  by (auto simp: apart_def)

lemma hdr_misc [simp]:
  "brk (set_ptr a v st) = brk st" "brk (set_size a v st) = brk st"
  "freep (set_ptr a v st) = freep st" "freep (set_size a v st) = freep st"
  "hptr (st\<lparr>freep := p\<rparr>) a = hptr st a" "hsize (st\<lparr>freep := p\<rparr>) a = hsize st a"
  "hptr (st\<lparr>brk := b\<rparr>) a = hptr st a" "hsize (st\<lparr>brk := b\<rparr>) a = hsize st a"
  by (simp_all add: set_ptr_def set_size_def hptr_def hsize_def)

section \<open>The layout of the heap\<close>

text \<open>
  The free blocks \<open>S\<close> and the held blocks \<open>H\<close>, given by the addresses of their headers and a function for
  their sizes, fill the memory from \<open>lo\<close> to \<open>hi\<close> without overlap.
\<close>

definition bend :: "(u32 \<Rightarrow> nat) \<Rightarrow> u32 \<Rightarrow> nat" where
  "bend sz a = unat a + 8 * sz a"

definition layout :: "nat \<Rightarrow> nat \<Rightarrow> (u32 \<Rightarrow> nat) \<Rightarrow> u32 set \<Rightarrow> u32 set \<Rightarrow> bool" where
  "layout lo hi sz S H \<longleftrightarrow> finite S \<and> finite H \<and> S \<inter> H = {} \<and>
     (\<forall>a\<in>S \<union> H. lo \<le> unat a \<and> 1 \<le> sz a \<and> bend sz a \<le> hi) \<and>
     (\<forall>a\<in>S \<union> H. \<forall>b\<in>S \<union> H. a < b \<longrightarrow> bend sz a \<le> unat b) \<and>
     hi = lo + (\<Sum>a\<in>S \<union> H. 8 * sz a)"

text \<open>No free block ends where another one starts.\<close>

definition coalesced :: "(u32 \<Rightarrow> nat) \<Rightarrow> u32 set \<Rightarrow> bool" where
  "coalesced sz S \<longleftrightarrow> (\<forall>a\<in>S. \<forall>b\<in>S. bend sz a \<noteq> unat b)"

lemma layout_cong:
  "(\<And>a. a \<in> S \<union> H \<Longrightarrow> sz a = sz' a) \<Longrightarrow> layout lo hi sz S H = layout lo hi sz' S H"
proof -
  assume eq: "\<And>a. a \<in> S \<union> H \<Longrightarrow> sz a = sz' a"
  then have "(\<Sum>a\<in>S \<union> H. 8 * sz a) = (\<Sum>a\<in>S \<union> H. 8 * sz' a)" by (intro sum.cong) auto
  then show ?thesis using eq unfolding layout_def bend_def by simp
qed

lemma layout_release: "layout lo hi sz S H \<Longrightarrow> a \<in> H \<Longrightarrow> layout lo hi sz (insert a S) (H - {a})"
proof -
  assume a: "layout lo hi sz S H" "a \<in> H"
  then have "insert a S \<union> (H - {a}) = S \<union> H" by auto
  then show ?thesis using a by (auto simp: layout_def)
qed

lemma layout_acquire: "layout lo hi sz S H \<Longrightarrow> a \<in> S \<Longrightarrow> layout lo hi sz (S - {a}) (insert a H)"
proof -
  assume a: "layout lo hi sz S H" "a \<in> S"
  then have "(S - {a}) \<union> insert a H = S \<union> H" by auto
  then show ?thesis using a by (auto simp: layout_def)
qed

lemma layout_blocksD:
  assumes "layout lo hi sz S H" and "a \<in> S \<union> H"
  shows "lo \<le> unat a" and "1 \<le> sz a" and "bend sz a \<le> hi"
  using assms by (auto simp: layout_def)

lemma layout_before: "layout lo hi sz S H \<Longrightarrow> a \<in> S \<union> H \<Longrightarrow> b \<in> S \<union> H \<Longrightarrow> a < b \<Longrightarrow> bend sz a \<le> unat b"
  by (auto simp: layout_def)

lemma layout_merge:
  assumes "layout lo hi sz S H" and "a \<in> S" and "b \<in> S" and "bend sz a = unat b"
  shows "layout lo hi (sz(a := sz a + sz b)) (S - {b}) H"
proof -
  let ?sz = "sz(a := sz a + sz b)"
  have ab: "a \<noteq> b" using assms layout_blocksD(2)[of lo hi sz S H a] by (auto simp: bend_def)
  have fin: "finite (S \<union> H)" and bH: "b \<notin> H" using assms by (auto simp: layout_def)
  have e: "bend ?sz a = bend sz b" using assms(4) by (simp add: bend_def)
  have o: "bend ?sz c = bend sz c" if "c \<noteq> a" for c using that by (simp add: bend_def)
  have U: "S - {b} \<union> H = S \<union> H - {b}" using bH by auto
  have "bend ?sz c \<le> unat d" if "c \<in> S \<union> H - {b}" "d \<in> S \<union> H - {b}" "c < d" for c d
  proof (cases "c = a")
    case True
    have "b < d"
    proof (rule ccontr)
      assume "\<not> b < d"
      then have "bend sz d \<le> unat b" using that layout_before[OF assms(1), of d b] assms(3) by auto
      moreover have "bend sz a \<le> unat d" using that True layout_before[OF assms(1), of a d] assms(2) by auto
      ultimately show False using assms(4) layout_blocksD(2)[OF assms(1), of d] that by (simp add: bend_def)
    qed
    then show ?thesis using True e layout_before[OF assms(1), of b d] that assms(3) by auto
  next
    case False
    then show ?thesis using o layout_before[OF assms(1), of c d] that by auto
  qed
  moreover have "lo \<le> unat c \<and> 1 \<le> ?sz c \<and> bend ?sz c \<le> hi" if "c \<in> S \<union> H - {b}" for c
    using that e o[of c] layout_blocksD[OF assms(1), of c] layout_blocksD(3)[OF assms(1), of b] assms(2,3)
    by (cases "c = a") auto
  moreover have "(\<Sum>c\<in>S \<union> H - {b}. 8 * ?sz c) = (\<Sum>c\<in>S \<union> H. 8 * sz c)"
  proof -
    have "(\<Sum>c\<in>S \<union> H - {b} - {a}. 8 * ?sz c) = (\<Sum>c\<in>S \<union> H - {b} - {a}. 8 * sz c)"
      by (intro sum.cong) auto
    moreover note sum.remove[OF fin, of b "\<lambda>c. 8 * sz c"]
      sum.remove[of "S \<union> H - {b}" a "\<lambda>c. 8 * sz c"] sum.remove[of "S \<union> H - {b}" a "\<lambda>c. 8 * ?sz c"]
    moreover have "b \<in> S \<union> H" "finite (S \<union> H - {b})" "a \<in> S \<union> H - {b}" using assms(2,3) fin ab by auto
    moreover have "8 * ?sz a = 8 * sz a + 8 * sz b" by simp
    ultimately show ?thesis by linarith
  qed
  moreover have "finite (S - {b})" "finite H" "(S - {b}) \<inter> H = {}" "hi = lo + (\<Sum>c\<in>S \<union> H. 8 * sz c)"
    using assms(1) by (auto simp: layout_def)
  ultimately show ?thesis unfolding layout_def U by simp
qed

lemma layout_split:
  assumes "layout lo hi sz S H" and "p \<in> S" and "0 < n" and "n < sz p" and "unat q = unat p + 8 * (sz p - n)"
  shows "layout lo hi (sz(p := sz p - n, q := n)) S (insert q H)" and "q \<notin> S \<union> H"
proof -
  let ?sz = "sz(p := sz p - n, q := n)"
  have pq: "p < q" using assms(4,5) by (simp add: word_less_nat_alt)
  have qe: "unat q < bend sz p" using assms(3-5) by (simp add: bend_def)
  show nq: "q \<notin> S \<union> H"
    using layout_before[OF assms(1), of p q] assms(2) pq qe by auto
  have b: "bend ?sz p = unat q" "bend ?sz q = bend sz p" "\<And>c. c \<noteq> p \<Longrightarrow> c \<noteq> q \<Longrightarrow> bend ?sz c = bend sz c"
    using assms(4,5) less_imp_neq[OF pq] by (simp_all add: bend_def)
  have fin: "finite (S \<union> H)" using assms(1) by (simp add: layout_def)
  have lt: "bend ?sz c \<le> unat d" if "c \<in> insert q (S \<union> H)" "d \<in> insert q (S \<union> H)" "c < d" for c d
  proof -
    consider "c = q" | "c = p" | "c \<noteq> p" "c \<noteq> q" by blast
    then show ?thesis
    proof cases
      case 1
      then have "p < d" "d \<in> S \<union> H" using that pq by auto
      then show ?thesis using 1 b(2) layout_before[OF assms(1), of p d] assms(2) by auto
    next
      case 2
      show ?thesis
      proof (cases "d = q")
        case False
        then have "bend sz p \<le> unat d" using 2 that layout_before[OF assms(1), of p d] assms(2) by auto
        then show ?thesis using 2 b(1) qe by simp
      qed (use 2 b(1) in simp)
    next
      case 3
      have "bend sz c \<le> unat d"
      proof (cases "d = q")
        case True
        have "\<not> p < c" using layout_before[OF assms(1), of p c] that 3 assms(2) qe True
          by (auto simp: word_less_nat_alt)
        then have "bend sz c \<le> unat p" using 3 that layout_before[OF assms(1), of c p] assms(2) by auto
        then show ?thesis using True pq by (simp add: word_less_nat_alt)
      qed (use 3 that layout_before[OF assms(1), of c d] in auto)
      then show ?thesis using 3 b(3) by simp
    qed
  qed
  have rg: "lo \<le> unat c \<and> 1 \<le> ?sz c \<and> bend ?sz c \<le> hi" if "c \<in> insert q (S \<union> H)" for c
  proof -
    note p = layout_blocksD[OF assms(1), of p]
    consider "c = q" | "c = p" | "c \<noteq> p" "c \<noteq> q" by blast
    then show ?thesis
    proof cases
      case 3
      then show ?thesis using that b(3) layout_blocksD[OF assms(1), of c] by auto
    qed (use p b qe pq assms(2-4) in \<open>auto simp: word_less_nat_alt\<close>)
  qed
  have "(\<Sum>c\<in>insert q (S \<union> H). 8 * ?sz c) = (\<Sum>c\<in>S \<union> H. 8 * sz c)"
  proof -
    have "(\<Sum>c\<in>insert q (S \<union> H). 8 * ?sz c) = 8 * n + (\<Sum>c\<in>S \<union> H. 8 * ?sz c)"
      using fin nq by simp
    also have "(\<Sum>c\<in>S \<union> H. 8 * ?sz c) = 8 * (sz p - n) + (\<Sum>c\<in>S \<union> H - {p}. 8 * sz c)"
    proof -
      have "(\<Sum>c\<in>S \<union> H. 8 * ?sz c) = 8 * ?sz p + (\<Sum>c\<in>S \<union> H - {p}. 8 * ?sz c)"
        using fin assms(2) by (intro sum.remove) auto
      moreover have "(\<Sum>c\<in>S \<union> H - {p}. 8 * ?sz c) = (\<Sum>c\<in>S \<union> H - {p}. 8 * sz c)"
        using nq by (intro sum.cong) auto
      ultimately show ?thesis using less_imp_neq[OF pq] by simp
    qed
    also have "8 * n + (8 * (sz p - n) + (\<Sum>c\<in>S \<union> H - {p}. 8 * sz c)) = 8 * sz p + (\<Sum>c\<in>S \<union> H - {p}. 8 * sz c)"
      using assms(4) by simp
    also have "\<dots> = (\<Sum>c\<in>S \<union> H. 8 * sz c)"
      using fin assms(2) by (intro sum.remove[symmetric]) auto
    finally show ?thesis .
  qed
  then show "layout lo hi ?sz S (insert q H)"
    using assms(1) lt rg nq unfolding layout_def by simp
qed

lemma layout_extend:
  assumes "layout lo (unat hi) sz S H" and "0 < n" and "unat hi + 8 * n = unat hi'"
  shows "layout lo (unat hi') (sz(hi := n)) S (insert hi H)" and "hi \<notin> S \<union> H"
proof -
  let ?sz = "sz(hi := n)"
  have lt: "c < hi" if "c \<in> S \<union> H" for c
    using layout_blocksD(2,3)[OF assms(1) that] by (simp add: bend_def word_less_nat_alt)
  then show nh: "hi \<notin> S \<union> H" by blast
  have lo: "lo \<le> unat hi" using assms(1) by (simp add: layout_def)
  have b: "bend ?sz hi = unat hi'" "\<And>c. c \<in> S \<union> H \<Longrightarrow> bend ?sz c = bend sz c"
    using assms(3) nh by (auto simp: bend_def)
  have "lo \<le> unat c \<and> 1 \<le> ?sz c \<and> bend ?sz c \<le> unat hi'" if "c \<in> insert hi (S \<union> H)" for c
    using that layout_blocksD[OF assms(1), of c] b assms(2,3) lo nh by (cases "c = hi") auto
  moreover have "bend ?sz c \<le> unat d" if "c \<in> insert hi (S \<union> H)" "d \<in> insert hi (S \<union> H)" "c < d" for c d
    using that lt[of d] layout_before[OF assms(1), of c d] layout_blocksD(3)[OF assms(1), of c] b(2)[of c]
    by (auto simp: word_less_nat_alt)
  moreover have "(\<Sum>c\<in>insert hi (S \<union> H). 8 * ?sz c) = 8 * n + (\<Sum>c\<in>S \<union> H. 8 * sz c)"
    using assms(1) nh by (auto simp: layout_def intro!: sum.cong)
  ultimately show "layout lo (unat hi') ?sz S (insert hi H)"
    using assms(1,3) nh by (simp add: layout_def)
qed

section \<open>The free list\<close>

fun chain :: "(u32 \<Rightarrow> u32) \<Rightarrow> u32 list \<Rightarrow> u32 \<Rightarrow> bool" where
  "chain nx [] e \<longleftrightarrow> True"
| "chain nx (a # as) e \<longleftrightarrow> nx a = hd (as @ [e]) \<and> chain nx as e"

lemma chain_append: "chain nx (xs @ ys) e \<longleftrightarrow> chain nx xs (hd (ys @ [e])) \<and> chain nx ys e"
  by (induction xs) (auto simp: hd_append)

lemma chain_cong: "(\<And>a. a \<in> set xs \<Longrightarrow> nx' a = nx a) \<Longrightarrow> chain nx' xs e = chain nx xs e"
  by (induction xs) auto

text \<open>The invariant: the list from \<open>base\<close> through the free blocks and back, in address order, and the layout.\<close>

definition usz :: "ustate \<Rightarrow> u32 \<Rightarrow> nat" where
  "usz st a = unat (hsize st a)"

definition heap_ok :: "u32 \<Rightarrow> nat \<Rightarrow> ustate \<Rightarrow> u32 list \<Rightarrow> u32 set \<Rightarrow> bool" where
  "heap_ok base lo st F H \<longleftrightarrow> base \<noteq> 0 \<and> unat base + 8 \<le> lo \<and> unat (brk st) + 8 \<le> 4294967296 \<and>
     sorted_wrt (<) (base # F) \<and> chain (hptr st) (base # F) base \<and> freep st \<in> set (base # F) \<and>
     usz st base = 0 \<and> layout lo (unat (brk st)) (usz st) (set F) H \<and> coalesced (usz st) (set F)"

lemma heap_blockD:
  assumes "heap_ok base lo st F H" and "a \<in> set F \<union> H"
  shows "base < a" and "unat base + 8 \<le> unat a" and "1 \<le> usz st a" and "bend (usz st) a \<le> unat (brk st)"
    and "unat a + 8 \<le> bend (usz st) a"
proof -
  note h = assms(1)[unfolded heap_ok_def]
  note b = layout_blocksD[OF _ assms(2), of lo "unat (brk st)" "usz st"]
  show "unat base + 8 \<le> unat a" "1 \<le> usz st a" "bend (usz st) a \<le> unat (brk st)" using b h by auto
  then show "base < a" "unat a + 8 \<le> bend (usz st) a" by (simp_all add: word_less_nat_alt bend_def)
qed

lemma heap_before:
  assumes "heap_ok base lo st F H" and "a \<in> set F \<union> H" and "b \<in> set F \<union> H" and "a < b"
  shows "bend (usz st) a \<le> unat b"
  using assms layout_before by (auto simp: heap_ok_def)

lemma heap_apart:
  assumes "heap_ok base lo st F H" and "a \<in> insert base (set F \<union> H)" and "b \<in> insert base (set F \<union> H)" and "a \<noteq> b"
  shows "apart a b"
proof -
  have "unat a + 8 \<le> unat b" if "a < b" "a \<in> insert base (set F \<union> H)" "b \<in> insert base (set F \<union> H)" for a b
  proof (cases "a = base")
    case True
    then show ?thesis using that heap_blockD(2)[OF assms(1), of b] by auto
  next
    case False
    then have a: "a \<in> set F \<union> H" using that by blast
    then have "b \<noteq> base" using that(1) heap_blockD(1)[OF assms(1) a] by auto
    then have b: "b \<in> set F \<union> H" using that by blast
    show ?thesis
      using heap_before[OF assms(1) a b that(1)] heap_blockD(5)[OF assms(1) a] by linarith
  qed
  then show ?thesis using assms(2-4) unfolding apart_def by (metis linorder_neqE)
qed

lemma heap_hfit:
  assumes "heap_ok base lo st F H" and "a \<in> insert base (set F \<union> H)"
  shows "hfit a"
proof (cases "a = base")
  case True
  have "unat base + 8 \<le> lo" "lo \<le> unat (brk st)" "unat (brk st) + 8 \<le> 4294967296"
    using assms(1) by (auto simp: heap_ok_def layout_def)
  then show ?thesis using True by (simp add: hfit_def)
next
  case False
  then have "a \<in> set F \<union> H" using assms(2) by blast
  then show ?thesis using heap_blockD(4,5)[OF assms(1)] assms(1) by (force simp: hfit_def heap_ok_def)
qed

lemma unat_end: "unat a + 8 * unat n < 4294967296 \<Longrightarrow> unat (a + 8 * n) = unat (a::u32) + 8 * unat n"
  by (simp add: unat_word_ariths)

lemma heap_end:
  assumes "heap_ok base lo st F H" and "a \<in> set F \<union> H"
  shows "unat (a + 8 * hsize st a) = bend (usz st) a"
proof -
  have "unat (brk st) + 8 \<le> 4294967296" using assms(1) by (simp add: heap_ok_def)
  then show ?thesis using heap_blockD(4)[OF assms] by (simp add: unat_end bend_def usz_def)
qed

lemma heap_sorted: "heap_ok base lo st F H \<Longrightarrow> sorted_wrt (<) (base # F)"
  by (simp add: heap_ok_def)

text \<open>The place of an address in a sorted list.\<close>

lemma sorted_split:
  assumes "sorted_wrt (<) L" and "L \<noteq> []" and "hd L < bp" and "bp \<notin> set L"
  obtains xs p ys where "L = xs @ p # ys" and "p < (bp::u32)" and "\<forall>y\<in>set ys. bp < y"
proof -
  have "\<exists>xs p ys. L = xs @ p # ys \<and> p < bp \<and> (\<forall>y\<in>set ys. bp < y)"
    using assms
  proof (induction L)
    case (Cons a L)
    show ?case
    proof (cases "L \<noteq> [] \<and> hd L < bp")
      case True
      then obtain xs p ys where "L = xs @ p # ys" "p < bp" "\<forall>y\<in>set ys. bp < y" using Cons by auto
      then show ?thesis by (intro exI[of _ "a # xs"]) auto
    next
      case False
      have "bp < y" if "y \<in> set L" for y
      proof -
        have "bp < hd L" using that False Cons.prems(4) by (cases L) auto
        then show ?thesis using that Cons.prems(1) by (cases L) auto
      qed
      then show ?thesis using Cons.prems(3) by (intro exI[of _ "[]"]) auto
    qed
  qed simp
  then show thesis using that by blast
qed

section \<open>The search of free\<close>

lemma free_find_walk:
  assumes "chain (hptr st) zs e" and "\<And>us a vs. zs = us @ a # vs \<Longrightarrow> \<not> stops bp a (hd (vs @ [e]))"
  shows "free_find st bp (hd (zs @ [e])) = free_find st bp e"
  using assms
proof (induction zs)
  case (Cons z zs)
  have "\<not> stops bp z (hd (zs @ [e]))" using Cons.prems(2)[of "[]"] by simp
  then have "free_find st bp z = free_find st bp (hd (zs @ [e]))"
    using Cons.prems(1) by (subst free_find.simps) simp
  also have "\<dots> = free_find st bp e"
    using Cons.prems(1) Cons.prems(2)[of "z # us" for us] by (intro Cons.IH) auto
  finally show ?case by simp
qed simp

lemma free_find_result:
  assumes L: "L = xs @ p # ys" "sorted_wrt (<) L" "chain (hptr st) L (hd L)" and f: "f \<in> set L"
    and p: "p < bp" "\<forall>y\<in>set ys. bp < y"
  shows "free_find st bp f = Some p"
proof -
  have base: "hd L \<le> p" using L(1,2) by (cases xs) auto
  have ch: "chain (hptr st) xs p" "hptr st p = hd (ys @ [hd L])" "chain (hptr st) ys (hd L)"
    using L(3) unfolding L(1) chain_append by auto
  have here: "free_find st bp p = Some p"
    using ch(2) p base by (subst free_find.simps) (cases ys; auto simp: stops_def)
  have below: "free_find st bp (hd (vs @ [p])) = Some p" if "xs = us @ vs" for us vs
  proof -
    have "\<not> stops bp a (hd (ws @ [p]))" if v: "vs = qs @ a # ws" for qs a ws
    proof -
      have "a < hd (ws @ [p])" "hd (ws @ [p]) \<le> p"
        using L(1,2) \<open>xs = us @ vs\<close> v by (cases ws; auto simp: sorted_wrt_append)+
      then show ?thesis using p(1) by (auto simp: stops_def)
    qed
    then show ?thesis using free_find_walk[of st vs p bp] ch(1) that here by (auto simp: chain_append)
  qed
  consider us vs where "xs = us @ f # vs" | "f = p" | us vs where "ys = us @ f # vs"
    using f L(1) by (auto dest: split_list)
  then show ?thesis
  proof cases
    case (1 us vs)
    then show ?thesis using below[of us "f # vs"] by simp
  next
    case (3 us vs)
    have "\<not> stops bp a (hd (ws @ [hd L]))" if v: "f # vs = qs @ a # ws" for qs a ws
    proof -
      have a: "bp < a" using p(2) 3 v by (metis in_set_conv_decomp append_assoc)
      have "ws \<noteq> [] \<longrightarrow> a < hd ws"
        using L(1,2) 3 v by (cases ws) (auto simp: sorted_wrt_append)
      moreover have "\<not> bp < hd L" using base p(1) by simp
      ultimately show ?thesis using a by (cases ws) (auto simp: stops_def)
    qed
    then have "free_find st bp f = free_find st bp (hd L)"
      using free_find_walk[of st "f # vs" "hd L" bp] ch(3) 3 by (auto simp: chain_append)
    also have "hd L = hd (xs @ [p])" using L(1) by (cases xs) auto
    finally show ?thesis using below[of "[]" xs] by simp
  qed (use here in simp)
qed

section \<open>Freeing a block\<close>

text \<open>
  The situation of \<open>free\<close> once the search has stopped: \<open>p\<close> is the free block (or \<open>base\<close>) before the held
  block \<open>bp\<close>, \<open>ys\<close> are the free blocks after it.
\<close>

definition free_at :: "u32 \<Rightarrow> nat \<Rightarrow> ustate \<Rightarrow> u32 list \<Rightarrow> u32 set \<Rightarrow> u32 \<Rightarrow> u32 list \<Rightarrow> u32 \<Rightarrow> u32 list \<Rightarrow> bool" where
  "free_at base lo st F H bp xs p ys \<longleftrightarrow> heap_ok base lo st F H \<and> bp \<in> H \<and> base # F = xs @ p # ys \<and>
     p < bp \<and> (\<forall>y\<in>set ys. bp < y)"

definition joins_next :: "ustate \<Rightarrow> u32 \<Rightarrow> u32 list \<Rightarrow> bool" where
  "joins_next st bp ys \<longleftrightarrow> ys \<noteq> [] \<and> bend (usz st) bp = unat (hd ys)"

definition joins_prev :: "ustate \<Rightarrow> u32 \<Rightarrow> u32 \<Rightarrow> u32 \<Rightarrow> bool" where
  "joins_prev st base p bp \<longleftrightarrow> p \<noteq> base \<and> bend (usz st) p = unat bp"

definition rest_of :: "ustate \<Rightarrow> u32 \<Rightarrow> u32 list \<Rightarrow> u32 list" where
  "rest_of st bp ys = (if joins_next st bp ys then tl ys else ys)"

definition freed_size :: "ustate \<Rightarrow> u32 \<Rightarrow> u32 list \<Rightarrow> nat" where
  "freed_size st bp ys = usz st bp + (if joins_next st bp ys then usz st (hd ys) else 0)"

lemma free_at_nodes:
  assumes "free_at base lo st F H bp xs p ys"
  shows "heap_ok base lo st F H" and "bp \<in> set F \<union> H" and "p \<in> insert base (set F \<union> H)"
    and "set ys \<subseteq> set F" and "set xs \<subseteq> insert base (set F)" and "bp \<notin> set F" and "bp \<noteq> base"
    and "hptr st p = hd (ys @ [base])" and "chain (hptr st) xs p" and "chain (hptr st) ys base"
    and "bp \<notin> set xs" and "p \<notin> set xs" and "p \<notin> set ys" and "p \<noteq> bp"
    and "set F = (set xs \<union> {p} \<union> set ys) - {base}" and "base \<in> insert p (set xs)"
    and "sorted_wrt (<) (xs @ p # ys)"
proof -
  note a = assms[unfolded free_at_def]
  show ok: "heap_ok base lo st F H" and "bp \<in> set F \<union> H" using a by auto
  have L: "base # F = xs @ p # ys" using a by simp
  then have "set (base # F) = set (xs @ p # ys)" by simp
  then have s: "insert base (set F) = insert p (set xs \<union> set ys)" by simp
  then show "p \<in> insert base (set F \<union> H)" "set xs \<subseteq> insert base (set F)" by auto
  show "set ys \<subseteq> set F" using L by (cases xs) auto
  show "bp \<notin> set F" using a by (auto simp: heap_ok_def layout_def)
  show nb: "bp \<noteq> base" using heap_blockD(1)[OF ok, of bp] a by auto
  have "chain (hptr st) (xs @ p # ys) base" using ok L by (simp add: heap_ok_def)
  then show "hptr st p = hd (ys @ [base])" "chain (hptr st) xs p" "chain (hptr st) ys base"
    by (auto simp: chain_append)
  show so: "sorted_wrt (<) (xs @ p # ys)" using heap_sorted[OF ok] L by simp
  then show "p \<notin> set xs" "p \<notin> set ys" by (auto simp: sorted_wrt_append)
  show "p \<noteq> bp" "bp \<notin> set xs" using so a by (force simp: sorted_wrt_append)+
  have "base \<notin> set F" using heap_sorted[OF ok] by auto
  then show "set F = (set xs \<union> {p} \<union> set ys) - {base}" using s by auto
  show "base \<in> insert p (set xs)" using L by (cases xs) auto
qed

lemma unat_size_sum:
  assumes "unat (a::u32) + 8 * (unat m + unat n) \<le> k" and "k < 4294967296"
  shows "unat (m + n :: u32) = unat m + unat n"
  using assms by (simp add: unat_word_ariths)

lemma join_next_hdr:
  assumes "free_at base lo st F H bp xs p ys"
  defines "st1 \<equiv> join_next bp p st"
  shows "hptr st1 bp = hd (rest_of st bp ys @ [base])" and "usz st1 bp = freed_size st bp ys"
    and "only_at {bp} st st1" and "brk st1 = brk st"
    and "bend (usz st1) bp \<le> unat (brk st)" and "\<forall>y\<in>set (rest_of st bp ys). bend (usz st1) bp < unat y"
proof -
  note n = free_at_nodes[OF assms(1)]
  have fit: "hfit bp" using heap_hfit[OF n(1), of bp] n(2) by blast
  have e: "unat (bp + 8 * hsize st bp) = bend (usz st) bp" using heap_end[OF n(1,2)] .
  have lim: "unat (brk st) + 8 \<le> 4294967296" using n(1) by (simp add: heap_ok_def)
  have so: "sorted_wrt (<) ys"
    using n(17) by (simp add: sorted_wrt_append)
  have gt: "\<forall>y\<in>set ys. bp < y" using assms(1) by (simp add: free_at_def)
  have cond: "bp + 8 * hsize st bp = hptr st p \<longleftrightarrow> joins_next st bp ys"
  proof (cases ys)
    case Nil
    have "unat base < bend (usz st) bp" using heap_blockD(1,5)[OF n(1,2)] by (simp add: word_less_nat_alt)
    then show ?thesis using Nil n(8) e by (auto simp: joins_next_def)
  qed (use n(8) e in \<open>auto simp: joins_next_def word_unat_eq_iff\<close>)
  have "hptr st1 bp = hd (rest_of st bp ys @ [base]) \<and> usz st1 bp = freed_size st bp ys \<and>
     only_at {bp} st st1 \<and> brk st1 = brk st \<and> bend (usz st1) bp \<le> unat (brk st) \<and>
     (\<forall>y\<in>set (rest_of st bp ys). bend (usz st1) bp < unat y)"
  proof (cases "joins_next st bp ys")
    case True
    then obtain y zs where ys: "ys = y # zs" by (cases ys) (auto simp: joins_next_def)
    have y: "y \<in> set F \<union> H" "bp \<noteq> y" using n(4,6) ys by auto
    have ap: "apart bp p" "apart bp y" "hfit p" "hfit y"
      using heap_apart[OF n(1)] heap_hfit[OF n(1)] n(2,3,14) y by auto
    let ?s = "set_size bp (hsize st bp + hsize st y) st"
    have st1: "st1 = set_ptr bp (hptr st y) ?s"
      using True cond n(8) ys hdr_other[OF fit ap(3) ap(1)] hdr_other[OF fit ap(4) ap(2)]
      by (simp add: st1_def join_next_def Let_def)
    have be: "bend (usz st) bp = unat y" using True ys by (simp add: joins_next_def)
    have ye: "bend (usz st) y \<le> unat (brk st)" using heap_blockD(4)[OF n(1) y(1)] .
    have sz: "usz st1 bp = usz st bp + usz st y"
      using unat_size_sum[of bp "hsize st bp" "hsize st y" "unat (brk st)"] be ye lim
      by (simp add: st1 usz_def bend_def)
    then have "bend (usz st1) bp = bend (usz st) y" using be by (simp add: bend_def)
    moreover have "bend (usz st) y < unat z" if "z \<in> set zs" for z
    proof -
      have z: "z \<in> set F" "y \<in> set F" "y < z" using n(4) ys that so by auto
      then have "bend (usz st) y \<le> unat z" using heap_before[OF n(1), of y z] by simp
      moreover have "bend (usz st) y \<noteq> unat z" using n(1) z by (auto simp: heap_ok_def coalesced_def)
      ultimately show ?thesis by simp
    qed
    moreover have "only_at {bp} st st1"
      unfolding st1 by (rule only_at_trans[OF only_at_set_size[OF fit] only_at_set_ptr[OF fit]]) simp
    ultimately show ?thesis
      using True ys sz ye n(10) by (simp add: rest_of_def freed_size_def st1)
  next
    case False
    then have st1: "st1 = set_ptr bp (hd (ys @ [base])) st" using cond n(8) by (simp add: st1_def join_next_def)
    then have sz: "usz st1 bp = usz st bp" by (simp add: usz_def)
    have "bend (usz st) bp < unat y" if "y \<in> set ys" for y
    proof -
      have le: "bend (usz st) bp \<le> unat (hd ys)" "hd ys \<le> y"
        using heap_before[OF n(1,2), of "hd ys"] that gt n(4) so by (cases ys; auto)+
      have "bend (usz st) bp \<noteq> unat (hd ys)" using False that by (auto simp: joins_next_def)
      then show ?thesis using le by (simp add: word_le_nat_alt)
    qed
    then show ?thesis
      using False sz fit heap_blockD(4)[OF n(1,2)]
      by (simp add: st1 rest_of_def freed_size_def bend_def)
  qed
  then show "hptr st1 bp = hd (rest_of st bp ys @ [base])" "usz st1 bp = freed_size st bp ys"
    "only_at {bp} st st1" "brk st1 = brk st" "bend (usz st1) bp \<le> unat (brk st)"
    "\<forall>y\<in>set (rest_of st bp ys). bend (usz st1) bp < unat y" by blast+
qed

lemma join_prev_hdr:
  assumes "free_at base lo st F H bp xs p ys"
  defines "st1 \<equiv> join_next bp p st" and "P \<equiv> joins_prev st base p bp"
  defines "st2 \<equiv> join_prev bp p st1"
  shows "hptr st2 p = (if P then hd (rest_of st bp ys @ [base]) else bp)"
    and "usz st2 p = (if P then usz st p + freed_size st bp ys else usz st p)"
    and "hptr st2 bp = hd (rest_of st bp ys @ [base])" and "usz st2 bp = freed_size st bp ys"
    and "only_at {p, bp} st st2" and "brk st2 = brk st"
proof -
  note n = free_at_nodes[OF assms(1)]
  note j = join_next_hdr[OF assms(1), folded st1_def]
  have fit: "hfit p" "hfit bp" and ap: "apart p bp" "apart bp p"
    using heap_hfit[OF n(1)] heap_apart[OF n(1)] n(2,3,14) by auto
  have same: "hptr st1 p = hptr st p" "hsize st1 p = hsize st p"
    using only_at_hdr[OF j(3) fit(1)] ap by auto
  have lim: "unat (brk st) + 8 \<le> 4294967296" using n(1) by (simp add: heap_ok_def)
  have cond: "p + 8 * hsize st1 p = bp \<longleftrightarrow> P"
  proof (cases "p = base")
    case True
    then have "hsize st p = 0" using n(1) by (simp add: heap_ok_def usz_def unsigned_eq_0_iff)
    then show ?thesis using True n(7) same(2) by (simp add: P_def joins_prev_def)
  next
    case False
    then have "p \<in> set F \<union> H" using n(3) by blast
    then show ?thesis using heap_end[OF n(1)] False by (simp add: P_def joins_prev_def same word_unat_eq_iff)
  qed
  have all: "hptr st2 p = (if P then hd (rest_of st bp ys @ [base]) else bp) \<and>
    usz st2 p = (if P then usz st p + freed_size st bp ys else usz st p) \<and>
    hptr st2 bp = hptr st1 bp \<and> usz st2 bp = usz st1 bp \<and> only_at {p} st1 st2 \<and> brk st2 = brk st1"
  proof (cases P)
    case True
    let ?s = "set_size p (hsize st1 p + hsize st1 bp) st1"
    have st2: "st2 = set_ptr p (hptr st1 bp) ?s"
      using True cond hdr_other[OF fit ap(1)] by (simp add: st2_def join_prev_def Let_def)
    have "unat p + 8 * (unat (hsize st1 p) + unat (hsize st1 bp)) \<le> unat (brk st)"
      using True j(5) same by (simp add: P_def joins_prev_def bend_def usz_def)
    then have "usz st2 p = usz st p + usz st1 bp"
      using unat_size_sum[of p "hsize st1 p" "hsize st1 bp" "unat (brk st)"] lim same by (simp add: st2 usz_def)
    moreover have "only_at {p} st1 st2"
      unfolding st2 by (rule only_at_trans[OF only_at_set_size[OF fit(1)] only_at_set_ptr[OF fit(1)]]) simp
    ultimately show ?thesis using True j hdr_other[OF fit ap(1)] by (simp add: st2 usz_def)
  next
    case False
    then have "st2 = set_ptr p bp st1" using cond by (simp add: st2_def join_prev_def)
    then show ?thesis using False same hdr_other[OF fit ap(1)] fit by (simp add: usz_def)
  qed
  then show "hptr st2 p = (if P then hd (rest_of st bp ys @ [base]) else bp)"
    "usz st2 p = (if P then usz st p + freed_size st bp ys else usz st p)"
    "hptr st2 bp = hd (rest_of st bp ys @ [base])" "usz st2 bp = freed_size st bp ys" "brk st2 = brk st"
    using j by auto
  show "only_at {p, bp} st st2"
    using only_at_trans[OF j(3), of "{p}" st2 "{p, bp}"] all by blast
qed

text \<open>The layout after freeing: the block moves to the free blocks and is merged with its neighbours.\<close>

lemma free_layout:
  assumes fa: "free_at base lo st F H bp xs p ys"
  defines "P \<equiv> joins_prev st base p bp" and "zs \<equiv> rest_of st bp ys"
  defines "S \<equiv> (set xs \<union> {p} \<union> (if P then {} else {bp}) \<union> set zs) - {base}"
  defines "k \<equiv> (if P then p else bp)"
  defines "sz \<equiv> (usz st)(bp := freed_size st bp ys, k := (if P then usz st p else 0) + freed_size st bp ys)"
  shows "layout lo (unat (brk st)) sz S (H - {bp})" and "coalesced sz S" and "k \<in> S"
    and "usz st bp \<le> sz k"
proof -
  note n = free_at_nodes[OF fa]
  let ?N = "joins_next st bp ys" and ?hi = "unat (brk st)"
  have so: "sorted_wrt (<) (xs @ p # ys)" by (rule n(17))
  have lay: "layout lo ?hi (usz st) (insert bp (set F)) (H - {bp})"
    using n(1) fa by (intro layout_release) (auto simp: heap_ok_def free_at_def)
  have y: "hd ys \<in> set F" "hd ys \<noteq> bp" "bend (usz st) bp = unat (hd ys)" if ?N
    using that n(4,6) by (cases ys; auto simp: joins_next_def)+
  define S1 where "S1 = (if ?N then insert bp (set F) - {hd ys} else insert bp (set F))"
  have lay1: "layout lo ?hi ((usz st)(bp := freed_size st bp ys)) S1 (H - {bp})"
    using lay layout_merge[OF lay, of bp "hd ys"] y by (auto simp: S1_def freed_size_def)
  have pS: "p \<in> set F" "p \<noteq> base" "bend (usz st) p = unat bp" if P
    using that n(3,15) by (auto simp: P_def joins_prev_def)
  have py: "p \<noteq> hd ys" if ?N using that n(13) by (auto simp: joins_next_def)
  have zs: "set zs = set ys - (if ?N then {hd ys} else {})"
  proof (cases ?N)
    case True
    then show ?thesis using so by (cases ys) (auto simp: zs_def rest_of_def joins_next_def sorted_wrt_append)
  qed (simp add: zs_def rest_of_def)
  have nxs: "hd ys \<notin> set xs" if ?N
    using that so by (cases ys) (auto simp: joins_next_def sorted_wrt_append)
  have S: "S = (if P then S1 - {bp} else S1)"
    using zs n(6,7,11,14,15) py nxs y by (auto simp: S_def S1_def split: if_splits)
  have nS: "bp \<notin> S" if P using that n(4,6,11,14) zs by (auto simp: S_def)
  show kS: "k \<in> S" using n(7) pS by (auto simp: S_def k_def)
  have "layout lo ?hi sz (S1 - {bp}) (H - {bp})" if P
  proof -
    have "p \<in> S1" "bp \<in> S1" using pS[OF that] py y by (auto simp: S1_def)
    then show ?thesis
      using layout_merge[OF lay1, of p bp] pS[OF that] n(14) that by (simp add: bend_def sz_def k_def)
  qed
  then show "layout lo ?hi sz S (H - {bp})"
    using lay1 S by (cases P) (simp_all add: sz_def k_def)
  show "usz st bp \<le> sz k" by (simp add: sz_def freed_size_def)
  have old: "bend (usz st) a \<noteq> unat b" if "a \<in> set F" "b \<in> set F" for a b
    using n(1) that by (auto simp: heap_ok_def coalesced_def)
  have bk: "bend sz k = (if ?N then bend (usz st) (hd ys) else bend (usz st) bp)"
    using pS y n(14) by (auto simp: bend_def sz_def k_def freed_size_def)
  have rest: "bend sz a = bend (usz st) a" if "a \<in> S" "a \<noteq> k" for a
    using that nS by (cases "a = bp") (auto simp: bend_def sz_def k_def split: if_splits)
  have SF: "a \<in> set F" if "a \<in> S" "a \<noteq> bp" for a
    using that zs n(15) by (auto simp: S_def split: if_splits)
  show "coalesced sz S"
    unfolding coalesced_def
  proof (intro ballI)
    fix a b
    assume a: "a \<in> S" and b: "b \<in> S"
    show "bend sz a \<noteq> unat b"
    proof (cases "a = k")
      case True
      have gt: "unat bp + 8 \<le> bend sz k"
        using bk heap_blockD(5)[OF n(1,2)] y heap_blockD(5)[OF n(1), of "hd ys"] by (auto split: if_splits)
      show ?thesis
      proof
        assume e: "bend sz a = unat b"
        then have "bp < b" using True gt by (simp add: word_less_nat_alt)
        moreover have "b \<notin> set xs" "b \<noteq> p"
          using \<open>bp < b\<close> fa so by (auto simp: free_at_def sorted_wrt_append)
        ultimately have bz: "b \<in> set zs" using b by (auto simp: S_def split: if_splits)
        have "usz (join_next bp p st) bp = freed_size st bp ys" using join_next_hdr(2)[OF fa] .
        moreover have "bend (usz (join_next bp p st)) bp < unat b"
          using join_next_hdr(6)[OF fa] bz by (simp add: zs_def)
        ultimately show False using e True bk y by (auto simp: bend_def freed_size_def split: if_splits)
      qed
    next
      case False
      show ?thesis
      proof (cases "b = bp")
        case True
        then have nP: "\<not> P" using b nS by blast
        have aF: "a \<in> set F" "a \<noteq> base" using SF a False nP by (auto simp: k_def S_def)
        show ?thesis
        proof
          assume "bend sz a = unat b"
          then have e: "bend (usz st) a = unat bp" using rest a False True by simp
          then have "a < bp" using heap_blockD(5)[OF n(1), of a] aF by (simp add: word_less_nat_alt)
          then have "a \<in> set xs \<or> a = p" using aF(1) n(15) fa by (auto simp: free_at_def)
          moreover have "a \<noteq> p" using nP e aF by (auto simp: P_def joins_prev_def)
          ultimately have "a < p" "p \<in> set F" using so n(15) aF n(16) heap_blockD(1)[OF n(1), of a]
            by (auto simp: sorted_wrt_append)
          then have "bend (usz st) a \<le> unat p" using heap_before[OF n(1), of a p] aF by simp
          then show False using e fa by (simp add: free_at_def word_less_nat_alt)
        qed
      next
        case bb: False
        have "a \<noteq> bp" using False a nS by (auto simp: k_def split: if_splits)
        then show ?thesis using old SF a b bb rest False by auto
      qed
    qed
  qed
qed

text \<open>
  What \<open>free\<close> of a held block does: it returns, the block is free, no held block is touched, and there is a
  free block at least as big as the one freed.
\<close>

lemma mfree_ok:
  assumes ok: "heap_ok base lo st F H" and bp: "bp \<in> H"
  shows "\<exists>st' F'. mfree (bp + 8) st = Some st' \<and> heap_ok base lo st' F' (H - {bp}) \<and> brk st' = brk st \<and>
     only_at (insert base (set F \<union> {bp})) st st' \<and> (\<exists>a\<in>set F'. usz st bp \<le> usz st' a)"
proof -
  have bpF: "base < bp" "bp \<notin> set (base # F)" "bp \<in> set F \<union> H"
    using heap_blockD(1)[OF ok, of bp] bp ok by (auto simp: heap_ok_def layout_def)
  obtain xs p ys where L: "base # F = xs @ p # ys" and p: "p < bp" and ys: "\<forall>y\<in>set ys. bp < y"
    by (rule sorted_split[OF heap_sorted[OF ok]]) (use bpF in auto)
  then have fa: "free_at base lo st F H bp xs p ys" using ok bp by (simp add: free_at_def)
  note n = free_at_nodes[OF fa]
  define st2 where "st2 = join_prev bp p (join_next bp p st)"
  note j = join_prev_hdr[OF fa, folded st2_def]
  let ?P = "joins_prev st base p bp" and ?zs = "rest_of st bp ys"
  let ?st = "st2\<lparr>freep := p\<rparr>" and ?L = "xs @ p # (if ?P then ?zs else bp # ?zs)"
  have run: "mfree (bp + 8) st = Some ?st"
    using free_find_result[OF L(1) heap_sorted[OF ok] _ _ p ys, of st "freep st"] ok
    by (simp add: mfree_def st2_def heap_ok_def)
  have zsub: "set ?zs \<subseteq> set ys" by (cases ys) (auto simp: rest_of_def)
  have other: "hptr st2 a = hptr st a" "usz st2 a = usz st a" if "a \<in> insert base (set F \<union> H)" "a \<noteq> p" "a \<noteq> bp" for a
  proof -
    have "apart c a" if "c \<in> {p, bp}" for c
      using heap_apart[OF ok, of c a] that \<open>a \<in> _\<close> \<open>a \<noteq> p\<close> \<open>a \<noteq> bp\<close> n(2,3) by auto
    then show "hptr st2 a = hptr st a" "usz st2 a = usz st a"
      using only_at_hdr[OF j(5) heap_hfit[OF ok that(1)]] by (auto simp: usz_def)
  qed
  have xs: "a \<in> insert base (set F \<union> H) \<and> a \<noteq> p \<and> a \<noteq> bp" if "a \<in> set xs \<union> set ?zs" for a
    using that zsub n(4-6,11-13) by blast
  have chz: "chain (hptr st) ?zs base" using n(10) by (cases ys) (auto simp: rest_of_def)
  have ch: "chain (hptr ?st) ?L base"
  proof -
    have "chain (hptr st2) xs p" using n(9) other(1) xs chain_cong[of xs "hptr st2" "hptr st" p] by blast
    moreover have "chain (hptr st2) ?zs base" using chz other(1) xs chain_cong[of ?zs "hptr st2" "hptr st" base] by blast
    ultimately have "chain (hptr st2) ?L base" using j(1,3) by (auto simp: chain_append)
    then show ?thesis using chain_cong[of ?L "hptr ?st" "hptr st2" base] by simp
  qed
  have so: "sorted_wrt (<) ?L"
  proof -
    have "\<forall>a\<in>set xs. a < p" "sorted_wrt (<) xs" "sorted_wrt (<) ?zs"
      using n(17) by (cases ys; simp add: sorted_wrt_append rest_of_def)+
    moreover have "\<forall>a\<in>set xs. \<forall>b\<in>set ?zs. a < b" "\<forall>b\<in>set ?zs. p < b"
      using n(17) zsub by (auto simp: sorted_wrt_append)
    moreover have "\<forall>a\<in>set xs. a < bp" using calculation(1) p by (auto intro: less_trans)
    ultimately show ?thesis using p ys zsub by (auto simp: sorted_wrt_append)
  qed
  obtain F' where F': "?L = base # F'" using L by (cases xs) auto
  have dF: "set F' = (set xs \<union> {p} \<union> (if ?P then {} else {bp}) \<union> set ?zs) - {base}"
  proof -
    have "base \<notin> set F'" using so F' by (auto simp: sorted_wrt_append)
    moreover have "insert base (set F') = set ?L" unfolding F' by simp
    moreover have "set ?L = set xs \<union> {p} \<union> (if ?P then {} else {bp}) \<union> set ?zs" by (cases ?P) auto
    ultimately show ?thesis by (metis Diff_insert_absorb)
  qed
  note fl = free_layout[OF fa, folded dF]
  let ?sz = "(usz st)(bp := freed_size st bp ys,
       (if ?P then p else bp) := (if ?P then usz st p else 0) + freed_size st bp ys)"
  have sz: "usz ?st a = ?sz a" if "a \<in> insert base (set F' \<union> (H - {bp}))" for a
  proof -
    have "a \<in> insert base (set F \<union> H)"
      using that dF zsub n(2,4,5,3) by (auto split: if_splits)
    then have "usz st2 a = ?sz a" using other(2)[of a] j(2,4) n(14) by (cases "a = p") auto
    then show ?thesis by (simp add: usz_def)
  qed
  have "layout lo (unat (brk ?st)) (usz ?st) (set F') (H - {bp})"
    using fl(1) layout_cong[of "set F'" "H - {bp}" "usz ?st" ?sz] sz j(6) by auto
  moreover have "coalesced (usz ?st) (set F')"
    using fl(2) sz by (auto simp: coalesced_def bend_def)
  moreover have "usz ?st base = 0"
    using sz[of base] n(7) ok by (auto simp: heap_ok_def joins_prev_def)
  moreover have "freep ?st \<in> set (base # F')" unfolding F'[symmetric] by simp
  ultimately have "heap_ok base lo ?st F' (H - {bp})"
    using ok so ch j(6) unfolding F' by (simp add: heap_ok_def)
  moreover have "only_at (insert base (set F \<union> {bp})) st ?st"
    using j(5) n(3) unfolding only_at_def by (simp add: n(14)) (metis Un_iff insert_iff L in_set_conv_decomp list.set(2))
  moreover have "\<exists>a\<in>set F'. usz st bp \<le> usz ?st a"
    using fl(3,4) sz by (intro bexI[of _ "if ?P then p else bp"]) auto
  ultimately show ?thesis using run j(6) by (intro exI[of _ ?st] exI[of _ F']) simp
qed

section \<open>Taking a block\<close>

text \<open>The bytes of the held blocks, headers included, are as they were.\<close>

definition keeps_held :: "ustate \<Rightarrow> ustate \<Rightarrow> u32 set \<Rightarrow> bool" where
  "keeps_held st st' H \<longleftrightarrow>
     (\<forall>a\<in>H. \<forall>x. unat a \<le> unat x \<longrightarrow> unat x < bend (usz st) a \<longrightarrow> umem st' x = umem st x)"

lemma block_bytes:
  assumes "heap_ok base lo st F H" and "a \<in> set F \<union> H" and "t \<in> set F \<union> H" and "t \<noteq> a"
    and "unat a \<le> unat (x::u32)" and "unat x < bend (usz st) a"
  shows "\<not> (unat t \<le> unat x \<and> unat x < bend (usz st) t)"
  using heap_before[OF assms(1-3)] heap_before[OF assms(1,3,2)] assms(4-6)
  by (cases "a < t") force+

lemma only_at_keeps:
  assumes ok: "heap_ok base lo st F H" and at: "only_at A st st'" and A: "A \<subseteq> insert base (set F \<union> (H - K))"
    and K: "K \<subseteq> H"
  shows "keeps_held st st' K"
  unfolding keeps_held_def
proof (intro ballI allI impI)
  fix a x :: u32
  assume a: "a \<in> K" and x: "unat a \<le> unat x" "unat x < bend (usz st) a"
  have "\<not> in_hdr t x" if "t \<in> A" for t
  proof (cases "t = base")
    case True
    then show ?thesis using heap_blockD(2)[OF ok, of a] a K x by (auto simp: in_hdr_def)
  next
    case False
    then have t: "t \<in> set F \<union> H" "t \<noteq> a" using A that a K ok by (auto simp: heap_ok_def layout_def)
    then show ?thesis
      using block_bytes[OF ok _ t x] a K heap_blockD(5)[OF ok t(1)] by (auto simp: in_hdr_def)
  qed
  then show "umem st' x = umem st x" using at by (simp add: only_at_def)
qed

lemma keeps_held_usz:
  assumes ok: "heap_ok base lo st F H" and k: "keeps_held st st' K" and a: "a \<in> K" "K \<subseteq> H"
  shows "usz st' a = usz st a"
proof -
  have aH: "a \<in> set F \<union> H" using a by auto
  have fit: "hfit a" using heap_hfit[OF ok] aH by blast
  have "umem st' x = umem st x" if "unat a \<le> unat x" "unat x < unat a + 8" for x
    using k a(1) that heap_blockD(5)[OF ok aH] by (auto simp: keeps_held_def)
  then have "hsize st' a = hsize st a"
    unfolding hsize_def using fit hfit_4[OF fit] by (intro load32_region) (auto simp: hfit_def)
  then show ?thesis by (simp add: usz_def)
qed

lemma keeps_held_trans:
  assumes "heap_ok base lo st F H" and "keeps_held st st1 K" and "keeps_held st1 st2 K" and "K \<subseteq> H"
  shows "keeps_held st st2 K"
  using assms(2,3) keeps_held_usz[OF assms(1,2) _ assms(4)] by (auto simp: keeps_held_def bend_def)

lemma ring_next:
  assumes "heap_ok base lo st F H" and "q \<in> set (base # F)" and "hptr st q = p" and "p \<noteq> base"
  obtains us vs where "base # F = us @ q # p # vs"
proof -
  obtain us r where L: "base # F = us @ q # r" using split_list[OF assms(2)] by blast
  have "chain (hptr st) (us @ q # r) base" using assms(1) L by (simp add: heap_ok_def)
  then have "hptr st q = hd (r @ [base])" by (simp add: chain_append)
  then obtain vs where "r = p # vs" using assms(3,4) by (cases r) auto
  then show thesis using that L by simp
qed

lemma heap_other_hdr:
  assumes ok: "heap_ok base lo st F H" and at: "only_at A st st'" and A: "A \<subseteq> insert base (set F \<union> H)"
    and a: "a \<in> insert base (set F \<union> H)" "a \<notin> A"
  shows "hptr st' a = hptr st a" and "usz st' a = usz st a"
proof -
  have "apart c a" if "c \<in> A" for c using heap_apart[OF ok, of c a] that A a by blast
  then show "hptr st' a = hptr st a" "usz st' a = usz st a"
    using only_at_hdr[OF at heap_hfit[OF ok a(1)]] by (auto simp: usz_def)
qed

lemma take_exact:
  assumes ok: "heap_ok base lo st F H" and L: "base # F = us @ q # p # vs"
  defines "st' \<equiv> (set_ptr q (hptr st p) st)\<lparr>freep := q\<rparr>"
  shows "heap_ok base lo st' (tl (us @ q # vs)) (insert p H)" and "keeps_held st st' H" and "usz st' p = usz st p"
proof -
  have so: "sorted_wrt (<) (us @ q # p # vs)" using heap_sorted[OF ok] L by simp
  have "set (base # F) = set (us @ q # p # vs)" unfolding L ..
  then have sL: "insert base (set F) = insert q (insert p (set us \<union> set vs))" by simp
  then have q: "q \<in> insert base (set F)" by auto
  have fit: "hfit q" using heap_hfit[OF ok] q by blast
  have at: "only_at {q} st st'" using only_at_set_ptr[OF fit] by (simp add: st'_def only_at_def)
  then show kh: "keeps_held st st' H" using q by (intro only_at_keeps[OF ok]) auto
  have other: "hptr st' a = hptr st a" if "a \<in> insert base (set F \<union> H)" "a \<noteq> q" for a
    using heap_other_hdr(1)[OF ok at _ that(1)] q that(2) by auto
  have sz: "usz st' a = usz st a" if "a \<in> insert base (set F \<union> H)" for a
    using heap_other_hdr(2)[OF ok at _ that] q by (cases "a = q") (auto simp: st'_def usz_def)
  have ch: "chain (hptr st) us q" "hptr st p = hd (vs @ [base])" "chain (hptr st) vs base"
    using ok L by (auto simp: heap_ok_def chain_append)
  have nq: "q \<notin> set us" "q \<notin> set vs" "p \<notin> set us" "p \<notin> set vs" "p \<noteq> q"
    using so by (auto simp: sorted_wrt_append)
  have "chain (hptr st') us q" "chain (hptr st') vs base"
    using ch(1,3) other sL nq chain_cong[of us "hptr st'" "hptr st" q] chain_cong[of vs "hptr st'" "hptr st" base] by blast+
  then have chain: "chain (hptr st') (us @ q # vs) base" using ch(2) by (auto simp: chain_append st'_def)
  have sorted: "sorted_wrt (<) (us @ q # vs)" using so by (simp add: sorted_wrt_append)
  obtain F' where F': "us @ q # vs = base # F'" using L by (cases us) auto
  have pb: "p \<noteq> base" using L nq(3,5) by (cases us) auto
  have sF: "set F' = set F - {p}"
  proof -
    have "base \<notin> set F'" "base \<notin> set F" using sorted heap_sorted[OF ok] F' by auto
    moreover have "insert base (set F') = set (us @ q # vs)" unfolding F' by simp
    ultimately show ?thesis using sL nq(3-5) pb by auto
  qed
  have p: "p \<in> set F" using sL pb by auto
  show "usz st' p = usz st p" using sz p by blast
  have "layout lo (unat (brk st)) (usz st) (set F - {p}) (insert p H)"
    using ok p by (intro layout_acquire) (auto simp: heap_ok_def)
  then have "layout lo (unat (brk st')) (usz st') (set F') (insert p H)"
    using layout_cong[of "set F'" "insert p H" "usz st'" "usz st"] sz p sF by (auto simp: st'_def)
  moreover have "coalesced (usz st') (set F')"
    using ok sz sF by (auto simp: heap_ok_def coalesced_def bend_def)
  moreover have "freep st' \<in> set (base # F')" unfolding F'[symmetric] by (simp add: st'_def)
  moreover have "brk st' = brk st" "usz st' base = 0" using sz[of base] ok by (auto simp: st'_def heap_ok_def)
  ultimately show "heap_ok base lo st' (tl (us @ q # vs)) (insert p H)"
    using ok chain sorted unfolding F' by (simp add: heap_ok_def)
qed

lemma take_split:
  assumes ok: "heap_ok base lo st F H" and p: "p \<in> set F" and q: "q \<in> set (base # F)" and n: "0 < n" "n < hsize st p"
  defines "p' \<equiv> p + 8 * (hsize st p - n)"
  defines "st' \<equiv> (set_size p' n (set_size p (hsize st p - n) st))\<lparr>freep := q\<rparr>"
  shows "heap_ok base lo st' F (insert p' H)" and "keeps_held st st' H" and "usz st' p' = unat n" and "p' \<notin> H"
proof -
  have szp: "unat (hsize st p - n) = usz st p - unat n" using n(2) by (simp add: usz_def unat_sub order_less_imp_le)
  have n': "0 < unat n" "unat n < usz st p" using n by (simp_all add: usz_def word_less_nat_alt)
  have lim: "unat (brk st) + 8 \<le> 4294967296" "bend (usz st) p \<le> unat (brk st)"
    using ok heap_blockD(4)[OF ok, of p] p by (auto simp: heap_ok_def)
  have p': "unat p' = unat p + 8 * (usz st p - unat n)"
    unfolding p'_def using unat_end[of p "hsize st p - n"] lim szp by (simp add: bend_def)
  have lay: "layout lo (unat (brk st)) (usz st) (set F) H" using ok by (simp add: heap_ok_def)
  note sp = layout_split[OF lay p n' p']
  show "p' \<notin> H" using sp(2) by simp
  have pp: "p \<noteq> p'" using p' n' by auto
  have in_p: "unat p \<le> unat p'" "unat p' + 8 \<le> bend (usz st) p" using p' n' by (auto simp: bend_def)
  have fit: "hfit p" "hfit p'" using in_p lim by (auto simp: hfit_def)
  have ap: "apart p' p" using p' n' by (auto simp: apart_def)
  have at: "only_at {p, p'} st st'"
    using only_at_trans[OF only_at_set_size[OF fit(1)] only_at_set_size[OF fit(2)], of "{p, p'}"]
    by (simp add: st'_def only_at_def)
  have other: "hptr st' a = hptr st a" "usz st' a = usz st a"
    if a: "a \<in> insert base (set F \<union> H)" "a \<noteq> p" for a
  proof -
    have "apart p' a"
    proof (cases "a = base")
      case True
      then show ?thesis using heap_blockD(2)[OF ok, of p] p in_p by (auto simp: apart_def)
    next
      case False
      then have "a \<in> set F \<union> H" using a by blast
      then show ?thesis
        using heap_before[OF ok, of p a] heap_before[OF ok, of a p] heap_blockD(5)[OF ok, of a] p a(2) in_p
        by (cases a p rule: linorder_cases) (auto simp: apart_def)
    qed
    moreover have "apart p a" using heap_apart[OF ok, of p a] p a by auto
    ultimately have "\<And>c. c \<in> {p, p'} \<Longrightarrow> apart c a" by blast
    then show "hptr st' a = hptr st a" "usz st' a = usz st a"
      using only_at_hdr[OF at heap_hfit[OF ok a(1)]] by (simp_all add: usz_def)
  qed
  have hp: "hptr st' p = hptr st p" "usz st' p = usz st p - unat n" "usz st' p' = unat n"
    using hdr_other[OF fit(2,1) ap] szp by (simp_all add: st'_def usz_def)
  show "usz st' p' = unat n" by (rule hp)
  have hptr: "hptr st' a = hptr st a" if "a \<in> set (base # F)" for a
    using other(1)[of a] hp(1) that by (cases "a = p") auto
  show "keeps_held st st' H" unfolding keeps_held_def
  proof (intro ballI allI impI)
    fix a x :: u32
    assume a: "a \<in> H" and x: "unat a \<le> unat x" "unat x < bend (usz st) a"
    have "a \<noteq> p" using a p lay by (auto simp: layout_def)
    then have "\<not> (unat p \<le> unat x \<and> unat x < bend (usz st) p)" using block_bytes[OF ok _ _ _ x] a p by auto
    then have "\<not> in_hdr p x" "\<not> in_hdr p' x" using in_p by (auto simp: in_hdr_def)
    then show "umem st' x = umem st x" using at by (simp add: only_at_def)
  qed
  let ?sz = "(usz st)(p := usz st p - unat n, p' := unat n)"
  have sz: "usz st' a = ?sz a" if "a \<in> insert base (set F \<union> insert p' H)" for a
    using other(2)[of a] hp that pp by (cases "a = p"; cases "a = p'") auto
  have "layout lo (unat (brk st')) (usz st') (set F) (insert p' H)"
    using sp(1) layout_cong[of "set F" "insert p' H" "usz st'" ?sz] sz by (auto simp: st'_def)
  moreover have "coalesced (usz st') (set F)" unfolding coalesced_def
  proof (intro ballI)
    fix a b assume ab: "a \<in> set F" "b \<in> set F"
    show "bend (usz st') a \<noteq> unat b"
    proof (cases "a = p")
      case True
      then have "bend (usz st') a = unat p'" using hp(2) p' by (simp add: bend_def)
      then show ?thesis using sp(2) ab(2) by (metis UnI1 word_unat_eq_iff)
    next
      case False
      then show ?thesis using other(2)[of a] ab ok by (auto simp: bend_def heap_ok_def coalesced_def)
    qed
  qed
  moreover have "chain (hptr st') (base # F) base"
    using chain_cong[of "base # F" "hptr st'" "hptr st" base] hptr ok by (simp add: heap_ok_def)
  moreover have "usz st' base = 0"
    using other(2)[of base] heap_blockD(1)[OF ok, of p] p ok by (auto simp: heap_ok_def)
  moreover have "brk st' = brk st" "freep st' = q" by (simp_all add: st'_def)
  ultimately show "heap_ok base lo st' F (insert p' H)"
    using ok q by (simp add: heap_ok_def)
qed

text \<open>What the end of the loop of \<open>malloc\<close> does with a block that is big enough.\<close>

lemma take_block_ok:
  assumes ok: "heap_ok base lo st F H" and q: "q \<in> set (base # F)" and n: "0 < n" "n \<le> hsize st (hptr st q)"
  shows "\<exists>b st' F'. take_block n q (hptr st q) st = (b + 8, st') \<and> heap_ok base lo st' F' (insert b H) \<and>
     b \<notin> H \<and> usz st' b = unat n \<and> keeps_held st st' H"
proof -
  let ?p = "hptr st q"
  have "usz st ?p \<noteq> 0" using n by (auto simp: usz_def unsigned_eq_0_iff)
  then have pb: "?p \<noteq> base" using ok by (auto simp: heap_ok_def)
  obtain us vs where L: "base # F = us @ q # ?p # vs" using ring_next[OF ok q refl pb] by blast
  have "?p \<in> set (base # F)" unfolding L by simp
  then have p: "?p \<in> set F" using pb by simp
  show ?thesis
  proof (cases "hsize st ?p = n")
    case True
    have "?p \<notin> H" using ok p by (auto simp: heap_ok_def layout_def)
    then show ?thesis using take_exact[OF ok L] True
      by (intro exI[of _ ?p] exI[of _ "(set_ptr q (hptr st ?p) st)\<lparr>freep := q\<rparr>"] exI[of _ "tl (us @ q # vs)"])
        (simp add: take_block_def usz_def)
  next
    case False
    then have "n < hsize st ?p" using n(2) by simp
    note sp = take_split[OF ok p q n(1) this]
    show ?thesis using sp False by (auto simp: take_block_def Let_def)
  qed
qed

section \<open>The loop of malloc\<close>

lemma malloc_walk:
  assumes "chain (hptr st) (q # zs) e" and "\<And>z. z \<in> set zs \<Longrightarrow> hsize st z < n \<and> z \<noteq> freep st"
  shows "malloc_loop grow n q (hd (zs @ [e])) st = malloc_loop grow n (last (q # zs)) e st"
  using assms
proof (induction zs arbitrary: q)
  case (Cons z zs)
  have "malloc_loop grow n q z st = malloc_loop grow n z (hd (zs @ [e])) st"
    using Cons.prems(1) Cons.prems(2)[of z] by (subst malloc_loop.simps) (simp add: not_le[symmetric])
  also have "\<dots> = malloc_loop grow n (last (z # zs)) e st"
    using Cons.prems by (intro Cons.IH) auto
  finally show ?case by simp
qed simp

lemma chain_prefix: "chain nx (a # as) e \<Longrightarrow> as @ [e] = ws @ b # zs \<Longrightarrow> chain nx (a # ws) b"
  by (cases zs rule: rev_cases) (auto simp: chain_append hd_append split: if_splits)

lemma ring_rotate:
  assumes "chain nx (xs @ f # ys) (hd (xs @ [f]))"
  shows "chain nx (f # ys @ xs) f"
  using assms by (cases ys) (auto simp: chain_append hd_append)

lemma chain_last: "chain nx (a # ws) b \<Longrightarrow> nx (last (a # ws)) = b"
  by (induction ws arbitrary: a) auto

lemma malloc_loop_found:
  assumes ok: "heap_ok base lo st F H" and n: "0 < n" and big: "\<exists>a\<in>set F. n \<le> hsize st a"
  shows "\<exists>b st' F'. malloc_loop grow n (freep st) (hptr st (freep st)) st = Some (b + 8, st') \<and>
     heap_ok base lo st' F' (insert b H) \<and> b \<notin> H \<and> usz st' b = unat n \<and> keeps_held st st' H"
proof -
  obtain xs ys where L: "base # F = xs @ freep st # ys"
    using ok split_list[of "freep st" "base # F"] by (auto simp: heap_ok_def)
  let ?f = "freep st"
  have ch: "chain (hptr st) (?f # ys @ xs) ?f"
    using ok L by (intro ring_rotate) (cases xs; simp add: heap_ok_def)
  have d: "?f \<notin> set (ys @ xs)" using heap_sorted[OF ok] L by (auto simp: sorted_wrt_append)
  have "set (base # F) = set (ys @ xs @ [?f])" unfolding L by auto
  moreover from big have "\<exists>a\<in>set (base # F). n \<le> hsize st a" by auto
  ultimately have "\<exists>a\<in>set (ys @ xs @ [?f]). n \<le> hsize st a" by simp
  then obtain ws b zs where W: "ys @ xs @ [?f] = ws @ b # zs" "n \<le> hsize st b" "\<forall>w\<in>set ws. \<not> n \<le> hsize st w"
    using split_list_first_prop[of "ys @ xs @ [?f]" "\<lambda>a. n \<le> hsize st a"] by blast
  have ws: "set ws \<subseteq> set (ys @ xs)"
    using W(1) by (cases zs rule: rev_cases) (auto simp flip: append_assoc)
  have cw: "chain (hptr st) (?f # ws) b" using chain_prefix[OF ch] W(1) by simp
  have "malloc_loop grow n ?f (hd (ws @ [b])) st = malloc_loop grow n (last (?f # ws)) b st"
    using W(3) ws d by (intro malloc_walk[OF cw]) auto
  moreover have "hptr st ?f = hd (ws @ [b])" using cw by simp
  moreover have "hptr st (last (?f # ws)) = b" using chain_last[OF cw] .
  moreover have "last (?f # ws) \<in> set (base # F)"
  proof -
    have "set (?f # ws) \<subseteq> set (base # F)" unfolding L using ws by auto
    then show ?thesis using last_in_set[of "?f # ws"] by blast
  qed
  ultimately show ?thesis
    using take_block_ok[OF ok, of "last (?f # ws)" n] n W(2)
    by (subst (asm) malloc_loop.simps[of _ _ "last (?f # ws)"]) auto
qed

lemma malloc_loop_none:
  assumes ok: "heap_ok base lo st F H" and small: "\<forall>a\<in>set (base # F). hsize st a < n"
  shows "malloc_loop grow n (freep st) (hptr st (freep st)) st =
     (case morecore grow n st of None \<Rightarrow> None
      | Some (q, st1) \<Rightarrow> if q = 0 then Some (0, st1) else malloc_loop grow n q (hptr st1 q) st1)"
proof -
  obtain xs ys where L: "base # F = xs @ freep st # ys"
    using ok split_list[of "freep st" "base # F"] by (auto simp: heap_ok_def)
  let ?f = "freep st"
  have ch: "chain (hptr st) (?f # ys @ xs) ?f"
    using ok L by (intro ring_rotate) (cases xs; simp add: heap_ok_def)
  have d: "?f \<notin> set (ys @ xs)" using heap_sorted[OF ok] L by (auto simp: sorted_wrt_append)
  have sm: "\<forall>a\<in>set (xs @ ?f # ys). hsize st a < n" using small unfolding L .
  have "malloc_loop grow n ?f (hd ((ys @ xs) @ [?f])) st = malloc_loop grow n (last (?f # ys @ xs)) ?f st"
    using sm d by (intro malloc_walk[OF ch]) auto
  moreover have "hptr st ?f = hd ((ys @ xs) @ [?f])" using ch by simp
  ultimately show ?thesis
    using sm by (subst (asm) (2) malloc_loop.simps) (auto split: option.splits)
qed

section \<open>More memory\<close>

text \<open>What the kernel promises of \<open>sbrk\<close>: it grants nothing beyond the top of user memory.\<close>

definition grants_within :: "(u32 \<Rightarrow> ustate \<Rightarrow> bool) \<Rightarrow> bool" where
  "grants_within grow \<longleftrightarrow> (\<forall>n st. grow n st \<longrightarrow> unat (brk st) + unat n \<le> 0xA0000)"

lemma extend_ok:
  assumes ok: "heap_ok base lo st F H" and n: "0 < unat nu" "unat (brk st) + 8 * unat nu \<le> 0xA0000"
  defines "st1 \<equiv> set_size (brk st) nu (st\<lparr>brk := brk st + nu * 8\<rparr>)"
  shows "heap_ok base lo st1 F (insert (brk st) H)" and "brk st \<notin> H" and "usz st1 (brk st) = unat nu"
    and "keeps_held st st1 H"
proof -
  let ?hp = "brk st"
  have lay: "layout lo (unat ?hp) (usz st) (set F) H" using ok by (simp add: heap_ok_def)
  have hi: "unat ?hp + 8 * unat nu = unat (?hp + nu * 8)"
    using n(2) unat_end[of ?hp nu] by (simp add: mult.commute)
  note ex = layout_extend[OF lay n(1) hi]
  show "?hp \<notin> H" using ex(2) by simp
  have fit: "hfit ?hp" using n(2) by (simp add: hfit_def)
  have at: "only_at {?hp} st st1"
    using only_at_set_size[OF fit, of "st\<lparr>brk := brk st + nu * 8\<rparr>" nu] by (simp add: st1_def only_at_def)
  have ap: "apart ?hp a" if "a \<in> insert base (set F \<union> H)" for a
  proof (cases "a = base")
    case True
    have "unat base + 8 \<le> lo" "lo \<le> unat ?hp" using ok by (auto simp: heap_ok_def layout_def)
    then show ?thesis using True by (simp add: apart_def)
  next
    case False
    then have "a \<in> set F \<union> H" using that by blast
    then show ?thesis using heap_blockD(4,5)[OF ok, of a] by (simp add: apart_def)
  qed
  have other: "hptr st1 a = hptr st a" "usz st1 a = usz st a" if "a \<in> insert base (set F \<union> H)" for a
    using only_at_hdr[OF at heap_hfit[OF ok that]] ap[OF that] by (auto simp: usz_def)
  show szn: "usz st1 ?hp = unat nu" by (simp add: st1_def usz_def)
  show "keeps_held st st1 H" unfolding keeps_held_def
  proof (intro ballI allI impI)
    fix a x :: u32
    assume "a \<in> H" "unat x < bend (usz st) a"
    then have "\<not> in_hdr ?hp x" using heap_blockD(4)[OF ok, of a] by (auto simp: in_hdr_def)
    then show "umem st1 x = umem st x" using at by (simp add: only_at_def)
  qed
  have "layout lo (unat (brk st1)) (usz st1) (set F) (insert ?hp H)"
  proof -
    have "usz st1 a = ((usz st)(?hp := unat nu)) a" if "a \<in> set F \<union> insert ?hp H" for a
      using that other(2)[of a] szn by auto
    then show ?thesis
      using ex(1) layout_cong[of "set F" "insert ?hp H" "usz st1" "(usz st)(?hp := unat nu)"] by (simp add: st1_def)
  qed
  moreover have "coalesced (usz st1) (set F)"
    using ok other(2) by (auto simp: heap_ok_def coalesced_def bend_def)
  moreover have "chain (hptr st1) (base # F) base"
  proof -
    have "chain (hptr st1) (base # F) base = chain (hptr st) (base # F) base"
      by (rule chain_cong, rule other(1)) auto
    then show ?thesis using ok by (simp add: heap_ok_def)
  qed
  moreover have "usz st1 base = 0" "freep st1 = freep st" "unat (brk st1) + 8 \<le> 4294967296"
    using other(2)[of base] ok hi n(2) by (auto simp: heap_ok_def st1_def)
  ultimately show "heap_ok base lo st1 F (insert ?hp H)" using ok by (simp add: heap_ok_def)
qed

lemma heap_nodes_nonzero: "heap_ok base lo st F H \<Longrightarrow> a \<in> set (base # F) \<Longrightarrow> a \<noteq> 0"
  using heap_blockD(1)[of base lo st F H a] by (auto simp: heap_ok_def)

text \<open>The units \<open>morecore\<close> asks the kernel for.\<close>

definition core_units :: "u32 \<Rightarrow> u32" where
  "core_units nu = (if nu < 4096 then 4096 else nu)"

lemma morecore_ok:
  assumes ok: "heap_ok base lo st F H" and gr: "grants_within grow" and nu: "0 < unat nu" "unat nu < 0x10000000"
  shows "morecore grow nu st = Some (0, st) \<and> \<not> grow (core_units nu * 8) st \<or>
    (\<exists>st' F'. morecore grow nu st = Some (freep st', st') \<and> heap_ok base lo st' F' H \<and> keeps_held st st' H \<and>
      (\<exists>a\<in>set F'. nu \<le> hsize st' a))"
proof -
  define k where "k = core_units nu"
  have k: "0 < unat k" "nu \<le> k" "unat (k * 8) = 8 * unat k"
    using nu by (auto simp: k_def core_units_def unat_word_ariths)
  note def = morecore_def[of grow nu st, folded core_units_def, folded k_def]
  show ?thesis
  proof (cases "grow (k * 8) st")
    case True
    then have lim: "unat (brk st) + 8 * unat k \<le> 0xA0000" using gr k(3) unfolding grants_within_def by metis
    let ?st1 = "set_size (brk st) k (st\<lparr>brk := brk st + k * 8\<rparr>)"
    note ex = extend_ok[OF ok k(1) lim]
    obtain st' F' where st': "mfree (brk st + 8) ?st1 = Some st'" "heap_ok base lo st' F' (insert (brk st) H - {brk st})"
        "only_at (insert base (set F \<union> {brk st})) ?st1 st'" "\<exists>a\<in>set F'. usz ?st1 (brk st) \<le> usz st' a"
      using mfree_ok[OF ex(1), of "brk st"] by auto
    have "keeps_held ?st1 st' H"
      using st'(3) ex(2) by (intro only_at_keeps[OF ex(1)]) auto
    then have "keeps_held st st' H" using keeps_held_trans[OF ok ex(4)] by blast
    moreover have "\<exists>a\<in>set F'. nu \<le> hsize st' a"
      using st'(4) ex(3) k(2) by (auto simp: usz_def word_le_nat_alt intro: order_trans)
    moreover have "heap_ok base lo st' F' H" using st'(2) ex(2) by simp
    moreover have "morecore grow nu st = Some (freep st', st')"
      using True st'(1) by (simp add: def Let_def)
    ultimately show ?thesis by blast
  qed (simp add: def Let_def flip: k_def)
qed

section \<open>malloc\<close>

lemma malloc_loop_ok:
  assumes ok: "heap_ok base lo st F H" and gr: "grants_within grow" and n: "0 < unat n" "unat n < 0x10000000"
  shows "\<exists>r st' F'. malloc_loop grow n (freep st) (hptr st (freep st)) st = Some (r, st') \<and> keeps_held st st' H \<and>
     (r = 0 \<and> \<not> grow (core_units n * 8) st \<and> heap_ok base lo st' F' H \<or>
      (\<exists>b. r = b + 8 \<and> heap_ok base lo st' F' (insert b H) \<and> b \<notin> H \<and> usz st' b = unat n))"
proof (cases "\<exists>a\<in>set F. n \<le> hsize st a")
  case True
  then show ?thesis using malloc_loop_found[OF ok, of n grow] n by (fastforce simp: word_less_nat_alt)
next
  case False
  have "hsize st base = 0" using ok by (simp add: heap_ok_def usz_def unsigned_eq_0_iff)
  then have small: "\<forall>a\<in>set (base # F). hsize st a < n" using False n by (auto simp: word_less_nat_alt not_le)
  note loop = malloc_loop_none[OF ok small, of grow]
  consider "morecore grow n st = Some (0, st)" "\<not> grow (core_units n * 8) st"
    | st1 F1 where "morecore grow n st = Some (freep st1, st1)" "heap_ok base lo st1 F1 H" "keeps_held st st1 H"
        "\<exists>a\<in>set F1. n \<le> hsize st1 a"
    using morecore_ok[OF ok gr n] by blast
  then show ?thesis
  proof cases
    case 1
    then show ?thesis using loop ok by (auto simp: keeps_held_def)
  next
    case 2
    have "freep st1 \<noteq> 0" using heap_nodes_nonzero[OF 2(2)] 2(2) by (auto simp: heap_ok_def)
    then have "malloc_loop grow n (freep st) (hptr st (freep st)) st = malloc_loop grow n (freep st1) (hptr st1 (freep st1)) st1"
      using loop 2(1) by simp
    moreover obtain b st' F' where "malloc_loop grow n (freep st1) (hptr st1 (freep st1)) st1 = Some (b + 8, st')"
        "heap_ok base lo st' F' (insert b H)" "b \<notin> H" "usz st' b = unat n" "keeps_held st1 st' H"
      using malloc_loop_found[OF 2(2) _ 2(4), of grow] n by (auto simp: word_less_nat_alt)
    ultimately show ?thesis using keeps_held_trans[OF ok 2(3), of st'] by auto
  qed
qed

lemma units_ok:
  assumes "unat nbytes < 0x7FFFFF00"
  shows "unat (units nbytes) = (unat nbytes + 7) div 8 + 1" and "0 < unat (units nbytes)"
    and "unat (units nbytes) < 0x10000000" and "unat nbytes + 8 \<le> 8 * unat (units nbytes)"
proof -
  have "unat (nbytes + 8 - 1) = unat nbytes + 7"
    using assms unat_plus_of_nat[of nbytes 7] by (simp add: add.commute)
  then have u: "unat ((nbytes + 8 - 1) div 8) = (unat nbytes + 7) div 8" by (simp add: unat_div)
  have lt: "(unat nbytes + 7) div 8 < 0xFFFFFFF" using assms by (simp add: div_less_iff_less_mult)
  then show e: "unat (units nbytes) = (unat nbytes + 7) div 8 + 1"
    unfolding units_def using u unat_plus_of_nat[of "(nbytes + 8 - 1) div 8" 1] by simp
  then show "0 < unat (units nbytes)" "unat (units nbytes) < 0x10000000" using lt by auto
  show "unat nbytes + 8 \<le> 8 * unat (units nbytes)" unfolding e by presburger
qed

end
