(* ===== verification/Umallocsafe.thy ===== *)
theory Umallocsafe
  imports Umalloc
begin

text \<open>
  The contract between \<open>malloc\<close>, \<open>free\<close> and the programs that use them, as a locale; that the allocator of
  \<open>umalloc.c\<close> keeps it; and what follows for every run of a program that writes only to memory it holds.
\<close>

section \<open>The contract of an allocator\<close>

text \<open>
  What a program relies on. \<open>ok s h\<close> says that the allocator is consistent and that the program holds the
  blocks \<open>h\<close>, given by their addresses and the number of bytes asked for.
\<close>

locale block_allocator =
  fixes ok :: "'s \<Rightarrow> (u32 \<rightharpoonup> nat) \<Rightarrow> bool"
    and peek_byte :: "'s \<Rightarrow> u32 \<Rightarrow> u8"
    and alloc :: "u32 \<Rightarrow> 's \<Rightarrow> (u32 \<times> 's) option"
    and release :: "u32 \<Rightarrow> 's \<Rightarrow> 's option"
    and poke_byte :: "u32 \<Rightarrow> u8 \<Rightarrow> 's \<Rightarrow> 's"
    and limit :: nat
    and refuses :: "u32 \<Rightarrow> 's \<Rightarrow> bool"
  assumes alloc_law: "ok s h \<Longrightarrow> unat n < limit \<Longrightarrow>
      \<exists>p s'. alloc n s = Some (p, s') \<and>
        (p = 0 \<and> refuses n s \<and> ok s' h \<or> p \<noteq> 0 \<and> h p = None \<and> ok s' (h(p \<mapsto> unat n))) \<and>
        (\<forall>q k i. h q = Some k \<longrightarrow> i < k \<longrightarrow> peek_byte s' (q + of_nat i) = peek_byte s (q + of_nat i))"
    and release_law: "ok s h \<Longrightarrow> h p = Some k \<Longrightarrow>
      \<exists>s'. release p s = Some s' \<and> ok s' (h(p := None)) \<and>
        (\<forall>q l i. q \<noteq> p \<longrightarrow> h q = Some l \<longrightarrow> i < l \<longrightarrow> peek_byte s' (q + of_nat i) = peek_byte s (q + of_nat i))"
    and poke_law: "ok s h \<Longrightarrow> h p = Some k \<Longrightarrow> i < k \<Longrightarrow>
      ok (poke_byte (p + of_nat i) b s) h \<and>
      peek_byte (poke_byte (p + of_nat i) b s) = (peek_byte s)(p + of_nat i := b)"
    and apart_law: "ok s h \<Longrightarrow> h p = Some k \<Longrightarrow> h q = Some l \<Longrightarrow> p \<noteq> q \<Longrightarrow> i < k \<Longrightarrow> j < l \<Longrightarrow>
      p + of_nat i \<noteq> q + of_nat j"
    and small_law: "ok s h \<Longrightarrow> h p = Some k \<Longrightarrow> k < 4294967296"
begin

text \<open>The program's view: every block it holds has the contents \<open>g\<close> it last wrote there.\<close>

definition holds :: "'s \<Rightarrow> (u32 \<rightharpoonup> u8 list) \<Rightarrow> bool" where
  "holds s g \<longleftrightarrow> ok s (\<lambda>p. map_option length (g p)) \<and>
     (\<forall>p d i. g p = Some d \<longrightarrow> i < length d \<longrightarrow> peek_byte s (p + of_nat i) = d ! i)"

lemma holds_alloc:
  assumes "holds s g" and "unat n < limit"
  shows "\<exists>p s'. alloc n s = Some (p, s') \<and>
     (p = 0 \<and> refuses n s \<and> holds s' g \<or>
      p \<noteq> 0 \<and> g p = None \<and> (\<exists>d. length d = unat n \<and> holds s' (g(p \<mapsto> d))))"
proof -
  let ?h = "\<lambda>p. map_option length (g p)"
  obtain p s' where s': "alloc n s = Some (p, s')"
      "p = 0 \<and> refuses n s \<and> ok s' ?h \<or> p \<noteq> 0 \<and> ?h p = None \<and> ok s' (?h(p \<mapsto> unat n))"
      "\<forall>q k i. ?h q = Some k \<longrightarrow> i < k \<longrightarrow> peek_byte s' (q + of_nat i) = peek_byte s (q + of_nat i)"
    using alloc_law[of s ?h n] assms by (auto simp: holds_def)
  have same: "peek_byte s' (q + of_nat i) = d ! i" if "g q = Some d" "i < length d" for q d i
    using s'(3) assms(1) that by (simp add: holds_def)
  consider "p = 0" "refuses n s" "ok s' ?h" | "p \<noteq> 0" "g p = None" "ok s' (?h(p \<mapsto> unat n))" using s'(2) by auto
  then show ?thesis
  proof cases
    case 1
    then show ?thesis using s'(1) same by (auto simp: holds_def)
  next
    case 2
    let ?d = "map (\<lambda>i. peek_byte s' (p + of_nat i)) [0..<unat n]"
    have "(\<lambda>q. map_option length ((g(p \<mapsto> ?d)) q)) = ?h(p \<mapsto> unat n)" by auto
    then have "holds s' (g(p \<mapsto> ?d))" using 2 same by (auto simp: holds_def)
    moreover have "length ?d = unat n" by simp
    ultimately show ?thesis using 2(1,2) s'(1) by blast
  qed
qed

lemma holds_release:
  assumes "holds s g" and "g p = Some d"
  shows "\<exists>s'. release p s = Some s' \<and> holds s' (g(p := None))"
proof -
  let ?h = "\<lambda>p. map_option length (g p)"
  obtain s' where s': "release p s = Some s'" "ok s' (?h(p := None))"
      "\<forall>q l i. q \<noteq> p \<longrightarrow> ?h q = Some l \<longrightarrow> i < l \<longrightarrow> peek_byte s' (q + of_nat i) = peek_byte s (q + of_nat i)"
    using release_law[of s ?h p "length d"] assms by (auto simp: holds_def)
  have "(\<lambda>q. map_option length ((g(p := None)) q)) = ?h(p := None)" by auto
  then show ?thesis using s' assms(1) by (auto simp: holds_def)
qed

lemma holds_poke:
  assumes "holds s g" and "g p = Some d" and "i < length d"
  shows "holds (poke_byte (p + of_nat i) b s) (g(p \<mapsto> d[i := b]))"
proof -
  let ?h = "\<lambda>p. map_option length (g p)"
  have ok: "ok s ?h" using assms(1) by (simp add: holds_def)
  note pk = poke_law[OF ok, of p "length d" i b]
  have "(\<lambda>q. map_option length ((g(p \<mapsto> d[i := b])) q)) = ?h" using assms(2) by auto
  moreover have "peek_byte (poke_byte (p + of_nat i) b s) (q + of_nat j) = e ! j"
    if "(g(p \<mapsto> d[i := b])) q = Some e" "j < length e" for q e j
  proof (cases "q = p")
    case True
    have "length d < 4294967296" using small_law[OF ok, of p "length d"] assms(2) by simp
    then have "p + of_nat i = p + of_nat j \<longleftrightarrow> i = j"
      using True that assms(3) by (auto dest!: arg_cong[where f = unat])
    then show ?thesis using True that pk assms by (auto simp: holds_def nth_list_update)
  next
    case False
    then have "p + of_nat i \<noteq> q + of_nat j"
      using apart_law[OF ok, of p "length d" q "length e" i j] assms that by auto
    then show ?thesis using False that pk assms by (auto simp: holds_def)
  qed
  ultimately show ?thesis using pk assms by (auto simp: holds_def)
qed

end

section \<open>The allocator keeps the contract\<close>

text \<open>A write of the program, and what the kernel grants of the requests it has memory for.\<close>

definition user_poke :: "u32 \<Rightarrow> u8 \<Rightarrow> ustate \<Rightarrow> ustate" where
  "user_poke x b st = st\<lparr>umem := (umem st)(x := b)\<rparr>"

text \<open>Whether the kernel would refuse what \<open>malloc\<close> asks for when no free block is big enough.\<close>

definition core_refused :: "(u32 \<Rightarrow> ustate \<Rightarrow> bool) \<Rightarrow> u32 \<Rightarrow> ustate \<Rightarrow> bool" where
  "core_refused grow n st \<longleftrightarrow> (\<exists>st0. brk st0 = brk st \<and> \<not> grow (core_units (units n) * 8) st0)"

definition sbrk_grants :: "(u32 \<Rightarrow> ustate \<Rightarrow> bool) \<Rightarrow> u32 \<Rightarrow> ustate \<Rightarrow> bool" where
  "sbrk_grants lends n st \<longleftrightarrow> lends n st \<and> unat (brk st) + unat n \<le> 0xA0000"

lemma sbrk_grants_within [simp]: "grants_within (sbrk_grants lends)"
  by (simp add: grants_within_def sbrk_grants_def)

lemma grants_within_eq: "grants_within grow \<Longrightarrow> sbrk_grants grow = grow"
  by (intro ext) (auto simp: grants_within_def sbrk_grants_def)

text \<open>Nothing allocated yet.\<close>

definition fresh_heap :: "u32 \<Rightarrow> nat \<Rightarrow> ustate \<Rightarrow> bool" where
  "fresh_heap base lo st \<longleftrightarrow> freep st = 0 \<and> base \<noteq> 0 \<and> unat base + 8 \<le> lo \<and> unat (brk st) = lo \<and> lo \<le> 0xA0000"

definition malloc_inv :: "u32 \<Rightarrow> nat \<Rightarrow> ustate \<Rightarrow> (u32 \<rightharpoonup> nat) \<Rightarrow> bool" where
  "malloc_inv base lo st h \<longleftrightarrow> fresh_heap base lo st \<and> h = Map.empty \<or>
     (\<exists>F. heap_ok base lo st F ((\<lambda>p. p - 8) ` dom h) \<and> (\<forall>p k. h p = Some k \<longrightarrow> k + 8 \<le> 8 * usz st (p - 8)))"

lemma heap_freep: "heap_ok base lo st F H \<Longrightarrow> freep st \<noteq> 0"
  using heap_nodes_nonzero[of base lo st F H "freep st"] by (auto simp: heap_ok_def)

lemma fresh_start:
  assumes "fresh_heap base lo st"
  shows "heap_ok base lo (set_size base 0 ((set_ptr base base st)\<lparr>freep := base\<rparr>)) [] {}"
  using assms by (auto simp: heap_ok_def fresh_heap_def layout_def coalesced_def usz_def)

lemma malloc_ok:
  assumes inv: "malloc_inv base lo st h" and gr: "grants_within grow" and n: "unat n < 0x7FFFFF00"
  defines "H \<equiv> (\<lambda>p. p - 8) ` dom h"
  shows "\<exists>st0 F r st' F'. heap_ok base lo st0 F H \<and>
     (\<forall>p k. h p = Some k \<longrightarrow> k + 8 \<le> 8 * usz st0 (p - 8)) \<and> (h \<noteq> Map.empty \<longrightarrow> st0 = st) \<and>
     malloc grow base n st = Some (r, st') \<and> keeps_held st0 st' H \<and>
     (r = 0 \<and> brk st0 = brk st \<and> \<not> grow (core_units (units n) * 8) st0 \<and> heap_ok base lo st' F' H \<or>
      (\<exists>b. r = b + 8 \<and> heap_ok base lo st' F' (insert b H) \<and> b \<notin> H \<and> usz st' b = unat (units n)))"
proof -
  consider (fresh) "fresh_heap base lo st" "h = Map.empty"
    | (used) F where "heap_ok base lo st F H" "\<forall>p k. h p = Some k \<longrightarrow> k + 8 \<le> 8 * usz st (p - 8)"
    using inv by (auto simp: malloc_inv_def H_def)
  then show ?thesis
  proof cases
    case fresh
    let ?st = "set_size base 0 ((set_ptr base base st)\<lparr>freep := base\<rparr>)"
    have "malloc grow base n st = malloc_loop grow (units n) (freep ?st) (hptr ?st (freep ?st)) ?st"
      using fresh by (simp add: malloc_def fresh_heap_def Let_def)
    then show ?thesis
      using malloc_loop_ok[OF fresh_start[OF fresh(1)] gr units_ok(2,3)[OF n]] fresh_start[OF fresh(1)] fresh(2)
      by (intro exI[of _ ?st] exI[of _ "[]"]) (auto simp: H_def)
  next
    case used
    have "malloc grow base n st = malloc_loop grow (units n) (freep st) (hptr st (freep st)) st"
      using heap_freep[OF used(1)] by (simp add: malloc_def Let_def)
    then show ?thesis
      using malloc_loop_ok[OF used(1) gr units_ok(2,3)[OF n]] used
      by (intro exI[of _ st] exI[of _ F]) auto
  qed
qed

text \<open>The bytes of the program in a held block.\<close>

lemma held_byte:
  assumes ok: "heap_ok base lo st F H" and a: "a \<in> H" and i: "i + 8 < 8 * usz st a"
  shows "unat (a + 8 + of_nat i) = unat a + 8 + i" and "unat a + 8 + i < bend (usz st) a"
proof -
  show lt: "unat a + 8 + i < bend (usz st) a" using i by (simp add: bend_def)
  have "bend (usz st) a \<le> unat (brk st)" using heap_blockD(4)[OF ok] a by blast
  then have "unat a + (8 + i) < 4294967296" using lt unat_lt_u32[of "brk st"] by linarith
  then have "unat (a + of_nat (8 + i)) = unat a + (8 + i)" by (rule unat_plus_of_nat)
  then show "unat (a + 8 + of_nat i) = unat a + 8 + i" by (simp add: add.assoc)
qed

lemma held_ptr:
  assumes ok: "heap_ok base lo st F H" and a: "a \<in> H"
  shows "unat (a + 8) = unat a + 8" and "a + 8 \<noteq> 0"
proof -
  have "unat a + 8 \<le> unat (brk st)" using heap_blockD(4,5)[OF ok, of a] a by simp
  then have "unat a + 8 < 4294967296" using unat_lt_u32[of "brk st"] by linarith
  then show u: "unat (a + 8) = unat a + 8" using unat_plus_of_nat[of a 8] by simp
  then show "a + 8 \<noteq> 0" by auto
qed

lemma keeps_held_bytes:
  assumes ok: "heap_ok base lo st F H" and k: "keeps_held st st' K" and p: "p - 8 \<in> K" "K \<subseteq> H"
    and i: "i + 8 < 8 * usz st (p - 8)"
  shows "umem st' (p + of_nat i) = umem st (p + of_nat i)"
proof -
  have "p - 8 \<in> H" using p by blast
  then show ?thesis using held_byte[OF ok _ i] k p(1) by (auto simp: keeps_held_def)
qed

lemma heap_cong:
  assumes ok: "heap_ok base lo st F H" and "brk st' = brk st" "freep st' = freep st"
    and same: "\<And>t x. t \<in> insert base (set F \<union> H) \<Longrightarrow> in_hdr t x \<Longrightarrow> umem st' x = umem st x"
  shows "heap_ok base lo st' F H" and "t \<in> insert base (set F \<union> H) \<Longrightarrow> usz st' t = usz st t"
proof -
  have h: "hptr st' t = hptr st t \<and> usz st' t = usz st t" if t: "t \<in> insert base (set F \<union> H)" for t
  proof -
    have fit: "hfit t" using heap_hfit[OF ok t] .
    have "load32 (umem st') t = load32 (umem st) t" "load32 (umem st') (t + 4) = load32 (umem st) (t + 4)"
      using fit hfit_4[OF fit] same[OF t] by (auto intro!: load32_region simp: hfit_def in_hdr_def)
    then show ?thesis by (simp add: hptr_def usz_def hsize_def)
  qed
  then show "t \<in> insert base (set F \<union> H) \<Longrightarrow> usz st' t = usz st t" by blast
  have "chain (hptr st') (base # F) base = chain (hptr st) (base # F) base"
    by (rule chain_cong) (use h in auto)
  moreover have "layout lo (unat (brk st)) (usz st') (set F) H = layout lo (unat (brk st)) (usz st) (set F) H"
    by (rule layout_cong) (use h in auto)
  moreover have "coalesced (usz st') (set F) = coalesced (usz st) (set F)"
    using h by (auto simp: coalesced_def bend_def)
  ultimately show "heap_ok base lo st' F H" using ok assms(2,3) h by (simp add: heap_ok_def)
qed

lemma poke_ok:
  assumes ok: "heap_ok base lo st F H" and a: "a \<in> H" and i: "i + 8 < 8 * usz st a"
  shows "heap_ok base lo (user_poke (a + 8 + of_nat i) b st) F H"
    and "t \<in> H \<Longrightarrow> usz (user_poke (a + 8 + of_nat i) b st) t = usz st t"
proof -
  let ?x = "a + 8 + of_nat i" and ?st = "user_poke (a + 8 + of_nat i) b st"
  note hb = held_byte[OF assms]
  have "\<not> in_hdr t ?x" if t: "t \<in> insert base (set F \<union> H)" for t
  proof (cases "t = base \<or> t = a")
    case True
    then show ?thesis using hb heap_blockD(2)[OF ok, of a] a by (auto simp: in_hdr_def)
  next
    case False
    then have tt: "t \<in> set F \<union> H" "t \<noteq> a" using t by auto
    have "\<not> (unat t \<le> unat ?x \<and> unat ?x < bend (usz st) t)"
      using block_bytes[OF ok _ tt(1,2), of ?x] hb a by auto
    then show ?thesis using heap_blockD(5)[OF ok tt(1)] by (auto simp: in_hdr_def)
  qed
  then have same: "umem ?st x = umem st x" if "t \<in> insert base (set F \<union> H)" "in_hdr t x" for t x
    using that by (auto simp: user_poke_def)
  have f: "brk ?st = brk st" "freep ?st = freep st" by (simp_all add: user_poke_def)
  show "heap_ok base lo ?st F H" by (rule heap_cong(1)[OF ok f]) (rule same)
  show "usz ?st t = usz st t" if "t \<in> H" by (rule heap_cong(2)[OF ok f]) (use that in \<open>auto intro: same\<close>)
qed

lemma sub8_inj: "inj_on (\<lambda>p::u32. p - 8) A"
  by (auto simp: inj_on_def)

lemma malloc_inv_apart:
  assumes inv: "malloc_inv base lo st h" and p: "h p = Some k" and q: "h q = Some l" and ne: "p \<noteq> q"
  shows "unat p + k \<le> unat q \<or> unat q + l \<le> unat p"
proof -
  obtain F where ok: "heap_ok base lo st F ((\<lambda>p. p - 8) ` dom h)"
    and sz: "\<forall>p k. h p = Some k \<longrightarrow> k + 8 \<le> 8 * usz st (p - 8)"
    using inv p by (auto simp: malloc_inv_def)
  have m: "p - 8 \<in> (\<lambda>p. p - 8) ` dom h" "q - 8 \<in> (\<lambda>p. p - 8) ` dom h" using p q by auto
  have u: "unat p = unat (p - 8) + 8" "unat q = unat (q - 8) + 8"
    using held_ptr(1)[OF ok m(1)] held_ptr(1)[OF ok m(2)] by simp_all
  have "unat p + k \<le> bend (usz st) (p - 8)" "unat q + l \<le> bend (usz st) (q - 8)"
    using sz[rule_format, OF p] sz[rule_format, OF q] u by (simp_all add: bend_def)
  moreover have "bend (usz st) (p - 8) \<le> unat (q - 8) \<or> bend (usz st) (q - 8) \<le> unat (p - 8)"
    using heap_before[OF ok, of "p - 8" "q - 8"] heap_before[OF ok, of "q - 8" "p - 8"] m ne
    by (cases "p - 8" "q - 8" rule: linorder_cases) auto
  ultimately show ?thesis using u by linarith
qed

lemma malloc_inv_range:
  assumes inv: "malloc_inv base lo st h" and p: "h p = Some k"
  shows "lo + 8 \<le> unat p" and "unat p + k \<le> unat (brk st)"
proof -
  obtain F where ok: "heap_ok base lo st F ((\<lambda>p. p - 8) ` dom h)"
    and sz: "\<forall>p k. h p = Some k \<longrightarrow> k + 8 \<le> 8 * usz st (p - 8)"
    using inv p by (auto simp: malloc_inv_def)
  have m: "p - 8 \<in> (\<lambda>p. p - 8) ` dom h" using p by auto
  have u: "unat p = unat (p - 8) + 8" using held_ptr(1)[OF ok m] by simp
  have "layout lo (unat (brk st)) (usz st) (set F) ((\<lambda>p. p - 8) ` dom h)" using ok by (simp add: heap_ok_def)
  then have "lo \<le> unat (p - 8)" using layout_blocksD(1) m by blast
  then show "lo + 8 \<le> unat p" using u by simp
  show "unat p + k \<le> unat (brk st)"
    using heap_blockD(4)[OF ok, of "p - 8"] m sz[rule_format, OF p] u by (simp add: bend_def)
qed

lemma malloc_law:
  assumes inv: "malloc_inv base lo st h" and n: "unat n < 0x7FFFFF00"
  shows "\<exists>p st'. malloc (sbrk_grants lends) base n st = Some (p, st') \<and>
     (p = 0 \<and> core_refused (sbrk_grants lends) n st \<and> malloc_inv base lo st' h \<or> p \<noteq> 0 \<and> h p = None \<and> malloc_inv base lo st' (h(p \<mapsto> unat n))) \<and>
     (\<forall>q k i. h q = Some k \<longrightarrow> i < k \<longrightarrow> umem st' (q + of_nat i) = umem st (q + of_nat i))"
proof -
  let ?H = "(\<lambda>p. p - 8) ` dom h"
  obtain st0 F r st' F' where ok: "heap_ok base lo st0 F ?H"
      and sz: "\<forall>p k. h p = Some k \<longrightarrow> k + 8 \<le> 8 * usz st0 (p - 8)" and st0: "h \<noteq> Map.empty \<longrightarrow> st0 = st"
      and run: "malloc (sbrk_grants lends) base n st = Some (r, st')" and kh: "keeps_held st0 st' ?H"
      and res: "r = 0 \<and> brk st0 = brk st \<and> \<not> sbrk_grants lends (core_units (units n) * 8) st0 \<and> heap_ok base lo st' F' ?H \<or>
        (\<exists>b. r = b + 8 \<and> heap_ok base lo st' F' (insert b ?H) \<and> b \<notin> ?H \<and> usz st' b = unat (units n))"
    using malloc_ok[OF inv sbrk_grants_within n, of lends] by (elim exE conjE) (rule that)
  have sz': "k + 8 \<le> 8 * usz st' (p - 8)" if "h p = Some k" for p k
  proof -
    have "p - 8 \<in> ?H" using that by auto
    then show ?thesis using keeps_held_usz[OF ok kh] sz[rule_format, OF that] by simp
  qed
  have "umem st' (q + of_nat i) = umem st (q + of_nat i)" if q: "h q = Some k" "i < k" for q k i
  proof -
    have "q - 8 \<in> ?H" "st0 = st" "i + 8 < 8 * usz st0 (q - 8)" using q sz st0 by force+
    then show ?thesis using keeps_held_bytes[OF ok kh] by auto
  qed
  moreover have "r = 0 \<and> core_refused (sbrk_grants lends) n st \<and> malloc_inv base lo st' h \<or> r \<noteq> 0 \<and> h r = None \<and> malloc_inv base lo st' (h(r \<mapsto> unat n))"
    using res
  proof (elim disjE exE conjE)
    fix b
    assume b: "r = b + 8" "heap_ok base lo st' F' (insert b ?H)" "b \<notin> ?H" "usz st' b = unat (units n)"
    have rn: "r \<noteq> 0" using held_ptr(2)[OF b(2), of b] b(1) by simp
    have hr: "h r = None"
    proof (rule ccontr)
      assume "h r \<noteq> None"
      then have "r - 8 \<in> ?H" by auto
      then show False using b(1,3) by simp
    qed
    have "(\<lambda>p. p - 8) ` dom (h(r \<mapsto> unat n)) = insert b ?H" using b(1) by simp
    moreover have "unat n + 8 \<le> 8 * usz st' b" using units_ok(4)[OF n] b(4) by simp
    ultimately show ?thesis using b sz' rn hr by (auto simp: malloc_inv_def split: if_splits)
  qed (use sz' in \<open>auto simp: malloc_inv_def core_refused_def\<close>)
  ultimately show ?thesis using run by blast
qed

lemma mfree_law:
  assumes inv: "malloc_inv base lo st h" and p: "h p = Some k"
  shows "\<exists>st'. mfree p st = Some st' \<and> malloc_inv base lo st' (h(p := None)) \<and>
     (\<forall>q l i. q \<noteq> p \<longrightarrow> h q = Some l \<longrightarrow> i < l \<longrightarrow> umem st' (q + of_nat i) = umem st (q + of_nat i))"
proof -
  let ?H = "(\<lambda>p. p - 8) ` dom h"
  obtain F where ok: "heap_ok base lo st F ?H"
    and sz: "\<forall>p k. h p = Some k \<longrightarrow> k + 8 \<le> 8 * usz st (p - 8)"
    using inv p by (auto simp: malloc_inv_def)
  have m: "p - 8 \<in> ?H" using p by auto
  obtain st' F' where st': "mfree p st = Some st'" "heap_ok base lo st' F' (?H - {p - 8})"
      "only_at (insert base (set F \<union> {p - 8})) st st'"
    using mfree_ok[OF ok m] by auto
  have kh: "keeps_held st st' (?H - {p - 8})" using st'(3) m by (intro only_at_keeps[OF ok]) auto
  have H': "(\<lambda>p. p - 8) ` dom (h(p := None)) = ?H - {p - 8}" by auto
  have "l + 8 \<le> 8 * usz st' (q - 8)" if "h q = Some l" "q \<noteq> p" for q l
  proof -
    have "q - 8 \<in> ?H - {p - 8}" using that by auto
    then show ?thesis using keeps_held_usz[OF ok kh, of "q - 8"] sz that by auto
  qed
  then have "malloc_inv base lo st' (h(p := None))"
    using st'(2) unfolding malloc_inv_def H' by (auto split: if_splits)
  moreover have "umem st' (q + of_nat i) = umem st (q + of_nat i)" if "q \<noteq> p" "h q = Some l" "i < l" for q l i
  proof -
    have "q - 8 \<in> ?H - {p - 8}" "i + 8 < 8 * usz st (q - 8)" using that sz by force+
    then show ?thesis using keeps_held_bytes[OF ok kh] by auto
  qed
  ultimately show ?thesis using st'(1) by blast
qed

lemma poke_byte_law:
  assumes inv: "malloc_inv base lo st h" and p: "h p = Some k" and i: "i < k"
  shows "malloc_inv base lo (user_poke (p + of_nat i) b st) h"
proof -
  let ?H = "(\<lambda>p. p - 8) ` dom h"
  obtain F where ok: "heap_ok base lo st F ?H"
    and sz: "\<forall>p k. h p = Some k \<longrightarrow> k + 8 \<le> 8 * usz st (p - 8)"
    using inv p by (auto simp: malloc_inv_def)
  have m: "p - 8 \<in> ?H" "i + 8 < 8 * usz st (p - 8)" using p sz i by force+
  note pk = poke_ok[OF ok m, where b = b, simplified]
  have "l + 8 \<le> 8 * usz (user_poke (p + of_nat i) b st) (q - 8)" if "h q = Some l" for q l
  proof -
    have "q - 8 \<in> ?H" using that by auto
    then show ?thesis using pk(2)[of "q - 8"] sz that by auto
  qed
  then show ?thesis using pk(1) by (auto simp: malloc_inv_def)
qed

interpretation um: block_allocator "malloc_inv base lo" umem "malloc (sbrk_grants lends) base" mfree user_poke "0x7FFFFF00"
    "core_refused (sbrk_grants lends)"
  for base lo lends
proof (unfold_locales, goal_cases)
  case (1 s h n)
  then show ?case by (rule malloc_law)
next
  case (2 s h p k)
  then show ?case by (rule mfree_law)
next
  case (3 s h p k i b)
  then show ?case using poke_byte_law[OF 3] by (simp add: user_poke_def)
next
  case (4 s h p k q l i j)
  have le: "unat p + k \<le> unat (brk s)" "unat q + l \<le> unat (brk s)"
    using malloc_inv_range(2)[OF 4(1)] 4(2,3) by auto
  then have "unat (p + of_nat i) = unat p + i" "unat (q + of_nat j) = unat q + j"
    using 4(5,6) unat_lt_u32[of "brk s"] by (auto intro!: unat_plus_of_nat)
  then show ?case using malloc_inv_apart[OF 4(1-4)] 4(5,6) by (auto dest!: arg_cong[where f = unat])
next
  case (5 s h p k)
  then show ?case using malloc_inv_range(2)[OF 5] unat_lt_u32[of "brk s"] by linarith
qed

section \<open>Runs of a program\<close>

text \<open>
  A program that calls \<open>malloc\<close> and \<open>free\<close> and writes to the blocks it holds. \<open>g\<close> is what it holds, with the
  contents it knows: a new block has the bytes that happen to be there.
\<close>

inductive mreach :: "(u32 \<Rightarrow> ustate \<Rightarrow> bool) \<Rightarrow> u32 \<Rightarrow> nat \<Rightarrow> ustate \<Rightarrow> (u32 \<rightharpoonup> u8 list) \<Rightarrow> bool"
  for grow base lo where
  Start: "fresh_heap base lo st \<Longrightarrow> mreach grow base lo st Map.empty"
| Malloc_fails: "mreach grow base lo st g \<Longrightarrow> unat n < 0x7FFFFF00 \<Longrightarrow> malloc grow base n st = Some (0, st') \<Longrightarrow>
    mreach grow base lo st' g"
| Malloc: "mreach grow base lo st g \<Longrightarrow> unat n < 0x7FFFFF00 \<Longrightarrow> malloc grow base n st = Some (p, st') \<Longrightarrow> p \<noteq> 0 \<Longrightarrow>
    mreach grow base lo st' (g(p \<mapsto> bytes (umem st') p (unat n)))"
| Free: "mreach grow base lo st g \<Longrightarrow> g p = Some d \<Longrightarrow> mfree p st = Some st' \<Longrightarrow>
    mreach grow base lo st' (g(p := None))"
| Write: "mreach grow base lo st g \<Longrightarrow> g p = Some d \<Longrightarrow> i < length d \<Longrightarrow>
    mreach grow base lo (user_poke (p + of_nat i) b st) (g(p \<mapsto> d[i := b]))"

lemma mreach_holds:
  assumes "mreach grow base lo st g" and gr: "grants_within grow"
  shows "um.holds base lo st g"
  using assms(1)
proof induction
  case (Start st)
  then have "malloc_inv base lo st (\<lambda>p. None)" by (simp add: malloc_inv_def)
  then show ?case by (simp add: um.holds_def)
next
  case (Malloc_fails st g n st')
  then show ?case
    using um.holds_alloc[of base lo st g n grow] grants_within_eq[OF gr] by auto
next
  case (Malloc st g n p st')
  then obtain d where d: "length d = unat n" "um.holds base lo st' (g(p \<mapsto> d))"
    using um.holds_alloc[of base lo st g n grow] grants_within_eq[OF gr] by auto
  then have "d = bytes (umem st') p (unat n)"
    by (intro nth_equalityI) (auto simp: um.holds_def)
  then show ?case using d(2) by (simp only:)
next
  case (Free st g p d st')
  then show ?case using um.holds_release[of base lo st g p d] by (auto simp del: fun_upd_apply)
next
  case (Write st g p d i b)
  then show ?case using um.holds_poke by blast
qed

text \<open>
  C12. In every run of a program that writes only to memory it holds, every block it holds still has the bytes
  the program last wrote there, lies in the memory the kernel granted and overlaps no other block; \<open>free\<close> of a
  held block returns, and \<open>malloc\<close> of fewer than \<open>0x7FFFFF00\<close> bytes returns a block the program does not hold, or
  null, and that only if the kernel refuses the memory it asks for.
\<close>

theorem malloc_blocks_are_safe:
  assumes "mreach grow base lo st g" and "grants_within grow"
  shows "(\<forall>p d. g p = Some d \<longrightarrow> bytes (umem st) p (length d) = d \<and> lo + 8 \<le> unat p \<and>
           unat p + length d \<le> unat (brk st) \<and> (\<exists>st'. mfree p st = Some st')) \<and>
     (\<forall>p d q e. g p = Some d \<and> g q = Some e \<and> p \<noteq> q \<longrightarrow> unat p + length d \<le> unat q \<or> unat q + length e \<le> unat p) \<and>
     (\<forall>n. unat n < 0x7FFFFF00 \<longrightarrow> (\<exists>p st'. malloc grow base n st = Some (p, st') \<and>
        (if p = 0 then core_refused grow n st else g p = None)))"
proof -
  have h: "um.holds base lo st g" using mreach_holds[OF assms] .
  then have inv: "malloc_inv base lo st (\<lambda>p. map_option length (g p))" by (simp add: um.holds_def)
  have "bytes (umem st) p (length d) = d \<and> lo + 8 \<le> unat p \<and> unat p + length d \<le> unat (brk st) \<and>
      (\<exists>st'. mfree p st = Some st')" if "g p = Some d" for p d
    using h that malloc_inv_range[OF inv, of p "length d"] um.holds_release[OF h that]
    by (auto simp: um.holds_def intro: nth_equalityI)
  moreover have "unat p + length d \<le> unat q \<or> unat q + length e \<le> unat p"
    if "g p = Some d" "g q = Some e" "p \<noteq> q" for p d q e
    using malloc_inv_apart[OF inv, of p "length d" q "length e"] that by simp
  moreover have "\<exists>p st'. malloc grow base n st = Some (p, st') \<and> (if p = 0 then core_refused grow n st else g p = None)" if "unat n < 0x7FFFFF00" for n
    using um.holds_alloc[OF h that, of grow] grants_within_eq[OF assms(2)] by auto
  ultimately show ?thesis by blast
qed

section \<open>No memory is lost\<close>

text \<open>Blocks in order that fill an interval leave no gap.\<close>

lemma tiles_tight:
  assumes "sorted_wrt (<) (a # b # F)" and "layout lo hi sz (set (a # b # F)) {}"
  shows "bend sz a = unat b"
proof -
  have gaps: "unat c + (\<Sum>x\<leftarrow>c # G. 8 * sz x) \<le> hi"
    if "sorted_wrt (<) (c # G)" "set (c # G) \<subseteq> set (a # b # F)" for c G
    using that
  proof (induction G arbitrary: c)
    case Nil
    then show ?case using layout_blocksD(3)[OF assms(2), of c] by (auto simp: bend_def)
  next
    case (Cons d G)
    have "bend sz c \<le> unat d" using layout_before[OF assms(2), of c d] Cons.prems by auto
    then show ?case using Cons.IH[of d] Cons.prems by (auto simp: bend_def)
  qed
  have d: "distinct (a # b # F)" using assms(1) by (auto simp: strict_sorted_iff)
  have "hi = lo + (\<Sum>x\<in>set (a # b # F). 8 * sz x)" using assms(2) by (simp add: layout_def)
  also have "(\<Sum>x\<in>set (a # b # F). 8 * sz x) = (\<Sum>x\<leftarrow>a # b # F. 8 * sz x)"
    using d by (rule sum.distinct_set_conv_list)
  finally have hi: "hi = lo + 8 * sz a + (\<Sum>x\<leftarrow>b # F. 8 * sz x)" by simp
  have "unat b + (\<Sum>x\<leftarrow>b # F. 8 * sz x) \<le> hi" using gaps[of b F] assms(1) by auto
  moreover have "lo \<le> unat a" using layout_blocksD(1)[OF assms(2), of a] by simp
  moreover have "bend sz a \<le> unat b" using layout_before[OF assms(2), of a b] assms(1) by simp
  ultimately show ?thesis using hi by (simp add: bend_def)
qed

lemma single_tight:
  assumes "layout lo hi sz {a} {}"
  shows "unat a = lo \<and> bend sz a = hi"
  using assms by (auto simp: layout_def bend_def)

text \<open>
  C33. Nothing is lost or left in pieces: when a program has freed everything it has allocated, the free list
  is one block that is all the memory the kernel ever granted (or is empty, if it granted none).
\<close>

theorem malloc_free_all_is_one_block:
  assumes "mreach grow base lo st Map.empty" and "grants_within grow" and "freep st \<noteq> 0"
  shows "\<exists>F. heap_ok base lo st F {} \<and>
     (F = [] \<and> unat (brk st) = lo \<or> (\<exists>a. F = [a] \<and> unat a = lo \<and> lo + 8 * usz st a = unat (brk st)))"
proof -
  have "um.holds base lo st Map.empty" using mreach_holds[OF assms(1,2)] .
  then obtain F where ok: "heap_ok base lo st F {}"
    using assms(3) by (auto simp: um.holds_def malloc_inv_def fresh_heap_def)
  have lay: "layout lo (unat (brk st)) (usz st) (set F) {}" and co: "coalesced (usz st) (set F)"
    using ok by (auto simp: heap_ok_def)
  consider "F = []" | a where "F = [a]" | a b G where "F = a # b # G" by (metis neq_Nil_conv)
  then show ?thesis
  proof cases
    case 1
    then show ?thesis using ok lay by (intro exI[of _ F]) (simp add: layout_def)
  next
    case (2 a)
    then show ?thesis using ok single_tight[of lo _ "usz st" a] lay by (intro exI[of _ F]) (auto simp: bend_def)
  next
    case (3 a b G)
    have "bend (usz st) a = unat b" using tiles_tight[of a b G lo] lay heap_sorted[OF ok] 3 by simp
    then show ?thesis using co 3 by (auto simp: coalesced_def)
  qed
qed

text \<open>
  The bound on the request is needed: the number of units wraps around, so that the largest requests get a block
  of no bytes at all.
\<close>

lemma malloc_huge_request: "0xFFFFFFF9 \<le> n \<Longrightarrow> units n = 1"
proof -
  assume n: "0xFFFFFFF9 \<le> n"
  have "unat (n + 8 - 1) = unat n + 7 - 4294967296"
    using n unat_lt_u32[of n] by (simp add: unat_word_ariths word_le_nat_alt mod_if)
  then have "unat ((n + 8 - 1) div 8) = 0" using unat_lt_u32[of n] by (simp add: unat_div)
  then show ?thesis unfolding units_def by (metis add_0 unsigned_eq_0_iff)
qed

section \<open>Witnesses\<close>

definition demo_grow :: "u32 \<Rightarrow> ustate \<Rightarrow> bool" where
  "demo_grow n st \<longleftrightarrow> unat (brk st) + unat n \<le> 0xA0000"

definition demo_heap :: ustate where
  "demo_heap = \<lparr>umem = (\<lambda>_. 0), freep = 0, brk = 0x1000\<rparr>"

lemma demo_fresh: "fresh_heap 0x100 0x1000 demo_heap" "grants_within demo_grow"
  by (simp_all add: fresh_heap_def demo_heap_def grants_within_def demo_grow_def)

lemma demo_malloc: "\<exists>p st'. malloc demo_grow 0x100 10 demo_heap = Some (p, st') \<and> p \<noteq> 0"
proof -
  have "\<not> core_refused demo_grow 10 demo_heap"
    by (auto simp: core_refused_def demo_grow_def demo_heap_def core_units_def units_def)
  moreover have "unat (10::u32) < 0x7FFFFF00" by simp
  moreover have "um.holds 0x100 0x1000 demo_heap Map.empty" by (rule mreach_holds[OF Start[OF demo_fresh(1)] demo_fresh(2)])
  ultimately show ?thesis
    using um.holds_alloc[of "0x100" "0x1000" demo_heap Map.empty 10 demo_grow] grants_within_eq[OF demo_fresh(2)] by auto
qed

theorem malloc_blocks_are_safe_witness:
  "\<exists>p st d. mreach demo_grow 0x100 0x1000 st [p \<mapsto> d] \<and> length d = 10 \<and> d ! 3 = 7 \<and>
     bytes (umem st) p 10 = d \<and> 0x1008 \<le> unat p \<and> (\<exists>st'. mfree p st = Some st')"
proof -
  obtain p st' where m: "malloc demo_grow 0x100 10 demo_heap = Some (p, st')" "p \<noteq> 0" using demo_malloc by blast
  let ?d = "(bytes (umem st') p 10)[3 := 7]" and ?st = "user_poke (p + of_nat 3) 7 st'"
  have "mreach demo_grow 0x100 0x1000 st' (Map.empty(p \<mapsto> bytes (umem st') p (unat (10::u32))))"
    by (rule Malloc[OF Start[OF demo_fresh(1)] _ m]) simp
  then have "mreach demo_grow 0x100 0x1000 ?st ([p \<mapsto> bytes (umem st') p 10](p \<mapsto> ?d))"
    by (intro Write) auto
  then have r: "mreach demo_grow 0x100 0x1000 ?st [p \<mapsto> ?d]" by (simp only: fun_upd_upd)
  have "bytes (umem ?st) p (length ?d) = ?d \<and> 0x1000 + 8 \<le> unat p \<and> (\<exists>st'. mfree p ?st = Some st')"
    using malloc_blocks_are_safe[OF r demo_fresh(2), THEN conjunct1, THEN spec, THEN spec, of p ?d] by simp
  then show ?thesis
    using r by (intro exI[of _ p] exI[of _ ?st] exI[of _ ?d]) auto
qed

theorem malloc_free_all_is_one_block_witness:
  "\<exists>st F. mreach demo_grow 0x100 0x1000 st Map.empty \<and> freep st \<noteq> 0 \<and> heap_ok 0x100 0x1000 st F {} \<and>
     (F = [] \<and> unat (brk st) = 0x1000 \<or> (\<exists>a. F = [a] \<and> unat a = 0x1000 \<and> 0x1000 + 8 * usz st a = unat (brk st)))"
proof -
  obtain p st' where m: "malloc demo_grow 0x100 10 demo_heap = Some (p, st')" "p \<noteq> 0" using demo_malloc by blast
  have r: "mreach demo_grow 0x100 0x1000 st' [p \<mapsto> bytes (umem st') p (unat (10::u32))]"
    by (rule Malloc[OF Start[OF demo_fresh(1)] _ m]) simp
  have h: "um.holds 0x100 0x1000 st' [p \<mapsto> bytes (umem st') p (unat (10::u32))]"
    using mreach_holds[OF r demo_fresh(2)] .
  then obtain F where F: "heap_ok 0x100 0x1000 st' F {p - 8}"
    by (auto simp: um.holds_def malloc_inv_def dom_def fun_eq_iff split: if_splits)
  obtain st F' where st: "mfree p st' = Some st" "heap_ok 0x100 0x1000 st F' {}"
    using mfree_ok[OF F, of "p - 8"] by auto
  have "mreach demo_grow 0x100 0x1000 st Map.empty" using Free[OF r _ st(1)] by simp
  then show ?thesis
    using malloc_free_all_is_one_block[OF _ demo_fresh(2), of "0x100" "0x1000" st] heap_freep[OF st(2)] by blast
qed

end
