(* ===== verification/Console.thy ===== *)
theory Console
  imports Fifo Ulib
begin

text \<open>
  The console (\<open>P5/xv6/kernel/console.c\<close>): output to the serial line and the screen, formatted output of the
  kernel, and the line discipline between keyboard and \<open>read\<close>. Screen memory is the 25 times 80 cells at
  \<open>0xb8000\<close>, the cursor is the register of the display controller; both are part of the state, and a cell outside
  the screen is out of bounds. Operations run under the console's locks, so each is one step; a reader that has
  to wait returns \<open>Sleeps\<close> with what it has so far.
\<close>

section \<open>State\<close>

record console =
  ibuf :: "u8 list"
  ir :: u32
  iw :: u32
  ie :: u32
  uart :: "u8 list"
  crt :: "u16 list"
  cpos :: nat
  wakeups :: nat
  dumps :: nat

definition INPUT_BUF :: nat where
  "INPUT_BUF = 128"

definition BACKSPACE :: int where
  "BACKSPACE = 256"

section \<open>Output\<close>

definition cga_cell :: "int \<Rightarrow> u16" where
  "cga_cell c = (of_int c AND 0xff) OR 0x0700"

text \<open>The cursor after a character, and the screen with the character.\<close>

definition cga_put :: "int \<Rightarrow> u16 list \<Rightarrow> nat \<Rightarrow> (u16 list \<times> nat) outcome" where
  "cga_put c scr pos =
     (if c = 10 then Ret (scr, pos + (80 - pos mod 80))
      else if c = BACKSPACE then Ret (scr, if pos > 0 then pos - 1 else pos)
      else bindO (aset scr (int pos) (cga_cell c)) (\<lambda>scr'. Ret (scr', pos + 1)))"

text \<open>Scrolling: the rows move up by one and the rest of the 24 rows is cleared.\<close>

definition cga_scroll :: "u16 list \<Rightarrow> nat \<Rightarrow> (u16 list \<times> nat) outcome" where
  "cga_scroll scr pos =
     (if 24 \<le> pos div 80 then
        let scr1 = take (23 * 80) (drop 80 scr) @ drop (23 * 80) scr; pos1 = pos - 80 in
        if 24 * 80 < pos1 then Undef ''memset of a negative size''
        else Ret (take pos1 scr1 @ replicate (24 * 80 - pos1) 0 @ drop (24 * 80) scr1, pos1)
      else Ret (scr, pos))"

definition cgaputc :: "int \<Rightarrow> console \<Rightarrow> console outcome" where
  "cgaputc c s =
     bindO (cga_put c (crt s) (cpos s)) (\<lambda>(scr, pos).
     bindO (cga_scroll scr pos) (\<lambda>(scr1, pos1).
     bindO (aset scr1 (int pos1) (32 OR 0x0700)) (\<lambda>scr2.
     Ret (s\<lparr>crt := scr2, cpos := pos1\<rparr>))))"

definition consputc :: "int \<Rightarrow> console \<Rightarrow> console outcome" where
  "consputc c s =
     cgaputc c (s\<lparr>uart := uart s @ (if c = BACKSPACE then [8, 32, 8] else [of_int c])\<rparr>)"

fun put_all :: "u8 list \<Rightarrow> console \<Rightarrow> console outcome" where
  "put_all [] s = Ret s"
| "put_all (b # bs) s = bindO (consputc (uint b) s) (put_all bs)"

definition consolewrite :: "u8 list \<Rightarrow> console \<Rightarrow> (int \<times> console) outcome" where
  "consolewrite bs s = bindO (put_all bs s) (\<lambda>s'. Ret (int (length bs), s'))"

text \<open>\<open>cprintf\<close>: like \<open>printf\<close> of the library, but a percent sign at the end stops it and \<open>%c\<close> is unknown.\<close>

definition kprintint :: "i32 \<Rightarrow> u32 \<Rightarrow> bool \<Rightarrow> u8 list outcome" where
  "kprintint xx base sg = print_digits (cstr ''0123456789abcdef'') xx base sg"

fun cformat :: "mem \<Rightarrow> u8 list \<Rightarrow> u32 list \<Rightarrow> u8 list outcome" where
  "cformat m [] ap = Ret []"
| "cformat m [c] ap = Ret (if c \<noteq> 37 then [c] else [])"
| "cformat m (c # d # fmt) ap =
     (if c \<noteq> 37 then bindO (cformat m (d # fmt) ap) (\<lambda>out. Ret (c # out))
      else
        bindO
          (if d = 100 then bindO (next_arg ap) (\<lambda>(a, as). bindO (kprintint a 10 True) (\<lambda>s. Ret (s, as)))
           else if d = 120 \<or> d = 112 then bindO (next_arg ap) (\<lambda>(a, as). bindO (kprintint a 16 False) (\<lambda>s. Ret (s, as)))
           else if d = 115 then bindO (next_arg ap) (\<lambda>(a, as). bindO (string_arg m a) (\<lambda>s. Ret (s, as)))
           else if d = 37 then Ret ([37], ap)
           else Ret ([37, d], ap))
          (\<lambda>(s, ap'). bindO (cformat m fmt ap') (\<lambda>out. Ret (s @ out))))"

definition cprintf :: "mem \<Rightarrow> u8 list \<Rightarrow> u32 list \<Rightarrow> console \<Rightarrow> console outcome" where
  "cprintf m fmt ap s = bindO (cformat m fmt ap) (\<lambda>out. put_all out s)"

section \<open>Input\<close>

text \<open>The loop of control-U.\<close>

lemma consputc_input: "consputc c s = Ret s' \<Longrightarrow> ie s' = ie s \<and> iw s' = iw s \<and> ir s' = ir s \<and> ibuf s' = ibuf s"
  by (auto simp: consputc_def cgaputc_def)

function kill_line :: "console \<Rightarrow> console outcome" where
  "kill_line s =
     (if ie s \<noteq> iw s \<and> ibuf s ! (unat (ie s - 1) mod INPUT_BUF) \<noteq> 10
      then bindO (consputc BACKSPACE (s\<lparr>ie := ie s - 1\<rparr>)) kill_line
      else Ret s)"
  by pat_completeness auto
termination
proof (relation "measure (\<lambda>s. unat (ie s - iw s))", simp)
  fix s x
  assume a: "ie s \<noteq> iw s \<and> ibuf s ! (unat (ie s - 1) mod INPUT_BUF) \<noteq> 10"
    and "consputc BACKSPACE (s\<lparr>ie := ie s - 1\<rparr>) = Ret x"
  then have "ie x = ie s - 1" "iw x = iw s" by (auto dest: consputc_input)
  moreover have "unat (ie s - 1 - iw s) < unat (ie s - iw s)"
    using a unat_minus_1[of "ie s - iw s"] unat_diff_pos[of "ie s" "iw s"] by (simp add: algebra_simps)
  ultimately show "(x, s) \<in> measure (\<lambda>s. unat (ie s - iw s))" by simp
qed

declare kill_line.simps [simp del]

text \<open>One character from the keyboard or the serial line.\<close>

definition console_key :: "int \<Rightarrow> console \<Rightarrow> console outcome" where
  "console_key c s =
     (if c = 16 then Ret (s\<lparr>dumps := Suc (dumps s)\<rparr>)
      else if c = 21 then kill_line s
      else if c = 8 \<or> c = 127 then
        (if ie s \<noteq> iw s then consputc BACKSPACE (s\<lparr>ie := ie s - 1\<rparr>) else Ret s)
      else if c \<noteq> 0 \<and> ie s - ir s < of_nat INPUT_BUF then
        (let c' = (if c = 13 then 10 else c);
             s1 = s\<lparr>ibuf := (ibuf s)[unat (ie s) mod INPUT_BUF := of_int c'], ie := ie s + 1\<rparr> in
         bindO (consputc c' s1) (\<lambda>s2.
         Ret (if c' = 10 \<or> c' = 4 \<or> ie s2 = ir s2 + of_nat INPUT_BUF
              then s2\<lparr>iw := ie s2, wakeups := Suc (wakeups s2)\<rparr> else s2)))
      else Ret s)"

text \<open>The interrupt handler takes characters until there are no more.\<close>

fun consoleintr :: "int list \<Rightarrow> console \<Rightarrow> console outcome" where
  "consoleintr [] s = Ret s"
| "consoleintr (c # cs) s = bindO (console_key c s) (consoleintr cs)"

datatype cread = Done "u8 list" console | Killed_read console | Sleeps "u8 list" nat console

fun consoleread_from :: "bool \<Rightarrow> nat \<Rightarrow> nat \<Rightarrow> u8 list \<Rightarrow> console \<Rightarrow> cread" where
  "consoleread_from killed target 0 acc s = Done acc s"
| "consoleread_from killed target (Suc n) acc s =
     (if ir s = iw s then (if killed then Killed_read s else Sleeps acc (Suc n) s)
      else
        let c = ibuf s ! (unat (ir s) mod INPUT_BUF); s1 = s\<lparr>ir := ir s + 1\<rparr> in
        if c = 4 then Done acc (if Suc n < target then s1\<lparr>ir := ir s1 - 1\<rparr> else s1)
        else if c = 10 then Done (acc @ [c]) s1
        else consoleread_from killed target n (acc @ [c]) s1)"

definition consoleread :: "bool \<Rightarrow> nat \<Rightarrow> console \<Rightarrow> cread" where
  "consoleread killed n s = consoleread_from killed n n [] s"

section \<open>The screen\<close>

definition screen_ok :: "console \<Rightarrow> bool" where
  "screen_ok s \<longleftrightarrow> length (crt s) = 2000 \<and> cpos s < 1920"

lemma cga_put_ok:
  assumes "length scr = 2000" and "pos < 1920"
  shows "\<exists>scr' pos'. cga_put c scr pos = Ret (scr', pos') \<and> length scr' = 2000 \<and> pos' \<le> 1920"
proof -
  have "pos + (80 - pos mod 80) \<le> 1920"
  proof -
    define q m where "q = pos div 80" and "m = pos mod 80"
    have "pos = 80 * q + m" "m < 80" "q < 24"
      using assms(2) by (simp_all add: q_def m_def div_less_iff_less_mult)
    then show ?thesis unfolding m_def[symmetric] by arith
  qed
  then show ?thesis using assms aset_in[of pos scr "cga_cell c"] by (auto simp: cga_put_def)
qed

lemma cga_scroll_ok:
  assumes "length scr = 2000" and "pos \<le> 1920"
  shows "\<exists>scr' pos'. cga_scroll scr pos = Ret (scr', pos') \<and> length scr' = 2000 \<and> pos' < 1920"
proof (cases "pos = 1920")
  case False
  then have "pos div 80 < 24" using assms(2) by (simp add: div_less_iff_less_mult)
  then show ?thesis using assms False by (simp add: cga_scroll_def)
qed (use assms in \<open>simp add: cga_scroll_def\<close>)

lemma consputc_ok:
  assumes "screen_ok s"
  shows "\<exists>s'. consputc c s = Ret s' \<and> screen_ok s' \<and> ie s' = ie s \<and> iw s' = iw s \<and> ir s' = ir s \<and> ibuf s' = ibuf s"
proof -
  obtain scr pos where p: "cga_put c (crt s) (cpos s) = Ret (scr, pos)" "length scr = 2000" "pos \<le> 1920"
    using cga_put_ok[of "crt s" "cpos s" c] assms by (auto simp: screen_ok_def)
  obtain scr1 pos1 where q: "cga_scroll scr pos = Ret (scr1, pos1)" "length scr1 = 2000" "pos1 < 1920"
    using cga_scroll_ok[OF p(2,3)] by blast
  then show ?thesis
    using p aset_in[of pos1 scr1] by (simp add: consputc_def cgaputc_def screen_ok_def)
qed

section \<open>The line discipline\<close>

text \<open>
  What the console promises: the lines that are ready to be read, and the line that is still being edited.
\<close>

type_synonym tty = "u8 list \<times> u8 list"

definition tty_key :: "int \<Rightarrow> tty \<Rightarrow> tty" where
  "tty_key c t =
     (case t of (ready, edit) \<Rightarrow>
      if c = 16 \<or> c = 0 then (ready, edit)
      else if c = 21 then (ready, [])
      else if c = 8 \<or> c = 127 then (ready, butlast edit)
      else if length ready + length edit < INPUT_BUF then
        (let edit' = edit @ [of_int (if c = 13 then 10 else c)] in
         if c = 13 \<or> c = 10 \<or> c = 4 \<or> length ready + length edit' = INPUT_BUF
         then (ready @ edit', []) else (ready, edit'))
      else (ready, edit))"

definition tty_of :: "console \<Rightarrow> tty" where
  "tty_of s = (ring_contents INPUT_BUF (ibuf s) (ir s) (iw s), ring_contents INPUT_BUF (ibuf s) (iw s) (ie s))"

definition console_ok :: "console \<Rightarrow> bool" where
  "console_ok s \<longleftrightarrow> screen_ok s \<and> length (ibuf s) = INPUT_BUF \<and>
     unat (iw s - ir s) + unat (ie s - iw s) \<le> INPUT_BUF \<and> 10 \<notin> set (snd (tty_of s))"

lemma ring_contents_cut:
  assumes "unat (w - r) + unat (e - w) < 4294967296"
  shows "ring_contents N d r e = ring_contents N d r w @ ring_contents N d w (e :: u32)"
proof -
  have "unat (e - r) = unat (w - r) + unat (e - w)"
  proof -
    have "(w - r) + of_nat (unat (e - w)) = e - r" by simp
    then show ?thesis using unat_plus_of_nat[OF assms] by (simp only:)
  qed
  moreover have "w = r + of_nat (unat (w - r))" by simp
  ultimately show ?thesis
    by (intro nth_equalityI) (auto simp: ring_contents_def nth_append algebra_simps)
qed

lemma ring_contents_snoc:
  assumes "e \<noteq> (w::u32)"
  shows "ring_contents N d w e = ring_contents N d w (e - 1) @ [d ! (unat (e - 1) mod N)]"
proof -
  have "unat (e - w) = Suc (unat (e - 1 - w))" using unat_diff_Suc[of e w] assms by (simp add: algebra_simps)
  then show ?thesis by (simp add: ring_contents_def)
qed

text \<open>The ring as a bounded queue: the second implementation of the interface of the pipe.\<close>

definition input_inv :: "console \<Rightarrow> bool" where
  "input_inv s \<longleftrightarrow> length (ibuf s) = INPUT_BUF \<and> unat (ie s - ir s) \<le> INPUT_BUF"

definition input_contents :: "console \<Rightarrow> u8 list" where
  "input_contents s = ring_contents INPUT_BUF (ibuf s) (ir s) (ie s)"

definition input_put :: "console \<Rightarrow> u8 \<Rightarrow> console" where
  "input_put s b = s\<lparr>ibuf := (ibuf s)[unat (ie s) mod INPUT_BUF := b], ie := ie s + 1\<rparr>"

definition input_get :: "console \<Rightarrow> u8 \<times> console" where
  "input_get s = (ibuf s ! (unat (ir s) mod INPUT_BUF), s\<lparr>ir := ir s + 1\<rparr>)"

definition input_full :: "console \<Rightarrow> bool" where
  "input_full s \<longleftrightarrow> \<not> ie s - ir s < of_nat INPUT_BUF"

lemma input_full_iff: "input_full s \<longleftrightarrow> INPUT_BUF \<le> unat (ie s - ir s)"
  by (auto simp: input_full_def INPUT_BUF_def word_less_nat_alt)

interpretation cq: bounded_fifo input_inv input_contents INPUT_BUF input_full "\<lambda>s. ir s = ie s" input_put input_get
proof (unfold_locales, goal_cases)
  case (1 q b)
  have "unat (ie q + 1 - ir q) = Suc (unat (ie q - ir q))"
    using 1 u32_plus_1[of "ie q - ir q"] by (simp add: input_full_iff INPUT_BUF_def algebra_simps)
  then show ?case using 1 by (simp add: input_inv_def input_put_def input_full_iff)
next
  case (2 q b)
  then show ?case
    using ring_contents_put[of INPUT_BUF "ie q" "ir q" "ibuf q" b]
    by (simp add: input_contents_def input_put_def input_full_iff input_inv_def INPUT_BUF_def)
next
  case (3 q)
  then show ?case using unat_diff_Suc[of "ie q" "ir q"] by (auto simp: input_inv_def input_get_def)
next
  case (4 q)
  then show ?case using ring_contents_get[of "ie q" "ir q"] by (auto simp: input_contents_def input_get_def)
next
  case (5 q)
  then show ?case using unat_diff_pos[of "ie q" "ir q"]
    by (cases "ie q = ir q") (auto simp: input_contents_def simp flip: length_0_conv)
next
  case (6 q)
  then show ?case by (auto simp: input_contents_def input_full_iff input_inv_def)
next
  case (7 q)
  then show ?case by (simp add: input_contents_def input_inv_def)
qed

lemma tty_of_contents:
  assumes "console_ok s"
  shows "input_inv s" and "input_contents s = fst (tty_of s) @ snd (tty_of s)"
    and "unat (ie s - ir s) = unat (iw s - ir s) + unat (ie s - iw s)"
proof -
  have le: "unat (iw s - ir s) + unat (ie s - iw s) \<le> INPUT_BUF" using assms by (simp add: console_ok_def)
  then have lt: "unat (iw s - ir s) + unat (ie s - iw s) < 4294967296" by (simp add: INPUT_BUF_def)
  show c: "input_contents s = fst (tty_of s) @ snd (tty_of s)"
    using ring_contents_cut[OF lt] by (simp add: input_contents_def tty_of_def)
  show e: "unat (ie s - ir s) = unat (iw s - ir s) + unat (ie s - iw s)"
    using arg_cong[OF c, of length] by (simp add: input_contents_def tty_of_def)
  show "input_inv s" using assms le e by (simp add: console_ok_def input_inv_def)
qed

text \<open>Typing a character appends it to the line that is edited.\<close>

lemma tty_put:
  assumes ok: "console_ok s" and room: "\<not> input_full s"
  shows "tty_of (input_put s b) = (fst (tty_of s), snd (tty_of s) @ [b])"
    and "unat (ie s + 1 - iw s) = Suc (unat (ie s - iw s))"
proof -
  note c = tty_of_contents[OF ok]
  have lt: "unat (ie s - iw s) < INPUT_BUF" using room c(3) by (simp add: input_full_iff)
  then show u: "unat (ie s + 1 - iw s) = Suc (unat (ie s - iw s))"
    using u32_plus_1[of "ie s - iw s"] by (simp add: INPUT_BUF_def algebra_simps)
  have "unat (iw s - ir s) + unat (ie s + 1 - iw s) < 4294967296"
    using u room c(3) by (simp add: input_full_iff INPUT_BUF_def)
  then have "input_contents (input_put s b) = fst (tty_of (input_put s b)) @ snd (tty_of (input_put s b))"
    by (simp add: input_contents_def tty_of_def input_put_def ring_contents_cut)
  moreover have "input_contents (input_put s b) = fst (tty_of s) @ snd (tty_of s) @ [b]"
    using cq.contents_put[OF c(1) room] c(2) by simp
  moreover have "length (fst (tty_of (input_put s b))) = length (fst (tty_of s))"
    by (simp add: tty_of_def input_put_def)
  ultimately show "tty_of (input_put s b) = (fst (tty_of s), snd (tty_of s) @ [b])"
    by (metis append_eq_append_conv prod.collapse)
qed

text \<open>Taking a character back.\<close>

lemma tty_back:
  assumes "ie s \<noteq> iw s"
  shows "tty_of (s\<lparr>ie := ie s - 1\<rparr>) = (fst (tty_of s), butlast (snd (tty_of s)))"
    and "unat (ie s - 1 - iw s) < unat (ie s - iw s)"
    and "last (snd (tty_of s)) = ibuf s ! (unat (ie s - 1) mod INPUT_BUF)" and "snd (tty_of s) \<noteq> []"
  using ring_contents_snoc[OF assms, of INPUT_BUF "ibuf s"] unat_diff_Suc[of "ie s" "iw s"] assms
  by (auto simp: tty_of_def algebra_simps)

lemma console_ok_back:
  assumes "console_ok s" and "ie s \<noteq> iw s"
  shows "console_ok (s\<lparr>ie := ie s - 1\<rparr>)"
  using assms tty_back[OF assms(2)] by (auto simp: console_ok_def screen_ok_def dest: in_set_butlastD)

lemma tty_of_cong: "ibuf s' = ibuf s \<Longrightarrow> ir s' = ir s \<Longrightarrow> iw s' = iw s \<Longrightarrow> ie s' = ie s \<Longrightarrow> tty_of s' = tty_of s"
  by (simp add: tty_of_def)

lemma consputc_console:
  assumes "console_ok s"
  shows "\<exists>s'. consputc c s = Ret s' \<and> console_ok s' \<and> tty_of s' = tty_of s"
proof -
  obtain s' where s': "consputc c s = Ret s'" "screen_ok s'" "ie s' = ie s" "iw s' = iw s" "ir s' = ir s" "ibuf s' = ibuf s"
    using consputc_ok[of s c] assms by (auto simp: console_ok_def)
  then have "tty_of s' = tty_of s" by (intro tty_of_cong)
  then show ?thesis using s' assms by (auto simp: console_ok_def)
qed

text \<open>Control-U empties the line that is edited: it has no newline in it.\<close>

lemma kill_line_ok:
  "console_ok s \<Longrightarrow> \<exists>s'. kill_line s = Ret s' \<and> console_ok s' \<and> tty_of s' = (fst (tty_of s), [])"
proof (induction s rule: kill_line.induct)
  case (1 s)
  show ?case
  proof (cases "ie s = iw s")
    case True
    then show ?thesis using 1(2) by (subst kill_line.simps) (simp add: tty_of_def ring_contents_def)
  next
    case False
    have "last (snd (tty_of s)) \<in> set (snd (tty_of s))" using tty_back(4)[OF False] by (rule last_in_set)
    then have ne: "ibuf s ! (unat (ie s - 1) mod INPUT_BUF) \<noteq> 10"
      using 1(2) tty_back(3)[OF False] by (auto simp: console_ok_def)
    obtain s1 where s1: "consputc BACKSPACE (s\<lparr>ie := ie s - 1\<rparr>) = Ret s1" "console_ok s1"
        "tty_of s1 = tty_of (s\<lparr>ie := ie s - 1\<rparr>)"
      using consputc_console[OF console_ok_back[OF 1(2) False]] by blast
    then show ?thesis
      using 1(1)[OF _ s1(1,2)] False ne tty_back(1)[OF False] by (subst kill_line.simps) auto
  qed
qed

text \<open>An ordinary character when there is room; a newline, control-D or the last free byte ends the line.\<close>

lemma byte_of_int: "0 \<le> c \<Longrightarrow> c < 256 \<Longrightarrow> (of_int c :: u8) = 10 \<longleftrightarrow> c = 10"
proof -
  assume "0 \<le> c" "c < 256"
  then have "uint (of_int c :: u8) = c" by (simp add: uint_word_of_int)
  then show ?thesis by auto
qed

lemma console_key_char:
  assumes ok: "console_ok s" and room: "\<not> input_full s" and c: "0 \<le> c" "c < 256"
    and ch: "c \<noteq> 16" "c \<noteq> 0" "c \<noteq> 21" "c \<noteq> 8" "c \<noteq> 127"
  defines "c' \<equiv> (if c = 13 then 10 else c)"
  shows "\<exists>s'. console_key c s = Ret s' \<and> console_ok s' \<and>
     tty_of s' = (let edit = snd (tty_of s) @ [of_int c'] in
       if c' = 10 \<or> c' = 4 \<or> length (fst (tty_of s)) + length edit = INPUT_BUF
       then (fst (tty_of s) @ edit, []) else (fst (tty_of s), edit))"
proof -
  let ?p = "tty_of s" and ?s1 = "input_put s (of_int c')"
  note tc = tty_of_contents[OF ok] and tp = tty_put[OF ok room]
  have len: "length (fst ?p) + length (snd ?p) = unat (ie s - ir s)"
    using arg_cong[OF tc(2), of length] by (simp add: input_contents_def)
  have inv: "input_inv ?s1" using cq.invar_put[OF tc(1) room] .
  have cont: "input_contents ?s1 = fst ?p @ snd ?p @ [of_int c']" using cq.contents_put[OF tc(1) room] tc(2) by simp
  have "screen_ok ?s1" using ok by (simp add: console_ok_def screen_ok_def input_put_def)
  then obtain s2 where s2: "consputc c' ?s1 = Ret s2" "screen_ok s2" "ie s2 = ie ?s1" "iw s2 = iw s" "ir s2 = ir s"
      "ibuf s2 = ibuf ?s1"
    using consputc_ok[of ?s1 c'] by (auto simp: input_put_def)
  have len1: "unat (ie ?s1 - ir s) = Suc (length (fst ?p) + length (snd ?p))"
    using arg_cong[OF cont, of length] by (simp add: input_contents_def input_put_def)
  have full: "ie s2 = ir s2 + of_nat INPUT_BUF \<longleftrightarrow> length (fst ?p) + Suc (length (snd ?p)) = INPUT_BUF" (is "?L \<longleftrightarrow> ?R")
  proof -
    have "?L \<longleftrightarrow> ie ?s1 - ir s = of_nat INPUT_BUF" using s2(3,5) by (auto simp: algebra_simps)
    also have "\<dots> \<longleftrightarrow> unat (ie ?s1 - ir s) = INPUT_BUF" by (auto simp: INPUT_BUF_def word_unat_eq_iff)
    finally show ?thesis using len1 by auto
  qed
  define fin where "fin \<longleftrightarrow> c' = 10 \<or> c' = 4 \<or> ie s2 = ir s2 + of_nat INPUT_BUF"
  let ?s3 = "if fin then s2\<lparr>iw := ie s2, wakeups := Suc (wakeups s2)\<rparr> else s2"
  have run: "console_key c s = Ret ?s3"
    using ch room s2(1) by (simp add: console_key_def input_full_def input_put_def c'_def[symmetric] fin_def Let_def)
  have t2: "tty_of s2 = (fst ?p, snd ?p @ [of_int c'])"
    using tp(1)[of "of_int c'"] tty_of_cong[of s2 ?s1] s2 by (simp add: input_put_def)
  have t3: "tty_of ?s3 = (if fin then (fst ?p @ snd ?p @ [of_int c'], []) else (fst ?p, snd ?p @ [of_int c']))"
    using t2 cont s2 by (auto simp: tty_of_def input_contents_def ring_contents_def input_put_def)
  have "console_ok ?s3"
  proof (cases "fin")
    case True
    then show ?thesis using t3 s2 inv by (auto simp: console_ok_def input_inv_def screen_ok_def input_put_def)
  next
    case False
    then have "(of_int c' :: u8) \<noteq> 10" using byte_of_int[of c'] c by (auto simp: fin_def c'_def)
    moreover have "10 \<notin> set (snd ?p)" using ok by (simp add: console_ok_def)
    moreover have "unat (iw s - ir s) + unat (ie s + 1 - iw s) \<le> INPUT_BUF"
      using tp(2) tc(3) room by (simp add: input_full_iff)
    ultimately show ?thesis
      using False t3 s2 inv by (auto simp: console_ok_def input_inv_def input_put_def)
  qed
  then show ?thesis using run t3 full by (auto simp: Let_def fin_def)
qed

lemma console_key_ok:
  assumes ok: "console_ok s" and c: "0 \<le> c" "c < 256"
  shows "\<exists>s'. console_key c s = Ret s' \<and> console_ok s' \<and> tty_of s' = tty_key c (tty_of s)"
proof -
  let ?p = "tty_of s"
  note tc = tty_of_contents[OF ok]
  have len: "length (fst ?p) + length (snd ?p) = unat (ie s - ir s)"
    using arg_cong[OF tc(2), of length] by (simp add: input_contents_def)
  have nil: "snd ?p = []" if "ie s = iw s" using that by (simp add: tty_of_def ring_contents_def)
  consider "c = 16" | "c = 0" | "c = 21" | (bs) "c = 8 \<or> c = 127"
    | (ch) "c \<noteq> 16" "c \<noteq> 0" "c \<noteq> 21" "c \<noteq> 8" "c \<noteq> 127" by blast
  then show ?thesis
  proof cases
    case 1
    have "tty_of (s\<lparr>dumps := Suc (dumps s)\<rparr>) = ?p" by (rule tty_of_cong) simp_all
    then show ?thesis using 1 ok
      by (auto simp: console_key_def tty_key_def split_def console_ok_def screen_ok_def)
  next
    case 2
    then show ?thesis using ok by (simp add: console_key_def tty_key_def split_def)
  next
    case 3
    then show ?thesis using kill_line_ok[OF ok] by (simp add: console_key_def tty_key_def split_def)
  next
    case bs
    show ?thesis
    proof (cases "ie s = iw s")
      case True
      then show ?thesis using bs nil ok by (auto simp: console_key_def tty_key_def split_def prod_eq_iff)
    next
      case False
      then show ?thesis
        using bs consputc_console[OF console_ok_back[OF ok False], of BACKSPACE] tty_back(1)[OF False]
        by (auto simp: console_key_def tty_key_def split_def)
    qed
  next
    case ch
    let ?c = "if c = 13 then 10 else c" and ?full = "input_full s"
    have sp: "input_full s \<longleftrightarrow> \<not> length (fst ?p) + length (snd ?p) < INPUT_BUF"
      using len by (auto simp: input_full_iff)
    show ?thesis
    proof (cases "input_full s")
      case True
      then show ?thesis using ch sp ok
        by (auto simp: console_key_def tty_key_def split_def input_full_def)
    next
      case room: False
      then show ?thesis using console_key_char[OF ok room c] ch sp by (auto simp: tty_key_def split_def Let_def)
    qed
  qed
qed

lemma consoleintr_ok:
  assumes "console_ok s" and "\<forall>c\<in>set cs. 0 \<le> c \<and> c < 256"
  shows "\<exists>s'. consoleintr cs s = Ret s' \<and> console_ok s' \<and> tty_of s' = fold tty_key cs (tty_of s)"
  using assms
proof (induction cs arbitrary: s)
  case (Cons c cs)
  obtain s1 where "console_key c s = Ret s1" "console_ok s1" "tty_of s1 = tty_key c (tty_of s)"
    using console_key_ok[OF Cons.prems(1), of c] Cons.prems(2) by auto
  then show ?case using Cons.IH[of s1] Cons.prems(2) by auto
qed simp

section \<open>Reading\<close>

text \<open>What a reader gets of the lines that are ready: a result, or a wait for more.\<close>

datatype tty_result = Got "u8 list" | Wait "u8 list" nat

fun tty_read :: "bool \<Rightarrow> nat \<Rightarrow> u8 list \<Rightarrow> u8 list \<Rightarrow> tty_result \<times> u8 list" where
  "tty_read first 0 acc ready = (Got acc, ready)"
| "tty_read first (Suc n) acc [] = (Wait acc (Suc n), [])"
| "tty_read first (Suc n) acc (c # ready) =
     (if c = 4 then (Got acc, if first then ready else c # ready)
      else if c = 10 then (Got (acc @ [c]), ready)
      else tty_read False n (acc @ [c]) ready)"

lemma tty_get:
  assumes "console_ok s" and "ir s \<noteq> iw s"
  shows "fst (tty_of s) = ibuf s ! (unat (ir s) mod INPUT_BUF) # fst (tty_of (s\<lparr>ir := ir s + 1\<rparr>))"
    and "snd (tty_of (s\<lparr>ir := ir s + 1\<rparr>)) = snd (tty_of s)" and "console_ok (s\<lparr>ir := ir s + 1\<rparr>)"
  using ring_contents_get[of "iw s" "ir s" INPUT_BUF "ibuf s"] unat_diff_Suc[of "iw s" "ir s"] assms
  by (auto simp: tty_of_def console_ok_def screen_ok_def)

lemma consoleread_from_ok:
  assumes "console_ok s" and "n \<le> target"
  shows "case consoleread_from killed target n acc s of
      Done bs s' \<Rightarrow> console_ok s' \<and> snd (tty_of s') = snd (tty_of s) \<and>
        tty_read (n = target) n acc (fst (tty_of s)) = (Got bs, fst (tty_of s'))
    | Sleeps bs k s' \<Rightarrow> \<not> killed \<and> console_ok s' \<and> snd (tty_of s') = snd (tty_of s) \<and>
        tty_read (n = target) n acc (fst (tty_of s)) = (Wait bs k, []) \<and> fst (tty_of s') = []
    | Killed_read s' \<Rightarrow> killed \<and> console_ok s' \<and> snd (tty_of s') = snd (tty_of s) \<and>
        (\<exists>bs k. tty_read (n = target) n acc (fst (tty_of s)) = (Wait bs k, []))"
  using assms
proof (induction killed target n acc s rule: consoleread_from.induct)
  case (1 killed target acc s)
  then show ?case by simp
next
  case (2 killed target n acc s)
  show ?case
  proof (cases "ir s = iw s")
    case True
    then have "fst (tty_of s) = []" by (simp add: tty_of_def ring_contents_def)
    then show ?thesis using True 2(2) by simp
  next
    case False
    let ?c = "ibuf s ! (unat (ir s) mod INPUT_BUF)" and ?s1 = "s\<lparr>ir := ir s + 1\<rparr>"
    note g = tty_get[OF 2(2) False]
    have same: "tty_of (?s1\<lparr>ir := ir ?s1 - 1\<rparr>) = tty_of s" by (rule tty_of_cong) simp_all
    have ok: "console_ok (?s1\<lparr>ir := ir ?s1 - 1\<rparr>)" using 2(2) by (simp add: console_ok_def screen_ok_def tty_of_def)
    consider (eof) "?c = 4" | (nl) "?c = 10" | (char) "?c \<noteq> 4" "?c \<noteq> 10" by blast
    then show ?thesis
    proof cases
      case eof
      then show ?thesis using False g 2(2,3) same ok by (auto simp: Let_def)
    next
      case nl
      then show ?thesis using False g by (simp add: Let_def)
    next
      case char
      have "n \<noteq> target" using 2(3) by simp
      then have rd: "tty_read (Suc n = target) (Suc n) acc (fst (tty_of s)) =
          tty_read (n = target) n (acc @ [?c]) (fst (tty_of ?s1))"
        using g(1) char by simp
      have run: "consoleread_from killed target (Suc n) acc s = consoleread_from killed target n (acc @ [?c]) ?s1"
        using False char by (simp add: Let_def)
      show ?thesis
        using 2(1)[OF False refl refl char g(3)] 2(3) unfolding run rd g(2) by simp
    qed
  qed
qed

text \<open>
  C14. The keyboard side of the console refines the editing of a line. For any characters from the keyboard the
  handler returns, every write to the screen is inside it, and the bytes in the ring are exactly the lines that
  are ready followed by the line being edited: control-U empties that line, backspace and delete take its last
  byte, a carriage return counts as a newline, a newline, control-D or the last of the 128 bytes makes it
  ready, and when no byte is free characters are dropped. Control-P changes neither; the list of
  processes that \<open>procdump\<close> then prints is not modelled.
\<close>

theorem console_edits_lines:
  assumes "console_ok s" and "\<forall>c\<in>set cs. 0 \<le> c \<and> c < 256"
  shows "\<exists>s'. consoleintr cs s = Ret s' \<and> console_ok s' \<and> tty_of s' = fold tty_key cs (tty_of s)"
  by (rule consoleintr_ok[OF assms])

text \<open>
  A read of the console delivers the lines that are ready: up to \<open>n\<close> bytes, not past a newline, and not past
  a control-D, which is taken only if it comes first and then means the end of the file. It waits only when no
  byte is ready, fails only if the process is killed then, and never touches the line being edited.
\<close>

theorem consoleread_delivers_lines:
  assumes "console_ok s"
  shows "case consoleread killed n s of
      Done bs s' \<Rightarrow> console_ok s' \<and> snd (tty_of s') = snd (tty_of s) \<and>
        tty_read True n [] (fst (tty_of s)) = (Got bs, fst (tty_of s'))
    | Sleeps bs k s' \<Rightarrow> \<not> killed \<and> console_ok s' \<and> snd (tty_of s') = snd (tty_of s) \<and>
        tty_read True n [] (fst (tty_of s)) = (Wait bs k, []) \<and> fst (tty_of s') = []
    | Killed_read s' \<Rightarrow> killed \<and> console_ok s' \<and> snd (tty_of s') = snd (tty_of s) \<and>
        (\<exists>bs k. tty_read True n [] (fst (tty_of s)) = (Wait bs k, []))"
  using consoleread_from_ok[OF assms order_refl, where killed = killed and n = n and acc = "[]"]
  unfolding consoleread_def simp_thms(6) .

section \<open>Witnesses\<close>

definition demo_console :: console where
  "demo_console = \<lparr>ibuf = replicate 128 0, ir = 0, iw = 0, ie = 0, uart = [], crt = replicate 2000 0, cpos = 1900,
     wakeups = 0, dumps = 0\<rparr>"

lemma demo_console_ok: "console_ok demo_console"
  by (simp add: console_ok_def screen_ok_def demo_console_def INPUT_BUF_def tty_of_def ring_contents_def)

theorem console_edits_lines_witness:
  "\<exists>s'. consoleintr [97, 98, 8, 99, 13, 100] demo_console = Ret s' \<and> tty_of s' = ([97, 99, 10], [100])"
proof -
  have "tty_of demo_console = ([], [])" by (simp add: tty_of_def demo_console_def ring_contents_def)
  then have "fold tty_key [97, 98, 8, 99, 13, 100] (tty_of demo_console) = ([97, 99, 10], [100])"
    by (simp add: tty_key_def INPUT_BUF_def)
  then show ?thesis
    using console_edits_lines[OF demo_console_ok, of "[97, 98, 8, 99, 13, 100]"] by auto
qed

theorem consoleread_delivers_lines_witness:
  "\<exists>s s'. tty_of s = ([97, 10], []) \<and> consoleread False 5 s = Done [97, 10] s' \<and> tty_of s' = ([], [])"
proof -
  have "tty_of demo_console = ([], [])" by (simp add: tty_of_def demo_console_def ring_contents_def)
  then have "fold tty_key [97, 10] (tty_of demo_console) = ([97, 10], [])"
    by (simp add: tty_key_def INPUT_BUF_def)
  then obtain s where s: "console_ok s" "tty_of s = ([97, 10], [])"
    using consoleintr_ok[OF demo_console_ok, of "[97, 10]"] by auto
  have rd: "tty_read True 5 [] (fst (tty_of s)) = (Got [97, 10], [])" unfolding s(2) fst_conv by code_simp
  have "\<exists>s'. consoleread False 5 s = Done [97, 10] s' \<and> tty_of s' = ([], [])"
    using consoleread_delivers_lines[OF s(1), where killed = False and n = 5]
    unfolding rd by (cases "consoleread False 5 s") (simp_all add: s(2) prod_eq_iff eq_commute)
  then show ?thesis using s(2) by blast
qed

end
