(* ===== verification/Ext2.thy ===== *)
theory Ext2
  imports Prelude
begin

text \<open>
  Reading an ext2 image, from \<open>P7/ext2_fs.h\<close> and \<open>P7/read_ext2.c\<close>.

  An open disk image is the record \<open>disk\<close>: its bytes and the file position. Structures read from it are buffers
  of bytes, of which a short read replaces only the front; their fields are decoded where they are used. A buffer
  on the stack that was never written holds arbitrary bytes, an argument of the model. A call of \<open>exit\<close> is the
  left side of a sum. The prints of the variable \<open>debug\<close> are left out.
\<close>

section \<open>The image\<close>

record disk =
  image :: "u8 list"
  position :: nat

definition lseek :: "'a disk_scheme \<Rightarrow> int \<Rightarrow> 'a disk_scheme" where
  "lseek d off = (if 0 \<le> off then d\<lparr>position := nat off\<rparr> else d)"

definition read_fd :: "'a disk_scheme \<Rightarrow> u8 list \<Rightarrow> nat \<Rightarrow> 'a disk_scheme \<times> u8 list" where
  "read_fd d buf n =
     (let bs = take n (drop (position d) (image d))
      in (d\<lparr>position := position d + length bs\<rparr>, bs @ drop (length bs) buf))"

definition uninit :: "(nat \<Rightarrow> u8) \<Rightarrow> nat \<Rightarrow> u8 list" where
  "uninit stk n = map stk [0..<n]"

section \<open>The structures\<close>

text \<open>The fields that the program reads or prints, decoded at their offsets in the structures on disk.\<close>

record ext2_super_block =
  s_inodes_count :: u32
  s_blocks_count :: u32
  s_first_data_block :: u32
  s_log_block_size :: u32
  s_blocks_per_group :: u32
  s_inodes_per_group :: u32
  s_magic :: u16
  s_first_ino :: u32
  s_inode_size :: u16

definition super_at :: "u8 list \<Rightarrow> ext2_super_block" where
  "super_at b =
     \<lparr> s_inodes_count = get32 b 0, s_blocks_count = get32 b 4, s_first_data_block = get32 b 20,
       s_log_block_size = get32 b 24, s_blocks_per_group = get32 b 32, s_inodes_per_group = get32 b 40,
       s_magic = get16 b 56, s_first_ino = get32 b 84, s_inode_size = get16 b 88 \<rparr>"

record ext2_group_desc =
  bg_block_bitmap :: u32
  bg_inode_bitmap :: u32
  bg_inode_table :: u32
  bg_free_blocks_count :: u16
  bg_free_inodes_count :: u16
  bg_used_dirs_count :: u16

definition group_at :: "u8 list \<Rightarrow> ext2_group_desc" where
  "group_at b =
     \<lparr> bg_block_bitmap = get32 b 0, bg_inode_bitmap = get32 b 4, bg_inode_table = get32 b 8,
       bg_free_blocks_count = get16 b 12, bg_free_inodes_count = get16 b 14, bg_used_dirs_count = get16 b 16 \<rparr>"

record ext2_inode =
  i_mode :: u16
  i_uid :: u16
  i_size :: u32
  i_links_count :: u16
  i_block :: "u32 list"

definition inode_at :: "u8 list \<Rightarrow> ext2_inode" where
  "inode_at b =
     \<lparr> i_mode = get16 b 0, i_uid = get16 b 2, i_size = get32 b 4, i_links_count = get16 b 26,
       i_block = map (\<lambda>i. get32 b (40 + 4 * i)) [0..<15] \<rparr>"

section \<open>Globals and the super block\<close>

record globals =
  block_size :: u32
  inodes_per_block :: u32
  itable_blocks :: u32
  blocks_per_group :: u32
  num_groups :: u32
  inodes_per_group :: u32

definition BASE_OFFSET :: u32 where
  "BASE_OFFSET = 1024"

definition EXT2_SUPER_MAGIC :: u16 where
  "EXT2_SUPER_MAGIC = 0xEF53"

text \<open>The macro, in unsigned arithmetic: block 0 has an offset of one block before \<open>BASE_OFFSET\<close>.\<close>

definition BLOCK_OFFSET :: "globals \<Rightarrow> u32 \<Rightarrow> u32" where
  "BLOCK_OFFSET g block = BASE_OFFSET + (block - 1) * block_size g"

text \<open>\<open>1024 << s_log_block_size\<close> in \<open>int\<close>.\<close>

definition shifted_block_size :: "u32 \<Rightarrow> u32 outcome" where
  "shifted_block_size k = (if unat k \<le> 20 then Ret (of_nat (1024 * 2 ^ unat k)) else Undef ''shift'')"

definition ext2_read_init :: "(nat \<Rightarrow> u8) \<Rightarrow> 'a disk_scheme \<Rightarrow> (int + 'a disk_scheme \<times> globals) outcome" where
  "ext2_read_init stk d =
     (let (d1, b) = read_fd (lseek d (uint BASE_OFFSET)) (uninit stk 1024) 1024; super = super_at b in
      if s_magic super \<noteq> EXT2_SUPER_MAGIC then Ret (Inl 1)
      else bindO (shifted_block_size (s_log_block_size super)) (\<lambda>bs.
        if s_blocks_per_group super = 0 then Undef ''division by zero''
        else Ret (Inr (d1,
          \<lparr> block_size = bs, inodes_per_block = bs div 128,
            itable_blocks = s_inodes_per_group super div (bs div 128),
            blocks_per_group = s_blocks_per_group super,
            num_groups = (s_blocks_count super + s_blocks_per_group super - 1) div s_blocks_per_group super,
            inodes_per_group = s_inodes_per_group super \<rparr>))))"

text \<open>The divisors passed are 3, 5 and 7; a loop that never ends is \<open>None\<close>.\<close>

partial_function (option) isPowerOf :: "int \<Rightarrow> int \<Rightarrow> bool option" where
  "isPowerOf m n =
     (if m \<noteq> 1 then if m smod n \<noteq> 0 then Some False else isPowerOf (m sdiv n) n else Some True)"

partial_function (option) powers_from :: "int \<Rightarrow> int \<Rightarrow> nat \<Rightarrow> nat option" where
  "powers_from m n cnt =
     (if m \<noteq> 1 then if m smod n \<noteq> 0 then Some cnt else powers_from (m sdiv n) n (Suc cnt) else Some cnt)"

definition powersBelow :: "int \<Rightarrow> int \<Rightarrow> nat option" where
  "powersBelow m n = powers_from m n 0"

definition ends :: "'b option \<Rightarrow> 'b outcome" where
  "ends r = (case r of None \<Rightarrow> Undef ''does not return'' | Some x \<Rightarrow> Ret x)"

text \<open>Whether a group is taken to hold a copy of the super block.\<close>

definition has_super_copy :: "int \<Rightarrow> bool outcome" where
  "has_super_copy ngroup =
     (if ngroup = 0 \<or> ngroup = 1 then Ret True
      else bindO (ends (isPowerOf ngroup 3)) (\<lambda>a. if a then Ret True
      else bindO (ends (isPowerOf ngroup 5)) (\<lambda>b. if b then Ret True
      else ends (isPowerOf ngroup 7))))"

definition read_super_block ::
  "globals \<Rightarrow> 'a disk_scheme \<Rightarrow> int \<Rightarrow> u8 list \<Rightarrow> (int + int \<times> 'a disk_scheme \<times> globals \<times> u8 list) outcome"
where
  "read_super_block g d ngroup sb =
     bindO (has_super_copy ngroup) (\<lambda>c.
     if \<not> c then Ret (Inr (-1, d, g, sb))
     else
       (let (d1, sb1) = read_fd (lseek d (uint (BASE_OFFSET + BLOCK_OFFSET g (blocks_per_group g * of_int ngroup))))
                          sb 1024;
            super = super_at sb1 in
        if s_magic super \<noteq> EXT2_SUPER_MAGIC then Ret (Inl 1)
        else bindO (shifted_block_size (s_log_block_size super)) (\<lambda>bs.
          Ret (Inr (0, d1,
            g\<lparr>block_size := bs, inodes_per_block := bs div 128,
              itable_blocks := s_inodes_per_group super div (bs div 128)\<rparr>, sb1)))))"

definition read_group_desc ::
  "globals \<Rightarrow> 'a disk_scheme \<Rightarrow> int \<Rightarrow> u8 list \<Rightarrow> ('a disk_scheme \<times> u8 list) outcome"
where
  "read_group_desc g d ngroup gb =
     (let base = BASE_OFFSET + BLOCK_OFFSET g (blocks_per_group g * of_int ngroup) in
      bindO
        (if ngroup = 0 \<or> ngroup = 1 then Ret False
         else bindO (ends (isPowerOf ngroup 3)) (\<lambda>a. if \<not> a then Ret False
         else bindO (ends (isPowerOf ngroup 5)) (\<lambda>b. if \<not> b then Ret False
         else ends (isPowerOf ngroup 7))))
        (\<lambda>c. Ret (read_fd (lseek d (uint (if c then base else base + block_size g))) gb 32)))"

definition locate_inode_table :: "globals \<Rightarrow> int \<Rightarrow> ext2_group_desc \<Rightarrow> int" where
  "locate_inode_table g ngroup gd =
     uint (BLOCK_OFFSET g (bg_inode_table gd + blocks_per_group g * of_int ngroup))"

definition locate_data_blocks :: "globals \<Rightarrow> int \<Rightarrow> ext2_group_desc \<Rightarrow> int" where
  "locate_data_blocks g ngroup gd =
     uint (BLOCK_OFFSET g (bg_inode_table gd + itable_blocks g + blocks_per_group g * of_int ngroup))"

definition read_inode ::
  "'a disk_scheme \<Rightarrow> int \<Rightarrow> int \<Rightarrow> u8 list \<Rightarrow> u16 \<Rightarrow> ('a disk_scheme \<times> u8 list) outcome"
where
  "read_inode d off inode_no ib isz =
     bindO (cint (inode_no - 1)) (\<lambda>k. bindO (cint (k * uint isz)) (\<lambda>o'.
     Ret (read_fd (lseek d (off + o')) ib 128)))"

section \<open>Powers\<close>

lemma isPowerOf_power:
  assumes "2 \<le> (b::nat)"
  shows "1 \<le> a \<Longrightarrow> isPowerOf (int a) (int b) = Some (\<exists>k. a = b ^ k)"
proof (induction a rule: less_induct)
  case (less a)
  consider "a = 1" | "a \<noteq> 1" "a mod b \<noteq> 0" | "a \<noteq> 1" "a mod b = 0" by blast
  then show ?case
  proof cases
    case 1
    then show ?thesis by (subst isPowerOf.simps) (auto intro: exI[of _ 0])
  next
    case 2
    have "a \<noteq> b ^ k" for k using 2 by (cases k) auto
    then show ?thesis using 2 by (subst isPowerOf.simps) (simp add: smod_int_nat)
  next
    case 3
    then obtain q where q: "a = b * q" by auto
    then have "1 \<le> q" "q < a" using less.prems assms by (auto simp: Suc_le_eq)
    moreover have "(\<exists>k. q = b ^ k) \<longleftrightarrow> (\<exists>k. a = b ^ k)"
    proof
      assume "\<exists>k. a = b ^ k"
      then obtain k where k: "a = b ^ k" ..
      then obtain k' where "k = Suc k'" using 3(1) by (cases k) auto
      then show "\<exists>k. q = b ^ k" using k q assms by auto
    qed (metis power_Suc q)
    moreover have "int a smod int b = 0" "int a sdiv int b = int q" "int a \<noteq> 1"
      using 3 assms unfolding sdiv_int_nat smod_int_nat by (auto simp: q(1) simp del: of_nat_mult)
    ultimately show ?thesis using less.IH[of q] by (subst isPowerOf.simps) simp
  qed
qed

text \<open>For the number 0 the loop never ends.\<close>

lemma isPowerOf_zero: "isPowerOf 0 n = None"
proof -
  have "m \<noteq> 0" if "isPowerOf m n = Some r" for m r
    by (rule isPowerOf.raw_induct[OF _ that, where P = "\<lambda>m n r. m \<noteq> 0"]) (auto split: if_splits, blast)
  then show ?thesis by (cases "isPowerOf 0 n") auto
qed

text \<open>\<open>powersBelow\<close> counts how often the number can be divided, not the powers below it.\<close>

lemma powers_from_exponent:
  assumes "2 \<le> (b::nat)"
  shows "1 \<le> a \<Longrightarrow> \<exists>k. powers_from (int a) (int b) cnt = Some (cnt + k) \<and> b ^ k dvd a \<and> \<not> b ^ Suc k dvd a"
proof (induction a arbitrary: cnt rule: less_induct)
  case (less a)
  show ?case
  proof (cases "a \<noteq> 1 \<and> a mod b = 0")
    case False
    then have "\<not> b dvd a" using assms by (auto simp: dvd_eq_mod_eq_0)
    then show ?thesis using False by (intro exI[of _ 0], subst powers_from.simps) (auto simp: smod_int_nat)
  next
    case True
    then obtain q where q: "a = b * q" by auto
    then have "1 \<le> q" "q < a" using less.prems assms by (auto simp: Suc_le_eq)
    from less.IH[OF this(2,1), of "Suc cnt"] obtain k where
      k: "powers_from (int q) (int b) (Suc cnt) = Some (Suc cnt + k)" "b ^ k dvd q" "\<not> b ^ Suc k dvd q" by blast
    have "int a smod int b = 0" "int a sdiv int b = int q" "int a \<noteq> 1"
      using True assms unfolding sdiv_int_nat smod_int_nat by (auto simp: q(1) simp del: of_nat_mult)
    then have "powers_from (int a) (int b) cnt = powers_from (int q) (int b) (Suc cnt)"
      by (subst powers_from.simps) simp
    then show ?thesis using k q assms by (intro exI[of _ "Suc k"]) simp
  qed
qed

text \<open>
  Only with blocks of 1024 bytes does \<open>read_super_block\<close> seek to the super block: with larger ones the offset of
  block 0 falls before \<open>BASE_OFFSET\<close> and wraps.
\<close>

lemma super_block_offset:
  "uint (BASE_OFFSET + BLOCK_OFFSET (g\<lparr>block_size := 1024\<rparr>) 0) = 1024"
  "uint (BASE_OFFSET + BLOCK_OFFSET (g\<lparr>block_size := 2048\<rparr>) 0) = 0"
  "uint (BASE_OFFSET + BLOCK_OFFSET (g\<lparr>block_size := 4096\<rparr>) 0) = 4294965248"
  by (simp_all add: BASE_OFFSET_def BLOCK_OFFSET_def)

end
