(* ===== verification/Runscan.thy ===== *)
theory Runscan
  imports Ext2 Ulib
begin

text \<open>
  Recovery of pictures from an ext2 image, from \<open>P7/runscan.c\<close>.

  The output directory is the list of the streams opened, each with its path and the bytes written to it.
  Creating the directory and opening a stream may fail, as arguments of the program say; \<open>stk\<close> and \<open>heap\<close> are the
  contents of fresh arrays on the stack and of fresh memory from \<open>malloc\<close>.
\<close>

section \<open>Copying a file\<close>

record copier = disk +
  data_buf :: "u8 list"
  fp :: "u8 list"

text \<open>\<open>read(fd, data_buf, n)\<close> and \<open>fwrite(data_buf, 1, n, fp)\<close>, and a count of such blocks without a seek.\<close>

definition copy_chunk :: "nat \<Rightarrow> copier \<Rightarrow> copier" where
  "copy_chunk n c =
     (let (c1, b) = read_fd c (data_buf c) n in c1\<lparr>data_buf := b, fp := fp c1 @ take n b\<rparr>)"

primrec copy_run :: "nat \<Rightarrow> nat \<Rightarrow> copier \<Rightarrow> copier" where
  "copy_run n 0 c = c"
| "copy_run n (Suc k) c = copy_run n k (copy_chunk n c)"

fun copy_direct :: "u32 \<Rightarrow> u32 list \<Rightarrow> copier \<Rightarrow> copier" where
  "copy_direct bs [] c = c"
| "copy_direct bs (b # blocks) c = copy_direct bs blocks (copy_chunk (unat bs) (lseek c (uint (b * bs))))"

text \<open>Reading the number of a block into a variable of four bytes.\<close>

definition read_number :: "copier \<Rightarrow> u8 list \<Rightarrow> copier \<times> u8 list" where
  "read_number c v = read_fd c v 4"

text \<open>One entry of the doubly indirect block: down to the first data block of its group.\<close>

definition seek_double :: "u32 \<Rightarrow> u32 \<Rightarrow> nat \<Rightarrow> copier \<times> u8 list \<Rightarrow> copier \<times> u8 list" where
  "seek_double bs dind cnt = (\<lambda>(c, v).
     let (c1, v1) = read_number (lseek c (uint (dind * bs + of_nat cnt * 4))) v;
         (c2, v2) = read_number (lseek c1 (uint (get32 v1 0 * bs))) v1
     in (lseek c2 (uint (get32 v2 0 * bs)), v2))"

primrec copy_double :: "u32 \<Rightarrow> u32 \<Rightarrow> nat \<Rightarrow> nat \<Rightarrow> copier \<times> u8 list \<Rightarrow> copier \<times> u8 list" where
  "copy_double bs dind 0 cnt cv = cv"
| "copy_double bs dind (Suc k) cnt cv =
     (let (c, v) = seek_double bs dind cnt cv
      in copy_double bs dind k (Suc cnt) (copy_run (unat bs) 256 c, v))"

definition data_copy :: "(nat \<Rightarrow> u8) \<Rightarrow> (nat \<Rightarrow> u8) \<Rightarrow> u32 \<Rightarrow> disk \<Rightarrow> ext2_inode \<Rightarrow> copier" where
  "data_copy stk heap bs d ino =
     (let last_block = unat (i_size ino mod bs);
          needed = unat (i_size ino div bs);
          n = unat bs;
          c0 = \<lparr> image = image d, position = position d, data_buf = uninit stk n, fp = [] \<rparr>;
          c1 = (if 1 \<le> needed
                then let c = copy_direct bs (take (min needed 12) (i_block ino)) c0
                     in if needed < 12 then copy_chunk last_block c else c
                else copy_chunk last_block (lseek c0 (uint (i_block ino ! 0 * bs))));
          c2 = (if 12 < needed
                then let k = min (needed - 12) 256;
                         (c, v) = read_number (lseek c1 (uint (i_block ino ! 12 * bs))) [0, 0, 0, 0];
                         c' = copy_run n k (lseek c (uint (get32 v 0 * bs)))
                     in if k < 256 then copy_chunk last_block c' else c'
                else c1)
      in if 268 < needed
         then let k = needed - 268;
                  cv = copy_double bs (i_block ino ! 13) (k div 256) 0 (c2, uninit heap 4);
                  (c, v) = seek_double bs (i_block ino ! 13) (k div 256) cv
              in copy_chunk last_block (copy_run n (k mod 256) c)
         else c2)"

text \<open>\<open>sprintf\<close> of an \<open>int\<close> with \<open>%d\<close>, and the file of details.\<close>

definition sprintf_d :: "int \<Rightarrow> u8 list" where
  "sprintf_d x = (if x < 0 then [45] else []) @ rev (map (\<lambda>d. of_nat (48 + d)) (digits_of 10 (nat \<bar>x\<bar>)))"

definition write_detail :: "ext2_inode \<Rightarrow> u8 list" where
  "write_detail ino =
     sprintf_d (uint (i_links_count ino)) @ [10] @ sprintf_d (sint (i_size ino)) @ [10] @ sprintf_d (uint (i_uid ino))"

section \<open>Names\<close>

definition S_ISREG :: "u16 \<Rightarrow> bool" where
  "S_ISREG m \<longleftrightarrow> m AND 0xF000 = 0x8000"

definition S_ISDIR :: "u16 \<Rightarrow> bool" where
  "S_ISDIR m \<longleftrightarrow> m AND 0xF000 = 0x4000"

text \<open>\<open>strncpy(dst, src, n)\<close> where \<open>src\<close> is all that may be read.\<close>

definition strncpy_from :: "u8 list \<Rightarrow> u8 list \<Rightarrow> nat \<Rightarrow> u8 list outcome" where
  "strncpy_from dst src n =
     (let s = takeWhile (\<lambda>c. c \<noteq> 0) (take n src) in
      if length s = length src \<and> length src < n then Undef ''string read''
      else if length dst < n then Undef ''string write''
      else Ret (s @ replicate (n - length s) 0 @ drop n dst))"

text \<open>
  The walk over the entries of a directory block: the name of the first entry with the number, copied over
  \<open>nm\<close>. The step to the next entry is computed from the length of the name.
\<close>

definition entry_step :: "nat \<Rightarrow> nat" where
  "entry_step name_len = 4 + 2 + 2 + name_len + (if name_len \<noteq> 4 then 4 - name_len mod 4 else 0)"

function dir_walk :: "u8 list \<Rightarrow> int \<Rightarrow> u8 list \<Rightarrow> nat \<Rightarrow> u8 list option outcome" where
  "dir_walk buf ino nm byte_count =
     (if byte_count < 1024 then
        if length buf < byte_count + 4 then Undef ''array read''
        else bindO (aget buf (int byte_count + 6)) (\<lambda>name_len.
          if sint (get32 buf byte_count) = ino
          then bindO (strncpy_from nm (drop (byte_count + 8) buf) (unat name_len)) (\<lambda>s. Ret (Some s))
          else dir_walk buf ino nm (byte_count + entry_step (unat name_len)))
      else Ret None)"
  by pat_completeness auto
termination
  by (relation "measure (\<lambda>(buf, ino, nm, bc). 1024 - bc)") (auto simp: entry_step_def)

declare dir_walk.simps [simp del]

text \<open>The inodes of the groups in the order of the two loops.\<close>

definition inode_slots :: "int \<Rightarrow> int \<Rightarrow> (int \<times> int) list" where
  "inode_slots num_group per_group = concat (map (\<lambda>g. map (Pair g) [0..per_group - 1]) [0..num_group - 1])"

fun search_slots ::
  "(nat \<Rightarrow> u8) \<Rightarrow> globals \<Rightarrow> ext2_group_desc \<Rightarrow> ext2_super_block \<Rightarrow> int \<Rightarrow> (int \<times> int) list \<Rightarrow>
   disk \<Rightarrow> u8 list \<Rightarrow> u8 list \<Rightarrow> (disk \<times> u8 list) outcome"
where
  "search_slots stk g gd super ino [] d ib nm = Ret (d, nm)"
| "search_slots stk g gd super ino ((ngroup, idx) # slots) d ib nm =
     bindO (read_inode d (locate_inode_table g ngroup gd) (idx + 1) ib (s_inode_size super)) (\<lambda>(d1, ib1).
     if S_ISDIR (i_mode (inode_at ib1)) then
       if 1024 < unat (block_size g) then Undef ''array write''
       else
         (let (d2, buf) = read_fd (lseek d1 (uint (i_block (inode_at ib1) ! 0 * block_size g)))
                            (uninit stk 1024) (unat (block_size g)) in
          bindO (dir_walk buf ino nm 0) (\<lambda>r.
          case r of Some nm' \<Rightarrow> Ret (d2, nm') | None \<Rightarrow> search_slots stk g gd super ino slots d2 ib1 nm))
     else search_slots stk g gd super ino slots d1 ib1 nm)"

definition name_search ::
  "(nat \<Rightarrow> u8) \<Rightarrow> globals \<Rightarrow> int \<Rightarrow> ext2_group_desc \<Rightarrow> ext2_super_block \<Rightarrow> int \<Rightarrow> disk \<Rightarrow> u8 list \<Rightarrow>
   (disk \<times> u8 list) outcome"
where
  "name_search stk g num_group gd super ino d nm =
     search_slots stk g gd super ino (inode_slots num_group (sint (s_inodes_per_group super) + 1)) d
       (uninit stk 128) nm"

section \<open>The scan\<close>

type_synonym stream = "u8 list \<times> u8 list"

definition is_jpg :: "u8 list \<Rightarrow> bool" where
  "is_jpg b \<longleftrightarrow> b ! 0 = 0xff \<and> b ! 1 = 0xd8 \<and> b ! 2 = 0xff \<and> (b ! 3 = 0xe0 \<or> b ! 3 = 0xe1 \<or> b ! 3 = 0xe8)"

definition EXT2_NAME_LEN :: nat where
  "EXT2_NAME_LEN = 255"

text \<open>A path built with \<open>strcpy\<close> and \<open>strncat\<close> in an array of \<open>EXT2_NAME_LEN\<close> bytes.\<close>

definition path_of :: "u8 list list \<Rightarrow> u8 list outcome" where
  "path_of parts = (if length (concat parts) < EXT2_NAME_LEN then Ret (concat parts) else Undef ''array write'')"

definition c_string :: "u8 list \<Rightarrow> u8 list outcome" where
  "c_string b = (if 0 \<in> set b then Ret (takeWhile (\<lambda>c. c \<noteq> 0) b) else Undef ''string without end'')"

text \<open>
  What the program does for a picture: three streams are opened and filled. \<open>Inl\<close> are the streams open when one
  could not be opened.
\<close>

definition recover ::
  "(nat \<Rightarrow> u8) \<Rightarrow> (nat \<Rightarrow> u8) \<Rightarrow> (u8 list \<Rightarrow> bool) \<Rightarrow> u8 list \<Rightarrow> globals \<Rightarrow> int \<Rightarrow> ext2_group_desc \<Rightarrow> ext2_super_block \<Rightarrow>
   int \<Rightarrow> ext2_inode \<Rightarrow> disk \<Rightarrow> (stream list + disk \<times> stream list) outcome"
where
  "recover stk heap fopen dir g num_group gd super inode_no ino d =
     (if 10 \<le> length (sprintf_d inode_no) then Undef ''array write''
      else bindO (path_of [dir, cstr ''/file-'', sprintf_d inode_no, cstr ''.jpg'']) (\<lambda>name.
        if \<not> fopen name then Ret (Inl [])
        else bindO (name_search stk g num_group gd super inode_no d (uninit heap EXT2_NAME_LEN)) (\<lambda>(d1, nm).
        bindO (c_string nm) (\<lambda>jpg_name.
        bindO (path_of [dir, cstr ''/'', jpg_name]) (\<lambda>name_act.
        if \<not> fopen name_act then Ret (Inl [(name, [])])
        else bindO (path_of [dir, cstr ''/file-'', sprintf_d inode_no, cstr ''-details.txt'']) (\<lambda>name_det.
        if \<not> fopen name_det then Ret (Inl [(name, []), (name_act, [])])
        else
          (let c1 = data_copy stk heap (block_size g) d1 ino;
               c2 = data_copy stk heap (block_size g) (disk.truncate c1) ino
           in Ret (Inr (disk.truncate c2, [(name, fp c1), (name_act, fp c2), (name_det, write_detail ino)])))))))))"

text \<open>One round of the scan: the inode and, when it is a file, its first block are read.\<close>

definition scan_inode ::
  "(nat \<Rightarrow> u8) \<Rightarrow> (nat \<Rightarrow> u8) \<Rightarrow> (u8 list \<Rightarrow> bool) \<Rightarrow> u8 list \<Rightarrow> globals \<Rightarrow> int \<Rightarrow> ext2_group_desc \<Rightarrow> ext2_super_block \<Rightarrow>
   int \<times> int \<Rightarrow> int \<Rightarrow> disk \<times> u8 list \<times> u8 list \<Rightarrow> (stream list + (disk \<times> u8 list \<times> u8 list) \<times> stream list) outcome"
where
  "scan_inode stk heap fopen dir g num_group gd super = (\<lambda>(ngroup, idx) inode_no (d, ib, buf).
     bindO (read_inode d (locate_inode_table g ngroup gd) (idx + 1) ib (s_inode_size super)) (\<lambda>(d1, ib1).
     if S_ISREG (i_mode (inode_at ib1)) then
       (let (d2, buf2) = read_fd (lseek d1 (uint (i_block (inode_at ib1) ! 0 * 1024))) buf 1024 in
        if is_jpg buf2 then
          bindO (recover stk heap fopen dir g num_group gd super inode_no (inode_at ib1) d2) (\<lambda>r.
          Ret (case r of Inl fs \<Rightarrow> Inl fs | Inr (d3, fs) \<Rightarrow> Inr ((d3, ib1, buf2), fs)))
        else Ret (Inr ((d2, ib1, buf2), [])))
     else Ret (Inr ((d1, ib1, buf), []))))"

fun scan_slots ::
  "(nat \<Rightarrow> u8) \<Rightarrow> (nat \<Rightarrow> u8) \<Rightarrow> (u8 list \<Rightarrow> bool) \<Rightarrow> u8 list \<Rightarrow> globals \<Rightarrow> int \<Rightarrow> ext2_group_desc \<Rightarrow> ext2_super_block \<Rightarrow>
   (int \<times> int) list \<Rightarrow> int \<Rightarrow> disk \<times> u8 list \<times> u8 list \<Rightarrow> (int \<times> stream list) outcome"
where
  "scan_slots stk heap fopen dir g num_group gd super [] inode_no st = Ret (0, [])"
| "scan_slots stk heap fopen dir g num_group gd super (sl # slots) inode_no st =
     bindO (scan_inode stk heap fopen dir g num_group gd super sl inode_no st) (\<lambda>r.
     case r of Inl fs \<Rightarrow> Ret (-1, fs)
     | Inr (st1, fs) \<Rightarrow>
         bindO (cint (inode_no + 1)) (\<lambda>next_no.
         bindO (scan_slots stk heap fopen dir g num_group gd super slots next_no st1) (\<lambda>(status, rest).
         Ret (status, fs @ rest))))"

text \<open>
  The program on its arguments: its exit status and its streams. An image that cannot be opened gives no bytes,
  like an empty one.
\<close>

definition runscan ::
  "(nat \<Rightarrow> u8) \<Rightarrow> (nat \<Rightarrow> u8) \<Rightarrow> (u8 list \<Rightarrow> bool) \<Rightarrow> (u8 list \<Rightarrow> bool) \<Rightarrow> (u8 list \<Rightarrow> u8 list option) \<Rightarrow> u8 list list \<Rightarrow>
   (int \<times> stream list) outcome"
where
  "runscan stk heap mkdir fopen open_image argv =
     (if length argv \<noteq> 3 then Ret (0, [])
      else if \<not> mkdir (argv ! 2) then Ret (-1, [])
      else
        (let d = \<lparr> image = (case open_image (argv ! 1) of None \<Rightarrow> [] | Some im \<Rightarrow> im), position = 0 \<rparr> in
         bindO (ext2_read_init stk d) (\<lambda>r0. case r0 of Inl e \<Rightarrow> Ret (e, []) | Inr (d0, g0) \<Rightarrow>
         bindO (read_super_block g0 d0 0 (uninit stk 1024)) (\<lambda>r1. case r1 of Inl e \<Rightarrow> Ret (e, []) | Inr (e1, d1, g, sb) \<Rightarrow>
         bindO (read_group_desc g d1 0 (uninit stk 32)) (\<lambda>(d2, gb).
         if blocks_per_group g = 0 then Undef ''division by zero''
         else
           (let super = super_at sb;
                num_group = sint ((s_blocks_count super + blocks_per_group g - 1) div blocks_per_group g)
            in scan_slots stk heap fopen (argv ! 2) g num_group (group_at gb) super
                 (inode_slots num_group (sint (s_inodes_per_group super))) 1 (d2, uninit stk 128, uninit stk 1024)))))))"

section \<open>What a file holds\<close>

text \<open>
  The contents an ext2 inode stands for in an image with blocks of 1024 bytes: twelve direct blocks, 256 entries
  of the indirect block, and 256 blocks for each of the 256 entries of the doubly indirect one.
\<close>

definition ext2_block :: "u8 list \<Rightarrow> u32 \<Rightarrow> u8 list" where
  "ext2_block im b = take 1024 (drop (unat b * 1024) im)"

definition block_entry :: "u8 list \<Rightarrow> u32 \<Rightarrow> nat \<Rightarrow> u32" where
  "block_entry im b k = get32 im (unat b * 1024 + 4 * k)"

definition file_block :: "u8 list \<Rightarrow> ext2_inode \<Rightarrow> nat \<Rightarrow> u32" where
  "file_block im ino k =
     (if k < 12 then i_block ino ! k
      else if k < 268 then block_entry im (i_block ino ! 12) (k - 12)
      else block_entry im (block_entry im (i_block ino ! 13) ((k - 268) div 256)) ((k - 268) mod 256))"

definition full_blocks :: "ext2_inode \<Rightarrow> nat" where
  "full_blocks ino = unat (i_size ino) div 1024"

definition tail_bytes :: "ext2_inode \<Rightarrow> nat" where
  "tail_bytes ino = unat (i_size ino) mod 1024"

definition blocks_between :: "u8 list \<Rightarrow> ext2_inode \<Rightarrow> nat \<Rightarrow> nat \<Rightarrow> u8 list" where
  "blocks_between im ino s t = concat (map (\<lambda>k. ext2_block im (file_block im ino k)) [s..<t])"

definition file_bytes :: "u8 list \<Rightarrow> ext2_inode \<Rightarrow> u8 list" where
  "file_bytes im ino =
     blocks_between im ino 0 (full_blocks ino) @
     take (tail_bytes ino) (ext2_block im (file_block im ino (full_blocks ino)))"

text \<open>
  The layout the program relies on: what the file uses lies in the image, and successive blocks are adjacent
  in each run that it reads without a seek.
\<close>

definition in_image :: "u8 list \<Rightarrow> u32 \<Rightarrow> bool" where
  "in_image im b \<longleftrightarrow> (unat b + 1) * 1024 \<le> length im"

definition used_blocks :: "ext2_inode \<Rightarrow> nat" where
  "used_blocks ino = full_blocks ino + (if tail_bytes ino = 0 then 0 else 1)"

definition run_ends :: "nat \<Rightarrow> bool" where
  "run_ends k \<longleftrightarrow> k = 11 \<or> 267 \<le> k \<and> (k - 267) mod 256 = 0"

definition laid_out :: "u8 list \<Rightarrow> ext2_inode \<Rightarrow> bool" where
  "laid_out im ino \<longleftrightarrow>
     length im \<le> 4294967296 \<and> length (i_block ino) = 15 \<and> used_blocks ino \<le> 65804 \<and>
     (\<forall>k<used_blocks ino. in_image im (file_block im ino k)) \<and>
     (12 < full_blocks ino \<longrightarrow> in_image im (i_block ino ! 12)) \<and>
     (268 < full_blocks ino \<longrightarrow> in_image im (i_block ino ! 13) \<and>
        (\<forall>j\<le>(used_blocks ino - 269) div 256. in_image im (block_entry im (i_block ino ! 13) j))) \<and>
     (\<forall>k<used_blocks ino - 1. (12 \<le> k \<or> Suc k = full_blocks ino) \<longrightarrow> run_ends k \<or>
        unat (file_block im ino (Suc k)) = unat (file_block im ino k) + 1)"

section \<open>The copier\<close>

definition copier_at :: "u8 list \<Rightarrow> nat \<Rightarrow> u8 list \<Rightarrow> copier \<Rightarrow> bool" where
  "copier_at im p out c \<longleftrightarrow> image c = im \<and> position c = p \<and> fp c = out"

lemma copier_at_seek: "copier_at im p out c \<Longrightarrow> copier_at im (unat b) out (lseek c (uint b))"
  by (simp add: copier_at_def lseek_def)

lemma copier_at_chunk:
  "copier_at im p out c \<Longrightarrow> p + n \<le> length im \<Longrightarrow>
   copier_at im (p + n) (out @ take n (drop p im)) (copy_chunk n c)"
  by (auto simp: copier_at_def copy_chunk_def read_fd_def Let_def)

lemma copier_at_empty_chunk: "copier_at im p out c \<Longrightarrow> copier_at im p out (copy_chunk 0 c)"
  by (simp add: copier_at_def copy_chunk_def read_fd_def Let_def)

lemma copier_at_run:
  "copier_at im p out c \<Longrightarrow> p + n * k \<le> length im \<Longrightarrow>
   copier_at im (p + n * k) (out @ take (n * k) (drop p im)) (copy_run n k c)"
proof (induction k arbitrary: p out c)
  case 0
  then show ?case by simp
next
  case (Suc k)
  have c: "copier_at im (p + n) (out @ take n (drop p im)) (copy_chunk n c)"
    using Suc.prems by (intro copier_at_chunk) simp_all
  have "copier_at im (p + n + n * k) ((out @ take n (drop p im)) @ take (n * k) (drop (p + n) im))
          (copy_run n k (copy_chunk n c))"
    using Suc.prems by (intro Suc.IH[OF c]) simp
  moreover have "take n (drop p im) @ take (n * k) (drop (p + n) im) = take (n * Suc k) (drop p im)"
    by (simp add: take_add add.commute)
  ultimately show ?case by (simp add: algebra_simps)
qed

lemma get32_append: "4 \<le> length xs \<Longrightarrow> get32 (xs @ ys) 0 = get32 xs 0"
  by (auto simp: get32_def nth_append)

lemma get32_window: "p + 4 \<le> length im \<Longrightarrow> get32 (take 4 (drop p im)) 0 = get32 im p"
  by (simp add: get32_def)

lemma copier_at_number:
  assumes "copier_at im p out c" and "p + 4 \<le> length im"
  obtains c' v' where "read_number c v = (c', v')" "copier_at im (p + 4) out c'" "get32 v' 0 = get32 im p"
  using assms get32_window[of p im] get32_append[of "take 4 (drop p im)" "drop 4 v"]
  by (auto simp: copier_at_def read_number_def read_fd_def Let_def)

text \<open>Adjacent blocks of the file are one range of the image.\<close>

lemma blocks_between_Suc: "s \<le> t \<Longrightarrow> blocks_between im ino s (Suc t) =
    blocks_between im ino s t @ ext2_block im (file_block im ino t)"
  by (simp add: blocks_between_def)

lemma blocks_between_split: "s \<le> t \<Longrightarrow> t \<le> u \<Longrightarrow>
    blocks_between im ino s t @ blocks_between im ino t u = blocks_between im ino s u"
  unfolding blocks_between_def by (metis concat_append le_add_diff_inverse map_append upt_add_eq_append)

lemma run_is_blocks:
  assumes "\<And>i. i < k \<Longrightarrow> unat (file_block im ino (s + i)) = B + i"
  shows "take (1024 * k) (drop (B * 1024) im) = blocks_between im ino s (s + k)"
  using assms
proof (induction k)
  case 0
  then show ?case by (simp add: blocks_between_def)
next
  case (Suc k)
  have "take (1024 * Suc k) (drop (B * 1024) im) =
      take (1024 * k) (drop (B * 1024) im) @ take 1024 (drop ((B + k) * 1024) im)"
    using take_add[of "1024 * k" 1024 "drop (B * 1024) im"] by (simp add: algebra_simps)
  then show ?case using Suc by (simp add: blocks_between_Suc ext2_block_def)
qed

lemma copier_at_blocks:
  assumes "copier_at im (unat (file_block im ino s) * 1024) out c"
    and "\<And>i. i < k \<Longrightarrow> unat (file_block im ino (s + i)) = unat (file_block im ino s) + i"
    and "\<And>i. i < k \<Longrightarrow> in_image im (file_block im ino (s + i))"
  shows "copier_at im ((unat (file_block im ino s) + k) * 1024) (out @ blocks_between im ino s (s + k))
           (copy_run 1024 k c)"
proof -
  have "unat (file_block im ino s) * 1024 + 1024 * k \<le> length im" if "0 < k"
    using assms(2,3)[of "k - 1"] that by (simp add: in_image_def algebra_simps)
  then show ?thesis
    using copier_at_run[OF assms(1), of 1024 k] run_is_blocks[OF assms(2)] assms(1)
    by (cases "k = 0") (simp_all add: algebra_simps blocks_between_def)
qed

lemma unat_1024: "unat (1024 :: u32) = 1024"
  by simp

lemma block_start:
  assumes "in_image im b" and "length im \<le> 4294967296"
  shows "unat (b * 1024) = unat b * 1024"
  using assms by (simp add: in_image_def unat_word_ariths)

lemma copier_at_tail:
  assumes "copier_at im p out c"
    and "0 < tail_bytes ino \<Longrightarrow>
           p = unat (file_block im ino (full_blocks ino)) * 1024 \<and> in_image im (file_block im ino (full_blocks ino))"
  shows "\<exists>p'. copier_at im p' (out @ take (tail_bytes ino) (ext2_block im (file_block im ino (full_blocks ino))))
           (copy_chunk (tail_bytes ino) c)"
proof (cases "tail_bytes ino = 0")
  case True
  then show ?thesis using copier_at_empty_chunk[OF assms(1)] by auto
next
  case False
  have r: "tail_bytes ino < 1024" by (simp add: tail_bytes_def)
  have "copier_at im (p + tail_bytes ino) (out @ take (tail_bytes ino) (drop p im)) (copy_chunk (tail_bytes ino) c)"
    using assms(2) False r by (intro copier_at_chunk[OF assms(1)]) (simp add: in_image_def)
  then show ?thesis using assms(2) False r by (auto simp: ext2_block_def min_def)
qed

lemma copier_at_direct:
  assumes "copier_at im p out c" and "\<And>b. b \<in> set bs \<Longrightarrow> in_image im b" and len: "length im \<le> 4294967296"
  shows "\<exists>p'. copier_at im p' (out @ concat (map (ext2_block im) bs)) (copy_direct 1024 bs c) \<and>
           (bs \<noteq> [] \<longrightarrow> p' = (unat (last bs) + 1) * 1024)"
  using assms(1,2)
proof (induction bs arbitrary: p out c)
  case Nil
  then show ?case by auto
next
  case (Cons b bs)
  have b: "unat (b * 1024) = unat b * 1024" "(unat b + 1) * 1024 \<le> length im"
    using Cons.prems(2)[of b] block_start[OF _ len, of b] by (simp_all add: in_image_def)
  have st: "copier_at im ((unat b + 1) * 1024) (out @ ext2_block im b) (copy_chunk 1024 (lseek c (uint (b * 1024))))"
    using copier_at_chunk[OF copier_at_seek[OF Cons.prems(1), of "b * 1024"], of 1024] b
    by (simp add: ext2_block_def add.commute)
  show ?case
  proof (cases "bs = []")
    case True
    then show ?thesis using st by simp
  next
    case False
    then show ?thesis using Cons.IH[OF st] Cons.prems(2) by simp
  qed
qed

text \<open>Inside a run the blocks are numbered from its first one.\<close>

lemma run_adjacent:
  assumes lo: "laid_out im ino" and "12 \<le> s"
  shows "s + i < used_blocks ino \<Longrightarrow> (\<And>k. s \<le> k \<Longrightarrow> k < s + i \<Longrightarrow> \<not> run_ends k) \<Longrightarrow>
         unat (file_block im ino (s + i)) = unat (file_block im ino s) + i"
proof (induction i)
  case 0
  then show ?case by simp
next
  case (Suc i)
  have "\<not> run_ends (s + i)" using Suc.prems(2)[of "s + i"] by simp
  moreover have "s + i < used_blocks ino - 1" using Suc.prems(1) by simp
  ultimately have "unat (file_block im ino (Suc (s + i))) = unat (file_block im ino (s + i)) + 1"
    using lo \<open>12 \<le> s\<close> unfolding laid_out_def by (metis trans_le_add1)
  then show ?case using Suc by simp
qed

lemma laid_out_in: "laid_out im ino \<Longrightarrow> k < used_blocks ino \<Longrightarrow> in_image im (file_block im ino k)"
  by (simp add: laid_out_def)

lemma laid_out_len: "laid_out im ino \<Longrightarrow> length im \<le> 4294967296"
  by (simp add: laid_out_def)

lemma copier_at_laid_run:
  assumes lo: "laid_out im ino" and s: "12 \<le> s" "s + k \<le> used_blocks ino"
    and runs: "\<And>j. s \<le> j \<Longrightarrow> Suc j < s + k \<Longrightarrow> \<not> run_ends j"
    and c: "0 < k \<Longrightarrow> copier_at im (unat (file_block im ino s) * 1024) out c" and c0: "copier_at im p out c"
  shows "\<exists>p'. copier_at im p' (out @ blocks_between im ino s (s + k)) (copy_run 1024 k c) \<and>
           p' = (if k = 0 then p else (unat (file_block im ino s) + k) * 1024)"
proof (cases "k = 0")
  case True
  then show ?thesis using c0 by (simp add: blocks_between_def)
next
  case False
  have "unat (file_block im ino (s + i)) = unat (file_block im ino s) + i" if "i < k" for i
    using that s runs by (intro run_adjacent[OF lo]) auto
  moreover have "in_image im (file_block im ino (s + i))" if "i < k" for i
    using that s by (intro laid_out_in[OF lo]) simp
  ultimately show ?thesis using copier_at_blocks c False by auto
qed

text \<open>The three phases of \<open>data_copy\<close>: direct blocks, the indirect run, the doubly indirect runs.\<close>

definition phase_direct :: "ext2_inode \<Rightarrow> copier \<Rightarrow> copier" where
  "phase_direct ino c0 =
     (if 1 \<le> full_blocks ino
      then let c = copy_direct 1024 (take (min (full_blocks ino) 12) (i_block ino)) c0
           in if full_blocks ino < 12 then copy_chunk (tail_bytes ino) c else c
      else copy_chunk (tail_bytes ino) (lseek c0 (uint (i_block ino ! 0 * 1024))))"

definition phase_indirect :: "ext2_inode \<Rightarrow> copier \<Rightarrow> copier" where
  "phase_indirect ino c1 =
     (if 12 < full_blocks ino
      then let k = min (full_blocks ino - 12) 256;
               (c, v) = read_number (lseek c1 (uint (i_block ino ! 12 * 1024))) [0, 0, 0, 0];
               c' = copy_run 1024 k (lseek c (uint (get32 v 0 * 1024)))
           in if k < 256 then copy_chunk (tail_bytes ino) c' else c'
      else c1)"

definition phase_double :: "(nat \<Rightarrow> u8) \<Rightarrow> ext2_inode \<Rightarrow> copier \<Rightarrow> copier" where
  "phase_double heap ino c2 =
     (if 268 < full_blocks ino
      then let k = full_blocks ino - 268;
               cv = copy_double 1024 (i_block ino ! 13) (k div 256) 0 (c2, uninit heap 4);
               (c, v) = seek_double 1024 (i_block ino ! 13) (k div 256) cv
           in copy_chunk (tail_bytes ino) (copy_run 1024 (k mod 256) c)
      else c2)"

lemma data_copy_phases:
  "data_copy stk heap 1024 d ino =
     phase_double heap ino (phase_indirect ino (phase_direct ino
       \<lparr> image = image d, position = position d, data_buf = uninit stk 1024, fp = [] \<rparr>))"
  unfolding data_copy_def phase_double_def phase_indirect_def phase_direct_def full_blocks_def tail_bytes_def Let_def
  by (simp only: unat_div unat_mod unat_1024)

lemma blocks_between_direct:
  "m \<le> 12 \<Longrightarrow> length (i_block ino) = 15 \<Longrightarrow>
   concat (map (ext2_block im) (take m (i_block ino))) = blocks_between im ino 0 m"
proof -
  assume m: "m \<le> 12" and l: "length (i_block ino) = 15"
  then have "take m (i_block ino) = map (\<lambda>k. file_block im ino k) [0..<m]"
    by (intro nth_equalityI) (simp_all add: file_block_def)
  then show ?thesis by (simp add: blocks_between_def comp_def)
qed

lemma phase_direct_copies:
  assumes lo: "laid_out im ino" and c0: "copier_at im p [] c0"
  shows "\<exists>p'. copier_at im p'
           (if full_blocks ino < 12 then file_bytes im ino else blocks_between im ino 0 12) (phase_direct ino c0)"
proof (cases "full_blocks ino = 0")
  case True
  have "i_block ino ! 0 = file_block im ino 0" by (simp add: file_block_def)
  then have "copier_at im (unat (i_block ino ! 0 * 1024)) [] (lseek c0 (uint (i_block ino ! 0 * 1024)))"
    "0 < tail_bytes ino \<Longrightarrow> unat (i_block ino ! 0 * 1024) = unat (file_block im ino 0) * 1024 \<and>
       in_image im (file_block im ino 0)"
    using copier_at_seek[OF c0] laid_out_in[OF lo, of 0] block_start[OF _ laid_out_len[OF lo]] True
    by (auto simp: used_blocks_def)
  from copier_at_tail[OF this(1), of ino] this(2) True show ?thesis
    by (simp add: phase_direct_def file_bytes_def blocks_between_def)
next
  case False
  define m where "m = min (full_blocks ino) 12"
  have l: "length (i_block ino) = 15" using lo by (simp add: laid_out_def)
  have m: "0 < m" "m \<le> 12" "m \<le> full_blocks ino" "m \<le> used_blocks ino" using False by (auto simp: m_def used_blocks_def)
  have ins: "in_image im b" if "b \<in> set (take m (i_block ino))" for b
  proof -
    obtain k where k: "k < m" "b = file_block im ino k"
      using \<open>b \<in> set (take m (i_block ino))\<close> m(2) l by (auto simp: in_set_conv_nth file_block_def)
    then show ?thesis using laid_out_in[OF lo] m by simp
  qed
  from copier_at_direct[where bs = "take m (i_block ino)", OF c0 ins laid_out_len[OF lo]] obtain p' where
    p': "copier_at im p' (blocks_between im ino 0 m) (copy_direct 1024 (take m (i_block ino)) c0)"
    "p' = (unat (last (take m (i_block ino))) + 1) * 1024"
    using m(1) l by (auto simp: blocks_between_direct[OF m(2) l])
  have ne: "take m (i_block ino) \<noteq> []" using m l by auto
  have "last (take m (i_block ino)) = file_block im ino (m - 1)"
    using m l by (auto simp: last_conv_nth[OF ne] file_block_def min_def)
  note p'' = p'(2)[unfolded this]
  show ?thesis
  proof (cases "full_blocks ino < 12")
    case True
    then have mf: "m = full_blocks ino" by (simp add: m_def)
    have "p' = unat (file_block im ino m) * 1024 \<and> in_image im (file_block im ino m)" if "0 < tail_bytes ino"
    proof -
      have "m - 1 < used_blocks ino - 1" "m < used_blocks ino" "Suc (m - 1) = m" "\<not> run_ends (m - 1)"
        using that m mf True by (auto simp: used_blocks_def run_ends_def)
      then show ?thesis using lo p'' mf unfolding laid_out_def by (metis Suc_eq_plus1)
    qed
    from copier_at_tail[OF p'(1), of ino] this True show ?thesis
      using False mf by (simp add: phase_direct_def file_bytes_def m_def)
  next
    case ge: False
    then show ?thesis using p'(1) False by (auto simp: phase_direct_def m_def)
  qed
qed

text \<open>What is written: all of the file, but for the tail when the full blocks end exactly at a boundary.\<close>

definition recovered :: "u8 list \<Rightarrow> ext2_inode \<Rightarrow> u8 list" where
  "recovered im ino =
     (if full_blocks ino = 12 \<or> full_blocks ino = 268 then blocks_between im ino 0 (full_blocks ino)
      else file_bytes im ino)"

lemma no_run_ends_indirect: "12 \<le> k \<Longrightarrow> k < 267 \<Longrightarrow> \<not> run_ends k"
  by (simp add: run_ends_def)

lemma no_run_ends_double: "268 + 256 * j \<le> k \<Longrightarrow> k < 523 + 256 * j \<Longrightarrow> \<not> run_ends k"
proof -
  assume a: "268 + 256 * j \<le> k" "k < 523 + 256 * j"
  define t where "t = k - 267 - 256 * j"
  have "k - 267 = t + 256 * j" "0 < t" "t < 256" using a by (simp_all add: t_def)
  then have "(k - 267) mod 256 = t" by simp
  then show ?thesis using \<open>0 < t\<close> a by (simp add: run_ends_def)
qed

lemma phase_indirect_copies:
  assumes lo: "laid_out im ino"
    and c1: "copier_at im p (if full_blocks ino < 12 then file_bytes im ino else blocks_between im ino 0 12) c1"
  shows "\<exists>p'. copier_at im p' (if full_blocks ino < 268 then recovered im ino else blocks_between im ino 0 268)
           (phase_indirect ino c1)"
proof (cases "12 < full_blocks ino")
  case False
  then show ?thesis using c1 by (auto simp: phase_indirect_def recovered_def split: if_splits)
next
  case True
  define k where "k = min (full_blocks ino - 12) 256"
  have k: "0 < k" "12 + k \<le> full_blocks ino" "12 + k \<le> 268" "12 + k \<le> used_blocks ino"
    using True by (auto simp: k_def used_blocks_def)
  have i12: "in_image im (i_block ino ! 12)" using lo True by (simp add: laid_out_def)
  have c1': "copier_at im (unat (i_block ino ! 12) * 1024) (blocks_between im ino 0 12)
      (lseek c1 (uint (i_block ino ! 12 * 1024)))"
    using copier_at_seek[OF c1, of "i_block ino ! 12 * 1024"] block_start[OF i12 laid_out_len[OF lo]] True by simp
  have "unat (i_block ino ! 12) * 1024 + 4 \<le> length im" using i12 by (simp add: in_image_def)
  from copier_at_number[OF c1' this] obtain c v where
    cv: "read_number (lseek c1 (uint (i_block ino ! 12 * 1024))) [0, 0, 0, 0] = (c, v)"
      "copier_at im (unat (i_block ino ! 12) * 1024 + 4) (blocks_between im ino 0 12) c"
      "get32 v 0 = get32 im (unat (i_block ino ! 12) * 1024)" by metis
  have v: "get32 v 0 = file_block im ino 12" by (simp add: cv(3) file_block_def block_entry_def)
  have "unat (file_block im ino 12 * 1024) = unat (file_block im ino 12) * 1024"
    using k by (intro block_start[OF laid_out_in[OF lo] laid_out_len[OF lo]]) simp
  with copier_at_seek[OF cv(2), of "file_block im ino 12 * 1024"] have
    c': "copier_at im (unat (file_block im ino 12) * 1024) (blocks_between im ino 0 12)
      (lseek c (uint (get32 v 0 * 1024)))" by (simp only: v)
  have "\<not> run_ends j" if "12 \<le> j" "Suc j < 12 + k" for j using that k(3) by (intro no_run_ends_indirect) simp_all
  from copier_at_laid_run[OF lo order_refl k(4) this c' c'] k(1) obtain p' where
    p': "copier_at im ((unat (file_block im ino 12) + k) * 1024) (blocks_between im ino 0 (12 + k))
      (copy_run 1024 k (lseek c (uint (get32 v 0 * 1024))))"
    using blocks_between_split[of 0 12 "12 + k" im ino] by auto
  show ?thesis
  proof (cases "full_blocks ino < 268")
    case lt: True
    then have q: "full_blocks ino = 12 + k" "k < 256" using True by (auto simp: k_def)
    have "(unat (file_block im ino 12) + k) * 1024 = unat (file_block im ino (12 + k)) * 1024 \<and>
        in_image im (file_block im ino (12 + k))" if "0 < tail_bytes ino"
    proof -
      have u: "12 + k < used_blocks ino" using that q by (simp add: used_blocks_def)
      have "\<not> run_ends j" if "12 \<le> j" "j < 12 + k" for j
        using that q(2) by (intro no_run_ends_indirect) simp_all
      then have "unat (file_block im ino (12 + k)) = unat (file_block im ino 12) + k"
        by (intro run_adjacent[OF lo order_refl u])
      then show ?thesis using laid_out_in[OF lo u] by simp
    qed
    from copier_at_tail[OF p', of ino] this q True lt show ?thesis
      by (simp add: phase_indirect_def cv(1) recovered_def file_bytes_def flip: k_def)
  next
    case False
    then have "k = 256" by (simp add: k_def)
    then show ?thesis using p' True False by (auto simp: phase_indirect_def cv(1) simp flip: k_def)
  qed
qed

text \<open>The way down through an entry of the doubly indirect block.\<close>

lemma seek_double_keeps:
  "copier_at im p out c \<Longrightarrow> \<exists>p'. copier_at im p' out (fst (seek_double bs dind cnt (c, v)))"
  by (simp add: copier_at_def seek_double_def read_number_def read_fd_def lseek_def Let_def)

lemma double_entry_in:
  assumes "in_image im b" and "length im \<le> 4294967296" and "j < 256"
  shows "unat (b * 1024 + of_nat j * 4) = unat b * 1024 + 4 * j" "unat b * 1024 + 4 * j + 4 \<le> length im"
  using assms by (simp_all add: in_image_def unat_word_ariths)

lemma file_block_group: "file_block im ino (268 + 256 * j) = block_entry im (block_entry im (i_block ino ! 13) j) 0"
  by (simp add: file_block_def)

lemma seek_double_reaches:
  assumes lo: "laid_out im ino" and c: "copier_at im p out c" and j: "268 + 256 * j < used_blocks ino"
    and q: "268 < full_blocks ino"
  shows "copier_at im (unat (file_block im ino (268 + 256 * j)) * 1024) out
           (fst (seek_double 1024 (i_block ino ! 13) j (c, v)))"
proof -
  define e where "e = block_entry im (i_block ino ! 13) j"
  note len = laid_out_len[OF lo]
  have u: "used_blocks ino \<le> 65804" and i13: "in_image im (i_block ino ! 13)"
    using lo q by (simp_all add: laid_out_def)
  have j256: "j < 256" using j u by simp
  have "256 * j \<le> used_blocks ino - 269" using j by simp
  then have "j \<le> (used_blocks ino - 269) div 256" by (simp add: less_eq_div_iff_mult_less_eq mult.commute)
  then have e: "in_image im e" using lo q by (simp add: laid_out_def e_def)
  have fb: "in_image im (file_block im ino (268 + 256 * j))" by (rule laid_out_in[OF lo j])
  have s1: "copier_at im (unat (i_block ino ! 13) * 1024 + 4 * j) out
      (lseek c (uint (i_block ino ! 13 * 1024 + of_nat j * 4)))"
    using copier_at_seek[OF c, of "i_block ino ! 13 * 1024 + of_nat j * 4"] double_entry_in(1)[OF i13 len j256] by simp
  from copier_at_number[OF s1 double_entry_in(2)[OF i13 len j256]] obtain c1 v1 where
    r1: "read_number (lseek c (uint (i_block ino ! 13 * 1024 + of_nat j * 4))) v = (c1, v1)"
      "copier_at im (unat (i_block ino ! 13) * 1024 + 4 * j + 4) out c1" "get32 v1 0 = e"
    by (metis block_entry_def e_def)
  have s2: "copier_at im (unat e * 1024) out (lseek c1 (uint (e * 1024)))"
    using copier_at_seek[OF r1(2), of "e * 1024"] block_start[OF e len] by simp
  have "unat e * 1024 + 4 \<le> length im" using e by (simp add: in_image_def)
  from copier_at_number[OF s2 this] obtain c2 v2 where
    r2: "read_number (lseek c1 (uint (e * 1024))) v1 = (c2, v2)" "copier_at im (unat e * 1024 + 4) out c2"
      "get32 v2 0 = file_block im ino (268 + 256 * j)"
    by (metis block_entry_def e_def file_block_group add.right_neutral mult_0_right)
  show ?thesis
    using copier_at_seek[OF r2(2), of "file_block im ino (268 + 256 * j) * 1024"] block_start[OF fb len]
    by (simp add: seek_double_def r1 r2)
qed

lemma copy_double_copies:
  assumes lo: "laid_out im ino" and q: "268 < full_blocks ino"
  shows "268 + 256 * (cnt + m) \<le> used_blocks ino \<Longrightarrow> copier_at im p (blocks_between im ino 0 (268 + 256 * cnt)) c \<Longrightarrow>
         \<exists>p'. copier_at im p' (blocks_between im ino 0 (268 + 256 * (cnt + m)))
           (fst (copy_double 1024 (i_block ino ! 13) m cnt (c, v)))"
proof (induction m arbitrary: cnt p c v)
  case 0
  then show ?case by auto
next
  case (Suc m)
  obtain c' v' where sd: "seek_double 1024 (i_block ino ! 13) cnt (c, v) = (c', v')" by force
  have at': "copier_at im (unat (file_block im ino (268 + 256 * cnt)) * 1024) (blocks_between im ino 0 (268 + 256 * cnt)) c'"
    using seek_double_reaches[OF lo Suc.prems(2) _ q, of cnt v] Suc.prems(1) sd by simp
  have "12 \<le> 268 + 256 * cnt" "268 + 256 * cnt + 256 \<le> used_blocks ino" using Suc.prems(1) by simp_all
  moreover have "\<not> run_ends k" if "268 + 256 * cnt \<le> k" "Suc k < 268 + 256 * cnt + 256" for k
    using that by (intro no_run_ends_double[of cnt]) simp_all
  ultimately obtain p' where "copier_at im p' (blocks_between im ino 0 (268 + 256 * cnt) @
      blocks_between im ino (268 + 256 * cnt) (268 + 256 * cnt + 256)) (copy_run 1024 256 c')"
    using copier_at_laid_run[OF lo _ _ _ at' at', of 256] by blast
  moreover have "blocks_between im ino 0 (268 + 256 * cnt) @ blocks_between im ino (268 + 256 * cnt) (268 + 256 * cnt + 256)
      = blocks_between im ino 0 (268 + 256 * cnt + 256)" by (rule blocks_between_split) simp_all
  moreover have "268 + 256 * cnt + 256 = 268 + 256 * Suc cnt" by simp
  ultimately have c'': "copier_at im p' (blocks_between im ino 0 (268 + 256 * Suc cnt)) (copy_run 1024 256 c')"
    by (simp only:)
  have "copy_double 1024 (i_block ino ! 13) (Suc m) cnt (c, v) =
      copy_double 1024 (i_block ino ! 13) m (Suc cnt) (copy_run 1024 256 c', v')"
    by (simp only: copy_double.simps sd Let_def prod.case unat_1024)
  then show ?case using Suc.IH[OF _ c'', of v'] Suc.prems(1) by (simp only: add_Suc_shift)
qed

text \<open>The last leg: what is left of the full blocks, and the tail.\<close>

lemma last_leg:
  assumes lo: "laid_out im ino" and q: "full_blocks ino = 268 + 256 * m + t" "t < 256"
    and keep: "copier_at im pk (blocks_between im ino 0 (268 + 256 * m)) c"
    and reach: "268 + 256 * m < used_blocks ino \<Longrightarrow>
      copier_at im (unat (file_block im ino (268 + 256 * m)) * 1024) (blocks_between im ino 0 (268 + 256 * m)) c"
  shows "\<exists>p'. copier_at im p' (file_bytes im ino) (copy_chunk (tail_bytes ino) (copy_run 1024 t c))"
proof (cases "268 + 256 * m < used_blocks ino")
  case False
  then have "t = 0" "tail_bytes ino = 0" using q by (simp_all add: used_blocks_def split: if_splits)
  then show ?thesis using copier_at_empty_chunk[OF keep] q(1) by (auto simp: file_bytes_def)
next
  case True
  define S where "S = 268 + 256 * m"
  have S: "12 \<le> S" "S + t \<le> used_blocks ino" "S + t = full_blocks ino" using q by (simp_all add: S_def used_blocks_def)
  have nr: "\<not> run_ends j" if "S \<le> j" "j < S + t" for j
    using that q(2) by (intro no_run_ends_double[of m]) (simp_all add: S_def)
  then have "\<not> run_ends j" if "S \<le> j" "Suc j < S + t" for j using that by simp
  from copier_at_laid_run[OF lo S(1,2) this reach[OF True, folded S_def] reach[OF True, folded S_def]]
  have run: "copier_at im ((unat (file_block im ino S) + t) * 1024) (blocks_between im ino 0 (full_blocks ino))
      (copy_run 1024 t c)"
    using blocks_between_split[of 0 S "S + t" im ino] S(3) by (auto split: if_splits)
  have "(unat (file_block im ino S) + t) * 1024 = unat (file_block im ino (full_blocks ino)) * 1024 \<and>
      in_image im (file_block im ino (full_blocks ino))" if "0 < tail_bytes ino"
  proof -
    have u: "S + t < used_blocks ino" using that S(3) by (simp add: used_blocks_def)
    show ?thesis using run_adjacent[OF lo S(1) u nr] laid_out_in[OF lo u] by (simp flip: S(3))
  qed
  from copier_at_tail[OF run this] show ?thesis by (simp add: file_bytes_def)
qed

lemma phase_double_copies:
  assumes lo: "laid_out im ino"
    and c2: "copier_at im p (if full_blocks ino < 268 then recovered im ino else blocks_between im ino 0 268) c2"
  shows "\<exists>p'. copier_at im p' (recovered im ino) (phase_double heap ino c2)"
proof (cases "268 < full_blocks ino")
  case False
  then show ?thesis using c2 by (auto simp: phase_double_def recovered_def split: if_splits)
next
  case True
  define m t where "m = (full_blocks ino - 268) div 256" and "t = (full_blocks ino - 268) mod 256"
  have "full_blocks ino - 268 = 256 * m + t" unfolding m_def t_def by (rule mult_div_mod_eq[symmetric])
  then have q: "full_blocks ino = 268 + 256 * m + t" "t < 256" using True by (simp_all add: t_def)
  have u: "full_blocks ino \<le> used_blocks ino" by (simp add: used_blocks_def)
  obtain c v where cd: "copy_double 1024 (i_block ino ! 13) m 0 (c2, uninit heap 4) = (c, v)" by force
  obtain pc where c: "copier_at im pc (blocks_between im ino 0 (268 + 256 * m)) c"
    using copy_double_copies[OF lo True, of 0 m p c2 "uninit heap 4"] c2 True q u cd by auto
  obtain c' v' where sd: "seek_double 1024 (i_block ino ! 13) m (c, v) = (c', v')" by force
  obtain pk where keep: "copier_at im pk (blocks_between im ino 0 (268 + 256 * m)) c'"
    using seek_double_keeps[OF c, of 1024 "i_block ino ! 13" m v] sd by auto
  have "copier_at im (unat (file_block im ino (268 + 256 * m)) * 1024) (blocks_between im ino 0 (268 + 256 * m)) c'"
    if "268 + 256 * m < used_blocks ino"
    using seek_double_reaches[OF lo c that True, of v] sd by simp
  from last_leg[OF lo q keep this] show ?thesis
    using True by (simp add: phase_double_def recovered_def cd sd flip: m_def t_def)
qed

lemma data_copy_recovered:
  assumes "laid_out (image d) ino"
  shows "fp (data_copy stk heap 1024 d ino) = recovered (image d) ino"
    and "image (data_copy stk heap 1024 d ino) = image d"
proof -
  let ?c = "\<lparr> image = image d, position = position d, data_buf = uninit stk 1024, fp = [] \<rparr>"
  have "copier_at (image d) (position d) [] ?c" by (simp add: copier_at_def)
  then have "\<exists>p. copier_at (image d) p (recovered (image d) ino) (data_copy stk heap 1024 d ino)"
    unfolding data_copy_phases using phase_direct_copies phase_indirect_copies phase_double_copies assms by blast
  then show "fp (data_copy stk heap 1024 d ino) = recovered (image d) ino"
    and "image (data_copy stk heap 1024 d ino) = image d" by (auto simp: copier_at_def)
qed

lemma blocks_between_length:
  "(\<And>k. k < t \<Longrightarrow> in_image im (file_block im ino k)) \<Longrightarrow> length (blocks_between im ino 0 t) = 1024 * t"
proof (induction t)
  case 0
  then show ?case by (simp add: blocks_between_def)
next
  case (Suc t)
  have "length (ext2_block im (file_block im ino t)) = 1024" using Suc.prems[of t] by (simp add: ext2_block_def in_image_def)
  then show ?case using Suc by (simp add: blocks_between_Suc)
qed

lemma file_bytes_length:
  assumes lo: "laid_out im ino"
  shows "length (file_bytes im ino) = unat (i_size ino)"
    and "length (blocks_between im ino 0 (full_blocks ino)) = 1024 * full_blocks ino"
proof -
  show b: "length (blocks_between im ino 0 (full_blocks ino)) = 1024 * full_blocks ino"
    by (intro blocks_between_length laid_out_in[OF lo]) (simp add: used_blocks_def)
  have "length (take (tail_bytes ino) (ext2_block im (file_block im ino (full_blocks ino)))) = tail_bytes ino"
  proof (cases "tail_bytes ino = 0")
    case False
    then have "in_image im (file_block im ino (full_blocks ino))"
      by (intro laid_out_in[OF lo]) (simp add: used_blocks_def)
    then have "length (ext2_block im (file_block im ino (full_blocks ino))) = 1024"
      by (simp add: ext2_block_def in_image_def)
    moreover have "tail_bytes ino < 1024" by (simp add: tail_bytes_def)
    ultimately show ?thesis by simp
  qed simp
  then show "length (file_bytes im ino) = unat (i_size ino)"
    using b mult_div_mod_eq[of 1024 "unat (i_size ino)"]
    by (simp add: file_bytes_def full_blocks_def tail_bytes_def del: mult_div_mod_eq)
qed

section \<open>Reading a directory block\<close>

text \<open>
  A packed directory block: entries one after the other, each with its number, any record length, its name and
  type, the name padded to four bytes, and zeros after the last one. Deleted entries, which the record length of
  the one before hides, are entries like the others.
\<close>

definition entry_bytes :: "u32 \<times> u16 \<times> u8 \<times> u8 list \<Rightarrow> u8 list" where
  "entry_bytes = (\<lambda>(no, rec_len, ftype, name).
     [of_nat (unat no), of_nat (unat no div 256), of_nat (unat no div 65536), of_nat (unat no div 16777216),
      of_nat (unat rec_len), of_nat (unat rec_len div 256), of_nat (length name), ftype] @
     name @ replicate ((4 - length name mod 4) mod 4) 0)"

text \<open>
  A name of a length the step of the walk is right for: four, or not a multiple of four.
\<close>

definition entry_ok :: "u32 \<times> u16 \<times> u8 \<times> u8 list \<Rightarrow> bool" where
  "entry_ok = (\<lambda>(no, rec_len, ftype, name).
     0 \<notin> set name \<and> 0 < length name \<and> length name < 256 \<and> (length name = 4 \<or> length name mod 4 \<noteq> 0))"

definition entries_bytes :: "(u32 \<times> u16 \<times> u8 \<times> u8 list) list \<Rightarrow> u8 list" where
  "entries_bytes es = concat (map entry_bytes es)"

definition dir_block :: "(u32 \<times> u16 \<times> u8 \<times> u8 list) list \<Rightarrow> u8 list" where
  "dir_block es = entries_bytes es @ replicate (1024 - length (entries_bytes es)) 0"

definition entry_name :: "(u32 \<times> u16 \<times> u8 \<times> u8 list) list \<Rightarrow> int \<Rightarrow> u8 list option" where
  "entry_name es ino = map_option (\<lambda>(no, rec_len, ftype, name). name) (find (\<lambda>e. sint (fst e) = ino) es)"

lemma entry_length:
  "entry_ok (no, rl, ft, name) \<Longrightarrow> length (entry_bytes (no, rl, ft, name)) = entry_step (length name)"
  by (auto simp: entry_ok_def entry_bytes_def entry_step_def)

lemma get32_entry: "get32 (pre @ entry_bytes (no, rl, ft, name) @ post) (length pre) = no"
proof -
  have n: "unat no < 4294967296" by (rule unat_lt_u32)
  have b: "unat (of_nat k :: u8) = k mod 256" for k by (simp add: unat_of_nat)
  show ?thesis
    by (simp only: get32_def entry_bytes_def le32_def prod.case nth_append_length append_Cons nth_append_length_plus
        nth_Cons_0 nth_Cons_numeral b) (simp add: nth_append b digits_256[OF n])
qed

lemma strncpy_from_name:
  "0 \<notin> set name \<Longrightarrow> length name \<le> length nm \<Longrightarrow>
   strncpy_from nm (name @ rest) (length name) = Ret (name @ drop (length name) nm)"
proof -
  assume a: "0 \<notin> set name" "length name \<le> length nm"
  have tw: "takeWhile (\<lambda>c. c \<noteq> 0) name = name" using a(1) by (metis (mono_tags, lifting) takeWhile_eq_all_conv)
  show ?thesis using a(2) by (simp add: strncpy_from_def tw Let_def)
qed

lemma dir_walk_entry:
  assumes ok: "entry_ok (no, rl, ft, name)" and buf: "buf = pre @ entry_bytes (no, rl, ft, name) @ post"
    and len: "length buf = 1024" "length nm = 255"
  shows "dir_walk buf ino nm (length pre) =
           (if sint no = ino then Ret (Some (name @ drop (length name) nm))
            else dir_walk buf ino nm (length pre + length (entry_bytes (no, rl, ft, name))))"
proof -
  have l: "length pre + entry_step (length name) \<le> 1024" "8 \<le> entry_step (length name)"
    using len(1) entry_length[OF ok] by (simp_all add: buf entry_step_def)
  have nl: "aget buf (int (length pre) + 6) = Ret (of_nat (length name))"
    using l len(1) aget_in[of "length pre + 6" buf] by (simp add: buf entry_bytes_def nth_append)
  have "length name < 256" "0 \<notin> set name" using ok by (simp_all add: entry_ok_def)
  then have u: "unat (of_nat (length name) :: u8) = length name" "length name \<le> length nm"
    using len(2) by (simp_all add: unat_of_nat)
  have d: "drop (length pre + 8) buf = name @ replicate ((4 - length name mod 4) mod 4) 0 @ post"
    by (simp add: buf entry_bytes_def)
  show ?thesis
    using l len(1) get32_entry[of pre no rl ft name post] strncpy_from_name[OF \<open>0 \<notin> set name\<close> u(2)]
    by (subst dir_walk.simps) (simp add: nl u d entry_length[OF ok] flip: buf)
qed

lemma dir_walk_entries:
  assumes "\<forall>e\<in>set es. entry_ok e" and "length (pre @ entries_bytes es @ post) = 1024" and "length nm = 255"
  shows "dir_walk (pre @ entries_bytes es @ post) ino nm (length pre) =
           (case entry_name es ino of
              Some name \<Rightarrow> Ret (Some (name @ drop (length name) nm))
            | None \<Rightarrow> dir_walk (pre @ entries_bytes es @ post) ino nm (length pre + length (entries_bytes es)))"
  using assms
proof (induction es arbitrary: pre)
  case Nil
  then show ?case by (simp add: entries_bytes_def entry_name_def)
next
  case (Cons e es)
  obtain no rl ft name where e: "e = (no, rl, ft, name)" by (cases e)
  have b: "pre @ entries_bytes (e # es) @ post = pre @ entry_bytes e @ entries_bytes es @ post"
    by (simp add: entries_bytes_def)
  have b': "pre @ entries_bytes (e # es) @ post = (pre @ entry_bytes e) @ entries_bytes es @ post"
    by (simp add: entries_bytes_def)
  have ok: "entry_ok (no, rl, ft, name)" using Cons.prems(1) e by simp
  note w = dir_walk_entry[OF ok b[unfolded e] Cons.prems(2)[unfolded e] Cons.prems(3), of ino]
  have "dir_walk ((pre @ entry_bytes e) @ entries_bytes es @ post) ino nm (length (pre @ entry_bytes e)) =
      (case entry_name es ino of
         Some name \<Rightarrow> Ret (Some (name @ drop (length name) nm))
       | None \<Rightarrow> dir_walk ((pre @ entry_bytes e) @ entries_bytes es @ post) ino nm
                  (length (pre @ entry_bytes e) + length (entries_bytes es)))"
    using Cons.prems by (intro Cons.IH) (simp_all add: entries_bytes_def)
  note ih = this[folded b']
  show ?case
  proof (cases "sint no = ino")
    case True
    then show ?thesis using w by (simp add: e entry_name_def)
  next
    case False
    then have "entry_name (e # es) ino = entry_name es ino" by (simp add: e entry_name_def)
    moreover have "length pre + length (entries_bytes (e # es)) = length (pre @ entry_bytes e) + length (entries_bytes es)"
      by (simp add: entries_bytes_def)
    ultimately show ?thesis using w ih False by (cases "entry_name es ino") (simp_all add: e add.assoc)
  qed
qed

text \<open>In the zeros at the end the walk takes steps of twelve bytes, and one may end at the last four.\<close>

lemma dir_walk_zeros:
  assumes "length buf = 1024" and "\<And>i. p \<le> i \<Longrightarrow> i < 1024 \<Longrightarrow> buf ! i = 0" and "p mod 4 = 0" and ino: "ino \<noteq> 0"
  shows "dir_walk buf ino nm p = (if p < 1024 \<and> (1020 - p) mod 12 = 0 then Undef ''array read'' else Ret None)"
  using assms(1-3)
proof (induction "1024 - p" arbitrary: p rule: less_induct)
  case less
  define q where "q = p div 4"
  have pq: "p = 4 * q" using less.prems(3) mult_div_mod_eq[of 4 p] by (simp add: q_def)
  have m4: "(p + 12) mod 4 = 0" by (simp add: pq)
  have "256 \<le> q \<or> q = 255 \<or> q \<le> 252 \<or> q = 253 \<or> q = 254" by arith
  with pq consider "1024 \<le> p" | "p = 1020" | "p + 12 \<le> 1020" | "p = 1012 \<or> p = 1016" by fastforce
  then show ?case
  proof cases
    case 1
    then show ?thesis by (subst dir_walk.simps) simp
  next
    case 2
    then show ?thesis using less.prems(1) by (subst dir_walk.simps) (simp add: aget_def)
  next
    case 3
    have z: "get32 buf p = 0" "aget buf (int p + 6) = Ret 0"
      using 3 less.prems(1,2) aget_in[of "p + 6" buf] by (simp_all add: get32_def le32_def)
    have "(1020 - p) mod 12 = (1020 - (p + 12)) mod 12"
      using 3 mod_add_self2[of "1020 - (p + 12)" 12] by (simp add: le_diff_conv)
    then show ?thesis
      using 3 less.prems z ino m4 less.hyps[of "p + 12"] by (subst dir_walk.simps) (simp add: entry_step_def)
  next
    case 4
    have z: "get32 buf p = 0" "aget buf (int p + 6) = Ret 0"
      using 4 less.prems(1,2) aget_in[of "p + 6" buf] by (auto simp: get32_def le32_def)
    then show ?thesis
      using 4 less.prems(1) ino less.hyps[of "p + 12"] by (subst dir_walk.simps) (auto simp: entry_step_def)
  qed
qed

lemma pad4: "((n::nat) + (4 - n mod 4) mod 4) mod 4 = 0"
proof -
  have "n mod 4 = 0 \<or> n mod 4 = 1 \<or> n mod 4 = 2 \<or> n mod 4 = 3" by arith
  then show ?thesis by (elim disjE; simp; presburger)
qed

lemma entries_bytes_mod: "\<forall>e\<in>set es. entry_ok e \<Longrightarrow> length (entries_bytes es) mod 4 = 0"
proof (induction es)
  case Nil
  then show ?case by (simp add: entries_bytes_def)
next
  case (Cons e es)
  obtain no rl ft name where e: "e = (no, rl, ft, name)" by (cases e)
  have "length (entry_bytes e) = length name + (4 - length name mod 4) mod 4 + 4 * 2" by (simp add: e entry_bytes_def)
  then have "length (entry_bytes e) mod 4 = 0" using pad4[of "length name"] by (simp only: mod_mult_self2)
  moreover have "length (entries_bytes (e # es)) = length (entry_bytes e) + length (entries_bytes es)"
    by (simp add: entries_bytes_def)
  ultimately show ?case using Cons by (metis add.right_neutral list.set_intros(2) mod_add_eq mod_0)
qed

lemma dir_walk_packed:
  assumes ok: "\<forall>e\<in>set es. entry_ok e" and len: "length (entries_bytes es) \<le> 1024" "length nm = 255"
    and ino: "ino \<noteq> 0"
  shows "dir_walk (dir_block es) ino nm 0 =
           (case entry_name es ino of
              Some name \<Rightarrow> Ret (Some (name @ drop (length name) nm))
            | None \<Rightarrow> if length (entries_bytes es) < 1024 \<and> (1020 - length (entries_bytes es)) mod 12 = 0
                      then Undef ''array read'' else Ret None)"
proof -
  have "dir_walk (dir_block es) ino nm (length (entries_bytes es)) =
      (if length (entries_bytes es) < 1024 \<and> (1020 - length (entries_bytes es)) mod 12 = 0
       then Undef ''array read'' else Ret None)"
    using len entries_bytes_mod[OF ok] ino by (intro dir_walk_zeros) (auto simp: dir_block_def nth_append)
  then show ?thesis
    using dir_walk_entries[OF ok, of "[]" "replicate (1024 - length (entries_bytes es)) 0" nm ino] len
    by (cases "entry_name es ino") (simp_all add: dir_block_def)
qed

text \<open>After a name of eight, twelve, ... bytes the step of the walk is four bytes too long.\<close>

lemma dir_walk_overshoots:
  assumes ok: "\<forall>e\<in>set es. entry_ok e" and nm: "length nm = 255"
    and h: "length (entries_bytes (es @ (no, rl, ft, name) # rest)) \<le> 1024 \<and> entry_name es ino = None \<and>
      sint no \<noteq> ino \<and> length name < 256 \<and> length name mod 4 = 0 \<and> length name \<noteq> 4"
  shows "dir_walk (dir_block (es @ (no, rl, ft, name) # rest)) ino nm 0 =
         dir_walk (dir_block (es @ (no, rl, ft, name) # rest)) ino nm (length (entries_bytes (es @ [(no, rl, ft, name)])) + 4)"
proof -
  let ?b = "dir_block (es @ (no, rl, ft, name) # rest)" and ?p = "length (entries_bytes es)"
  define post where "post = entries_bytes rest @
      replicate (1024 - length (entries_bytes (es @ (no, rl, ft, name) # rest))) 0"
  have b: "?b = entries_bytes es @ entry_bytes (no, rl, ft, name) @ post"
    by (simp add: dir_block_def post_def) (simp add: entries_bytes_def)
  have len: "length ?b = 1024" using h by (simp add: dir_block_def)
  have el: "length (entry_bytes (no, rl, ft, name)) = 8 + length name" using h by (simp add: entry_bytes_def)
  have p: "?p + 8 \<le> 1024" using len el by (simp add: b)
  have "dir_walk ?b ino nm 0 = dir_walk ?b ino nm ?p"
    using dir_walk_entries[OF ok, of "[]" "entry_bytes (no, rl, ft, name) @ post" nm ino] len nm h by (simp add: b)
  also have "\<dots> = dir_walk ?b ino nm (?p + entry_step (length name))"
  proof -
    have "aget ?b (int ?p + 6) = Ret (of_nat (length name))"
      using p len aget_in[of "?p + 6" ?b] by (simp add: b entry_bytes_def nth_append)
    moreover have "get32 ?b ?p = no" unfolding b by (rule get32_entry)
    moreover have "unat (of_nat (length name) :: u8) = length name" using h by (simp add: unat_of_nat)
    ultimately show ?thesis using p len h by (subst dir_walk.simps) simp
  qed
  also have "?p + entry_step (length name) = length (entries_bytes (es @ [(no, rl, ft, name)])) + 4"
    using h el by (simp add: entries_bytes_def entry_step_def)
  finally show ?thesis .
qed

end
