(* ===== verification/Recovery.thy ===== *)
theory Recovery
  imports Runscan
begin

text \<open>
  What \<open>runscan\<close> recovers as a whole: one round of its scan, the scan of all inodes, and the program on an image,
  against the list of the pictures the image holds. The streams are those of the regular files whose first block
  starts like a JPEG, in the order of the inodes.
\<close>

section \<open>The pictures of an image\<close>

definition slot_offset :: "globals \<Rightarrow> ext2_group_desc \<Rightarrow> ext2_super_block \<Rightarrow> int \<times> int \<Rightarrow> nat" where
  "slot_offset g gd super = (\<lambda>(ngroup, idx).
     nat (locate_inode_table g ngroup gd + idx * uint (s_inode_size super)))"

definition slot_inode :: "u8 list \<Rightarrow> globals \<Rightarrow> ext2_group_desc \<Rightarrow> ext2_super_block \<Rightarrow> int \<times> int \<Rightarrow> ext2_inode" where
  "slot_inode im g gd super sl = inode_at (take 128 (drop (slot_offset g gd super sl) im))"

definition is_picture :: "u8 list \<Rightarrow> ext2_inode \<Rightarrow> bool" where
  "is_picture im ino \<longleftrightarrow> S_ISREG (i_mode ino) \<and> is_jpg (ext2_block im (i_block ino ! 0))"

text \<open>The name that the search leaves in a fresh array, up to its first NUL.\<close>

definition found_name ::
  "(nat \<Rightarrow> u8) \<Rightarrow> (nat \<Rightarrow> u8) \<Rightarrow> u8 list \<Rightarrow> globals \<Rightarrow> int \<Rightarrow> ext2_group_desc \<Rightarrow> ext2_super_block \<Rightarrow> int \<Rightarrow> u8 list outcome"
where
  "found_name stk heap im g n gd super no =
     bindO (name_search stk g n gd super no \<lparr>image = im, position = 0\<rparr> (uninit heap EXT2_NAME_LEN))
       (\<lambda>(d, nm). c_string nm)"

definition picture_streams :: "u8 list \<Rightarrow> u8 list \<Rightarrow> u8 list \<Rightarrow> int \<Rightarrow> ext2_inode \<Rightarrow> stream list" where
  "picture_streams im dir name no ino =
     [(dir @ cstr ''/file-'' @ sprintf_d no @ cstr ''.jpg'', recovered im ino),
      (dir @ cstr ''/'' @ name, recovered im ino),
      (dir @ cstr ''/file-'' @ sprintf_d no @ cstr ''-details.txt'', write_detail ino)]"

text \<open>
  A slot the scan can deal with: its inode lies in the image, a regular file has its first block there, and a
  picture is laid out as the copy relies on and has a number of at most nine digits.
\<close>

definition slot_ok ::
  "u8 list \<Rightarrow> globals \<Rightarrow> ext2_group_desc \<Rightarrow> ext2_super_block \<Rightarrow> int \<Rightarrow> int \<times> int \<Rightarrow> bool"
where
  "slot_ok im g gd super no sl \<longleftrightarrow>
     0 \<le> snd sl \<and> snd sl < 2147483648 \<and> snd sl * uint (s_inode_size super) < 2147483648 \<and>
     slot_offset g gd super sl + 128 \<le> length im \<and>
     (let ino = slot_inode im g gd super sl in
      (S_ISREG (i_mode ino) \<longrightarrow> in_image im (i_block ino ! 0)) \<and>
      (is_picture im ino \<longrightarrow> laid_out im ino \<and> length (sprintf_d no) < 10))"

text \<open>
  The streams of a slot: none, or those of its picture when the search ends with a name and its path fits. The
  program stops at the first slot for which one of them does not hold.
\<close>

definition slot_streams ::
  "(nat \<Rightarrow> u8) \<Rightarrow> (nat \<Rightarrow> u8) \<Rightarrow> u8 list \<Rightarrow> u8 list \<Rightarrow> globals \<Rightarrow> int \<Rightarrow> ext2_group_desc \<Rightarrow> ext2_super_block \<Rightarrow>
   int \<Rightarrow> int \<times> int \<Rightarrow> stream list outcome"
where
  "slot_streams stk heap im dir g n gd super no sl =
     (let ino = slot_inode im g gd super sl in
      if is_picture im ino
      then bindO (found_name stk heap im g n gd super no) (\<lambda>name.
        if length dir + length name < 254 then Ret (picture_streams im dir name no ino) else Undef ''array write'')
      else Ret [])"

primrec collect :: "'a list outcome list \<Rightarrow> 'a list outcome" where
  "collect [] = Ret []"
| "collect (r # rs) = bindO r (\<lambda>fs. bindO (collect rs) (\<lambda>rest. Ret (fs @ rest)))"

section \<open>One round\<close>

lemma lseek_same: "image (d::disk) = image d' \<Longrightarrow> 0 \<le> off \<Longrightarrow> lseek d off = lseek d' off"
  by (cases d; cases d') (simp add: lseek_def)

lemma read_inode_same:
  assumes "image (d::disk) = image d'" and "0 \<le> off" and "0 \<le> idx"
  shows "read_inode d off (idx + 1) ib isz = read_inode d' off (idx + 1) ib isz"
  using lseek_same[OF assms(1), of "off + idx * uint isz"] assms(2,3) by (simp add: read_inode_def cint_def)

lemma read_fd_image: "read_fd d buf n = (d', buf') \<Longrightarrow> image d' = image d"
  by (auto simp: read_fd_def Let_def)

lemma lseek_image [simp]: "image (lseek d off) = image d"
  by (simp add: lseek_def)

lemma read_inode_image: "read_inode d off no ib isz = Ret (d', ib') \<Longrightarrow> image d' = image d"
  by (auto simp: read_inode_def dest: read_fd_image)

lemma search_slots_image:
  "search_slots stk g gd super ino slots d ib nm = Ret (e, nm') \<Longrightarrow> image e = image d"
proof (induction slots arbitrary: d ib)
  case Nil
  then show ?case by simp
next
  case (Cons sl slots)
  obtain ng idx where sl: "sl = (ng, idx)" by (cases sl)
  from Cons.prems obtain d1 ib1 where
    r: "read_inode d (locate_inode_table g ng gd) (idx + 1) ib (s_inode_size super) = Ret (d1, ib1)" by (auto simp: sl)
  obtain d2 buf where f: "read_fd (lseek d1 (uint (i_block (inode_at ib1) ! 0 * block_size g)))
      (uninit stk 1024) (unat (block_size g)) = (d2, buf)" by force
  have i: "image d1 = image d" "image d2 = image d" using read_inode_image[OF r] read_fd_image[OF f] by simp_all
  show ?case
  proof (cases "S_ISDIR (i_mode (inode_at ib1))")
    case True
    then obtain w where "dir_walk buf ino nm 0 = Ret w"
      "(case w of Some nm2 \<Rightarrow> Ret (d2, nm2) | None \<Rightarrow> search_slots stk g gd super ino slots d2 ib1 nm) = Ret (e, nm')"
      using Cons.prems by (auto simp: sl r f split: if_splits)
    then show ?thesis using Cons.IH[of d2 ib1] i by (cases w) simp_all
  next
    case False
    then have "search_slots stk g gd super ino slots d1 ib1 nm = Ret (e, nm')" using Cons.prems by (simp add: sl r)
    then show ?thesis using Cons.IH[of d1 ib1] i by simp
  qed
qed

text \<open>The search for a name does not depend on the position it starts from.\<close>

lemma search_slots_same:
  assumes "image d = image d'" and "\<forall>sl\<in>set slots. 0 \<le> snd sl" and "slots \<noteq> []"
  shows "search_slots stk g gd super ino slots d ib nm = search_slots stk g gd super ino slots d' ib nm"
proof -
  obtain ng idx rest where slots: "slots = (ng, idx) # rest" using assms(3) by (cases slots) auto
  have "0 \<le> locate_inode_table g ng gd" "0 \<le> idx" using assms(2) by (simp_all add: slots locate_inode_table_def)
  then show ?thesis unfolding slots search_slots.simps by (simp only: read_inode_same[OF assms(1)])
qed

lemma inode_slots_nonneg: "sl \<in> set (inode_slots n m) \<Longrightarrow> 0 \<le> snd sl"
  by (auto simp: inode_slots_def)

lemma found_name_at:
  assumes "image d = im"
  shows "\<exists>d'. image d' = im \<and>
    bindO (name_search stk g n gd super no d (uninit heap EXT2_NAME_LEN)) (\<lambda>(e, nm). bindO (c_string nm) (K e)) =
    bindO (found_name stk heap im g n gd super no) (K d')"
proof (cases "inode_slots n (sint (s_inodes_per_group super) + 1) = []")
  case True
  then show ?thesis using assms by (intro exI[of _ d]) (simp add: found_name_def name_search_def)
next
  case False
  let ?r = "name_search stk g n gd super no d (uninit heap EXT2_NAME_LEN)"
  have "?r = name_search stk g n gd super no \<lparr>image = im, position = 0\<rparr> (uninit heap EXT2_NAME_LEN)"
    unfolding name_search_def using assms inode_slots_nonneg by (intro search_slots_same[OF _ _ False]) auto
  then have f: "found_name stk heap im g n gd super no = bindO ?r (\<lambda>(d, nm). c_string nm)"
    by (simp add: found_name_def)
  show ?thesis
  proof (cases ?r)
    case (Ret x)
    then have "image (fst x) = im" using search_slots_image[of stk g gd super no _ d _ _ "fst x" "snd x"] assms
      by (simp add: name_search_def)
    then show ?thesis using Ret f by (intro exI[of _ "fst x"]) (simp add: case_prod_beta)
  qed (use f assms in auto)
qed

lemma cstr_length [simp]: "length (cstr s) = length s"
  by (simp add: cstr_def)

text \<open>A picture is recovered into its three streams.\<close>

lemma recover_streams:
  assumes im: "image d = im" and bs: "block_size g = 1024" and lo: "laid_out im ino"
    and no: "length (sprintf_d no) < 10" and len: "length dir \<le> 226"
  shows "\<exists>d'. recover stk heap (\<lambda>_. True) dir g n gd super no ino d =
            bindO (found_name stk heap im g n gd super no) (\<lambda>name.
              if length dir + length name < 254 then Ret (Inr (d', picture_streams im dir name no ino))
              else Undef ''array write'') \<and> image d' = im"
proof -
  define K where "K d1 s =
      (if length dir + length s < 254
       then (let c1 = data_copy stk heap 1024 d1 ino; c2 = data_copy stk heap 1024 (disk.truncate c1) ino
             in Ret (Inr (disk.truncate c2,
               [(dir @ cstr ''/file-'' @ sprintf_d no @ cstr ''.jpg'', fp c1), (dir @ cstr ''/'' @ s, fp c2),
                (dir @ cstr ''/file-'' @ sprintf_d no @ cstr ''-details.txt'', write_detail ino)])))
       else Undef ''array write'' :: (stream list + disk \<times> stream list) outcome)" for d1 s
  have p: "path_of [dir, cstr ''/file-'', sprintf_d no, cstr ''.jpg''] = Ret (dir @ cstr ''/file-'' @ sprintf_d no @ cstr ''.jpg'')"
    "path_of [dir, cstr ''/file-'', sprintf_d no, cstr ''-details.txt''] =
       Ret (dir @ cstr ''/file-'' @ sprintf_d no @ cstr ''-details.txt'')"
    "path_of [dir, cstr ''/'', s] = (if length dir + length s < 254 then Ret (dir @ cstr ''/'' @ s) else Undef ''array write'')" for s
    using no len by (simp_all add: path_of_def EXT2_NAME_LEN_def)
  have run: "recover stk heap (\<lambda>_. True) dir g n gd super no ino d =
      bindO (name_search stk g n gd super no d (uninit heap EXT2_NAME_LEN)) (\<lambda>(e, nm). bindO (c_string nm) (K e))"
    using no by (simp add: recover_def p bs Let_def) (intro bindO_cong refl; auto simp: K_def Let_def split: if_splits intro!: bindO_cong)
  obtain d1 where d1: "image d1 = im"
    "recover stk heap (\<lambda>_. True) dir g n gd super no ino d = bindO (found_name stk heap im g n gd super no) (K d1)"
    using found_name_at[OF im] unfolding run by blast
  define c1 where "c1 = data_copy stk heap 1024 d1 ino"
  define c2 where "c2 = data_copy stk heap 1024 (disk.truncate c1) ino"
  have c1: "fp c1 = recovered im ino" "image c1 = im"
    using data_copy_recovered[of d1 ino stk heap] lo d1(1) by (simp_all add: c1_def)
  have t: "image (disk.truncate c1) = im" using c1(2) by (simp add: disk.truncate_def)
  have c2: "fp c2 = recovered im ino" "image c2 = im"
    using data_copy_recovered[of "disk.truncate c1" ino stk heap] lo t by (simp_all add: c2_def)
  have "K d1 = (\<lambda>name. if length dir + length name < 254
      then Ret (Inr (disk.truncate c2, picture_streams im dir name no ino)) else Undef ''array write'')"
    using c1(1) c2(1) by (intro ext) (simp add: K_def picture_streams_def Let_def flip: c1_def c2_def)
  then show ?thesis using d1(2) c2(2) by (intro exI[of _ "disk.truncate c2"]) (simp add: disk.truncate_def)
qed

text \<open>One round of the scan finds the inode and its picture.\<close>

lemma read_fd_whole:
  "position d + n \<le> length (image d) \<Longrightarrow> length buf = n \<Longrightarrow>
   read_fd d buf n = (d\<lparr>position := position d + n\<rparr>, take n (drop (position d) (image d)))"
  by (simp add: read_fd_def)

lemma read_slot:
  assumes ok: "slot_ok im g gd super no (ng, idx)" and im: "image d = im" and ib: "length ib = 128"
  obtains d1 ib1 where "read_inode d (locate_inode_table g ng gd) (idx + 1) ib (s_inode_size super) = Ret (d1, ib1)"
    "image d1 = im" "length ib1 = 128" "inode_at ib1 = slot_inode im g gd super (ng, idx)"
proof -
  let ?o = "locate_inode_table g ng gd + idx * uint (s_inode_size super)"
  have pos: "0 \<le> ?o" using ok by (simp add: slot_ok_def locate_inode_table_def)
  have "cint idx = Ret idx" "cint (idx * uint (s_inode_size super)) = Ret (idx * uint (s_inode_size super))"
    using ok by (auto simp: slot_ok_def cint_def intro: order_trans[of _ 0])
  then have "read_inode d (locate_inode_table g ng gd) (idx + 1) ib (s_inode_size super) = Ret (read_fd (lseek d ?o) ib 128)"
    by (simp add: read_inode_def)
  moreover have "read_fd (lseek d ?o) ib 128 = ((lseek d ?o)\<lparr>position := nat ?o + 128\<rparr>, take 128 (drop (nat ?o) im))"
    using read_fd_whole[of "lseek d ?o" 128 ib] pos ok im ib by (simp add: lseek_def slot_ok_def slot_offset_def)
  moreover have "length (take 128 (drop (nat ?o) im)) = 128"
    using ok by (simp add: slot_ok_def slot_offset_def del: nat_add_distrib) linarith
  ultimately show ?thesis
    using that[of "(lseek d ?o)\<lparr>position := nat ?o + 128\<rparr>" "take 128 (drop (nat ?o) im)"] im
    by (simp only: slot_inode_def slot_offset_def prod.case) simp
qed

lemma scan_inode_streams:
  assumes ok: "slot_ok im g gd super no sl" and bs: "block_size g = 1024"
    and len: "length im \<le> 4294967296" "length dir \<le> 226"
    and st: "image d = im" "length ib = 128" "length buf = 1024"
  shows "\<exists>d' ib' buf'. scan_inode stk heap (\<lambda>_. True) dir g n gd super sl no (d, ib, buf) =
           bindO (slot_streams stk heap im dir g n gd super no sl) (\<lambda>fs. Ret (Inr ((d', ib', buf'), fs))) \<and>
           image d' = im \<and> length ib' = 128 \<and> length buf' = 1024"
proof -
  obtain ng idx where sl: "sl = (ng, idx)" by (cases sl)
  define ino where "ino = slot_inode im g gd super sl"
  obtain d1 ib1 where r: "read_inode d (locate_inode_table g ng gd) (idx + 1) ib (s_inode_size super) = Ret (d1, ib1)"
    "image d1 = im" "length ib1 = 128" "inode_at ib1 = ino"
    using read_slot[OF ok[unfolded sl] st(1,2)] unfolding ino_def sl by metis
  have ss: "slot_streams stk heap im dir g n gd super no sl =
      (if is_picture im ino
       then bindO (found_name stk heap im g n gd super no) (\<lambda>name.
         if length dir + length name < 254 then Ret (picture_streams im dir name no ino) else Undef ''array write'')
       else Ret [])"
    by (simp add: slot_streams_def Let_def flip: ino_def)
  show ?thesis
  proof (cases "S_ISREG (i_mode ino)")
    case False
    then show ?thesis using r st by (simp add: scan_inode_def sl ss[unfolded sl] is_picture_def)
  next
    case True
    let ?b = "i_block ino ! 0"
    have b: "in_image im ?b" using ok True by (simp add: slot_ok_def ino_def Let_def)
    have f: "read_fd (lseek d1 (uint (?b * 1024))) buf 1024 =
        ((lseek d1 (uint (?b * 1024)))\<lparr>position := unat ?b * 1024 + 1024\<rparr>, ext2_block im ?b)"
      using read_fd_whole[of "lseek d1 (uint (?b * 1024))" 1024 buf] block_start[OF b len(1)] b r(2) st(3)
      by (simp add: lseek_def in_image_def ext2_block_def)
    define d2 where "d2 = (lseek d1 (uint (?b * 1024)))\<lparr>position := unat ?b * 1024 + 1024\<rparr>"
    have d2: "image d2 = im" "length (ext2_block im ?b) = 1024"
      using r(2) b by (simp_all add: d2_def ext2_block_def in_image_def)
    show ?thesis
    proof (cases "is_jpg (ext2_block im ?b)")
      case False
      then show ?thesis using r True d2
        by (simp add: scan_inode_def sl ss[unfolded sl] is_picture_def f flip: d2_def)
    next
      case jpg: True
      then have "is_picture im ino" using True by (simp add: is_picture_def)
      then have lo: "laid_out im ino" "length (sprintf_d no) < 10"
        using ok by (simp_all add: slot_ok_def Let_def flip: ino_def)
      obtain d3 where "recover stk heap (\<lambda>_. True) dir g n gd super no ino d2 =
          bindO (found_name stk heap im g n gd super no) (\<lambda>name.
            if length dir + length name < 254 then Ret (Inr (d3, picture_streams im dir name no ino))
            else Undef ''array write'')" "image d3 = im"
        using recover_streams[OF d2(1) bs lo len(2)] by blast
      then show ?thesis using r True d2 jpg
        by (intro exI[of _ d3] exI[of _ ib1] exI[of _ "ext2_block im ?b"])
          (simp add: scan_inode_def sl ss[unfolded sl] is_picture_def f bindO_assoc if_distrib[of "\<lambda>m. bindO m _"]
            cong: if_cong flip: d2_def)
    qed
  qed
qed

section \<open>The whole scan\<close>

lemma scan_slots_streams:
  assumes bs: "block_size g = 1024" and len: "length im \<le> 4294967296" "length dir \<le> 226"
  shows "(\<And>i. i < length slots \<Longrightarrow> slot_ok im g gd super (int (k + i)) (slots ! i)) \<Longrightarrow>
         k + length slots < 2147483648 \<Longrightarrow> image d = im \<Longrightarrow> length ib = 128 \<Longrightarrow> length buf = 1024 \<Longrightarrow>
         scan_slots stk heap (\<lambda>_. True) dir g n gd super slots (int k) (d, ib, buf) =
           bindO (collect (map (\<lambda>(i, sl). slot_streams stk heap im dir g n gd super (int i) sl) (enumerate k slots)))
             (\<lambda>fs. Ret (0, fs))"
proof (induction slots arbitrary: k d ib buf)
  case Nil
  then show ?case by simp
next
  case (Cons sl slots)
  have "slot_ok im g gd super (int k) sl" using Cons.prems(1)[of 0] by simp
  from scan_inode_streams[OF this bs len Cons.prems(3-5)] obtain d' ib' buf' where
    r: "scan_inode stk heap (\<lambda>_. True) dir g n gd super sl (int k) (d, ib, buf) =
         bindO (slot_streams stk heap im dir g n gd super (int k) sl) (\<lambda>fs. Ret (Inr ((d', ib', buf'), fs)))"
      "image d' = im" "length ib' = 128" "length buf' = 1024" by blast
  have c: "cint (int k + 1) = Ret (int (Suc k))" using Cons.prems(2) by (simp add: cint_def)
  have "scan_slots stk heap (\<lambda>_. True) dir g n gd super slots (int (Suc k)) (d', ib', buf') =
      bindO (collect (map (\<lambda>(i, sl). slot_streams stk heap im dir g n gd super (int i) sl) (enumerate (Suc k) slots)))
        (\<lambda>fs. Ret (0, fs))"
    using Cons.prems(1)[of "Suc _"] Cons.prems(2) r by (intro Cons.IH) simp_all
  then show ?case
    by (simp only: scan_slots.simps r(1) c bindO_simps bindO_assoc sum.case prod.case enumerate_simps list.map collect.simps)
qed

text \<open>
  An image the program reads right: its super block has the magic number and blocks of 1024 bytes, and each
  inode is one the scan can deal with.
\<close>

definition image_super :: "u8 list \<Rightarrow> ext2_super_block" where
  "image_super im = super_at (take 1024 (drop 1024 im))"

definition image_group :: "u8 list \<Rightarrow> ext2_group_desc" where
  "image_group im = group_at (take 32 (drop 2048 im))"

definition image_globals :: "u8 list \<Rightarrow> globals" where
  "image_globals im =
     (let s = image_super im in
      \<lparr> block_size = 1024, inodes_per_block = 8, itable_blocks = s_inodes_per_group s div 8,
        blocks_per_group = s_blocks_per_group s,
        num_groups = (s_blocks_count s + s_blocks_per_group s - 1) div s_blocks_per_group s,
        inodes_per_group = s_inodes_per_group s \<rparr>)"

definition image_slots :: "u8 list \<Rightarrow> (int \<times> int) list" where
  "image_slots im = inode_slots (sint (num_groups (image_globals im))) (sint (s_inodes_per_group (image_super im)))"

definition scannable :: "u8 list \<Rightarrow> u8 list \<Rightarrow> bool" where
  "scannable dir im \<longleftrightarrow>
     2080 \<le> length im \<and> length im \<le> 4294967296 \<and> length dir \<le> 226 \<and>
     s_magic (image_super im) = EXT2_SUPER_MAGIC \<and> s_log_block_size (image_super im) = 0 \<and>
     s_blocks_per_group (image_super im) \<noteq> 0 \<and> length (image_slots im) < 2147483647 \<and>
     (\<forall>i<length (image_slots im).
        slot_ok im (image_globals im) (image_group im) (image_super im) (int (Suc i)) (image_slots im ! i))"

lemma runscan_reads_headers:
  assumes "2080 \<le> length im" and "s_magic (image_super im) = EXT2_SUPER_MAGIC"
    and "s_log_block_size (image_super im) = 0" and "s_blocks_per_group (image_super im) \<noteq> 0"
  shows "\<exists>p. runscan stk heap (\<lambda>_. True) fopen (\<lambda>_. Some im) [prog, path, dir] =
           scan_slots stk heap fopen dir (image_globals im) (sint (num_groups (image_globals im))) (image_group im)
             (image_super im) (image_slots im) 1 (\<lparr>image = im, position = p\<rparr>, uninit stk 128, uninit stk 1024)"
proof -
  let ?d = "\<lparr>image = im, position = 2048\<rparr>"
  have sh: "shifted_block_size 0 = Ret 1024" by (simp add: shifted_block_size_def)
  have rd: "read_fd \<lparr>image = im, position = p\<rparr> (uninit stk n) n = (\<lparr>image = im, position = p + n\<rparr>, take n (drop p im))"
    if "p + n \<le> length im" for p n
    using read_fd_whole[of "\<lparr>image = im, position = p\<rparr>" n "uninit stk n"] that by (simp add: uninit_def)
  have i: "ext2_read_init stk \<lparr>image = im, position = 0\<rparr> = Ret (Inr (?d, image_globals im))"
    using assms rd[of 1024 1024]
    by (simp add: ext2_read_init_def lseek_def BASE_OFFSET_def sh image_globals_def Let_def flip: image_super_def)
  have s: "read_super_block (image_globals im) ?d 0 (uninit stk 1024) =
      Ret (Inr (0, ?d, image_globals im, take 1024 (drop 1024 im)))"
    using assms rd[of 1024 1024]
    by (simp add: read_super_block_def has_super_copy_def lseek_def BASE_OFFSET_def BLOCK_OFFSET_def sh Let_def
        image_globals_def flip: image_super_def)
  have g: "read_group_desc (image_globals im) ?d 0 (uninit stk 32) =
      Ret (\<lparr>image = im, position = 2080\<rparr>, take 32 (drop 2048 im))"
    using assms(1) rd[of 2048 32]
    by (simp add: read_group_desc_def lseek_def BASE_OFFSET_def BLOCK_OFFSET_def image_globals_def Let_def)
  have n: "blocks_per_group (image_globals im) = s_blocks_per_group (image_super im)"
    "(s_blocks_count (image_super im) + s_blocks_per_group (image_super im) - 1) div s_blocks_per_group (image_super im) =
     num_groups (image_globals im)"
    by (simp_all add: image_globals_def Let_def)
  show ?thesis
    using assms(4)
    by (intro exI[of _ 2080]) (simp add: runscan_def i s g n image_slots_def Let_def flip: image_super_def image_group_def)
qed

section \<open>Properties\<close>

text \<open>
  C8. The program on an image with blocks of 1024 bytes in which the headers, every inode and the first block of
  every regular file lie, and whose pictures are laid out in adjacent runs as the copy relies on, with numbers of at most nine
  digits; the name of the output directory has at most 226 bytes, and the directory and all streams can be
  created. For each picture, in the order of the inodes, it writes three streams: the
  recovered bytes under the number of the inode and under the name its search in the directories finds, and the links, the size
  and the owner. It writes nothing for other inodes, and exits with status 0. At the first picture for which
  the search reads past its array or finds a name whose path does not fit, its behaviour is undefined.
\<close>

theorem runscan_recovers_pictures:
  assumes "scannable dir im"
  shows "runscan stk heap (\<lambda>_. True) (\<lambda>_. True) (\<lambda>_. Some im) [prog, path, dir] =
    bindO (collect (map
      (\<lambda>(no, sl). slot_streams stk heap im dir (image_globals im) (sint (num_groups (image_globals im)))
          (image_group im) (image_super im) (int no) sl)
      (enumerate 1 (image_slots im)))) (\<lambda>streams. Ret (0, streams))"
proof -
  obtain p where r: "runscan stk heap (\<lambda>_. True) (\<lambda>_. True) (\<lambda>_. Some im) [prog, path, dir] =
      scan_slots stk heap (\<lambda>_. True) dir (image_globals im) (sint (num_groups (image_globals im))) (image_group im)
        (image_super im) (image_slots im) 1 (\<lparr>image = im, position = p\<rparr>, uninit stk 128, uninit stk 1024)"
    using runscan_reads_headers[of im stk heap "\<lambda>_. True" prog path dir] assms by (auto simp: scannable_def)
  have "block_size (image_globals im) = 1024" by (simp add: image_globals_def Let_def)
  from scan_slots_streams[OF this, of im dir "image_slots im" "image_group im" "image_super im" 1 "\<lparr>image = im, position = p\<rparr>" "uninit stk 128" "uninit stk 1024"
      stk heap "sint (num_groups (image_globals im))"] assms
  show ?thesis unfolding r by (simp add: scannable_def uninit_def)
qed

text \<open>
  C7. Copying a file of up to 65804 blocks whose runs are adjacent on the disk writes exactly its bytes, as many as
  its size, from the direct, the indirect and the doubly indirect blocks; but if the whole blocks are exactly
  12 or 268, the rest of the last block is lost.
\<close>

theorem data_copy_recovers_file:
  assumes "laid_out (image d) ino"
  shows "length (file_bytes (image d) ino) = unat (i_size ino) \<and>
    fp (data_copy stk heap 1024 d ino) =
      (if full_blocks ino = 12 \<or> full_blocks ino = 268
       then take (1024 * full_blocks ino) (file_bytes (image d) ino) else file_bytes (image d) ino)"
  using data_copy_recovered(1)[OF assms, of stk heap] file_bytes_length[OF assms]
  by (simp add: recovered_def file_bytes_def)

text \<open>
  For a file of one to eleven whole blocks and a rest, the copy never looks at the block that holds the rest: it
  writes the bytes that follow the last whole block on the disk, whatever block they belong to.
\<close>

theorem data_copy_ignores_last_block:
  assumes "1 \<le> full_blocks ino" and "full_blocks ino < 12" and "length (i_block ino) = 15"
    and "length (image d) \<le> 4294967296"
    and "\<forall>k<full_blocks ino. in_image (image d) (i_block ino ! k)"
    and "in_image (image d) (i_block ino ! (full_blocks ino - 1) + 1)"
  shows "fp (data_copy stk heap 1024 d ino) =
    concat (map (ext2_block (image d)) (take (full_blocks ino) (i_block ino))) @
    take (tail_bytes ino) (ext2_block (image d) (i_block ino ! (full_blocks ino - 1) + 1))"
proof -
  let ?q = "full_blocks ino" and ?im = "image d"
  let ?c = "\<lparr> image = image d, position = position d, data_buf = uninit stk 1024, fp = [] \<rparr>"
  have "in_image ?im b" if "b \<in> set (take ?q (i_block ino))" for b
    using that assms(2,3,5) by (auto simp: in_set_conv_nth)
  moreover have "copier_at ?im (position d) [] ?c" by (simp add: copier_at_def)
  moreover have ne: "take ?q (i_block ino) \<noteq> []" using assms(1,3) by auto
  moreover have "last (take ?q (i_block ino)) = i_block ino ! (?q - 1)"
    using assms(1-3) by (simp add: last_conv_nth[OF ne] min_def)
  ultimately have c: "copier_at ?im ((unat (i_block ino ! (?q - 1)) + 1) * 1024)
      (concat (map (ext2_block ?im) (take ?q (i_block ino)))) (copy_direct 1024 (take ?q (i_block ino)) ?c)"
    using copier_at_direct[of ?im "position d" "[]" ?c "take ?q (i_block ino)"] assms(4) by auto
  have e: "in_image ?im (i_block ino ! (?q - 1))" using assms(1,5) by simp
  then have u: "unat (i_block ino ! (?q - 1) + 1) = unat (i_block ino ! (?q - 1)) + 1"
    using assms(4) by (intro u32_plus_1) (simp add: in_image_def)
  have r: "tail_bytes ino < 1024" by (simp add: tail_bytes_def)
  have "(unat (i_block ino ! (?q - 1)) + 1) * 1024 + tail_bytes ino \<le> length ?im"
    using assms(6) r u by (simp add: in_image_def)
  from copier_at_chunk[OF c this] r show ?thesis
    using assms(1,2) u unfolding data_copy_phases
    by (simp add: phase_direct_def phase_indirect_def phase_double_def copier_at_def ext2_block_def min_def)
qed

text \<open>
  C36. On a block of packed directory entries whose names have a length of four or one that is not a multiple of four,
  the walk copies the name of the first entry with the number, also of a
  deleted entry. Without such an entry it passes the zeros at the end in steps of twelve, and when a step falls on the last four
  bytes of the block it reads past the array; otherwise it ends without a name. But after an entry whose name has any other
  length that is a multiple of four, the walk goes on four bytes past the start of the next entry.
\<close>

theorem directory_walk_finds_names:
  assumes "\<forall>e\<in>set es. entry_ok e" and "length nm = 255" and "ino \<noteq> 0"
  shows "(length (entries_bytes es) \<le> 1024 \<longrightarrow>
     dir_walk (dir_block es) ino nm 0 =
       (case entry_name es ino of
          Some name \<Rightarrow> Ret (Some (name @ drop (length name) nm))
        | None \<Rightarrow> if length (entries_bytes es) < 1024 \<and> (1020 - length (entries_bytes es)) mod 12 = 0
                  then Undef ''array read'' else Ret None)) \<and>
    (\<forall>no rec_len ftype name rest.
       length (entries_bytes (es @ (no, rec_len, ftype, name) # rest)) \<le> 1024 \<and> entry_name es ino = None \<and>
       sint no \<noteq> ino \<and> length name < 256 \<and> length name mod 4 = 0 \<and> length name \<noteq> 4 \<longrightarrow>
       dir_walk (dir_block (es @ (no, rec_len, ftype, name) # rest)) ino nm 0 =
       dir_walk (dir_block (es @ (no, rec_len, ftype, name) # rest)) ino nm
         (length (entries_bytes (es @ [(no, rec_len, ftype, name)])) + 4))"
  by (intro conjI impI allI; rule dir_walk_packed[OF assms(1) _ assms(2,3)] dir_walk_overshoots[OF assms(1,2)])

section \<open>Witnesses\<close>

text \<open>An image with one picture of four bytes, inode 1, named \<open>a\<close> in the directory of inode 2.\<close>

definition demo_byte :: "nat \<Rightarrow> u8" where
  "demo_byte i = (case map_of
     [(1028, 6), (1056, 8), (1064, 1), (1080, 0x53), (1081, 0xEF), (1112, 128), (2056, 3),
      (3073, 0x80), (3076, 4), (3098, 1), (3112, 4), (3201, 0x40), (3240, 5),
      (4096, 0xff), (4097, 0xd8), (4098, 0xff), (4099, 0xe0),
      (5120, 1), (5124, 12), (5126, 1), (5128, 97)] i of None \<Rightarrow> 0 | Some b \<Rightarrow> b)"

definition demo_image :: "u8 list" where
  "demo_image = map demo_byte [0..<6144]"

lemma demo_nth: "i < 6144 \<Longrightarrow> demo_image ! i = demo_byte i"
  by (simp add: demo_image_def)

lemma demo_range: "k + n \<le> 6144 \<Longrightarrow> take n (drop k demo_image) = map demo_byte [k..<k + n]"
  by (simp add: demo_image_def take_map drop_map)

lemma demo_super: "image_super demo_image =
    \<lparr> s_inodes_count = 0, s_blocks_count = 6, s_first_data_block = 0, s_log_block_size = 0, s_blocks_per_group = 8,
      s_inodes_per_group = 1, s_magic = EXT2_SUPER_MAGIC, s_first_ino = 0, s_inode_size = 128 \<rparr>"
  by (simp add: image_super_def demo_range super_at_def get32_def get16_def le32_def demo_byte_def EXT2_SUPER_MAGIC_def)

lemma demo_globals: "image_globals demo_image =
    \<lparr> block_size = 1024, inodes_per_block = 8, itable_blocks = 0, blocks_per_group = 8, num_groups = 1,
      inodes_per_group = 1 \<rparr>"
  by (simp add: image_globals_def demo_super Let_def)

lemma demo_slots: "image_slots demo_image = [(0, 0)]"
  by (simp add: image_slots_def demo_globals demo_super inode_slots_def)

lemma demo_table: "locate_inode_table (image_globals demo_image) 0 (image_group demo_image) = 3072"
  by (simp add: locate_inode_table_def demo_globals image_group_def demo_range group_at_def get32_def le32_def
      demo_byte_def BLOCK_OFFSET_def BASE_OFFSET_def)

lemma demo_inode_1: "slot_inode demo_image (image_globals demo_image) (image_group demo_image) (image_super demo_image) (0, 0) =
    \<lparr> i_mode = 0x8000, i_uid = 0, i_size = 4, i_links_count = 1, i_block = [4, 0, 0, 0, 0, 0, 0, 0, 0, 0, 0, 0, 0, 0, 0] \<rparr>"
  by (simp add: slot_inode_def slot_offset_def demo_table demo_super demo_range inode_at_def get32_def get16_def le32_def
      demo_byte_def upt_rec)

definition picture_inode :: ext2_inode where
  "picture_inode = \<lparr> i_mode = 0x8000, i_uid = 0, i_size = 4, i_links_count = 1,
     i_block = [4, 0, 0, 0, 0, 0, 0, 0, 0, 0, 0, 0, 0, 0, 0] \<rparr>"

lemma demo_length: "length demo_image = 6144"
  by (simp add: demo_image_def)

lemma demo_picture: "is_picture demo_image picture_inode" "ext2_block demo_image 4 = map demo_byte [4096..<5120]"
proof -
  show b: "ext2_block demo_image 4 = map demo_byte [4096..<5120]"
    using demo_range[of 4096 1024] by (simp add: ext2_block_def)
  show "is_picture demo_image picture_inode"
    by (simp add: is_picture_def picture_inode_def S_ISREG_def b is_jpg_def) (simp add: demo_byte_def)
qed

lemma demo_laid_out: "laid_out demo_image picture_inode"
proof -
  have "full_blocks picture_inode = 0" "tail_bytes picture_inode = 4" "used_blocks picture_inode = 1"
    by (simp_all add: full_blocks_def tail_bytes_def used_blocks_def picture_inode_def)
  moreover have "in_image demo_image (file_block demo_image picture_inode 0)"
    by (simp add: in_image_def file_block_def picture_inode_def demo_length)
  ultimately show ?thesis by (simp add: laid_out_def demo_length) (simp add: picture_inode_def)
qed

lemma demo_found: "found_name (\<lambda>_. 0) (\<lambda>_. 0) demo_image (image_globals demo_image) 1 (image_group demo_image)
    (image_super demo_image) 1 = Ret [97]"
proof -
  note upt_rec_numeral [simp del]
  have sl: "inode_slots 1 2 = [(0, 0), (0, 1)]" by (simp add: inode_slots_def upto_rec1)
  have r1: "read_inode d 3072 1 ib 128 = Ret (d\<lparr>position := 3200\<rparr>, map demo_byte [3072..<3200])"
    if "image d = demo_image" "length ib = 128" for d :: disk and ib
    using that demo_range[of 3072 128] by (simp add: read_inode_def cint_def lseek_def read_fd_def demo_length)
  have r2: "read_inode d 3072 2 ib 128 = Ret (d\<lparr>position := 3328\<rparr>, map demo_byte [3200..<3328])"
    if "image d = demo_image" "length ib = 128" for d :: disk and ib
    using that demo_range[of 3200 128] by (simp add: read_inode_def cint_def lseek_def read_fd_def demo_length)
  have m1: "\<not> S_ISDIR (i_mode (inode_at (map demo_byte [3072..<3200])))"
    by (simp add: S_ISDIR_def inode_at_def get16_def demo_byte_def)
  have m2: "S_ISDIR (i_mode (inode_at (map demo_byte [3200..<3328])))"
    "i_block (inode_at (map demo_byte [3200..<3328])) ! 0 = 5"
    by (simp_all add: S_ISDIR_def inode_at_def get16_def get32_def le32_def demo_byte_def)
  have rd: "read_fd (d\<lparr>position := 5120\<rparr>) buf 1024 = (d\<lparr>position := 6144\<rparr>, map demo_byte [5120..<6144])"
    if "image d = demo_image" "length buf = 1024" for d :: disk and buf
    using that demo_range[of 5120 1024] by (simp add: read_fd_def demo_length)
  have b: "aget (map demo_byte [5120..<6144]) 6 = Ret 1" "get32 (map demo_byte [5120..<6144]) 0 = 1"
    by (simp_all add: aget_def get32_def le32_def) (simp_all add: demo_byte_def)
  have dr: "drop 8 (map demo_byte [5120..<6144]) = 97 # map demo_byte [5129..<6144]"
  proof -
    have "[5128..<6144] = (5128::nat) # [5129..<6144]" by (subst upt_conv_Cons) simp_all
    then show ?thesis by (simp add: drop_map) (simp add: demo_byte_def)
  qed
  have w: "dir_walk (map demo_byte [5120..<6144]) 1 nm 0 = Ret (Some (97 # drop 1 nm))" if "length nm = 255" for nm
    using that by (subst dir_walk.simps) (simp add: b dr strncpy_from_def Let_def)
  let ?d = "\<lparr>image = demo_image, position = 0\<rparr>"
  have z: "uninit (\<lambda>_. 0) n = replicate n 0" for n by (simp add: uninit_def map_replicate_const)
  have fields: "s_inode_size (image_super demo_image) = 128" "block_size (image_globals demo_image) = 1024"
    by (simp_all add: demo_super demo_globals)
  have "search_slots (\<lambda>_. 0) (image_globals demo_image) (image_group demo_image) (image_super demo_image) 1
      [(0, 0), (0, 1)] ?d (replicate 128 0) (replicate 255 0) = Ret (?d\<lparr>position := 6144\<rparr>, 97 # replicate 254 0)"
    using r1[of ?d "replicate 128 0"] r2[of "?d\<lparr>position := 3200\<rparr>" "map demo_byte [3072..<3200]"] m1 m2
      rd[of "?d\<lparr>position := 3328\<rparr>" "replicate 1024 0"] w[of "replicate 255 0"]
    by (simp add: demo_table z lseek_def fields)
  then show ?thesis
    by (simp add: found_name_def name_search_def demo_super sl z EXT2_NAME_LEN_def c_string_def)
qed

lemma demo_decimal: "sprintf_d 1 = [49]"
  by (simp add: sprintf_d_def digits_of.simps)

lemma demo_scannable: "scannable [100] demo_image"
proof -
  have i: "slot_inode demo_image (image_globals demo_image) (image_group demo_image) (image_super demo_image) (0, 0) = picture_inode"
    by (simp only: demo_inode_1 picture_inode_def)
  have "slot_ok demo_image (image_globals demo_image) (image_group demo_image)
      (image_super demo_image) 1 (0, 0)"
    unfolding slot_ok_def i Let_def
    by (simp add: slot_offset_def demo_table demo_length demo_laid_out demo_decimal)
      (simp add: picture_inode_def in_image_def demo_length)
  then show ?thesis by (simp add: scannable_def demo_slots demo_length demo_super)
qed

theorem runscan_recovers_pictures_witness:
  "scannable [100] demo_image \<and>
   runscan (\<lambda>_. 0) (\<lambda>_. 0) (\<lambda>_. True) (\<lambda>_. True) (\<lambda>_. Some demo_image) [[], [], [100]] =
     Ret (0, [([100] @ cstr ''/file-1.jpg'', [0xff, 0xd8, 0xff, 0xe0]), ([100] @ cstr ''/a'', [0xff, 0xd8, 0xff, 0xe0]),
       ([100] @ cstr ''/file-1-details.txt'', [49, 10, 52, 10, 48])])"
proof -
  have i: "slot_inode demo_image (image_globals demo_image) (image_group demo_image) (image_super demo_image) (0, 0) = picture_inode"
    by (simp only: demo_inode_1 picture_inode_def)
  have r: "recovered demo_image picture_inode = [0xff, 0xd8, 0xff, 0xe0]"
    by (simp add: recovered_def file_bytes_def blocks_between_def file_block_def full_blocks_def tail_bytes_def
        picture_inode_def demo_picture(2) take_map) (simp add: demo_byte_def)
  have w: "write_detail picture_inode = [49, 10, 52, 10, 48]"
    by (simp add: write_detail_def picture_inode_def sprintf_d_def digits_of.simps)
  have n: "sint (num_groups (image_globals demo_image)) = 1" by (simp add: demo_globals)
  show ?thesis
    using runscan_recovers_pictures[OF demo_scannable, of "\<lambda>_. 0" "\<lambda>_. 0" "[]" "[]"] demo_scannable
    by (simp add: demo_slots slot_streams_def i demo_picture(1) n demo_found picture_streams_def r w demo_decimal cstr_def)
qed

text \<open>A file of 1500 bytes in two blocks.\<close>

definition scan_file :: "u32 \<Rightarrow> u32 \<Rightarrow> ext2_inode" where
  "scan_file a b = \<lparr> i_mode = 0x8000, i_uid = 0, i_size = 1500, i_links_count = 1,
     i_block = [a, b, 0, 0, 0, 0, 0, 0, 0, 0, 0, 0, 0, 0, 0] \<rparr>"

lemma all_less_two: "(\<forall>k<2. P k) \<longleftrightarrow> P 0 \<and> P (Suc 0)"
  by (auto simp: numeral_2_eq_2 less_Suc_eq)

lemma scan_file_size: "full_blocks (scan_file a b) = 1" "tail_bytes (scan_file a b) = 476" "used_blocks (scan_file a b) = 2"
  "length (i_block (scan_file a b)) = 15" "i_block (scan_file a b) ! 0 = a" "unat (i_size (scan_file a b)) = 1500"
  by (simp_all add: full_blocks_def tail_bytes_def used_blocks_def scan_file_def)

theorem data_copy_recovers_file_witness:
  "laid_out demo_image (scan_file 4 5) \<and>
   fp (data_copy (\<lambda>_. 7) (\<lambda>_. 7) 1024 \<lparr>image = demo_image, position = 0\<rparr> (scan_file 4 5)) = file_bytes demo_image (scan_file 4 5) \<and>
   length (file_bytes demo_image (scan_file 4 5)) = 1500"
proof -
  have f: "file_block demo_image (scan_file 4 5) 0 = 4" "file_block demo_image (scan_file 4 5) (Suc 0) = 5"
    by (simp_all add: file_block_def scan_file_def)
  have "laid_out demo_image (scan_file 4 5)"
    by (simp add: laid_out_def scan_file_size demo_length f all_less_two in_image_def)
  then show ?thesis
    using data_copy_recovers_file[of "\<lparr>image = demo_image, position = 0\<rparr>" "scan_file 4 5" "\<lambda>_. 7" "\<lambda>_. 7"]
    by (simp add: scan_file_size)
qed

theorem data_copy_ignores_last_block_witness:
  "i_block (scan_file 3 5) ! 1 = 5 \<and>
   fp (data_copy (\<lambda>_. 7) (\<lambda>_. 7) 1024 \<lparr>image = demo_image, position = 0\<rparr> (scan_file 3 5)) =
     ext2_block demo_image 3 @ take 476 (ext2_block demo_image 4)"
proof -
  have "in_image demo_image 3" "in_image demo_image 4" by (simp_all add: in_image_def demo_length)
  moreover have "take 1 (i_block (scan_file 3 5)) = [3]" "i_block (scan_file 3 5) ! 1 = 5" by (simp_all add: scan_file_def)
  ultimately show ?thesis
    using data_copy_ignores_last_block[of "scan_file 3 5" "\<lparr>image = demo_image, position = 0\<rparr>" "\<lambda>_. 7" "\<lambda>_. 7"]
    by (simp add: scan_file_size demo_length)
qed

text \<open>
  A directory with nothing but its two own entries: the search for any other inode reads past the array. With the
  file \<open>abcd.jpg\<close> before \<open>b.jpg\<close>, the walk goes on at byte 44, although \<open>b.jpg\<close> starts at byte 40, and
  does not find it.
\<close>

theorem directory_walk_finds_names_witness:
  "dir_walk (dir_block [(2, 12, 2, [46]), (2, 1012, 2, [46, 46])]) 12 (replicate 255 0) 0 = Undef ''array read'' \<and>
   (let es = [(2, 12, 2, [46]), (2, 12, 2, [46, 46])]; e = (11, 16, 1, cstr ''abcd.jpg''); e' = (12, 984, 1, cstr ''b.jpg'') in
    length (entries_bytes (es @ [e])) = 40 \<and>
    dir_walk (dir_block (es @ [e, e'])) 12 (replicate 255 0) 0 = dir_walk (dir_block (es @ [e, e'])) 12 (replicate 255 0) 44)"
proof -
  let ?es = "[(2, 12, 2, [46]), (2, 12, 2, [46, 46])] :: (u32 \<times> u16 \<times> u8 \<times> u8 list) list"
  have "dir_walk (dir_block [(2, 12, 2, [46]), (2, 1012, 2, [46, 46])]) 12 (replicate 255 0) 0 = Undef ''array read''"
    using conjunct1[OF directory_walk_finds_names[of "[(2, 12, 2, [46]), (2, 1012, 2, [46, 46])]" "replicate 255 0" 12]]
    by (simp add: entry_ok_def entries_bytes_def entry_bytes_def entry_name_def)
  moreover have ok: "\<forall>e\<in>set ?es. entry_ok e" "length (replicate 255 (0::u8)) = 255" "(12::int) \<noteq> 0"
    by (simp_all add: entry_ok_def)
  moreover have l: "length (entries_bytes (?es @ [(11, 16, 1, cstr ''abcd.jpg'')])) = 40"
    "length (entries_bytes (?es @ [(11, 16, 1, cstr ''abcd.jpg''), (12, 984, 1, cstr ''b.jpg'')])) \<le> 1024"
    "entry_name ?es 12 = None" "length (cstr ''abcd.jpg'') = 8"
    by (simp_all add: entries_bytes_def entry_bytes_def entry_name_def)
  ultimately show ?thesis
    using conjunct2[OF directory_walk_finds_names[OF ok],
        rule_format, of 11 16 1 "cstr ''abcd.jpg''" "[(12, 984, 1, cstr ''b.jpg'')]"]
    unfolding Let_def by simp
qed

end
