(* ===== verification/Smash.thy ===== *)
theory Smash
  imports Prelude
begin

text \<open>
  The shell of project P3, from \<open>P3/smash.c\<close>.

  The host is the record \<open>host\<close>: which directories can be entered, which programs can be started, which files
  opened, whether processes can be created. A program that starts replaces its process for good; the model keeps
  with which arguments, input and output it was started. A process is named by the forks that lead to it, and so
  is the pipe it creates. Lists of strings are arrays of C strings up to their terminating NULL. Memory is
  taken to suffice, \<open>pipe\<close> to succeed, and the standard output to be written line by line, as on a terminal.
\<close>

section \<open>The host\<close>

datatype io = Terminal | To_file string | Pipe_read "nat list" | Pipe_write "nat list"

record host =
  chdir :: "string \<Rightarrow> string \<Rightarrow> string option"
  has_cwd :: "string \<Rightarrow> bool"
  moves :: "nat \<Rightarrow> bool"
  execv_ok :: "string \<Rightarrow> string \<Rightarrow> bool"
  execvp_ok :: "string \<Rightarrow> string \<Rightarrow> bool"
  open_ok :: "string \<Rightarrow> string \<Rightarrow> bool"
  fork_ok :: "nat list \<Rightarrow> bool"

text \<open>A program that was started, and what becomes of a process of the shell: a program or an error message.\<close>

record started_prog =
  args_of :: "string list"
  input_of :: io
  output_of :: io

datatype leaf = Started started_prog | Complaint

datatype event = Error_message | Printed string | Ran "leaf list"

section \<open>Built-in commands\<close>

text \<open>
  \<open>getcwd\<close> with a growing buffer; the result of \<open>realloc\<close> is dropped, so that a block that moves is used after it
  was freed. The buffer starts with one byte and has twice the size asked for afterwards.
\<close>

function pwd_loop :: "host \<Rightarrow> string \<Rightarrow> nat \<Rightarrow> event option outcome" where
  "pwd_loop h cwd sz =
     (if sz = 0 then Undef ''size''
      else if \<not> has_cwd h cwd then Ret None
      else if length cwd < sz then Ret (Some (Printed cwd))
      else if moves h (4 * sz) then Undef ''use after free''
      else pwd_loop h cwd (2 * sz))"
  by pat_completeness auto
termination
  by (relation "measure (\<lambda>(h, cwd, sz). Suc (length cwd) - sz)") auto

declare pwd_loop.simps [simp del]

text \<open>The result: the value returned, the new directory and what was printed, or \<open>None\<close> for the exit of the shell.\<close>

definition exec_builtin :: "host \<Rightarrow> string \<Rightarrow> string list \<Rightarrow> (int \<times> string \<times> event list) option outcome" where
  "exec_builtin h cwd args =
     (if hd args = ''exit'' then if length args \<noteq> 1 then Ret (Some (-1, cwd, [])) else Ret None
      else if hd args = ''cd'' then
        if length args \<noteq> 2 then Ret (Some (-1, cwd, []))
        else (case chdir h cwd (args ! 1) of None \<Rightarrow> Ret (Some (-1, cwd, [])) | Some d \<Rightarrow> Ret (Some (0, d, [])))
      else if hd args = ''pwd'' then
        if length args \<noteq> 1 then Ret (Some (-1, cwd, []))
        else bindO (pwd_loop h cwd 1) (\<lambda>r.
          case r of None \<Rightarrow> Ret (Some (-1, cwd, [])) | Some e \<Rightarrow> Ret (Some (0, cwd, [e])))
      else Ret (Some (-1, cwd, [])))"

section \<open>Programs\<close>

text \<open>The two system calls: a call that returns has failed.\<close>

definition execv :: "host \<Rightarrow> string \<Rightarrow> string list \<Rightarrow> io \<Rightarrow> io \<Rightarrow> leaf" where
  "execv h cwd argv i out =
     (if argv \<noteq> [] \<and> execv_ok h cwd (hd argv) then Started \<lparr>args_of = argv, input_of = i, output_of = out\<rparr> else Complaint)"

definition execvp :: "host \<Rightarrow> string \<Rightarrow> string list \<Rightarrow> io \<Rightarrow> io \<Rightarrow> leaf" where
  "execvp h cwd argv i out =
     (if argv \<noteq> [] \<and> execvp_ok h cwd (hd argv) then Started \<lparr>args_of = argv, input_of = i, output_of = out\<rparr> else Complaint)"

definition redirect :: "host \<Rightarrow> string \<Rightarrow> string list \<Rightarrow> leaf" where
  "redirect h cwd args =
     (let parmList = take (length args - 2) args; f = args ! (length args - 1) in
      if \<not> open_ok h cwd f then Complaint else execv h cwd parmList Terminal (To_file f))"

text \<open>The place of the first \<open>>\<close>: the loop of \<open>fork_pipes\<close>, which reads on past the end of the array.\<close>

fun find_gt :: "string list \<Rightarrow> nat \<Rightarrow> nat outcome" where
  "find_gt [] i = Undef ''null string''"
| "find_gt (a # as) i = (if a = ''>'' then Ret i else find_gt as (Suc i))"

text \<open>The last stage of a pipeline, in the process with the descriptors \<open>fd0\<close> and \<open>fd1\<close>.\<close>

definition last_stage :: "host \<Rightarrow> string \<Rightarrow> string list \<Rightarrow> string list \<Rightarrow> io \<Rightarrow> io \<Rightarrow> io option \<Rightarrow> leaf outcome" where
  "last_stage h cwd args argv fd0 fd1 in' =
     (case in' of
        None \<Rightarrow> Ret (execvp h cwd argv fd0 fd1)
      | Some r \<Rightarrow>
          if args ! (length args - 2) = ''>'' then
            bindO (find_gt argv 0) (\<lambda>i.
            if length argv \<le> i + 1 then Ret Complaint
            else if \<not> open_ok h cwd (argv ! (i + 1)) then Ret Complaint
            else Ret (execv h cwd (if i = 0 then argv else take i argv) r (To_file (argv ! (i + 1)))))
          else Ret (execvp h cwd argv r fd1))"

text \<open>
  The loop over the stages. A stage that cannot be started returns into the loop of its own process, which goes
  on with the rest of the pipeline as the parent does.
\<close>

fun fork_stages ::
  "host \<Rightarrow> string \<Rightarrow> string list \<Rightarrow> string list list \<Rightarrow> nat list \<Rightarrow> io \<Rightarrow> io \<Rightarrow> io option \<Rightarrow> leaf list outcome"
where
  "fork_stages h cwd args [] pid fd0 fd1 in' = Undef ''no command''"
| "fork_stages h cwd args [argv] pid fd0 fd1 in' =
     bindO (last_stage h cwd args argv fd0 fd1 in') (\<lambda>l. Ret [l])"
| "fork_stages h cwd args (argv # argv2 # rest) pid fd0 fd1 in' =
     bindO
       (if fork_ok h pid then
          (let i = (case in' of None \<Rightarrow> fd0 | Some r \<Rightarrow> r) in
           case execvp h cwd argv i (Pipe_write pid) of
             Started p \<Rightarrow> Ret [Started p]
           | Complaint \<Rightarrow>
               fork_stages h cwd args (argv2 # rest) (pid @ [0]) i (Pipe_write pid) (Some (Pipe_read pid)))
        else Ret [])
       (\<lambda>child. bindO (fork_stages h cwd args (argv2 # rest) (pid @ [1]) fd0 fd1 (Some (Pipe_read pid)))
       (\<lambda>parent. Ret (child @ parent)))"

text \<open>The arguments are copied into at most ten commands of nine words and a NULL each.\<close>

fun store_stages :: "string list \<Rightarrow> string list list \<Rightarrow> string list \<Rightarrow> string list list outcome" where
  "store_stages [] done' cur = (if length cur < 10 then Ret (done' @ [cur]) else Undef ''array write'')"
| "store_stages (a # as) done' cur =
     (if a = ''|'' then
        if 10 \<le> length cur \<or> 9 \<le> length done' then Undef ''array write'' else store_stages as (done' @ [cur]) []
      else if 10 \<le> length cur then Undef ''array write''
      else store_stages as done' (cur @ [a]))"

definition piping :: "host \<Rightarrow> string \<Rightarrow> string list \<Rightarrow> leaf list outcome" where
  "piping h cwd args =
     bindO (store_stages args [] []) (\<lambda>cmds. fork_stages h cwd args cmds [0] Terminal Terminal None)"

text \<open>What the child of the shell does with a command.\<close>

definition exec_prog :: "host \<Rightarrow> string \<Rightarrow> string list \<Rightarrow> leaf list outcome" where
  "exec_prog h cwd args =
     (if ''|'' \<in> set (tl args) then piping h cwd args
      else if ''>'' \<in> set (tl args) then
        if args ! (length args - 2) \<noteq> ''>'' then Ret [Complaint] else Ret [redirect h cwd args]
      else Ret [execv h cwd args Terminal Terminal])"

section \<open>Lines\<close>

definition is_delim :: "char \<Rightarrow> bool" where
  "is_delim c \<longleftrightarrow> c = CHR '' '' \<or> c = CHR 0x09 \<or> c = CHR 0x0A"

text \<open>\<open>strtok\<close>: the delimiters before a token are skipped, and the token ends at a delimiter.\<close>

function strtok_all :: "string \<Rightarrow> string list" where
  "strtok_all line =
     (let l = dropWhile is_delim line in
      if l = [] then []
      else takeWhile (\<lambda>c. \<not> is_delim c) l # strtok_all (dropWhile (\<lambda>c. \<not> is_delim c) l))"
  by pat_completeness auto
termination
proof (relation "measure length", simp)
  fix line l :: string
  assume l: "l = dropWhile is_delim line" "l \<noteq> []"
  have "\<not> is_delim (hd l)" using l hd_dropWhile by blast
  then have "length (dropWhile (\<lambda>c. \<not> is_delim c) l) < length l"
    using l(2) by (cases l) (auto simp: length_dropWhile_le less_Suc_eq_le)
  also have "length l \<le> length line" by (simp add: l(1) length_dropWhile_le)
  finally show "(dropWhile (\<lambda>c. \<not> is_delim c) l, line) \<in> measure length" by simp
qed

declare strtok_all.simps [simp del]

text \<open>The words of a line and the number of semicolons among them.\<close>

definition lexer :: "string \<Rightarrow> string list \<times> nat" where
  "lexer line = (let ws = strtok_all line in (ws, length (filter (\<lambda>w. w = '';'') ws)))"

text \<open>
  The words stored into the array \<open>cmds\<close>, whose rows have ten strings of 256 bytes; \<open>None\<close> is a string that was
  never written. The array of counts is filled at each semicolon, its last entry after the loop.
\<close>

definition store_word :: "string option list list \<Rightarrow> nat \<Rightarrow> nat \<Rightarrow> string \<Rightarrow> string option list list outcome" where
  "store_word cmds i j w =
     (if 256 \<le> length w then Undef ''string write''
      else bindO (aget cmds (int i)) (\<lambda>row. bindO (aset row (int j) (Some w)) (\<lambda>row'. aset cmds (int i) row')))"

fun store_words ::
  "string list \<Rightarrow> string option list list \<Rightarrow> nat list \<Rightarrow> nat \<Rightarrow> nat \<Rightarrow> (string option list list \<times> nat list) outcome"
where
  "store_words [] cmds argnum argcount count =
     bindO (aset argnum (int (length argnum) - 1) count) (\<lambda>argnum'. Ret (cmds, argnum'))"
| "store_words (w # ws) cmds argnum argcount count =
     (if w = '';'' then
        bindO (aset argnum (int argcount) count) (\<lambda>argnum'. store_words ws cmds argnum' (Suc argcount) 0)
      else bindO (store_word cmds argcount count w) (\<lambda>cmds'. store_words ws cmds' argnum argcount (Suc count)))"

text \<open>
  The number at the start of a string, as \<open>strtol\<close> and \<open>atoi\<close> read it: blanks, a sign, digits. \<open>strtol\<close> has no
  result if there is no number or it does not fit a \<open>long\<close>.
\<close>

definition is_space :: "char \<Rightarrow> bool" where
  "is_space c \<longleftrightarrow> c \<in> {CHR '' '', CHR 0x09, CHR 0x0A, CHR 0x0B, CHR 0x0C, CHR 0x0D}"

definition is_digit :: "char \<Rightarrow> bool" where
  "is_digit c \<longleftrightarrow> 48 \<le> (of_char c :: nat) \<and> (of_char c :: nat) \<le> 57"

definition leading_int :: "string \<Rightarrow> int option" where
  "leading_int str =
     (let s = dropWhile is_space str;
          neg = (s \<noteq> [] \<and> hd s = CHR ''-'');
          s' = (if s \<noteq> [] \<and> (hd s = CHR ''-'' \<or> hd s = CHR ''+'') then tl s else s);
          ds = takeWhile is_digit s';
          v = foldl (\<lambda>n c. 10 * n + (of_char c - 48)) 0 ds
      in if ds = [] then None else Some (if neg then - v else v))"

definition strtol :: "string \<Rightarrow> int option" where
  "strtol str =
     (case leading_int str of
        None \<Rightarrow> None
      | Some x \<Rightarrow> if x < -9223372036854775808 \<or> 9223372036854775807 < x then None else Some x)"

text \<open>\<open>numLoop = val\<close>, a \<open>long\<close> into an \<open>int\<close>.\<close>

definition to_int :: "int \<Rightarrow> int" where
  "to_int v = sint (of_int v :: i32)"

section \<open>Running a line\<close>

text \<open>The shell goes on in a directory, or has ended.\<close>

datatype smash_state = Running string | Ended

text \<open>One execution of a command whose first string in the array is \<open>first\<close>.\<close>

definition execute_once :: "host \<Rightarrow> string \<Rightarrow> string \<Rightarrow> string list \<Rightarrow> (smash_state \<times> event list) outcome" where
  "execute_once h cwd first args =
     (if first = ''exit'' \<or> first = ''cd'' \<or> first = ''pwd'' then
        bindO (exec_builtin h cwd args) (\<lambda>r.
        case r of None \<Rightarrow> Ret (Ended, [])
        | Some (res, cwd', es) \<Rightarrow> Ret (Running cwd', es @ (if res = -1 then [Error_message] else [])))
      else if \<not> fork_ok h [] then Ret (Running cwd, [Error_message])
      else bindO (exec_prog h cwd args) (\<lambda>ls. Ret (Running cwd, [Ran ls])))"

primrec run_times :: "host \<Rightarrow> nat \<Rightarrow> string \<Rightarrow> string list \<Rightarrow> smash_state \<Rightarrow> (smash_state \<times> event list) outcome" where
  "run_times h 0 first args st = Ret (st, [])"
| "run_times h (Suc n) first args st =
     (case st of Ended \<Rightarrow> Ret (st, [])
      | Running cwd \<Rightarrow>
          bindO (execute_once h cwd first args) (\<lambda>(st1, es).
          bindO (run_times h n first args st1) (\<lambda>(st2, es2). Ret (st2, es @ es2))))"

text \<open>A string of the array that is read: it must have been written.\<close>

definition string_at :: "string option list \<Rightarrow> nat \<Rightarrow> string outcome" where
  "string_at row j =
     bindO (aget row (int j)) (\<lambda>s. case s of None \<Rightarrow> Undef ''uninitialised string'' | Some w \<Rightarrow> Ret w)"

fun strings_upto :: "string option list \<Rightarrow> nat \<Rightarrow> string list outcome" where
  "strings_upto row 0 = Ret []"
| "strings_upto row (Suc n) = bindO (strings_upto row n) (\<lambda>ws. bindO (string_at row n) (\<lambda>w. Ret (ws @ [w])))"

text \<open>The pointers after \<open>loop x\<close> are moved to the front of the row.\<close>

fun shift_row :: "nat \<Rightarrow> nat \<Rightarrow> string option list \<Rightarrow> string option list outcome" where
  "shift_row 0 j row = Ret row"
| "shift_row (Suc n) j row =
     bindO (aget row (int j + 2)) (\<lambda>s. bindO (aset row (int j) s) (\<lambda>row'. shift_row n (Suc j) row'))"

definition run_command :: "host \<Rightarrow> string option list \<Rightarrow> nat \<Rightarrow> smash_state \<Rightarrow> (smash_state \<times> event list) outcome" where
  "run_command h row n st =
     (if n = 0 then Ret (st, [])
      else bindO (string_at row 0) (\<lambda>first.
        if first = ''loop'' then
          bindO (string_at row 1) (\<lambda>str.
          case strtol str of
            None \<Rightarrow> Ret (st, [Error_message])
          | Some v \<Rightarrow>
              bindO (shift_row (n - 2) 0 row) (\<lambda>row'.
              bindO (string_at row' 0) (\<lambda>first'.
              bindO (strings_upto row' (n - 2)) (\<lambda>args.
              run_times h (nat (to_int v)) first' args st))))
        else bindO (strings_upto row n) (\<lambda>args. run_times h 1 first args st)))"

fun run_commands ::
  "host \<Rightarrow> (string option list \<times> nat) list \<Rightarrow> smash_state \<Rightarrow> (smash_state \<times> event list) outcome"
where
  "run_commands h [] st = Ret (st, [])"
| "run_commands h ((row, n) # cs) st =
     (case st of Ended \<Rightarrow> Ret (st, [])
      | Running cwd \<Rightarrow>
          bindO (run_command h row n st) (\<lambda>(st1, es).
          bindO (run_commands h cs st1) (\<lambda>(st2, es2). Ret (st2, es @ es2))))"

definition run_line :: "host \<Rightarrow> string \<Rightarrow> smash_state \<Rightarrow> (smash_state \<times> event list) outcome" where
  "run_line h line st =
     (let (ws, delim_num) = lexer line; cmds_num = delim_num + 1 in
      bindO (store_words ws (replicate cmds_num (replicate 10 None)) (replicate cmds_num 0) 0 0) (\<lambda>(cmds, argnum).
      run_commands h (zip cmds argnum) st))"

text \<open>
  The main loop for a number of prompts. At the end of the input \<open>getline\<close> leaves the buffer as it was: the last
  line as \<open>strtok\<close> left it, which ends after its first word.
\<close>

definition mangled :: "string \<Rightarrow> string" where
  "mangled line = takeWhile is_delim line @ takeWhile (\<lambda>c. \<not> is_delim c) (dropWhile is_delim line)"

fun smash_main :: "host \<Rightarrow> nat \<Rightarrow> string list \<Rightarrow> string \<Rightarrow> smash_state \<Rightarrow> (smash_state \<times> event list list) outcome" where
  "smash_main h 0 lines buf st = Ret (st, [])"
| "smash_main h (Suc n) lines buf st =
     (case st of Ended \<Rightarrow> Ret (st, [])
      | Running cwd \<Rightarrow>
          (let (line, lines') = (case lines of [] \<Rightarrow> (buf, []) | l # ls \<Rightarrow> (l, ls)) in
           bindO (run_line h line st) (\<lambda>(st1, es).
           bindO (smash_main h n lines' (mangled line) st1) (\<lambda>(st2, ess). Ret (st2, es # ess)))))"

end
