(* ===== verification/Smashspec.thy ===== *)
theory Smashspec
  imports Smash
begin

text \<open>
  What the shell of \<open>Smash\<close> promises: a line is split into words and the words into commands, each command runs as
  often as it asks for, the stages of a pipeline are joined by pipes; and what it does when a stage cannot be
  started and when its input ends.
\<close>

section \<open>Lines as lists of commands\<close>

fun split_at :: "('a \<Rightarrow> bool) \<Rightarrow> 'a list \<Rightarrow> 'a list list" where
  "split_at P [] = [[]]"
| "split_at P (x # xs) = (if P x then [] # split_at P xs else (x # hd (split_at P xs)) # tl (split_at P xs))"

lemma split_at_nonempty [simp]: "split_at P xs \<noteq> []"
  by (induction xs) auto

lemma split_at_word:
  "split_at P xs = takeWhile (\<lambda>x. \<not> P x) xs # (case dropWhile (\<lambda>x. \<not> P x) xs of [] \<Rightarrow> [] | _ # ys \<Rightarrow> split_at P ys)"
  by (induction xs) (auto split: list.splits)

lemma split_at_none: "\<forall>x\<in>set xs. \<not> P x \<Longrightarrow> split_at P xs = [xs]"
  by (induction xs) auto

definition words_of :: "string \<Rightarrow> string list" where
  "words_of line = filter (\<lambda>w. w \<noteq> []) (split_at is_delim line)"

definition commands_of :: "string \<Rightarrow> string list list" where
  "commands_of line = split_at (\<lambda>w. w = '';'') (words_of line)"

lemma words_of_delim: "is_delim c \<Longrightarrow> words_of (c # cs) = words_of cs"
  by (simp add: words_of_def)

lemma words_of_dropWhile: "words_of (dropWhile is_delim line) = words_of line"
  by (induction line) (auto simp: words_of_delim)

lemma strtok_words: "strtok_all line = words_of line"
proof (induction line rule: strtok_all.induct)
  case (1 line)
  define l where "l = dropWhile is_delim line"
  show ?case
  proof (cases "l = []")
    case True
    have "words_of l = words_of line" unfolding l_def by (rule words_of_dropWhile)
    then have "words_of line = []" using True by (simp add: words_of_def)
    then show ?thesis using True by (subst strtok_all.simps) (simp flip: l_def)
  next
    case False
    define r where "r = dropWhile (\<lambda>c. \<not> is_delim c) l"
    have h: "\<not> is_delim (hd l)" using False unfolding l_def by (metis hd_dropWhile)
    then have w: "takeWhile (\<lambda>c. \<not> is_delim c) l \<noteq> []" using False by (cases l) auto
    have sr: "strtok_all r = words_of r" using "1.IH"[OF l_def False] by (simp add: r_def)
    have sw: "split_at is_delim l =
        takeWhile (\<lambda>c. \<not> is_delim c) l # (case r of [] \<Rightarrow> [] | _ # ys \<Rightarrow> split_at is_delim ys)"
      unfolding r_def by (rule split_at_word)
    have "words_of l = takeWhile (\<lambda>c. \<not> is_delim c) l # words_of r"
    proof (cases r)
      case Nil
      then show ?thesis using sw w by (simp add: words_of_def)
    next
      case (Cons c cs)
      then have "is_delim c" unfolding r_def by (metis dropWhile_eq_Cons_conv)
      then show ?thesis using sw w Cons by (simp add: words_of_def)
    qed
    moreover have "words_of l = words_of line" unfolding l_def by (rule words_of_dropWhile)
    ultimately show ?thesis using False sr by (subst strtok_all.simps) (simp add: Let_def flip: l_def r_def)
  qed
qed

text \<open>What a command asks for, and the limits of the arrays.\<close>

definition spec_command :: "host \<Rightarrow> string list \<Rightarrow> smash_state \<Rightarrow> (smash_state \<times> event list) outcome" where
  "spec_command h c st =
     (if c = [] then Ret (st, [])
      else if hd c = ''loop'' then
        (case strtol (c ! 1) of
           None \<Rightarrow> Ret (st, [Error_message])
         | Some v \<Rightarrow> run_times h (nat (to_int v)) (if drop 2 c = [] then ''loop'' else c ! 2) (drop 2 c) st)
      else run_times h 1 (hd c) c st)"

fun spec_commands :: "host \<Rightarrow> string list list \<Rightarrow> smash_state \<Rightarrow> (smash_state \<times> event list) outcome" where
  "spec_commands h [] st = Ret (st, [])"
| "spec_commands h (c # cs) st =
     (case st of Ended \<Rightarrow> Ret (st, [])
      | Running cwd \<Rightarrow>
          bindO (spec_command h c st) (\<lambda>(st1, es).
          bindO (spec_commands h cs st1) (\<lambda>(st2, es2). Ret (st2, es @ es2))))"

definition fits_row :: "string list \<Rightarrow> bool" where
  "fits_row c \<longleftrightarrow> length c \<le> 10 \<and> (\<forall>w\<in>set c. length w < 256)"

definition loop_ok :: "string list \<Rightarrow> bool" where
  "loop_ok c \<longleftrightarrow> (c \<noteq> [] \<and> hd c = ''loop'' \<longrightarrow> 2 \<le> length c)"

section \<open>The arrays hold the commands\<close>

definition row_of :: "string list \<Rightarrow> string option list" where
  "row_of c = map Some c @ replicate (10 - length c) None"

lemma row_of_length: "length c \<le> 10 \<Longrightarrow> length (row_of c) = 10"
  by (simp add: row_of_def)

lemma row_of_update: "length c < 10 \<Longrightarrow> (row_of c)[length c := Some w] = row_of (c @ [w])"
  by (simp add: row_of_def list_update_append Suc_diff_Suc[symmetric] del: Suc_diff_Suc)

lemma store_words_rows:
  assumes "length cmds = N" "length argnum = N" "ac + length (split_at (\<lambda>w. w = '';'') ws) = N"
    and "cmds ! ac = row_of cur" and "\<forall>i. ac < i \<and> i < N \<longrightarrow> cmds ! i = row_of []"
    and "\<forall>c\<in>set ((cur @ hd (split_at (\<lambda>w. w = '';'') ws)) # tl (split_at (\<lambda>w. w = '';'') ws)). fits_row c"
  shows "store_words ws cmds argnum ac (length cur) =
    Ret (take ac cmds @ map row_of ((cur @ hd (split_at (\<lambda>w. w = '';'') ws)) # tl (split_at (\<lambda>w. w = '';'') ws)),
         take ac argnum @ map length ((cur @ hd (split_at (\<lambda>w. w = '';'') ws)) # tl (split_at (\<lambda>w. w = '';'') ws)))"
  using assms
proof (induction ws arbitrary: cmds argnum ac cur)
  case Nil
  then have N: "N = Suc ac" by simp
  have "aset argnum (int ac) (length cur) = Ret (argnum[ac := length cur])" using Nil N by (intro aset_in) simp
  moreover have "argnum[ac := length cur] = take ac argnum @ [length cur]"
    using Nil.prems(2) N by (simp add: upd_conv_take_nth_drop)
  moreover have "cmds = take ac cmds @ [row_of cur]"
    using take_Suc_conv_app_nth[of ac cmds] Nil.prems(1,4) N by simp
  ultimately show ?case using Nil.prems(2) N by simp
next
  case (Cons w ws)
  let ?s = "split_at (\<lambda>w. w = '';'') ws"
  have ac: "ac < N" using Cons.prems(3) by (cases "w = '';''") (auto simp: neq_Nil_conv)
  show ?case
  proof (cases "w = '';''")
    case True
    have "0 < length ?s" by simp
    then have "Suc ac < N" using Cons.prems(3) True by (simp del: length_greater_0_conv)
    then have "store_words ws cmds (argnum[ac := length cur]) (Suc ac) (length ([] :: string list)) =
        Ret (take (Suc ac) cmds @ map row_of (([] @ hd ?s) # tl ?s),
             take (Suc ac) (argnum[ac := length cur]) @ map length (([] @ hd ?s) # tl ?s))"
      using Cons.prems True by (intro Cons.IH) auto
    then show ?thesis
      using True ac Cons.prems by (simp add: array_simps take_Suc_conv_app_nth)
  next
    case False
    have f: "fits_row (cur @ w # hd ?s)" using Cons.prems(6) False by simp
    have l: "length cur < 10" "length w < 256" using f by (auto simp: fits_row_def)
    have row: "aget cmds (int ac) = Ret (row_of cur)" using ac Cons.prems(1,4) by (simp add: array_simps)
    have "aset (row_of cur) (int (length cur)) (Some w) = Ret (row_of (cur @ [w]))"
      using l row_of_length[of cur] row_of_update[of cur w] by (simp add: array_simps)
    then have s: "store_word cmds ac (length cur) w = Ret (cmds[ac := row_of (cur @ [w])])"
      using l row ac Cons.prems(1) by (simp add: store_word_def array_simps)
    have "store_words ws (cmds[ac := row_of (cur @ [w])]) argnum ac (length (cur @ [w])) =
        Ret (take ac (cmds[ac := row_of (cur @ [w])]) @ map row_of (((cur @ [w]) @ hd ?s) # tl ?s),
             take ac argnum @ map length (((cur @ [w]) @ hd ?s) # tl ?s))"
      using Cons.prems False ac by (intro Cons.IH) auto
    then show ?thesis using False s by simp
  qed
qed

section \<open>One command\<close>

lemma string_at_row: "n < length c \<Longrightarrow> length c \<le> 10 \<Longrightarrow> string_at (row_of c) n = Ret (c ! n)"
  using row_of_length[of c] by (simp add: string_at_def array_simps) (simp add: row_of_def nth_append)

lemma strings_upto_Some:
  "(\<And>j. j < n \<Longrightarrow> j < length row \<and> row ! j = Some (f j)) \<Longrightarrow> strings_upto row n = Ret (map f [0..<n])"
  by (induction n) (simp_all add: string_at_def array_simps)

lemma strings_upto_row: "length c \<le> 10 \<Longrightarrow> strings_upto (row_of c) (length c) = Ret c"
  using strings_upto_Some[of "length c" "row_of c" "(!) c"] by (simp add: row_of_def nth_append map_nth)

lemma shift_row_result:
  "j + 2 + m \<le> length row \<Longrightarrow>
   shift_row m j row = Ret (take j row @ take m (drop (j + 2) row) @ drop (j + m) row)"
proof (induction m arbitrary: j row)
  case 0
  then show ?case by simp
next
  case (Suc m)
  have a: "aget row (int j + 2) = Ret (row ! (j + 2))" using Suc.prems aget_in[of "j + 2" row] by (simp add: add.commute)
  have b: "aset row (int j) (row ! (j + 2)) = Ret (row[j := row ! (j + 2)])" using Suc.prems by (simp add: array_simps)
  have "shift_row m (Suc j) (row[j := row ! (j + 2)]) =
      Ret (take (Suc j) (row[j := row ! (j + 2)]) @ take m (drop (Suc j + 2) (row[j := row ! (j + 2)])) @
        drop (Suc j + m) (row[j := row ! (j + 2)]))"
    using Suc.prems by (intro Suc.IH) simp
  moreover have "take (Suc j) (row[j := row ! (j + 2)]) = take j row @ [row ! (j + 2)]"
    using Suc.prems by (simp add: take_Suc_conv_app_nth)
  moreover have "take (Suc m) (drop (j + 2) row) = row ! (j + 2) # take m (drop (Suc j + 2) row)"
    using Suc.prems Cons_nth_drop_Suc[of "j + 2" row] by (metis add_Suc add_lessD1 less_eq_Suc_le take_Suc_Cons add_Suc_right)
  ultimately show ?case using a b by simp
qed

lemma shifted_row:
  assumes "2 \<le> length c" and "length c \<le> 10"
  obtains row' where "shift_row (length c - 2) 0 (row_of c) = Ret row'"
    "string_at row' 0 = Ret (if drop 2 c = [] then c ! 0 else c ! 2)" "strings_upto row' (length c - 2) = Ret (drop 2 c)"
proof -
  let ?m = "length c - 2"
  define row' where "row' = take ?m (drop 2 (row_of c)) @ drop ?m (row_of c)"
  have s: "shift_row ?m 0 (row_of c) = Ret row'"
    using shift_row_result[of 0 ?m "row_of c"] assms row_of_length[of c] by (simp add: row'_def numeral_2_eq_2)
  have l: "length row' = 10" using assms row_of_length[of c] by (simp add: row'_def)
  have n: "row' ! j = Some (c ! (j + 2))" if "j < ?m" for j
    using that assms row_of_length[of c] by (simp add: row'_def nth_append row_of_def)
  have "strings_upto row' ?m = Ret (map (\<lambda>j. c ! (j + 2)) [0..<?m])"
    using n l assms by (intro strings_upto_Some) auto
  moreover have "map (\<lambda>j. c ! (j + 2)) [0..<?m] = drop 2 c"
    using assms by (intro nth_equalityI) (simp_all add: add.commute)
  moreover have "string_at row' 0 = Ret (if drop 2 c = [] then c ! 0 else c ! 2)"
  proof (cases "?m = 0")
    case True
    then have "row' = row_of c" by (simp add: row'_def)
    then show ?thesis using True assms string_at_row[of 0 c] by simp
  next
    case False
    then show ?thesis using n[of 0] l by (simp add: string_at_def array_simps aget_def numeral_2_eq_2)
  qed
  ultimately show ?thesis using that s by simp
qed

lemma run_command_spec:
  assumes "fits_row c" and "loop_ok c"
  shows "run_command h (row_of c) (length c) st = spec_command h c st"
proof (cases "c = []")
  case True
  then show ?thesis by (simp add: run_command_def spec_command_def)
next
  case False
  have l: "length c \<le> 10" "0 < length c" using assms False by (simp_all add: fits_row_def)
  have first: "string_at (row_of c) 0 = Ret (hd c)" using string_at_row[of 0 c] l by (simp add: hd_conv_nth False)
  show ?thesis
  proof (cases "hd c = ''loop''")
    case True
    then have two: "2 \<le> length c" using assms(2) False by (simp add: loop_ok_def)
    obtain row' where r: "shift_row (length c - 2) 0 (row_of c) = Ret row'"
      "string_at row' 0 = Ret (if drop 2 c = [] then c ! 0 else c ! 2)" "strings_upto row' (length c - 2) = Ret (drop 2 c)"
      using shifted_row[OF two l(1)] by metis
    have "c ! 0 = ''loop''" using True False by (simp add: hd_conv_nth)
    then show ?thesis
      using False True first r string_at_row[of 1 c] two l
      by (simp add: run_command_def spec_command_def split: option.split)
  next
    case no: False
    then show ?thesis using False first strings_upto_row[OF l(1)] by (simp add: run_command_def spec_command_def)
  qed
qed

lemma run_commands_spec:
  "\<forall>c\<in>set cs. fits_row c \<and> loop_ok c \<Longrightarrow>
   run_commands h (zip (map row_of cs) (map length cs)) st = spec_commands h cs st"
proof (induction cs arbitrary: st)
  case Nil
  then show ?case by simp
next
  case (Cons c cs)
  then show ?case by (cases st) (simp_all add: run_command_spec)
qed

lemma run_line_spec:
  assumes "\<forall>c\<in>set (commands_of line). fits_row c \<and> loop_ok c"
  shows "run_line h line st = spec_commands h (commands_of line) st"
proof -
  let ?ws = "words_of line" and ?s = "commands_of line"
  have n: "length (filter (\<lambda>w. w = '';'') ws) + 1 = length (split_at (\<lambda>w. w = '';'') ws)" for ws
    by (induction ws) simp_all
  have ne: "?s \<noteq> []" by (simp add: commands_of_def)
  then have c: "hd ?s # tl ?s = ?s" by simp
  have "store_words ?ws (replicate (length ?s) (replicate 10 None)) (replicate (length ?s) 0) 0 (length ([] :: string list)) =
      Ret (take 0 (replicate (length ?s) (replicate 10 None)) @ map row_of (([] @ hd ?s) # tl ?s),
           take 0 (replicate (length ?s) 0) @ map length (([] @ hd ?s) # tl ?s))"
    unfolding commands_of_def
    using assms c ne by (intro store_words_rows) (auto simp: commands_of_def row_of_def)
  moreover have "run_line h line st =
      bindO (store_words ?ws (replicate (length ?s) (replicate 10 None)) (replicate (length ?s) 0) 0 0)
        (\<lambda>(cmds, argnum). run_commands h (zip cmds argnum) st)"
    by (simp only: run_line_def lexer_def strtok_words Let_def prod.case n commands_of_def)
  ultimately show ?thesis using run_commands_spec[OF assms] c by simp
qed

text \<open>Where no block moves, the growing buffer of \<open>pwd\<close> reaches the size of the directory's name.\<close>

lemma pwd_loop_prints:
  "0 < sz \<Longrightarrow> has_cwd h cwd \<Longrightarrow> (\<And>n. \<not> moves h n) \<Longrightarrow> pwd_loop h cwd sz = Ret (Some (Printed cwd))"
proof (induction h cwd sz rule: pwd_loop.induct)
  case (1 h cwd sz)
  then show ?case by (subst pwd_loop.simps) auto
qed

section \<open>Pipelines\<close>

lemma store_stages_split:
  assumes "length done' + length (split_at (\<lambda>w. w = ''|'') as) \<le> 10"
    and "\<forall>c\<in>set ((cur @ hd (split_at (\<lambda>w. w = ''|'') as)) # tl (split_at (\<lambda>w. w = ''|'') as)). length c \<le> 9"
  shows "store_stages as done' cur =
    Ret (done' @ (cur @ hd (split_at (\<lambda>w. w = ''|'') as)) # tl (split_at (\<lambda>w. w = ''|'') as))"
  using assms
proof (induction as arbitrary: done' cur)
  case Nil
  then show ?case by simp
next
  case (Cons a as)
  have "0 < length (split_at (\<lambda>w. w = ''|'') as)" by simp
  then show ?case
    using Cons.IH[of "done' @ [cur]" "[]"] Cons.IH[of done' "cur @ [a]"] Cons.prems
    by (cases "a = ''|''") (auto simp del: length_greater_0_conv)
qed

text \<open>Where the stages of a pipeline read and write, counted from the process \<open>pid\<close>.\<close>

definition pipe_name :: "nat list \<Rightarrow> nat \<Rightarrow> nat list" where
  "pipe_name pid k = pid @ replicate k 1"

lemma fork_stages_all:
  assumes fork: "\<And>p. fork_ok h p"
  shows "\<forall>c\<in>set ss. c \<noteq> [] \<and> execvp_ok h cwd (hd c) \<Longrightarrow>
    fork_stages h cwd args (ss @ [c]) pid fd0 fd1 in' =
    bindO (last_stage h cwd args c fd0 fd1 (if ss = [] then in' else Some (Pipe_read (pipe_name pid (length ss - 1)))))
      (\<lambda>l. Ret (map (\<lambda>k. Started \<lparr>args_of = ss ! k,
         input_of = (if k = 0 then (case in' of None \<Rightarrow> fd0 | Some r \<Rightarrow> r) else Pipe_read (pipe_name pid (k - 1))),
         output_of = Pipe_write (pipe_name pid k)\<rparr>) [0..<length ss] @ [l]))"
proof (induction ss arbitrary: pid in')
  case Nil
  then show ?case by simp
next
  case (Cons a ss)
  obtain b rest where br: "ss @ [c] = b # rest" by (cases ss) auto
  have a: "execvp h cwd a i out = Started \<lparr>args_of = a, input_of = i, output_of = out\<rparr>" for i out
    using Cons.prems by (simp add: execvp_def)
  have nm: "pipe_name (pid @ [1]) k = pipe_name pid (Suc k)" for k by (simp add: pipe_name_def)
  have "fork_stages h cwd args ((a # ss) @ [c]) pid fd0 fd1 in' =
      bindO (fork_stages h cwd args (ss @ [c]) (pid @ [1]) fd0 fd1 (Some (Pipe_read pid)))
        (\<lambda>parent. Ret (Started \<lparr>args_of = a, input_of = (case in' of None \<Rightarrow> fd0 | Some r \<Rightarrow> r),
           output_of = Pipe_write pid\<rparr> # parent))"
    unfolding append_Cons br by (simp add: fork a Let_def)
  also have "fork_stages h cwd args (ss @ [c]) (pid @ [1]) fd0 fd1 (Some (Pipe_read pid)) =
    bindO (last_stage h cwd args c fd0 fd1 (Some (Pipe_read (pipe_name pid (length ss)))))
      (\<lambda>l. Ret (map (\<lambda>k. Started \<lparr>args_of = ss ! k, input_of = Pipe_read (pipe_name pid k),
         output_of = Pipe_write (pipe_name pid (Suc k))\<rparr>) [0..<length ss] @ [l]))"
  proof -
    have f1: "(if ss = [] then Some (Pipe_read pid) else Some (Pipe_read (pipe_name pid (Suc (length ss - 1))))) =
        Some (Pipe_read (pipe_name pid (length ss)))" by (cases ss) (simp_all add: pipe_name_def)
    have f2: "(if k = 0 then Pipe_read pid else Pipe_read (pipe_name pid (Suc (k - 1)))) = Pipe_read (pipe_name pid k)" for k
      by (cases k) (simp_all add: pipe_name_def)
    have "\<forall>c\<in>set ss. c \<noteq> [] \<and> execvp_ok h cwd (hd c)" using Cons.prems by simp
    from Cons.IH[OF this, of "pid @ [1]" "Some (Pipe_read pid)"] show ?thesis by (simp only: option.case f1 f2 nm)
  qed
  finally show ?case
    by (simp add: bindO_assoc upt_conv_Cons map_Suc_upt[symmetric] comp_def pipe_name_def del: upt_Suc)
qed

lemma exec_prog_stages:
  assumes "''|'' \<in> set (tl args)" and "length (split_at (\<lambda>w. w = ''|'') args) \<le> 10"
    and "\<forall>c\<in>set (split_at (\<lambda>w. w = ''|'') args). length c \<le> 9"
  shows "exec_prog h cwd args = fork_stages h cwd args (split_at (\<lambda>w. w = ''|'') args) [0] Terminal Terminal None"
  using store_stages_split[of "[]" args "[]"] assms by (simp add: exec_prog_def piping_def)

lemma split_at_several: "P x \<Longrightarrow> x \<in> set xs \<Longrightarrow> 2 \<le> length (split_at P xs)"
proof (induction xs)
  case (Cons y ys)
  have "1 \<le> length (split_at P ys)" by (simp add: Suc_le_eq)
  then show ?case using Cons by (auto split: if_splits)
qed simp

lemma fork_stages_unstartable:
  assumes fork: "\<And>p. fork_ok h p" and gt: "args ! (length args - 2) \<noteq> ''>''"
  shows "\<forall>c\<in>set ss. c = [] \<or> \<not> execvp_ok h cwd (hd c) \<Longrightarrow>
    \<exists>ls. fork_stages h cwd args (ss @ [c]) pid fd0 fd1 in' = Ret ls \<and> length ls = 2 ^ length ss \<and>
      (\<forall>l\<in>set ls. \<exists>i out. l = execvp h cwd c i out)"
proof (induction ss arbitrary: pid fd0 fd1 in')
  case Nil
  then show ?case using gt by (auto simp: last_stage_def split: option.split)
next
  case (Cons a ss)
  obtain b rest where br: "ss @ [c] = b # rest" by (cases ss) auto
  have a: "execvp h cwd a i out = Complaint" for i out using Cons.prems by (auto simp: execvp_def)
  let ?i = "case in' of None \<Rightarrow> fd0 | Some r \<Rightarrow> r"
  from Cons.IH[of "pid @ [0]" ?i "Pipe_write pid" "Some (Pipe_read pid)"] Cons.prems obtain l0 where
    l0: "fork_stages h cwd args (ss @ [c]) (pid @ [0]) ?i (Pipe_write pid) (Some (Pipe_read pid)) = Ret l0"
      "length l0 = 2 ^ length ss" "\<forall>l\<in>set l0. \<exists>i out. l = execvp h cwd c i out" by auto
  from Cons.IH[of "pid @ [1]" fd0 fd1 "Some (Pipe_read pid)"] Cons.prems obtain l1 where
    l1: "fork_stages h cwd args (ss @ [c]) (pid @ [1]) fd0 fd1 (Some (Pipe_read pid)) = Ret l1"
      "length l1 = 2 ^ length ss" "\<forall>l\<in>set l1. \<exists>i out. l = execvp h cwd c i out" by auto
  have "fork_stages h cwd args ((a # ss) @ [c]) pid fd0 fd1 in' = Ret (l0 @ l1)"
    using l0(1) l1(1) unfolding append_Cons br by (simp add: fork a Let_def)
  then show ?case using l0 l1 by auto
qed

section \<open>The end of the input\<close>

lemma mangled_words: "words_of (mangled line) = take 1 (words_of line)"
proof -
  define l where "l = dropWhile is_delim line"
  have "words_of (pre @ l') = words_of l'" if "\<forall>c\<in>set pre. is_delim c" for pre l'
    using that by (induction pre) (simp_all add: words_of_delim)
  then have m: "words_of (mangled line) = words_of (takeWhile (\<lambda>c. \<not> is_delim c) l)"
    unfolding mangled_def l_def by (metis set_takeWhileD)
  have w: "words_of xs = (if xs = [] then [] else [xs])" if "\<forall>c\<in>set xs. \<not> is_delim c" for xs
    using that by (simp add: words_of_def split_at_none)
  have t: "words_of (takeWhile (\<lambda>c. \<not> is_delim c) l) =
      (if takeWhile (\<lambda>c. \<not> is_delim c) l = [] then [] else [takeWhile (\<lambda>c. \<not> is_delim c) l])"
    by (rule w) (metis set_takeWhileD)
  have f: "take 1 (words_of line) = (if l = [] then [] else [takeWhile (\<lambda>c. \<not> is_delim c) l])"
    unfolding strtok_words[symmetric, of line] by (subst strtok_all.simps) (simp add: Let_def flip: l_def)
  have "takeWhile (\<lambda>c. \<not> is_delim c) l \<noteq> []" if "l \<noteq> []"
    using that hd_dropWhile[of is_delim line] by (cases l) (auto simp: l_def)
  then show ?thesis unfolding m t f by auto
qed

lemma mangled_again: "mangled (mangled line) = mangled line"
proof -
  define l where "l = dropWhile is_delim line"
  have d: "dropWhile is_delim (takeWhile (\<lambda>c. \<not> is_delim c) l) = takeWhile (\<lambda>c. \<not> is_delim c) l"
    by (cases l) auto
  have p: "takeWhile is_delim (takeWhile (\<lambda>c. \<not> is_delim c) l) = []" by (cases l) auto
  have q: "\<forall>c\<in>set (takeWhile is_delim line). is_delim c" by (metis set_takeWhileD)
  then show ?thesis
    by (simp add: mangled_def takeWhile_append dropWhile_append d p flip: l_def)
qed

lemma repeat_first_word:
  assumes "words_of line = w # ws" and "length w < 256" and "w \<notin> {''exit'', ''cd'', ''pwd'', ''loop'', '';''}" and "fork_ok h []"
  shows "run_line h (mangled line) (Running cwd) = Ret (Running cwd, [Ran [execv h cwd [w] Terminal Terminal]])"
proof -
  have c: "commands_of (mangled line) = [[w]]"
    using assms by (simp add: commands_of_def mangled_words)
  then have "run_line h (mangled line) (Running cwd) = spec_commands h [[w]] (Running cwd)"
    using run_line_spec[of "mangled line" h "Running cwd"] assms by (simp add: fits_row_def loop_ok_def)
  then show ?thesis using assms by (simp add: spec_command_def execute_once_def exec_prog_def)
qed

section \<open>Properties\<close>

text \<open>
  C11. A line within the limits of the arrays, in which every \<open>loop\<close> has a word after it, runs as specified: its words, the non-empty pieces between blanks, are
  cut into commands at the semicolons, empty commands are passed over, each other one runs once, in order, or
  as often as its \<open>loop\<close> says, a bad number gives the error message, and nothing runs after \<open>exit\<close>.
\<close>

theorem line_runs_its_commands:
  assumes "\<forall>c\<in>set (commands_of line). fits_row c \<and> loop_ok c"
  shows "run_line h line st = spec_commands h (commands_of line) st"
  by (rule run_line_spec[OF assms])

text \<open>
  C30. In a pipeline of at most ten stages of at most nine words, all of which can be started, each stage becomes
  one process, which reads from the pipe the stage before it writes to; the first reads from the terminal and the last
  writes to it.
\<close>

theorem pipeline_connects_stages:
  assumes "''|'' \<in> set (tl args)" and "length (split_at (\<lambda>w. w = ''|'') args) \<le> 10"
    and "\<forall>c\<in>set (split_at (\<lambda>w. w = ''|'') args). c \<noteq> [] \<and> length c \<le> 9 \<and> execvp_ok h cwd (hd c)"
    and "\<forall>p. fork_ok h p" and "args ! (length args - 2) \<noteq> ''>''"
  shows "exec_prog h cwd args =
    (let ss = split_at (\<lambda>w. w = ''|'') args in
     Ret (map (\<lambda>k. Started \<lparr>args_of = ss ! k,
         input_of = (if k = 0 then Terminal else Pipe_read (pipe_name [0] (k - 1))),
         output_of = (if Suc k = length ss then Terminal else Pipe_write (pipe_name [0] k))\<rparr>) [0..<length ss]))"
proof -
  let ?s = "split_at (\<lambda>w. w = ''|'') args"
  define ss c where "ss = butlast ?s" and "c = last ?s"
  have s: "?s = ss @ [c]" by (simp add: ss_def c_def)
  have "''|'' \<in> set args" using assms(1) by (metis list.sel(2) list.set_sel(2))
  then have "2 \<le> length ?s" by (intro split_at_several) simp_all
  then have n: "ss \<noteq> []" by (auto simp: s)
  have c: "c \<noteq> []" "execvp_ok h cwd (hd c)" "\<forall>c\<in>set ss. c \<noteq> [] \<and> execvp_ok h cwd (hd c)"
    using assms(3) by (auto simp: s)
  have "exec_prog h cwd args = fork_stages h cwd args ?s [0] Terminal Terminal None"
    using assms by (intro exec_prog_stages) auto
  then show ?thesis
    using fork_stages_all[OF _ c(3), of args c "[0]" Terminal Terminal None] assms(4,5) n c(1,2)
    by (auto simp: s Let_def last_stage_def execvp_def nth_append)
qed

text \<open>
  C39. A stage that cannot be started does not stop: its process goes on with the rest of the pipeline as the shell's
  child does. When none of the stages before the last can be started, the last one is run \<open>2 ^ (n - 1)\<close> times.
\<close>

theorem unstartable_stages_multiply:
  assumes "''|'' \<in> set (tl args)" and "length (split_at (\<lambda>w. w = ''|'') args) \<le> 10"
    and "\<forall>c\<in>set (split_at (\<lambda>w. w = ''|'') args). c \<noteq> [] \<and> length c \<le> 9"
    and "\<forall>c\<in>set (butlast (split_at (\<lambda>w. w = ''|'') args)). \<not> execvp_ok h cwd (hd c)"
    and "execvp_ok h cwd (hd (last (split_at (\<lambda>w. w = ''|'') args)))"
    and "\<forall>p. fork_ok h p" and "args ! (length args - 2) \<noteq> ''>''"
  shows "\<exists>ps. exec_prog h cwd args = Ret (map Started ps) \<and>
    length ps = 2 ^ (length (split_at (\<lambda>w. w = ''|'') args) - 1) \<and>
    (\<forall>p\<in>set ps. args_of p = last (split_at (\<lambda>w. w = ''|'') args))"
proof -
  let ?s = "split_at (\<lambda>w. w = ''|'') args"
  define ss c where "ss = butlast ?s" and "c = last ?s"
  have s: "?s = ss @ [c]" by (simp add: ss_def c_def)
  have e: "exec_prog h cwd args = fork_stages h cwd args ?s [0] Terminal Terminal None"
    using assms by (intro exec_prog_stages) auto
  have c: "c \<noteq> []" using assms(3) by (simp add: s)
  obtain ls where ls: "fork_stages h cwd args (ss @ [c]) [0] Terminal Terminal None = Ret ls" "length ls = 2 ^ length ss"
    "\<forall>l\<in>set ls. \<exists>i out. l = execvp h cwd c i out"
    using fork_stages_unstartable[of h args ss cwd c "[0]" Terminal Terminal None] assms(4,6,7) by (auto simp: s)
  have "\<forall>l\<in>set ls. \<exists>p. l = Started p \<and> args_of p = c"
    using ls(3) assms(5) c by (auto simp: execvp_def s)
  moreover from this obtain ps where "ls = map Started ps" using ex_map_conv[of ls Started] by blast
  ultimately show ?thesis using e ls(1,2) by (auto simp: s)
qed

text \<open>
  When its input has ended, the shell never does: at every further prompt it runs the first word of the last line
  again, without its arguments.
\<close>

theorem end_of_input_repeats_first_word:
  assumes "words_of line = w # ws" and "length w < 256" and "w \<notin> {''exit'', ''cd'', ''pwd'', ''loop'', '';''}" and "fork_ok h []"
  shows "smash_main h n [] (mangled line) (Running cwd) =
    Ret (Running cwd, replicate n [Ran [execv h cwd [w] Terminal Terminal]])"
  by (induction n) (simp_all add: repeat_first_word[OF assms] mangled_again)

section \<open>Witnesses\<close>

text \<open>A host on which every program but \<open>bad\<close> can be started.\<close>

definition demo_host :: host where
  "demo_host = \<lparr> chdir = (\<lambda>cwd d. Some d), has_cwd = (\<lambda>_. True), moves = (\<lambda>_. False),
     execv_ok = (\<lambda>_ p. p \<noteq> ''bad''), execvp_ok = (\<lambda>_ p. p \<noteq> ''bad''), open_ok = (\<lambda>_ _. True), fork_ok = (\<lambda>_. True) \<rparr>"

theorem line_runs_its_commands_witness:
  "run_line demo_host ''cd x ; ; loop 2 a b ; loop q a ; exit ; a'' (Running ''/'') =
     Ret (Ended, [Ran [Started \<lparr>args_of = [''a'', ''b''], input_of = Terminal, output_of = Terminal\<rparr>],
       Ran [Started \<lparr>args_of = [''a'', ''b''], input_of = Terminal, output_of = Terminal\<rparr>], Error_message])"
proof -
  have "words_of ''cd x ; ; loop 2 a b ; loop q a ; exit ; a'' =
      [''cd'', ''x'', '';'', '';'', ''loop'', ''2'', ''a'', ''b'', '';'', ''loop'', ''q'', ''a'', '';'', ''exit'', '';'', ''a'']"
    by (simp add: strtok_words[symmetric] strtok_all.simps is_delim_def Let_def)
  then have c: "commands_of ''cd x ; ; loop 2 a b ; loop q a ; exit ; a'' =
      [[''cd'', ''x''], [], [''loop'', ''2'', ''a'', ''b''], [''loop'', ''q'', ''a''], [''exit''], [''a'']]"
    by (simp add: commands_of_def)
  have n: "strtol ''2'' = Some 2" "strtol ''q'' = None" "to_int 2 = 2"
    by (simp_all add: strtol_def leading_int_def is_space_def is_digit_def to_int_def)
  show ?thesis
    using line_runs_its_commands[of "''cd x ; ; loop 2 a b ; loop q a ; exit ; a''" demo_host "Running ''/''"]
    by (simp add: c fits_row_def loop_ok_def spec_command_def n execute_once_def exec_builtin_def exec_prog_def execv_def
        demo_host_def numeral_2_eq_2)
qed

theorem pipeline_connects_stages_witness:
  "exec_prog demo_host ''/'' [''a'', ''x'', ''|'', ''b''] =
     Ret [Started \<lparr>args_of = [''a'', ''x''], input_of = Terminal, output_of = Pipe_write [0]\<rparr>,
       Started \<lparr>args_of = [''b''], input_of = Pipe_read [0], output_of = Terminal\<rparr>]"
  using pipeline_connects_stages[of "[''a'', ''x'', ''|'', ''b'']" demo_host "''/''"]
  by (simp add: demo_host_def Let_def pipe_name_def)

theorem unstartable_stages_multiply_witness:
  "\<exists>ps. exec_prog demo_host ''/'' [''bad'', ''|'', ''bad'', ''|'', ''rm''] = Ret (map Started ps) \<and> length ps = 4 \<and>
     (\<forall>p\<in>set ps. args_of p = [''rm''])"
  using unstartable_stages_multiply[of "[''bad'', ''|'', ''bad'', ''|'', ''rm'']" demo_host "''/''"]
  by (simp add: demo_host_def)

theorem end_of_input_repeats_first_word_witness:
  "smash_main demo_host 3 [] (mangled ''rm a b'') (Running ''/'') =
     Ret (Running ''/'', replicate 3 [Ran [Started \<lparr>args_of = [''rm''], input_of = Terminal, output_of = Terminal\<rparr>]])"
  using end_of_input_repeats_first_word[of "''rm a b''" "''rm''" "[''a'', ''b'']" demo_host 3 "''/''"]
  by (simp add: words_of_def is_delim_def demo_host_def execv_def)

end
