(* ===== verification/Fortune.thy ===== *)
theory Fortune
  imports Smashspec
begin

text \<open>
  The fortune reader of project P1, from \<open>P1/badger_fortune.c\<close>.

  Files are a partial function from names to contents; an output file may be refused. The fortunes are an array
  of C strings in memory from \<open>malloc\<close>, with the number of bytes each has; \<open>heap\<close> is what that memory held before,
  \<open>None\<close> in place of a string without an end. The result of a run is the status, what was printed and the output
  file. Allocation fails only for negative sizes.
\<close>

section \<open>Reading\<close>

text \<open>The lines \<open>getline\<close> reads, with their newline; as a C string a line ends at its first NUL.\<close>

function lines_of :: "string \<Rightarrow> string list" where
  "lines_of s =
     (if s = [] then []
      else let l = takeWhile (\<lambda>c. c \<noteq> CHR 0x0A) s; r = dropWhile (\<lambda>c. c \<noteq> CHR 0x0A) s in
        if r = [] then [l] else (l @ [CHR 0x0A]) # lines_of (tl r))"
  by pat_completeness auto
termination
proof (relation "measure length", simp)
  fix s l r :: string
  assume "s \<noteq> []" and r: "r = dropWhile (\<lambda>c. c \<noteq> CHR 0x0A) s" "r \<noteq> []"
  have "length (tl r) < length r" using r(2) by simp
  also have "length r \<le> length s" unfolding r(1) by (rule length_dropWhile_le)
  finally show "(tl r, s) \<in> measure length" by simp
qed

declare lines_of.simps [simp del]

definition until_nul :: "string \<Rightarrow> string" where
  "until_nul s = takeWhile (\<lambda>c. c \<noteq> CHR 0x00) s"

definition libc_atoi :: "string \<Rightarrow> int outcome" where
  "libc_atoi s = (case leading_int (until_nul s) of None \<Rightarrow> Ret 0 | Some x \<Rightarrow> cint x)"

section \<open>Flags\<close>

text \<open>The messages by what they say; what is printed is a list of messages and texts.\<close>

datatype message =
  Usage | No_number_in_batch | No_batch_with_number | Invalid_flags | No_fortune_file | Cannot_open_fortunes
| Fortunes_empty | Not_allocated | Invalid_number | Cannot_open_batch | Batch_empty | Cannot_open_file

datatype printed = Message message | Text string

text \<open>The places of the flags in the arguments, 0 for a flag that is not there.\<close>

record flags =
  fNum :: nat
  nNum :: nat
  bNum :: nat
  oNum :: nat

fun scan_flags :: "string list \<Rightarrow> nat \<Rightarrow> flags \<Rightarrow> message + flags" where
  "scan_flags [] i fl = Inr fl"
| "scan_flags (a # as) i fl =
     (if a = ''-f'' then scan_flags as (Suc i) (fl\<lparr>fNum := i\<rparr>)
      else if a = ''-n'' then
        if bNum fl \<noteq> 0 then Inl No_number_in_batch else scan_flags as (Suc i) (fl\<lparr>nNum := i\<rparr>)
      else if a = ''-b'' then
        if nNum fl \<noteq> 0 then Inl No_batch_with_number else scan_flags as (Suc i) (fl\<lparr>bNum := i\<rparr>)
      else if a = ''-o'' then scan_flags as (Suc i) (fl\<lparr>oNum := i\<rparr>)
      else scan_flags as (Suc i) fl)"

definition check_flags :: "string list \<Rightarrow> message + flags" where
  "check_flags argv =
     (if length argv < 5 then Inl Usage
      else case scan_flags (tl argv) 1 \<lparr>fNum = 0, nNum = 0, bNum = 0, oNum = 0\<rparr> of
        Inl m \<Rightarrow> Inl m
      | Inr fl \<Rightarrow>
          if nNum fl = 0 \<and> bNum fl = 0 then Inl Invalid_flags
          else if nNum fl \<noteq> 0 \<and> fNum fl = 0 \<and> bNum fl = 0 \<and> oNum fl = 0 then Inl Invalid_flags
          else if fNum fl = 0 \<and> (nNum fl \<noteq> 0 \<or> bNum fl \<noteq> 0) then Inl No_fortune_file
          else Inr fl)"

text \<open>The argument after a flag: the last flag has none.\<close>

definition arg_after :: "string list \<Rightarrow> nat \<Rightarrow> string outcome" where
  "arg_after argv i = (if i + 1 < length argv then Ret (argv ! (i + 1)) else Undef ''null string'')"

section \<open>The fortunes\<close>

text \<open>An array of strings, each with the bytes it has room for.\<close>

type_synonym fortunes = "(nat \<times> string option) list"

definition fresh_string :: "(nat \<Rightarrow> char) \<Rightarrow> nat \<Rightarrow> string option" where
  "fresh_string junk m =
     (if CHR 0x00 \<in> set (map junk [0..<m]) then Some (until_nul (map junk [0..<m])) else None)"

definition fresh_fortunes :: "(nat \<Rightarrow> nat \<Rightarrow> char) \<Rightarrow> nat \<Rightarrow> nat \<Rightarrow> fortunes" where
  "fresh_fortunes heap n m = map (\<lambda>i. (m, fresh_string (heap i) m)) [0..<n]"

definition text_at :: "fortunes \<Rightarrow> int \<Rightarrow> string outcome" where
  "text_at fs i =
     bindO (aget fs i) (\<lambda>(cap, t). case t of None \<Rightarrow> Undef ''string without end'' | Some s \<Rightarrow> Ret s)"

definition strcat_at :: "fortunes \<Rightarrow> int \<Rightarrow> string \<Rightarrow> fortunes outcome" where
  "strcat_at fs i l =
     bindO (aget fs i) (\<lambda>(cap, t).
     case t of None \<Rightarrow> Undef ''string without end''
     | Some s \<Rightarrow> if length s + length l < cap then aset fs i (cap, Some (s @ l)) else Undef ''string write'')"

text \<open>The two numbers at the start: \<open>None\<close> is a variable that was never written.\<close>

definition read_numbers :: "string list \<Rightarrow> (int option \<times> int option \<times> string list) outcome" where
  "read_numbers ls =
     (case ls of
        [] \<Rightarrow> Ret (None, None, [])
      | [l] \<Rightarrow> bindO (libc_atoi l) (\<lambda>a. Ret (Some a, None, []))
      | l # l' # rest \<Rightarrow> bindO (libc_atoi l) (\<lambda>a. bindO (libc_atoi l') (\<lambda>b. Ret (Some a, Some b, rest))))"

fun store_lines :: "string list \<Rightarrow> nat \<Rightarrow> fortunes \<Rightarrow> fortunes outcome" where
  "store_lines [] k fs = Ret fs"
| "store_lines (l # ls) k fs =
     (if until_nul l = ''%'' @ [CHR 0x0A] then store_lines ls (Suc k) fs
      else bindO (strcat_at fs (int k) (until_nul l)) (\<lambda>fs'. store_lines ls k fs'))"

text \<open>Allocating and filling the array; the first line after the numbers is skipped.\<close>

definition load_fortunes :: "(nat \<Rightarrow> nat \<Rightarrow> char) \<Rightarrow> string \<Rightarrow> (message + int \<times> fortunes) outcome" where
  "load_fortunes heap content =
     bindO (read_numbers (lines_of content)) (\<lambda>(a, b, rest).
     case a of
       None \<Rightarrow> Ret (Inl Fortunes_empty)
     | Some n \<Rightarrow>
         if n < 0 then Ret (Inl Not_allocated)
         else if n = 0 then bindO (store_lines (tl rest) 0 []) (\<lambda>fs. Ret (Inr (n, fs)))
         else case b of
           None \<Rightarrow> Undef ''uninitialised number''
         | Some m \<Rightarrow>
             if m < 0 then Ret (Inl Not_allocated)
             else bindO (store_lines (tl rest) 0 (fresh_fortunes heap (nat n) (nat m))) (\<lambda>fs. Ret (Inr (n, fs))))"

section \<open>Printing\<close>

definition ends_with_newline :: "string \<Rightarrow> bool outcome" where
  "ends_with_newline l =
     (let s = until_nul l in if s = [] then Undef ''array read'' else Ret (last s = CHR 0x0A))"

text \<open>The batch on the terminal. For a last line without newline the fortune loses its last two characters.\<close>

fun batch_print :: "int \<Rightarrow> string list \<Rightarrow> fortunes \<Rightarrow> nat \<Rightarrow> (nat \<times> printed list) outcome" where
  "batch_print n [] fs cnt = Ret (cnt, [])"
| "batch_print n (l # ls) fs cnt =
     bindO (libc_atoi l) (\<lambda>k.
     if k < 0 \<or> n < k then
       bindO (batch_print n ls fs cnt) (\<lambda>(c, out). Ret (c, Message Invalid_number # out))
     else bindO (ends_with_newline l) (\<lambda>nl.
       bindO (text_at fs (k - 1)) (\<lambda>t.
       if nl then
         bindO (batch_print n ls fs (Suc cnt)) (\<lambda>(c, out). Ret (c, Text (t @ [CHR 0x0A, CHR 0x0A]) # out))
       else if length t < 2 then Undef ''array write''
       else
         (let t' = take (length t - 2) t in
          bindO (aget fs (k - 1)) (\<lambda>(cap, _). bindO (aset fs (k - 1) (cap, Some t')) (\<lambda>fs'.
          bindO (batch_print n ls fs' (Suc cnt)) (\<lambda>(c, out). Ret (c, Text t' # out))))))))"

text \<open>The batch into the output file.\<close>

fun batch_write :: "int \<Rightarrow> string list \<Rightarrow> fortunes \<Rightarrow> nat \<Rightarrow> (nat \<times> printed list) outcome" where
  "batch_write n [] fs cnt = Ret (cnt, [])"
| "batch_write n (l # ls) fs cnt =
     bindO (libc_atoi l) (\<lambda>k.
     if k \<le> 0 \<or> n < k then
       bindO (batch_write n ls fs cnt) (\<lambda>(c, out). Ret (c, Message Invalid_number # out))
     else bindO (ends_with_newline l) (\<lambda>nl. bindO (text_at fs (k - 1)) (\<lambda>t.
       bindO (batch_write n ls fs (Suc cnt)) (\<lambda>(c, out).
       Ret (c, Text (t @ (if nl then [CHR 0x0A, CHR 0x0A] else [])) # out)))))"

section \<open>The program\<close>

record fortune_run =
  status :: int
  shown :: "printed list"
  written :: "(string \<times> printed list) option"

definition fails :: "message \<Rightarrow> fortune_run" where
  "fails m = \<lparr>status = 1, shown = [Message m], written = None\<rparr>"

definition number_mode :: "int \<Rightarrow> fortunes \<Rightarrow> string \<Rightarrow> fortune_run outcome" where
  "number_mode n fs arg =
     bindO (libc_atoi arg) (\<lambda>k.
     if k < 0 \<or> n < k then Ret (fails Invalid_number)
     else bindO (text_at fs (k - 1)) (\<lambda>t. Ret \<lparr>status = 0, shown = [Text t], written = None\<rparr>))"

definition batch_mode :: "int \<Rightarrow> fortunes \<Rightarrow> string option \<Rightarrow> fortune_run outcome" where
  "batch_mode n fs batch =
     (case batch of
        None \<Rightarrow> Ret (fails Cannot_open_batch)
      | Some content \<Rightarrow>
          bindO (batch_print n (lines_of content) fs 0) (\<lambda>(c, out).
          Ret (if c = 0 then \<lparr>status = 1, shown = out @ [Message Batch_empty], written = None\<rparr>
               else \<lparr>status = 0, shown = out, written = None\<rparr>)))"

definition output_mode ::
  "(string \<Rightarrow> string option) \<Rightarrow> (string \<Rightarrow> bool) \<Rightarrow> int \<Rightarrow> fortunes \<Rightarrow> string list \<Rightarrow> flags \<Rightarrow> fortune_run outcome"
where
  "output_mode files can_write n fs argv fl =
     (if oNum fl = 0 then Ret \<lparr>status = 0, shown = [], written = None\<rparr>
      else bindO (arg_after argv (oNum fl)) (\<lambda>f.
        if \<not> can_write f then Ret (fails Cannot_open_file)
        else if nNum fl \<noteq> 0 then
          bindO (arg_after argv (nNum fl)) (\<lambda>arg. bindO (libc_atoi arg) (\<lambda>k. bindO (text_at fs (k - 1)) (\<lambda>t.
          Ret \<lparr>status = 0, shown = [], written = Some (f, [Text t])\<rparr>)))
        else bindO (arg_after argv (bNum fl)) (\<lambda>b.
          case files b of
            None \<Rightarrow> Ret \<lparr>status = 1, shown = [Message Cannot_open_file], written = Some (f, [])\<rparr>
          | Some content \<Rightarrow>
              bindO (batch_write n (lines_of content) fs 0) (\<lambda>(c, out).
              Ret (if c = 0 then \<lparr>status = 1, shown = [Message Batch_empty], written = Some (f, out)\<rparr>
                   else \<lparr>status = 0, shown = [], written = Some (f, out)\<rparr>)))))"

definition badger_fortune ::
  "(nat \<Rightarrow> nat \<Rightarrow> char) \<Rightarrow> (string \<Rightarrow> string option) \<Rightarrow> (string \<Rightarrow> bool) \<Rightarrow> string list \<Rightarrow> fortune_run outcome"
where
  "badger_fortune heap files can_write argv =
     (case check_flags argv of
        Inl m \<Rightarrow> Ret (fails m)
      | Inr fl \<Rightarrow>
          bindO (arg_after argv (fNum fl)) (\<lambda>f.
          case files f of
            None \<Rightarrow> Ret (fails Cannot_open_fortunes)
          | Some content \<Rightarrow>
              bindO (load_fortunes heap content) (\<lambda>r.
              case r of
                Inl m \<Rightarrow> Ret (fails m)
              | Inr (n, fs) \<Rightarrow>
                  if nNum fl \<noteq> 0 \<and> length argv = 5 then
                    bindO (arg_after argv (nNum fl)) (\<lambda>arg. number_mode n fs arg)
                  else if bNum fl \<noteq> 0 \<and> length argv = 5 then
                    bindO (arg_after argv (bNum fl)) (\<lambda>b. batch_mode n fs (files b))
                  else output_mode files can_write n fs argv fl)))"

section \<open>The array holds the fortunes\<close>

definition is_mark :: "string \<Rightarrow> bool" where
  "is_mark l \<longleftrightarrow> l = ''%'' @ [CHR 0x0A]"

lemma store_lines_Cons:
  "store_lines (l # ls) k fs =
     (if is_mark (until_nul l) then store_lines ls (Suc k) fs
      else bindO (strcat_at fs (int k) (until_nul l)) (\<lambda>fs'. store_lines ls k fs'))"
  by (simp add: is_mark_def)

lemma until_nul_id: "CHR 0x00 \<notin> set l \<Longrightarrow> until_nul l = l"
  by (simp only: until_nul_def takeWhile_eq_all_conv) blast

text \<open>Each part between marks is appended to what its string held before.\<close>

lemma store_lines_parts:
  assumes "\<forall>l\<in>set ls. CHR 0x00 \<notin> set l" and "k + length (split_at is_mark ls) \<le> length fs"
    and "\<forall>i. k \<le> i \<and> i < length fs \<longrightarrow> fs ! i = (m, Some (old i))"
    and "\<forall>j<length (split_at is_mark ls). length (old (k + j)) + length (concat (split_at is_mark ls ! j)) < m"
  shows "\<exists>fs'. store_lines ls k fs = Ret fs' \<and> length fs' = length fs \<and>
    (\<forall>i<length fs. fs' ! i =
      (if k \<le> i \<and> i < k + length (split_at is_mark ls)
       then (m, Some (old i @ concat (split_at is_mark ls ! (i - k)))) else fs ! i))"
  using assms
proof (induction ls arbitrary: k fs old)
  case Nil
  then show ?case by auto
next
  case (Cons l ls)
  let ?s = "split_at is_mark ls"
  have u: "until_nul l = l" using Cons.prems(1) by (simp add: until_nul_id)
  obtain c cs where s: "?s = c # cs" by (cases ?s) simp_all
  show ?case
  proof (cases "is_mark l")
    case True
    have "\<exists>fs'. store_lines ls (Suc k) fs = Ret fs' \<and> length fs' = length fs \<and>
        (\<forall>i<length fs. fs' ! i = (if Suc k \<le> i \<and> i < Suc k + length ?s
           then (m, Some (old i @ concat (?s ! (i - Suc k)))) else fs ! i))"
    proof (rule Cons.IH)
      show "\<forall>j<length ?s. length (old (Suc k + j)) + length (concat (?s ! j)) < m"
        using Cons.prems(4)[rule_format, of "Suc _"] True by auto
    qed (use Cons.prems True in auto)
    then obtain fs' where fs': "store_lines ls (Suc k) fs = Ret fs'" "length fs' = length fs"
        "\<And>i. i < length fs \<Longrightarrow> fs' ! i = (if Suc k \<le> i \<and> i < Suc k + length ?s
           then (m, Some (old i @ concat (?s ! (i - Suc k)))) else fs ! i)" by blast
    have "fs' ! i = (if k \<le> i \<and> i < k + Suc (length ?s)
        then (m, Some (old i @ concat (([] # ?s) ! (i - k)))) else fs ! i)" if "i < length fs" for i
    proof (cases "i = k")
      case True
      then show ?thesis using fs'(3)[OF that] Cons.prems(3) that by simp
    next
      case False
      then have "k \<le> i \<longleftrightarrow> Suc k \<le> i" "Suc k \<le> i \<Longrightarrow> i - k = Suc (i - Suc k)" by linarith+
      then show ?thesis using fs'(3)[OF that] by simp
    qed
    then show ?thesis using fs'(1,2) True u by (intro exI[of _ fs']) (simp add: store_lines_Cons del: store_lines.simps(2))
  next
    case False
    have lt: "k < length fs" using Cons.prems(2) False s by simp
    have cap: "length (old k) + length l < m"
      using Cons.prems(4)[rule_format, of 0] False s by simp
    have st: "strcat_at fs (int k) l = Ret (fs[k := (m, Some (old k @ l))])"
      using lt cap Cons.prems(3)[rule_format, of k] by (simp add: strcat_at_def array_simps)
    let ?fs = "fs[k := (m, Some (old k @ l))]" and ?old = "old(k := old k @ l)"
    have "\<exists>fs'. store_lines ls k ?fs = Ret fs' \<and> length fs' = length ?fs \<and>
        (\<forall>i<length ?fs. fs' ! i = (if k \<le> i \<and> i < k + length ?s
           then (m, Some (?old i @ concat (?s ! (i - k)))) else ?fs ! i))"
    proof (rule Cons.IH)
      show "\<forall>j<length ?s. length (?old (k + j)) + length (concat (?s ! j)) < m"
      proof (intro allI impI)
        fix j assume "j < length ?s"
        then show "length (?old (k + j)) + length (concat (?s ! j)) < m"
          using Cons.prems(4)[rule_format, of j] False s by (cases j) simp_all
      qed
      show "\<forall>i. k \<le> i \<and> i < length ?fs \<longrightarrow> ?fs ! i = (m, Some (?old i))"
        using Cons.prems(3) by (simp add: nth_list_update)
    qed (use Cons.prems False s in auto)
    then obtain fs' where fs': "store_lines ls k ?fs = Ret fs'" "length fs' = length fs"
        "\<And>i. i < length fs \<Longrightarrow> fs' ! i = (if k \<le> i \<and> i < k + length ?s
           then (m, Some (?old i @ concat (?s ! (i - k)))) else ?fs ! i)" by auto
    have "fs' ! i = (if k \<le> i \<and> i < k + length ?s
        then (m, Some (old i @ concat (((l # c) # cs) ! (i - k)))) else fs ! i)" if "i < length fs" for i
      using fs'(3)[OF that] s by (cases "i = k") (auto simp: nth_Cons')
    then show ?thesis using fs'(1,2) False u st s
      by (intro exI[of _ fs']) (simp add: store_lines_Cons del: store_lines.simps(2))
  qed
qed

text \<open>A fortune file: two numbers, a line, and the fortunes between lines with a percent sign.\<close>

definition fortune_file :: "string \<Rightarrow> nat \<Rightarrow> nat \<Rightarrow> string list list \<Rightarrow> bool" where
  "fortune_file content n m parts \<longleftrightarrow>
     (case lines_of content of
        l1 # l2 # l3 # body \<Rightarrow>
          libc_atoi l1 = Ret (int n) \<and> libc_atoi l2 = Ret (int m) \<and> split_at is_mark body = parts \<and>
          (\<forall>l\<in>set body. CHR 0x00 \<notin> set l)
      | _ \<Rightarrow> False) \<and> length parts \<le> n"

definition fortune_text :: "string list list \<Rightarrow> nat \<Rightarrow> string" where
  "fortune_text parts i = (if i < length parts then concat (parts ! i) else [])"

text \<open>
  Fresh memory in which every string has an end, after what \<open>old\<close> says, with room for the fortune behind it.
\<close>

definition fresh_room ::
  "(nat \<Rightarrow> nat \<Rightarrow> char) \<Rightarrow> nat \<Rightarrow> nat \<Rightarrow> string list list \<Rightarrow> (nat \<Rightarrow> string) \<Rightarrow> bool"
where
  "fresh_room heap n m parts old \<longleftrightarrow>
     (\<forall>i<n. fresh_string (heap i) m = Some (old i) \<and> length (old i) + length (fortune_text parts i) < m)"

lemma load_fortunes_file:
  assumes "fortune_file content n m parts" and room: "fresh_room heap n m parts old"
  shows "\<exists>fs. load_fortunes heap content = Ret (Inr (int n, fs)) \<and> length fs = n \<and>
    (\<forall>i<n. text_at fs (int i) = Ret (old i @ fortune_text parts i))"
proof -
  obtain l1 l2 l3 body where ls: "lines_of content = l1 # l2 # l3 # body"
    and a: "libc_atoi l1 = Ret (int n)" "libc_atoi l2 = Ret (int m)" and sp: "split_at is_mark body = parts"
    and nul: "\<forall>l\<in>set body. CHR 0x00 \<notin> set l" and le: "length parts \<le> n"
    using assms(1) by (auto simp: fortune_file_def split: list.splits)
  have "parts \<noteq> []" unfolding sp[symmetric] by simp
  then have n: "0 < n" using le by (cases parts) simp_all
  let ?f = "fresh_fortunes heap n m"
  have fresh: "?f ! i = (m, Some (old i))" "length ?f = n" if "i < n" for i
    using room that by (simp_all add: fresh_fortunes_def fresh_room_def)
  have fit: "\<forall>j<length parts. length (old (0 + j)) + length (concat (parts ! j)) < m"
  proof (intro allI impI)
    fix j assume "j < length parts"
    then show "length (old (0 + j)) + length (concat (parts ! j)) < m"
      using room[unfolded fresh_room_def, rule_format, of j] le by (simp add: fortune_text_def)
  qed
  obtain fs where fs: "store_lines body 0 ?f = Ret fs" "length fs = n"
      "\<And>i. i < n \<Longrightarrow> fs ! i = (if i < length parts then (m, Some (old i @ concat (parts ! i))) else ?f ! i)"
    using store_lines_parts[of body 0 ?f m old] nul le fit fresh n by (auto simp: sp)
  then have "load_fortunes heap content = Ret (Inr (int n, fs))"
    using n by (simp add: load_fortunes_def read_numbers_def ls a)
  moreover have "fs ! i = (m, Some (old i @ fortune_text parts i))" if "i < n" for i
    using that fs(3)[OF that] fresh(1) by (simp add: fortune_text_def)
  ultimately show ?thesis using fs(2) by (auto simp: text_at_def array_simps)
qed

section \<open>Properties\<close>

text \<open>
  C38. With a fortune file whose fortunes are as many as its first number says, the program appends each fortune to
  what its string from \<open>malloc\<close> happened to hold. When each string has an end and the fortune fits behind it, the
  program prints for the number it is given that leftover text and then exactly the fortune, and exits with 0; a number
  that is negative or too large gives the error message and status 1; the number 0 is accepted and reads before the array.
\<close>

theorem prints_the_numbered_fortune:
  assumes "files f = Some content" and "fortune_file content n m parts" and "fresh_room heap n m parts old"
    and "libc_atoi arg = Ret k"
    and "f \<notin> {''-f'', ''-n'', ''-b'', ''-o''}" and "arg \<notin> {''-f'', ''-n'', ''-b'', ''-o''}"
  shows "badger_fortune heap files can_write [prog, ''-f'', f, ''-n'', arg] =
    (if k < 0 \<or> int n < k then Ret \<lparr>status = 1, shown = [Message Invalid_number], written = None\<rparr>
     else if k = 0 then Undef ''array read''
     else Ret \<lparr>status = 0, shown = [Text (old (nat k - 1) @ fortune_text parts (nat k - 1))], written = None\<rparr>)"
proof -
  obtain fs where fs: "load_fortunes heap content = Ret (Inr (int n, fs))" "length fs = n"
    "\<forall>i<n. text_at fs (int i) = Ret (old i @ fortune_text parts i)"
    using load_fortunes_file[OF assms(2,3)] by auto
  have fl: "check_flags [prog, ''-f'', f, ''-n'', arg] = Inr \<lparr>fNum = 1, nNum = 3, bNum = 0, oNum = 0\<rparr>"
    using assms(5,6) by (simp add: check_flags_def)
  have t: "text_at fs (k - 1) = (if k = 0 then Undef ''array read'' else Ret (old (nat k - 1) @ fortune_text parts (nat k - 1)))"
    if "0 \<le> k" "k \<le> int n"
  proof (cases "k = 0")
    case True
    then show ?thesis by (simp add: text_at_def aget_def)
  next
    case False
    then have "k - 1 = int (nat k - 1)" "nat k - 1 < n" using that by linarith+
    then show ?thesis using False fs(3) by (metis)
  qed
  show ?thesis
    using t assms(1,4) by (auto simp: badger_fortune_def fl arg_after_def fs(1) number_mode_def fails_def)
qed

section \<open>Witnesses\<close>

definition demo_fortunes :: string where
  "demo_fortunes = ''2'' @ [CHR 0x0A] @ ''9'' @ [CHR 0x0A] @ ''%'' @ [CHR 0x0A] @ ''ab'' @ [CHR 0x0A] @
     ''%'' @ [CHR 0x0A] @ ''cd'' @ [CHR 0x0A] @ ''e'' @ [CHR 0x0A]"

text \<open>Memory with an \<open>x\<close> before the first NUL of the second string.\<close>

definition demo_junk :: "nat \<Rightarrow> nat \<Rightarrow> char" where
  "demo_junk i j = (if i = 1 \<and> j = 0 then CHR ''x'' else CHR 0x00)"

theorem prints_the_numbered_fortune_witness:
  "badger_fortune demo_junk (\<lambda>_. Some demo_fortunes) (\<lambda>_. True) [''b'', ''-f'', ''x'', ''-n'', ''2''] =
     Ret \<lparr>status = 0, shown = [Text (''xcd'' @ [CHR 0x0A] @ ''e'' @ [CHR 0x0A])], written = None\<rparr>"
proof -
  let ?parts = "[[''ab'' @ [CHR 0x0A]], [''cd'' @ [CHR 0x0A], ''e'' @ [CHR 0x0A]]]"
  have l: "lines_of demo_fortunes = [''2'' @ [CHR 0x0A], ''9'' @ [CHR 0x0A], ''%'' @ [CHR 0x0A], ''ab'' @ [CHR 0x0A],
      ''%'' @ [CHR 0x0A], ''cd'' @ [CHR 0x0A], ''e'' @ [CHR 0x0A]]"
    by (simp add: demo_fortunes_def lines_of.simps Let_def)
  have a: "libc_atoi (''2'' @ [CHR 0x0A]) = Ret 2" "libc_atoi (''9'' @ [CHR 0x0A]) = Ret 9" "libc_atoi ''2'' = Ret 2"
    by (simp_all add: libc_atoi_def until_nul_def leading_int_def is_space_def is_digit_def cint_def)
  have f: "fortune_file demo_fortunes 2 9 ?parts"
    using a by (simp add: fortune_file_def l is_mark_def)
  have "fresh_string (demo_junk 0) 9 = Some []" "fresh_string (demo_junk (Suc 0)) 9 = Some ''x''"
    by (simp_all add: fresh_string_def until_nul_def demo_junk_def upt_rec)
  then have r: "fresh_room demo_junk 2 9 ?parts (\<lambda>i. if i = 1 then ''x'' else [])"
    by (auto simp: fresh_room_def numeral_2_eq_2 less_Suc_eq fortune_text_def)
  show ?thesis
    using prints_the_numbered_fortune[OF _ f r a(3), of "\<lambda>_. Some demo_fortunes" "''x''" "\<lambda>_. True" "''b''"]
    by (simp add: fortune_text_def)
qed

end
