(* ===== verification/Spec2Isabelle.thy ===== *)
theory Spec2Isabelle
  imports Psort Pipe Rpc Procsys Cow Shrun Bio Fspath Sysargs Execspec Loadspec Grep Umallocsafe Console Recovery Fortune
begin

text \<open>
  A verification library for the course projects of CS 537: five user programs of their own (P1, P3, P6, P7, P8) and
  three copies of the kernel xv6, each changed by a project (P2, P4, P5). Every kernel component is
  modelled from the copy whose project changes it, the stride scheduler from P4, copy-on-write from P5;
  what the projects leave alone, the file system and the shell, from P5.

  \<^bold>\<open>Parts and theories.\<close>

  \<^item> \<open>Prelude\<close>: C integers as words, the outcome of a C function (a value, a \<open>panic\<close>, undefined behaviour),
    checked arrays, the search loop over a table.
  \<^item> \<open>Psort\<close> (\<open>P6/psort.c\<close>): reading 100-byte records, splitting among threads, \<open>mergeSort\<close> and \<open>merge\<close>,
    the final merge and the output file. The program writes the stable sort of its input for every
    schedule of the threads.
  \<^item> \<open>Rpc\<close> (\<open>P8/server.c\<close>, \<open>server_functions.c\<close>, \<open>client.c\<close>): requests with client and sequence numbers, the
    table of the server, the retrying client and a network that loses, delays and duplicates. A call is
    carried out at most once.
  \<^item> \<open>Kstring\<close> (\<open>P5/xv6/kernel/string.c\<close>): memory as a function of 32-bit addresses, \<open>memmove\<close> and the
    string functions.
  \<^item> \<open>Kalloc\<close> (\<open>P5/xv6/kernel/kalloc.c\<close>): the free list in memory and the reference counts of pages. The
    locale \<open>page_allocator\<close> is its contract, interpreted on \<open>kalloc\<close>, \<open>kfree\<close> and \<open>incPageRef\<close>.
  \<^item> \<open>Vm\<close>, \<open>Vmspec\<close>, \<open>Cow\<close> (\<open>P5/xv6/kernel/vm.c\<close>): \<open>walkpgdir\<close>, \<open>mappages\<close>, \<open>cowuvm\<close> and the fault handler.
    Mapping refines the abstract address space; sharing on fork keeps every page and its counts; a
    fault gives the writer a page of its own and leaves the other processes their bytes; with no free page it
    overwrites the first page of the process instead.
  \<^item> \<open>Proc\<close>, \<open>Procsys\<close> (\<open>P4/xv6/kernel/proc.c\<close>): the process table, \<open>fork\<close>, \<open>exit\<close>, \<open>wait\<close>, \<open>kill\<close>, \<open>sleep\<close>,
    \<open>wakeup\<close> and the stride scheduler, first each alone, then interleaved by several processors.
  \<^item> \<open>Fifo\<close>, \<open>Pipe\<close> (\<open>P5/xv6/kernel/pipe.c\<close>): the locale \<open>bounded_fifo\<close> of a ring buffer, interpreted on the
    pipe, and readers and writers interleaved between their waits.
  \<^item> \<open>Bio\<close> (\<open>P5/xv6/kernel/bio.c\<close>, \<open>ide.c\<close>): the buffer cache and the queue of disk requests, coherent with the
    disk in every interleaving of processes and interrupts but for buffers the drive failed to read.
  \<^item> \<open>Fs\<close> (\<open>P5/xv6/kernel/fs.c\<close>) with \<open>Fsblock\<close> (bitmap), \<open>Fsinode\<close> (inodes on disk), \<open>Fsfile\<close> (contents) and
    \<open>Fspath\<close> (path names): \<open>balloc\<close> and \<open>bfree\<close> mark exactly one block, where \<open>balloc\<close> may go on past the end of
    the disk up to the last mark of the bitmap (\<open>data_end\<close>), and the theorems on files count these blocks as storage; \<open>iupdate\<close> and \<open>ilock\<close> are inverse,
    \<open>writei\<close> refines the replacement of a range of bytes of a function from offsets to bytes, and
    \<open>skipelem\<close> is the splitting of a path at slashes.
  \<^item> \<open>Filetable\<close>, \<open>Fdtab\<close>, \<open>Sysfile\<close> (\<open>file.c\<close>, \<open>pipealloc\<close>, \<open>sysfile.c\<close>, \<open>syscall.c\<close> of \<open>P5/xv6/kernel\<close>) put the file system, the
    pipes and the page allocator together under the system calls. \<open>Sysrefs\<close>: counts of open files are
    counts of descriptors. \<open>Sysargs\<close>: what the checks of arguments guarantee.
  \<^item> \<open>Exec\<close> (\<open>P5/xv6/kernel/exec.c\<close>, \<open>elf.h\<close>, \<open>loaduvm\<close>, \<open>sys_exec\<close>): replacing the image of a process, where page tables
    and file system meet. \<open>Usermem\<close>: the memory of a process as its page table shows it, on which \<open>copyout\<close> is the
    replacement of a range of bytes; from it, \<open>Loadspec\<close> shows that a segment holds the bytes of the program file and
    \<open>Execspec\<close> that the arguments are on the stack where the program looks for them.
  \<^item> \<open>Sh\<close>, \<open>Shprint\<close>, \<open>Shrun\<close> (\<open>P5/xv6/user/sh.c\<close>): tokens, the parser on the line buffer, a printer it inverts,
    and \<open>runcmd\<close> on descriptor tables against the abstract plan of a command.
  \<^item> \<open>Console\<close> (\<open>P5/xv6/kernel/console.c\<close>): the interrupt that edits the input line, the reader, the writer and
    \<open>cprintf\<close>. The ring of input is the second interpretation of \<open>bounded_fifo\<close>; editing refines a pair of
    the lines already complete and the line still being typed.
  \<^item> \<open>Ulib\<close> (\<open>P5/xv6/user/ulib.c\<close>, \<open>printf.c\<close>): strings, \<open>atoi\<close> and the formatted printer, which \<open>atoi\<close> inverts.
    \<open>Grep\<close> (\<open>P5/xv6/user/grep.c\<close>): the matcher against the language of a pattern, the buffer loop against the
    lines of a file.
  \<^item> \<open>Umalloc\<close>, \<open>Umallocsafe\<close> (\<open>P5/xv6/user/umalloc.c\<close>): the circular free list, \<open>free\<close> with its merging, \<open>malloc\<close>
    with \<open>morecore\<close>. The locale \<open>block_allocator\<close> is the contract of an allocator of blocks, interpreted on them.

  \<^item> \<open>Ext2\<close>, \<open>Runscan\<close>, \<open>Recovery\<close> (\<open>P7/read_ext2.c\<close>, \<open>runscan.c\<close>): the structures of an ext2 image, the copy of a
    file through its indirect blocks against the contents its inode stands for, the walk over a directory block,
    and the whole program against the list of pictures of the image.
  \<^item> \<open>Smash\<close>, \<open>Smashspec\<close> (\<open>P3/smash.c\<close>): the host shell with its arrays of words, \<open>loop\<close>, built-in commands and the
    processes of a pipeline; a line refines the plan of its commands, the stages of a pipeline are joined by pipes.
  \<^item> \<open>Fortune\<close> (\<open>P1/badger_fortune.c\<close>): flags, the array of fortunes, the number and batch modes. The fortune with
    the number given is printed, after whatever its fresh memory held.

  \<^bold>\<open>State and time.\<close> C structs are records, pointers into tables are indexes, integers that wrap are words.
  The kernel models of \<open>Pipe\<close>, \<open>Bio\<close> and \<open>Procsys\<close> are step relations whose steps are the segments that run
  under one lock; the other models are sequential functions, in which an operation that would wait for a
  lock or for data has the outcome \<open>Undef ''waits''\<close>. \<open>Fs\<close> reads and writes blocks directly, which is what
  \<open>Bio\<close> justifies.

  \<^bold>\<open>Bounds and fuel.\<close> Loops end by measures, but for two searches through a directory (\<open>empty_dirent\<close>,
  \<open>dirempty_loop\<close>), which count one round more than the directory has entries and so always end by their own
  test, and the parser of the shell, whose depth \<open>depth_for\<close> grows with the line and is shown to be enough. The loops of
  user programs that run until they find a byte or a block (\<open>ustrcpy\<close>, \<open>free_find\<close>, \<open>malloc_loop\<close>, \<open>isPowerOf\<close>) are partial
  functions into an option; the theorems about them state that they return. Disks
  have at most \<open>2\<^sup>3\<^sup>1 - 4096\<close> blocks, so that the \<open>int\<close> of \<open>balloc\<close> does not overflow.

  \<^bold>\<open>Not modelled.\<close> Traps, interrupt controllers, timers, the keyboard and the boot of the machine, which do
  port input and output; spin locks, whose critical sections are the steps above;
  the small user programs other than \<open>grep\<close>, which only pass their arguments to system calls; the list of
  processes that \<open>procdump\<close> prints; the tests; the disk builder \<open>mkfs\<close>.
\<close>

end
